(* ===== verification/Prelude.thy ===== *)
theory Prelude
  imports Main "HOL-Library.Sublist"
begin

text \<open>
  Shared vocabulary of the development.

  TypeScript code that mutates objects and may throw is modelled as a computation: a function
  from the state to an outcome (an error, or a value) together with the state it leaves behind.
  State changes made before a \<open>throw\<close> stay, as they do in the program. The combinators below are
  the control structures the sources use: sequencing, \<open>if\<close> without \<open>else\<close>, \<open>for \<dots> of\<close>,
  \<open>try / catch\<close> and \<open>try / finally\<close>.

  The locale \<open>effect\<close> states once what it takes for a relation between the state before and
  the state after to hold of a whole computation: it is reflexive and transitive. Its lemmas lift
  the relation through every combinator; the components interpret it on their own relations
  (the stack is left alone, an invariant is kept, the log only grows).
\<close>

named_theorems comp_defs \<open>definitions of the computation combinators\<close>
named_theorems stable_intros \<open>effect rules for the operations of the components\<close>

type_synonym ('s, 'e, 'a) comp = "'s \<Rightarrow> ('e + 'a) \<times> 's"

section \<open>Computations\<close>

definition ret :: "'a \<Rightarrow> ('s, 'e, 'a) comp" where
  "ret x = (\<lambda>s. (Inr x, s))"

abbreviation skip :: "('s, 'e, unit) comp" where
  "skip \<equiv> ret ()"

definition throw :: "'e \<Rightarrow> ('s, 'e, 'a) comp" where
  "throw e = (\<lambda>s. (Inl e, s))"

definition bind :: "('s, 'e, 'a) comp \<Rightarrow> ('a \<Rightarrow> ('s, 'e, 'b) comp) \<Rightarrow> ('s, 'e, 'b) comp" where
  "bind m f = (\<lambda>s. case m s of (Inl e, s') \<Rightarrow> (Inl e, s') | (Inr x, s') \<Rightarrow> f x s')"

definition andthen :: "('s, 'e, 'a) comp \<Rightarrow> ('s, 'e, 'b) comp \<Rightarrow> ('s, 'e, 'b) comp" where
  "andthen m n = bind m (\<lambda>_. n)"

definition gets :: "('s \<Rightarrow> 'a) \<Rightarrow> ('s, 'e, 'a) comp" where
  "gets f = (\<lambda>s. (Inr (f s), s))"

definition modify :: "('s \<Rightarrow> 's) \<Rightarrow> ('s, 'e, unit) comp" where
  "modify f = (\<lambda>s. (Inr (), f s))"

definition only_if :: "bool \<Rightarrow> ('s, 'e, unit) comp \<Rightarrow> ('s, 'e, unit) comp" where
  "only_if b m = (if b then m else skip)"

fun for_each :: "'a list \<Rightarrow> ('a \<Rightarrow> ('s, 'e, unit) comp) \<Rightarrow> ('s, 'e, unit) comp" where
  "for_each [] f = skip"
| "for_each (x # xs) f = andthen (f x) (for_each xs f)"

fun map_each :: "('a \<Rightarrow> ('s, 'e, 'b) comp) \<Rightarrow> 'a list \<Rightarrow> ('s, 'e, 'b list) comp" where
  "map_each f [] = ret []"
| "map_each f (x # xs) = bind (f x) (\<lambda>y. bind (map_each f xs) (\<lambda>ys. ret (y # ys)))"

text \<open>\<open>try { m } catch (e) { h(e) }\<close>\<close>

definition catching :: "('s, 'e, 'a) comp \<Rightarrow> ('e \<Rightarrow> ('s, 'e, 'a) comp) \<Rightarrow> ('s, 'e, 'a) comp" where
  "catching m h = (\<lambda>s. case m s of (Inl e, s') \<Rightarrow> h e s' | (Inr x, s') \<Rightarrow> (Inr x, s'))"

text \<open>\<open>try { m } finally { f }\<close>: an error of the \<open>finally\<close> block replaces the outcome.\<close>

definition ensure :: "('s, 'e, 'a) comp \<Rightarrow> ('s, 'e, unit) comp \<Rightarrow> ('s, 'e, 'a) comp" where
  "ensure m f = (\<lambda>s. case m s of (r, s1) \<Rightarrow>
     (case f s1 of (Inl e, s2) \<Rightarrow> (Inl e, s2) | (Inr _, s2) \<Rightarrow> (r, s2)))"

lemmas comp_simps = ret_def throw_def bind_def andthen_def gets_def modify_def only_if_def
  catching_def ensure_def

declare comp_simps [comp_defs]

lemma for_each_append:
  "for_each (xs @ ys) f = andthen (for_each xs f) (for_each ys f)"
  by (induction xs) (auto simp: comp_simps fun_eq_iff split: prod.splits sum.splits)

lemma andthen_assoc: "andthen (andthen m n) k = andthen m (andthen n k)"
  by (auto simp: comp_simps fun_eq_iff split: prod.splits sum.splits)

lemma bind_gets: "bind (gets f) g s = g (f s) s"
  by (simp add: bind_def gets_def)

lemma bind_Inr: "m s = (Inr x, s') \<Longrightarrow> bind m f s = f x s'"
  by (simp add: bind_def)

lemma bind_Inl: "m s = (Inl e, s') \<Longrightarrow> bind m f s = (Inl e, s')"
  by (simp add: bind_def)

lemma andthen_Inr: "m s = (Inr x, s') \<Longrightarrow> andthen m n s = n s'"
  by (simp add: andthen_def bind_def)

lemma andthen_Inl: "m s = (Inl e, s') \<Longrightarrow> andthen m n s = (Inl e, s')"
  by (simp add: andthen_def bind_def)

lemma bind_cases:
  assumes "bind m f s = (r, t)"
  obtains (err) e where "m s = (Inl e, t)" and "r = Inl e"
        | (ok) x s' where "m s = (Inr x, s')" and "f x s' = (r, t)"
  using assms by (auto simp: bind_def split: prod.splits sum.splits)

lemma andthen_cases:
  assumes "andthen m n s = (r, t)"
  obtains (err) e where "m s = (Inl e, t)" and "r = Inl e"
        | (ok) x s' where "m s = (Inr x, s')" and "n s' = (r, t)"
  using assms by (auto simp: andthen_def elim: bind_cases)

lemma andthen_returns:
  assumes "andthen m n s = (Inr x, t)"
  obtains y u where "m s = (Inr y, u)" "n u = (Inr x, t)"
  using assms by (auto elim: andthen_cases)

lemma bind_returns:
  assumes "bind m f s = (Inr x, t)"
  obtains y u where "m s = (Inr y, u)" "f y u = (Inr x, t)"
  using assms by (auto elim: bind_cases)

section \<open>First occurrences\<close>

text \<open>The loop \<open>if (!seen.has(x)) { seen.add(x); result.push(x) }\<close>.\<close>

fun uniq_from :: "'a list \<Rightarrow> 'a list \<Rightarrow> 'a list" where
  "uniq_from seen [] = []"
| "uniq_from seen (x # xs) =
     (if x \<in> set seen then uniq_from seen xs else x # uniq_from (x # seen) xs)"

lemma uniq_from_set: "set (uniq_from seen xs) = set xs - set seen"
  by (induction xs arbitrary: seen) auto

lemma uniq_from_distinct: "distinct (uniq_from seen xs)"
  by (induction xs arbitrary: seen) (auto simp: uniq_from_set)

lemma uniq_from_subseq: "subseq (uniq_from seen xs) xs"
  by (induction xs arbitrary: seen) auto

section \<open>Effects\<close>

definition stable :: "('s \<Rightarrow> 's \<Rightarrow> bool) \<Rightarrow> ('s, 'e, 'a) comp \<Rightarrow> bool" where
  "stable R m \<longleftrightarrow> (\<forall>s. R s (snd (m s)))"

lemma stableI: "(\<And>s. R s (snd (m s))) \<Longrightarrow> stable R m"
  by (simp add: stable_def)

lemma stableD: "stable R m \<Longrightarrow> R s (snd (m s))"
  by (simp add: stable_def)

lemma stable_run: "stable R m \<Longrightarrow> m s = (r, t) \<Longrightarrow> R s t"
  by (metis snd_conv stable_def)

locale effect =
  fixes R :: "'s \<Rightarrow> 's \<Rightarrow> bool"
  assumes refl: "R s s"
    and trans: "R s t \<Longrightarrow> R t u \<Longrightarrow> R s u"
begin

lemma ret: "stable R (ret x)"
  by (simp add: stable_def ret_def refl)

lemma throw: "stable R (throw e)"
  by (simp add: stable_def throw_def refl)

lemma gets: "stable R (gets f)"
  by (simp add: stable_def gets_def refl)

lemma modify: "(\<And>s. R s (f s)) \<Longrightarrow> stable R (modify f)"
  by (simp add: stable_def modify_def)

lemma bind:
  assumes "stable R m" and "\<And>x. stable R (f x)"
  shows "stable R (bind m f)"
proof (rule stableI)
  fix s
  obtain r t where ms: "m s = (r, t)" by (cases "m s")
  with assms(1) have "R s t" by (rule stable_run)
  moreover have "R t (snd (f x t))" for x by (rule stableD) (rule assms(2))
  ultimately show "R s (snd (bind m f s))"
    using ms by (cases r) (auto simp: bind_def dest: trans)
qed

lemma andthen: "stable R m \<Longrightarrow> stable R n \<Longrightarrow> stable R (andthen m n)"
  by (simp add: andthen_def bind)

lemma only_if: "(b \<Longrightarrow> stable R m) \<Longrightarrow> stable R (only_if b m)"
  by (simp add: only_if_def ret)

lemma if_then: "(b \<Longrightarrow> stable R m) \<Longrightarrow> (\<not> b \<Longrightarrow> stable R n) \<Longrightarrow> stable R (if b then m else n)"
  by simp

lemma for_each: "(\<And>x. x \<in> set xs \<Longrightarrow> stable R (f x)) \<Longrightarrow> stable R (for_each xs f)"
  by (induction xs) (auto intro: ret andthen)

lemma catching:
  assumes "stable R m" and "\<And>e. stable R (h e)"
  shows "stable R (catching m h)"
proof (rule stableI)
  fix s
  obtain r t where ms: "m s = (r, t)" by (cases "m s")
  with assms(1) have "R s t" by (rule stable_run)
  moreover have "R t (snd (h e t))" for e by (rule stableD) (rule assms(2))
  ultimately show "R s (snd (catching m h s))"
    using ms by (cases r) (auto simp: catching_def dest: trans)
qed

lemma ensure:
  assumes "stable R m" and "stable R f"
  shows "stable R (ensure m f)"
proof (rule stableI)
  fix s
  obtain r t where ms: "m s = (r, t)" by (cases "m s")
  obtain q u where ft: "f t = (q, u)" by (cases "f t")
  have "R s t" and "R t u"
    using stable_run [OF assms(1) ms] stable_run [OF assms(2) ft] by blast+
  then have "R s u" by (rule trans)
  then show "R s (snd (ensure m f s))"
    using ms ft by (cases q) (auto simp: ensure_def)
qed

lemma run: "stable R m \<Longrightarrow> m s = (r, t) \<Longrightarrow> R s t"
  by (rule stable_run)

lemmas rules = ret throw gets bind andthen only_if if_then for_each catching ensure

end

text \<open>The two shapes of relation the components use: a projection is left alone, and a
  predicate is kept.\<close>

definition same :: "('s \<Rightarrow> 'b) \<Rightarrow> 's \<Rightarrow> 's \<Rightarrow> bool" where
  "same f s t \<longleftrightarrow> f t = f s"

definition kept :: "('s \<Rightarrow> bool) \<Rightarrow> 's \<Rightarrow> 's \<Rightarrow> bool" where
  "kept P s t \<longleftrightarrow> (P s \<longrightarrow> P t)"

interpretation same: effect "same f" for f
  by unfold_locales (auto simp: same_def)

interpretation kept: effect "kept P" for P
  by unfold_locales (auto simp: kept_def)

section \<open>Splitting and joining\<close>

text \<open>\<open>s.split(c)\<close> for one separating character, \<open>s.split(/c k*/)\<close> where what is skipped after a
  separator belongs to it, and \<open>xs.join(c)\<close>.\<close>

fun split_by :: "('a \<Rightarrow> bool) \<Rightarrow> 'a list \<Rightarrow> 'a list list" where
  "split_by p [] = [[]]"
| "split_by p (c # s) = (if p c then [] # split_by p s
     else (case split_by p s of w # ws \<Rightarrow> (c # w) # ws | [] \<Rightarrow> [[c]]))"

function split_skip :: "('a \<Rightarrow> bool) \<Rightarrow> ('a \<Rightarrow> bool) \<Rightarrow> 'a list \<Rightarrow> 'a list list" where
  "split_skip p q s = takeWhile (\<lambda>c. \<not> p c) s #
     (case dropWhile (\<lambda>c. \<not> p c) s of [] \<Rightarrow> [] | c # r \<Rightarrow> split_skip p q (dropWhile q r))"
  by pat_completeness auto
termination
proof (relation "measure (\<lambda>(p, q, s). length s)")
  fix p q :: "'a \<Rightarrow> bool" and s c r
  assume a: "dropWhile (\<lambda>c. \<not> p c) s = c # r"
  have "length (dropWhile q r) \<le> length r" by (rule length_dropWhile_le)
  moreover have "length (c # r) \<le> length s" using length_dropWhile_le [of "\<lambda>c. \<not> p c" s] unfolding a .
  ultimately show "((p, q, dropWhile q r), (p, q, s)) \<in> measure (\<lambda>(p, q, s). length s)" by simp
qed simp

declare split_skip.simps [simp del]

definition join_with :: "'a \<Rightarrow> 'a list list \<Rightarrow> 'a list" where
  "join_with c xs = (case xs of [] \<Rightarrow> [] | x # ys \<Rightarrow> x @ concat (map ((#) c) ys))"

lemma until:
  "c \<notin> set s \<Longrightarrow> takeWhile (\<lambda>x. x \<noteq> c) (s @ c # r) = s"
  "c \<notin> set s \<Longrightarrow> dropWhile (\<lambda>x. x \<noteq> c) (s @ c # r) = c # r"
  by (induction s) auto

lemma split_by_nonempty [simp]: "split_by p s \<noteq> []"
  by (cases s) (auto split: list.splits)

lemma split_by_none: "list_all (\<lambda>c. \<not> p c) s \<Longrightarrow> split_by p s = [s]"
  by (induction s) simp_all

lemma split_by_one: "list_all (\<lambda>c. \<not> p c) w \<Longrightarrow> p c \<Longrightarrow> split_by p (w @ c # s) = w # split_by p s"
  by (induction w) simp_all

lemma split_by_pieces: "w \<in> set (split_by p s) \<Longrightarrow> list_all (\<lambda>c. \<not> p c) w \<and> set w \<subseteq> set s"
proof (induction s arbitrary: w)
  case (Cons c s)
  obtain v vs where v: "split_by p s = v # vs" using split_by_nonempty [of p s] by (cases "split_by p s") auto
  have IH: "list_all (\<lambda>c. \<not> p c) u" "set u \<subseteq> set s" if "u = v \<or> u \<in> set vs" for u
    using Cons.IH [of u] v that by simp_all
  have "(w = [] \<or> w = v \<or> w \<in> set vs) \<or> w = c # v \<and> \<not> p c" using Cons.prems v by (auto split: if_splits)
  then show ?case
  proof
    assume "w = [] \<or> w = v \<or> w \<in> set vs"
    then show ?thesis using IH [of w] by auto
  next
    assume "w = c # v \<and> \<not> p c"
    then show ?thesis using IH [of v] by auto
  qed
qed simp

lemma join_with_Cons: "xs \<noteq> [] \<Longrightarrow> join_with c (x # xs) = x @ c # join_with c xs"
  by (cases xs) (simp_all add: join_with_def)

lemma split_by_join:
  "xs \<noteq> [] \<Longrightarrow> p c \<Longrightarrow> list_all (list_all (\<lambda>c. \<not> p c)) xs \<Longrightarrow> split_by p (join_with c xs) = xs"
proof (induction xs)
  case (Cons x xs)
  show ?case
  proof (cases "xs = []")
    case True
    then show ?thesis using Cons.prems by (simp add: join_with_def split_by_none)
  next
    case False
    then show ?thesis using Cons by (simp add: join_with_Cons split_by_one)
  qed
qed simp

lemma split_skip_join:
  assumes "p c"
  shows "list_all (\<lambda>x. list_all (\<lambda>d. \<not> p d \<and> \<not> q d) x) (x # xs) \<Longrightarrow> \<not> q c \<Longrightarrow>
    split_skip p q (join_with c (x # xs)) = x # xs"
proof (induction xs arbitrary: x)
  case Nil
  then have x: "takeWhile (\<lambda>c. \<not> p c) x = x" "dropWhile (\<lambda>c. \<not> p c) x = []" by (auto simp: list_all_iff)
  have "split_skip p q x = [x]" unfolding split_skip.simps [of p q x] x by simp
  then show ?case by (simp add: join_with_def)
next
  case (Cons y ys)
  let ?r = "join_with c (y # ys)"
  have x: "takeWhile (\<lambda>c. \<not> p c) (x @ c # ?r) = x" "dropWhile (\<lambda>c. \<not> p c) (x @ c # ?r) = c # ?r"
    using Cons.prems(1) assms by (induction x) simp_all
  have "dropWhile q ?r = ?r" using Cons.prems by (cases y; cases ys) (auto simp: join_with_def)
  then have "split_skip p q (x @ c # ?r) = x # split_skip p q ?r"
    unfolding split_skip.simps [of p q "x @ c # ?r"] x by simp
  then show ?case using Cons by (simp add: join_with_Cons)
qed

end
