(* ===== verification/Txn_State.thy ===== *)
theory Txn_State
  imports Prelude
begin

text \<open>
  \<open>TransactionState\<close> of
  \<^verbatim>\<open>packages/activerecord/src/connection-adapters/abstract/transaction.ts\<close>.

  Every transaction object owns one state object, and a state object holds references to the
  state objects of the transactions nested in it. The objects live in a store, a list indexed by
  object number. Rolling back or invalidating a state walks down to its children first; the
  walk carries fuel, and \<open>mark_down_spec\<close> shows that in a store whose children are newer than
  their parent (the only stores the program can build) the fuel \<open>length h\<close> always suffices and
  the walk changes exactly the descendants.
\<close>

datatype tx_state = Committed | FullyCommitted | Rolledback | FullyRolledback | Invalidated

record state_obj =
  st :: "tx_state option"
  kids :: "nat list"

type_synonym store = "state_obj list"

definition new_state :: state_obj where
  "new_state = \<lparr>st = None, kids = []\<rparr>"

definition add_child :: "store \<Rightarrow> nat \<Rightarrow> nat \<Rightarrow> store" where
  "add_child h p c = h[p := (h ! p)\<lparr>kids := kids (h ! p) @ [c]\<rparr>]"

definition set_st :: "store \<Rightarrow> nat \<Rightarrow> tx_state option \<Rightarrow> store" where
  "set_st h i v = h[i := (h ! i)\<lparr>st := v\<rparr>]"

section \<open>Queries\<close>

definition is_finalized :: "tx_state option \<Rightarrow> bool" where
  "is_finalized s \<longleftrightarrow> s \<noteq> None"

definition is_committed :: "tx_state option \<Rightarrow> bool" where
  "is_committed s \<longleftrightarrow> s = Some Committed \<or> s = Some FullyCommitted"

definition is_fully_committed :: "tx_state option \<Rightarrow> bool" where
  "is_fully_committed s \<longleftrightarrow> s = Some FullyCommitted"

definition is_rolledback :: "tx_state option \<Rightarrow> bool" where
  "is_rolledback s \<longleftrightarrow> s = Some Rolledback \<or> s = Some FullyRolledback"

definition is_fully_rolledback :: "tx_state option \<Rightarrow> bool" where
  "is_fully_rolledback s \<longleftrightarrow> s = Some FullyRolledback"

definition is_invalidated :: "tx_state option \<Rightarrow> bool" where
  "is_invalidated s \<longleftrightarrow> s = Some Invalidated"

definition is_completed :: "tx_state option \<Rightarrow> bool" where
  "is_completed s \<longleftrightarrow> is_committed s \<or> is_rolledback s"

lemmas state_queries = is_finalized_def is_committed_def is_fully_committed_def
  is_rolledback_def is_fully_rolledback_def is_invalidated_def is_completed_def

section \<open>State changes\<close>

text \<open>The recursion shared by \<open>rollbackBang\<close> and \<open>invalidateBang\<close>: the children first, in
  order, then the object itself.\<close>

fun mark_down :: "tx_state \<Rightarrow> nat \<Rightarrow> store \<Rightarrow> nat \<Rightarrow> store option" where
  "mark_down v 0 h i = None"
| "mark_down v (Suc n) h i =
     map_option (\<lambda>h'. set_st h' i (Some v))
       (fold (\<lambda>c acc. Option.bind acc (\<lambda>h'. mark_down v n h' c)) (kids (h ! i)) (Some h))"

definition rollback_bang :: "store \<Rightarrow> nat \<Rightarrow> store option" where
  "rollback_bang h i = mark_down Rolledback (length h) h i"

definition full_rollback_bang :: "store \<Rightarrow> nat \<Rightarrow> store option" where
  "full_rollback_bang h i =
     map_option (\<lambda>h'. set_st h' i (Some FullyRolledback))
       (fold (\<lambda>c acc. Option.bind acc (\<lambda>h'. rollback_bang h' c)) (kids (h ! i)) (Some h))"

definition invalidate_bang :: "store \<Rightarrow> nat \<Rightarrow> store option" where
  "invalidate_bang h i = mark_down Invalidated (length h) h i"

definition commit_bang :: "store \<Rightarrow> nat \<Rightarrow> store" where
  "commit_bang h i = set_st h i (Some Committed)"

definition full_commit_bang :: "store \<Rightarrow> nat \<Rightarrow> store" where
  "full_commit_bang h i = set_st h i (Some FullyCommitted)"

definition nullify_bang :: "store \<Rightarrow> nat \<Rightarrow> store" where
  "nullify_bang h i = set_st h i None"

section \<open>The walk over the descendants\<close>

definition child :: "store \<Rightarrow> nat \<Rightarrow> nat \<Rightarrow> bool" where
  "child h i c \<longleftrightarrow> i < length h \<and> c \<in> set (kids (h ! i))"

definition wf_store :: "store \<Rightarrow> bool" where
  "wf_store h \<longleftrightarrow> (\<forall>i < length h. \<forall>c \<in> set (kids (h ! i)). i < c \<and> c < length h)"

text \<open>\<open>h'\<close> is \<open>h\<close> with the objects of \<open>D\<close> set to \<open>v\<close>, everything else left alone.\<close>

definition marked :: "tx_state \<Rightarrow> (nat \<Rightarrow> bool) \<Rightarrow> store \<Rightarrow> store \<Rightarrow> bool" where
  "marked v D h h' \<longleftrightarrow> length h' = length h \<and>
     (\<forall>j < length h. kids (h' ! j) = kids (h ! j) \<and>
        st (h' ! j) = (if D j then Some v else st (h ! j)))"

text \<open>The definition is unfolded only here: as a rewrite rule its conclusion \<open>c < length h\<close> would feed
  its own premise.\<close>

lemma wf_storeI:
  assumes "\<And>i c. i < length h \<Longrightarrow> c \<in> set (kids (h ! i)) \<Longrightarrow> i < c \<and> c < length h"
  shows "wf_store h"
  unfolding wf_store_def by (intro allI impI ballI assms)

lemma wf_storeD:
  "wf_store h \<Longrightarrow> i < length h \<Longrightarrow> c \<in> set (kids (h ! i)) \<Longrightarrow> i < c \<and> c < length h"
  unfolding wf_store_def by blast

lemma wf_store_shape:
  assumes "length h' = length h" and "\<And>i. i < length h \<Longrightarrow> kids (h' ! i) = kids (h ! i)"
  shows "wf_store h' = wf_store h"
proof
  assume wf: "wf_store h'"
  show "wf_store h"
    using wf_storeD [OF wf] assms by (intro wf_storeI) metis
next
  assume wf: "wf_store h"
  show "wf_store h'"
    using wf_storeD [OF wf] assms by (intro wf_storeI) metis
qed

lemma wf_store_child: "wf_store h \<Longrightarrow> child h i c \<Longrightarrow> i < c \<and> c < length h"
  unfolding child_def using wf_storeD by blast

lemma wf_store_descendant:
  "(child h)\<^sup>*\<^sup>* i j \<Longrightarrow> wf_store h \<Longrightarrow> i < length h \<Longrightarrow> i \<le> j \<and> j < length h"
proof (induction rule: rtranclp_induct)
  case base
  then show ?case by simp
next
  case (step j k)
  then show ?case using wf_store_child [of h j k] by auto
qed

lemma marked_same_shape: "marked v D h h' \<Longrightarrow> child h' = child h"
  by (auto simp: marked_def child_def fun_eq_iff)

lemma marked_wf: "marked v D h h' \<Longrightarrow> wf_store h' = wf_store h"
  by (rule wf_store_shape) (simp_all add: marked_def)

lemma marked_refl: "marked v (\<lambda>_. False) h h"
  by (simp add: marked_def)

lemma marked_trans:
  "marked v D h h' \<Longrightarrow> marked v E h' h'' \<Longrightarrow> marked v (\<lambda>j. D j \<or> E j) h h''"
  by (auto simp: marked_def)

lemma marked_set_st:
  "marked v D h h' \<Longrightarrow> i < length h \<Longrightarrow> marked v (\<lambda>j. D j \<or> j = i) h (set_st h' i (Some v))"
  by (auto simp: marked_def set_st_def nth_list_update)

lemma marked_cong: "marked v D h h' \<Longrightarrow> (\<And>j. j < length h \<Longrightarrow> D j = E j) \<Longrightarrow> marked v E h h'"
  by (auto simp: marked_def)

lemma mark_kids_spec:
  assumes walk: "\<And>h c. wf_store h \<Longrightarrow> length h = l \<Longrightarrow> c \<in> set cs \<Longrightarrow>
      \<exists>h'. walk h c = Some h' \<and> marked v ((child h)\<^sup>*\<^sup>* c) h h'"
    and wf: "wf_store h" and len: "length h = l"
  shows "\<exists>h'. fold (\<lambda>c acc. Option.bind acc (\<lambda>h'. walk h' c)) cs (Some h) = Some h' \<and>
      marked v (\<lambda>j. \<exists>c \<in> set cs. (child h)\<^sup>*\<^sup>* c j) h h'"
  using assms
proof (induction cs arbitrary: h)
  case Nil
  then show ?case by (simp add: marked_refl)
next
  case (Cons c cs)
  from Cons.prems(1) [of h c] Cons.prems(2,3) obtain h1
    where h1: "walk h c = Some h1" "marked v ((child h)\<^sup>*\<^sup>* c) h h1" by auto
  then have "wf_store h1" "length h1 = l" "child h1 = child h"
    using Cons.prems(2,3) marked_wf marked_same_shape by (auto simp: marked_def)
  then obtain h2 where h2: "fold (\<lambda>c acc. Option.bind acc (\<lambda>h'. walk h' c)) cs (Some h1) = Some h2"
      "marked v (\<lambda>j. \<exists>c \<in> set cs. (child h)\<^sup>*\<^sup>* c j) h1 h2"
    using Cons.IH [of h1] Cons.prems(1) by auto
  show ?case
    using h1(1) h2(1) marked_trans [OF h1(2) h2(2)] by (auto elim: marked_cong)
qed

lemma descendants_unfold:
  "i < length h \<Longrightarrow>
   (child h)\<^sup>*\<^sup>* i j \<longleftrightarrow> (\<exists>c \<in> set (kids (h ! i)). (child h)\<^sup>*\<^sup>* c j) \<or> j = i"
  (is "_ \<Longrightarrow> ?lhs \<longleftrightarrow> ?rhs")
proof
  assume "i < length h" and ?lhs
  from \<open>?lhs\<close> show ?rhs
    by (cases rule: converse_rtranclpE) (auto simp: child_def)
next
  assume "i < length h" and ?rhs
  then show ?lhs
    by (metis child_def converse_rtranclp_into_rtranclp rtranclp.rtrancl_refl)
qed

lemma mark_down_spec:
  "wf_store h \<Longrightarrow> i < length h \<Longrightarrow> length h - i \<le> n \<Longrightarrow>
   \<exists>h'. mark_down v n h i = Some h' \<and> marked v ((child h)\<^sup>*\<^sup>* i) h h'"
proof (induction n arbitrary: h i)
  case 0
  then show ?case by simp
next
  case (Suc n)
  let ?l = "length h"
  have "\<exists>h'. mark_down v n g c = Some h' \<and> marked v ((child g)\<^sup>*\<^sup>* c) g h'"
    if "wf_store g" "length g = ?l" "c \<in> set (kids (h ! i))" for g c
  proof -
    have "i < c" "c < length h"
      using wf_storeD [OF Suc.prems(1,2) that(3)] by blast+
    then show ?thesis using that(1,2) Suc.prems Suc.IH [of g c] by simp
  qed
  from mark_kids_spec [of ?l "kids (h ! i)" "mark_down v n" v h, OF this] Suc.prems(1)
  obtain h' where "fold (\<lambda>c acc. Option.bind acc (\<lambda>h'. mark_down v n h' c)) (kids (h ! i)) (Some h)
      = Some h'" and "marked v (\<lambda>j. \<exists>c \<in> set (kids (h ! i)). (child h)\<^sup>*\<^sup>* c j) h h'"
    by auto
  moreover have "marked v ((child h)\<^sup>*\<^sup>* i) h (set_st h' i (Some v))"
    by (rule marked_cong [OF marked_set_st [OF calculation(2) Suc.prems(2)]])
      (simp add: descendants_unfold [OF Suc.prems(2)])
  ultimately show ?case by simp
qed

lemma rollback_bang_spec:
  assumes "wf_store h" "i < length h"
  obtains h' where "rollback_bang h i = Some h'" "marked Rolledback ((child h)\<^sup>*\<^sup>* i) h h'"
  using mark_down_spec [OF assms, of "length h" Rolledback] by (auto simp: rollback_bang_def)

lemma invalidate_bang_spec:
  assumes "wf_store h" "i < length h"
  obtains h' where "invalidate_bang h i = Some h'" "marked Invalidated ((child h)\<^sup>*\<^sup>* i) h h'"
  using mark_down_spec [OF assms, of "length h" Invalidated] by (auto simp: invalidate_bang_def)

lemma full_rollback_bang_spec:
  assumes "wf_store h" "i < length h"
  obtains h' where "full_rollback_bang h i = Some h'" "length h' = length h"
    "\<And>j. j < length h \<Longrightarrow> kids (h' ! j) = kids (h ! j)"
    "\<And>j. j < length h \<Longrightarrow> st (h' ! j) =
       (if j = i then Some FullyRolledback
        else if (child h)\<^sup>*\<^sup>* i j then Some Rolledback else st (h ! j))"
proof -
  have "\<exists>h'. rollback_bang g c = Some h' \<and> marked Rolledback ((child g)\<^sup>*\<^sup>* c) g h'"
    if "wf_store g" "length g = length h" "c \<in> set (kids (h ! i))" for g c
  proof -
    have "c < length g" using wf_storeD [OF assms that(3)] that(2) by simp
    from rollback_bang_spec [OF that(1) this] show ?thesis by blast
  qed
  from mark_kids_spec [of "length h" "kids (h ! i)" rollback_bang Rolledback h, OF this] assms(1)
  obtain h' where f: "fold (\<lambda>c acc. Option.bind acc (\<lambda>h'. rollback_bang h' c)) (kids (h ! i)) (Some h)
      = Some h'" and m: "marked Rolledback (\<lambda>j. \<exists>c \<in> set (kids (h ! i)). (child h)\<^sup>*\<^sup>* c j) h h'"
    by auto
  show thesis
  proof (rule that [of "set_st h' i (Some FullyRolledback)"])
    show "full_rollback_bang h i = Some (set_st h' i (Some FullyRolledback))"
      by (simp add: full_rollback_bang_def f)
  next
    show "length (set_st h' i (Some FullyRolledback)) = length h"
      using m by (simp add: marked_def set_st_def)
  next
    fix j assume j: "j < length h"
    then show "kids (set_st h' i (Some FullyRolledback) ! j) = kids (h ! j)"
      using m by (cases "i = j") (simp_all add: marked_def set_st_def)
    show "st (set_st h' i (Some FullyRolledback) ! j) =
       (if j = i then Some FullyRolledback
        else if (child h)\<^sup>*\<^sup>* i j then Some Rolledback else st (h ! j))"
      using m j by (simp add: marked_def set_st_def nth_list_update
        descendants_unfold [OF assms(2), of j])
  qed
qed

lemma wf_add_child:
  assumes "wf_store h" "p < c" "c < length h"
  shows "wf_store (add_child h p c)"
proof (rule wf_storeI)
  fix i d assume i: "i < length (add_child h p c)" "d \<in> set (kids (add_child h p c ! i))"
  from i(1) have il: "i < length h" by (simp add: add_child_def)
  with i(2) have "d \<in> set (kids (h ! i)) \<or> i = p \<and> d = c"
    by (cases "i = p") (simp_all add: add_child_def disj_commute)
  then have "i < d \<and> d < length h"
    using assms(2,3) wf_storeD [OF assms(1) il, of d] by blast
  then show "i < d \<and> d < length (add_child h p c)"
    by (simp add: add_child_def)
qed

lemma length_set_st [simp]: "length (set_st h i v) = length h"
  by (simp add: set_st_def)

lemma kids_set_st [simp]: "j < length h \<Longrightarrow> kids (set_st h i v ! j) = kids (h ! j)"
  by (cases "i = j") (simp_all add: set_st_def)

lemma wf_set_st: "wf_store (set_st h i v) = wf_store h"
  by (rule wf_store_shape) simp_all

lemma length_add_child [simp]: "length (add_child h p c) = length h"
  by (simp add: add_child_def)

lemma st_set_st: "j < length h \<Longrightarrow> st (set_st h i v ! j) = (if j = i then v else st (h ! j))"
  by (auto simp: set_st_def nth_list_update)

lemma wf_store_snoc: "wf_store h \<Longrightarrow> wf_store (h @ [new_state])"
proof (rule wf_storeI)
  fix i c assume wf: "wf_store h" and i: "i < length (h @ [new_state])"
    and c: "c \<in> set (kids ((h @ [new_state]) ! i))"
  then have "i < length h" "c \<in> set (kids (h ! i))"
    by (cases "i < length h"; simp add: nth_append new_state_def)+
  then show "i < c \<and> c < length (h @ [new_state])"
    using wf_storeD [OF wf, of i c] by auto
qed

end
