(* ===== verification/Txn.thy ===== *)
theory Txn
  imports Txn_State
begin

text \<open>
  The transaction objects of
  \<^verbatim>\<open>packages/activerecord/src/connection-adapters/abstract/transaction.ts\<close>: \<open>RealTransaction\<close>,
  \<open>SavepointTransaction\<close> and \<open>RestartParentTransaction\<close> with their instrumenter, enrolled
  records and callbacks, and the parts of the connection they call.

  One state \<open>sys\<close> holds everything the objects share: the store of state objects, the
  transaction objects (both indexed by object number), the manager's fields and the log of what
  became visible outside. Outside code is a parameter, the record \<open>env\<close>: what the database
  answers to a statement, whether the connection is alive, and what the record methods and the
  user's callbacks do (\<open>hook\<close>, which may do anything to \<open>sys\<close> and may throw).
  Methods are computations; a call that overruns its fuel throws \<open>Diverged\<close>.
\<close>

section \<open>Data\<close>

datatype err =
    ConnectionFailed
  | ConnectionNotEstablished
  | PreparedStatementCacheExpired
  | TransactionRollbackError
  | OtherError nat
  | InstrumentationAlreadyStarted
  | InstrumentationNotStarted
  | TransactionIsolationError
  | FinalizedTransaction
  | Diverged

datatype sql =
    BeginDb
  | BeginIsolated string
  | BeginDeferred "string option"
  | CommitDb
  | RollbackDb
  | RestartDb
  | ResetIsolation
  | CreateSavepoint string
  | RollbackToSavepoint string
  | ReleaseSavepoint string
  | ClearCache
  | Statement nat

datatype outcome = OCommit | ORollback | ORestart | OIncomplete

datatype cb_event = BeforeCommit | AfterCommit | AfterRollback

datatype event =
    Sql sql
  | SqlFailed sql
  | NoteStart nat
  | NoteFinish nat outcome
  | RecRolledback nat bool bool
  | RecBeforeCommitted nat
  | RecCommitted nat bool
  | CbRun nat
  | ThrowAway

datatype tx_kind = Real | Savepoint string | RestartParent nat

record txn =
  kind :: tx_kind
  joinable :: bool
  isolation :: "string option"
  run_commit_cbs :: bool
  materialized :: bool
  dirty :: bool
  written :: bool
  instr_started :: bool
  callbacks :: "(cb_event \<times> nat) list"
  recs :: "nat list"
  lazy_recs :: "nat list"

record sys =
  heap :: store
  txns :: "txn list"
  stack :: "nat list"
  has_unmaterialized :: bool
  lazy_enabled :: bool
  materializing :: bool
  new_before :: "nat \<Rightarrow> bool"
  log :: "event list"

type_synonym 'a act = "(sys, err, 'a) comp"

record env =
  supports_lazy :: bool
  supports_restart :: bool
  sp_errors_invalidate :: bool
  before_on_all :: bool
  cb_fuel :: nat
  db_reply :: "event list \<Rightarrow> sql \<Rightarrow> err option"
  conn_active :: "event list \<Rightarrow> bool"
  rec_equals :: "nat \<Rightarrow> nat \<Rightarrow> bool"
  rec_triggers :: "nat \<Rightarrow> bool"
  rec_destroyed :: "nat \<Rightarrow> bool"
  rec_first_saved :: "nat \<Rightarrow> bool"
  hook :: "event \<Rightarrow> unit act"

section \<open>Reading and writing objects\<close>

definition tx :: "sys \<Rightarrow> nat \<Rightarrow> txn" where
  "tx s i = txns s ! i"

definition set_txn :: "nat \<Rightarrow> (txn \<Rightarrow> txn) \<Rightarrow> sys \<Rightarrow> sys" where
  "set_txn i f s = s\<lparr>txns := (txns s)[i := f (txns s ! i)]\<rparr>"

definition upd_tx :: "nat \<Rightarrow> (txn \<Rightarrow> txn) \<Rightarrow> unit act" where
  "upd_tx i f = modify (set_txn i f)"

definition emit :: "event \<Rightarrow> unit act" where
  "emit e = modify (\<lambda>s. s\<lparr>log := log s @ [e]\<rparr>)"

definition notify :: "env \<Rightarrow> event \<Rightarrow> unit act" where
  "notify env e = andthen (emit e) (hook env e)"

definition iso_given :: "string option \<Rightarrow> bool" where
  "iso_given lvl \<longleftrightarrow> lvl \<noteq> None \<and> lvl \<noteq> Some []"

definition with_heap :: "(store \<Rightarrow> store option) \<Rightarrow> unit act" where
  "with_heap f = (\<lambda>s. case f (heap s) of
     None \<Rightarrow> (Inl Diverged, s) | Some h \<Rightarrow> (Inr (), s\<lparr>heap := h\<rparr>))"

definition current_transaction :: "sys \<Rightarrow> nat option" where
  "current_transaction s = (if stack s = [] then None else Some (last (stack s)))"

definition open_transactions :: "sys \<Rightarrow> nat" where
  "open_transactions s = length (stack s)"

definition dirty_current_transaction :: "unit act" where
  "dirty_current_transaction = bind (gets current_transaction) (\<lambda>c.
     case c of None \<Rightarrow> skip | Some i \<Rightarrow> upd_tx i (dirty_update (\<lambda>_. True)))"

section \<open>The connection\<close>

text \<open>What the database does with a statement.\<close>

definition db_send :: "env \<Rightarrow> sql \<Rightarrow> unit act" where
  "db_send env c = (\<lambda>s. case db_reply env (log s) c of
     None \<Rightarrow> (Inr (), s\<lparr>log := log s @ [Sql c]\<rparr>)
   | Some e \<Rightarrow> (Inl e, s\<lparr>log := log s @ [SqlFailed c]\<rparr>))"

definition invalidate_transaction :: "env \<Rightarrow> err \<Rightarrow> unit act" where
  "invalidate_transaction env e =
     (if e \<noteq> TransactionRollbackError then skip
      else if \<not> sp_errors_invalidate env then skip
      else bind (gets current_transaction) (\<lambda>c.
        case c of None \<Rightarrow> skip | Some i \<Rightarrow> with_heap (\<lambda>h. invalidate_bang h i)))"

text \<open>\<open>withRawConnection\<close> with \<open>materializeTransactions: false\<close> and no retry: an error the database answers
  may invalidate the current transaction before it goes on.\<close>

definition db_exec :: "env \<Rightarrow> sql \<Rightarrow> unit act" where
  "db_exec env c = catching (db_send env c) (\<lambda>e. andthen (invalidate_transaction env e) (throw e))"

text \<open>\<open>withRawConnection\<close> with \<open>materializeTransactions: true\<close> and no retry, over a connected and
  verified connection: materialize what is pending (\<open>mt\<close>), send the statement, and in any case
  mark the current transaction dirty.\<close>

definition with_raw_connection :: "unit act \<Rightarrow> env \<Rightarrow> sql \<Rightarrow> unit act" where
  "with_raw_connection mt env c = andthen mt (ensure (db_exec env c) dirty_current_transaction)"

definition rollback_db_transaction :: "env \<Rightarrow> unit act" where
  "rollback_db_transaction env = catching (db_exec env RollbackDb)
     (\<lambda>e. if e \<noteq> ConnectionNotEstablished \<and> e \<noteq> ConnectionFailed then throw e else skip)"

section \<open>Instrumentation\<close>

definition instr_start :: "nat \<Rightarrow> unit act" where
  "instr_start i = bind (gets (\<lambda>s. instr_started (tx s i))) (\<lambda>b.
     if b then throw InstrumentationAlreadyStarted
     else andthen (upd_tx i (instr_started_update (\<lambda>_. True))) (emit (NoteStart i)))"

definition instr_finish :: "nat \<Rightarrow> outcome \<Rightarrow> unit act" where
  "instr_finish i out = bind (gets (\<lambda>s. instr_started (tx s i))) (\<lambda>b.
     if \<not> b then throw InstrumentationNotStarted
     else andthen (upd_tx i (instr_started_update (\<lambda>_. False))) (emit (NoteFinish i out)))"

section \<open>Materialization\<close>

fun is_materialized :: "nat \<Rightarrow> nat \<Rightarrow> bool act" where
  "is_materialized 0 i = throw Diverged"
| "is_materialized (Suc n) i = bind (gets (\<lambda>s. tx s i)) (\<lambda>t.
     case kind t of RestartParent p \<Rightarrow> is_materialized n p | _ \<Rightarrow> ret (materialized t))"

definition is_materialized_act :: "nat \<Rightarrow> bool act" where
  "is_materialized_act i = bind (gets (\<lambda>s. length (txns s))) (\<lambda>n. is_materialized n i)"

definition base_materialize :: "nat \<Rightarrow> unit act" where
  "base_materialize i = andthen (upd_tx i (materialized_update (\<lambda>_. True))) (instr_start i)"

definition begin_real :: "env \<Rightarrow> txn \<Rightarrow> unit act" where
  "begin_real env t =
     (if joinable t then
        (if iso_given (isolation t) then db_exec env (BeginIsolated (the (isolation t)))
         else db_exec env BeginDb)
      else db_exec env (BeginDeferred (isolation t)))"

fun materialize_with :: "unit act \<Rightarrow> env \<Rightarrow> nat \<Rightarrow> nat \<Rightarrow> unit act" where
  "materialize_with mt env 0 i = throw Diverged"
| "materialize_with mt env (Suc n) i = bind (gets (\<lambda>s. tx s i)) (\<lambda>t.
     case kind t of
       RestartParent p \<Rightarrow> materialize_with mt env n p
     | Savepoint nm \<Rightarrow>
         andthen (with_raw_connection mt env (CreateSavepoint nm)) (base_materialize i)
     | Real \<Rightarrow> andthen (begin_real env t) (base_materialize i))"

text \<open>
  The manager's \<open>materializeTransactions\<close>. Creating a savepoint sends a statement, which asks for
  materialization again; the flag \<open>materializing\<close> is then set and that inner request returns
  at once (\<open>materialize_transactions_nested\<close>), so the walk over the stack passes \<open>skip\<close> for it.
\<close>

definition materialize_transactions :: "env \<Rightarrow> unit act" where
  "materialize_transactions env = bind (gets (\<lambda>s. (materializing s, has_unmaterialized s)))
     (\<lambda>(busy, pending).
       if busy then skip
       else if \<not> pending then skip
       else andthen
         (ensure
           (andthen (modify (\<lambda>s. s\<lparr>materializing := True\<rparr>))
             (bind (gets (\<lambda>s. (stack s, length (txns s)))) (\<lambda>(stk, n).
               for_each stk (\<lambda>i. bind (is_materialized n i) (\<lambda>m.
                 if m then skip else materialize_with skip env n i)))))
           (modify (\<lambda>s. s\<lparr>materializing := False\<rparr>)))
         (modify (\<lambda>s. s\<lparr>has_unmaterialized := False\<rparr>)))"

lemma materialize_transactions_nested:
  "materializing s \<Longrightarrow> materialize_transactions env s = (Inr (), s)"
  by (simp add: materialize_transactions_def comp_simps)

definition materialize_bang :: "env \<Rightarrow> nat \<Rightarrow> unit act" where
  "materialize_bang env i = bind (gets (\<lambda>s. length (txns s)))
     (\<lambda>n. materialize_with (materialize_transactions env) env n i)"

definition send :: "env \<Rightarrow> sql \<Rightarrow> unit act" where
  "send env c = with_raw_connection (materialize_transactions env) env c"

definition incomplete_bang :: "nat \<Rightarrow> unit act" where
  "incomplete_bang i = bind (gets (\<lambda>s. tx s i)) (\<lambda>t.
     case kind t of
       RestartParent p \<Rightarrow> skip
     | _ \<Rightarrow> only_if (materialized t) (instr_finish i OIncomplete))"

definition restore_bang :: "env \<Rightarrow> nat \<Rightarrow> unit act" where
  "restore_bang env i = bind (gets (\<lambda>s. tx s i)) (\<lambda>t.
     case kind t of
       RestartParent p \<Rightarrow> skip
     | _ \<Rightarrow> only_if (materialized t)
         (andthen (incomplete_bang i)
           (andthen (upd_tx i (materialized_update (\<lambda>_. False))) (materialize_bang env i))))"

section \<open>Restart, rollback, commit\<close>

fun restart_with :: "env \<Rightarrow> nat \<Rightarrow> nat \<Rightarrow> unit act" where
  "restart_with env 0 i = throw Diverged"
| "restart_with env (Suc n) i = bind (gets (\<lambda>s. tx s i)) (\<lambda>t.
     case kind t of
       RestartParent p \<Rightarrow> restart_with env n p
     | Savepoint nm \<Rightarrow>
         (if \<not> materialized t then skip
          else andthen (instr_finish i ORestart)
            (andthen (instr_start i) (send env (RollbackToSavepoint nm))))
     | Real \<Rightarrow>
         (if \<not> materialized t then skip
          else andthen (instr_finish i ORestart)
            (if supports_restart env then andthen (instr_start i) (db_exec env RestartDb)
             else andthen (rollback_db_transaction env) (materialize_bang env i))))"

definition restart :: "env \<Rightarrow> nat \<Rightarrow> unit act" where
  "restart env i = bind (gets (\<lambda>s. length (txns s))) (\<lambda>n. restart_with env n i)"

text \<open>\<open>if (this.isMaterialized()) this._instrumenter.finish(outcome)\<close>\<close>

definition finish_if_materialized :: "nat \<Rightarrow> outcome \<Rightarrow> unit act" where
  "finish_if_materialized i out =
     bind (gets (\<lambda>s. materialized (tx s i))) (\<lambda>m. only_if m (instr_finish i out))"

definition rollback_savepoint :: "env \<Rightarrow> nat \<Rightarrow> string \<Rightarrow> unit act" where
  "rollback_savepoint env i nm =
     andthen
       (bind (gets (\<lambda>s. is_invalidated (st (heap s ! i)))) (\<lambda>inv. only_if (\<not> inv)
         (bind (gets (\<lambda>s. materialized (tx s i) \<and> conn_active env (log s)))
           (\<lambda>b. only_if b (send env (RollbackToSavepoint nm))))))
       (andthen (with_heap (\<lambda>h. rollback_bang h i)) (finish_if_materialized i ORollback))"

definition rollback_real :: "env \<Rightarrow> nat \<Rightarrow> unit act" where
  "rollback_real env i =
     andthen
       (bind (gets (\<lambda>s. tx s i)) (\<lambda>t. only_if (materialized t)
         (andthen (rollback_db_transaction env)
           (only_if (iso_given (isolation t)) (db_exec env ResetIsolation)))))
       (andthen (with_heap (\<lambda>h. full_rollback_bang h i)) (finish_if_materialized i ORollback))"

definition rollback :: "env \<Rightarrow> nat \<Rightarrow> unit act" where
  "rollback env i = bind (gets (\<lambda>s. kind (tx s i))) (\<lambda>k.
     case k of
       Savepoint nm \<Rightarrow> rollback_savepoint env i nm
     | Real \<Rightarrow> rollback_real env i
     | RestartParent p \<Rightarrow> andthen (with_heap (\<lambda>h. rollback_bang h i)) (restart env p))"

definition commit_savepoint :: "env \<Rightarrow> nat \<Rightarrow> string \<Rightarrow> unit act" where
  "commit_savepoint env i nm =
     andthen
       (bind (gets (\<lambda>s. materialized (tx s i))) (\<lambda>m. only_if m (send env (ReleaseSavepoint nm))))
       (andthen (with_heap (\<lambda>h. Some (commit_bang h i))) (finish_if_materialized i OCommit))"

definition commit_real :: "env \<Rightarrow> nat \<Rightarrow> unit act" where
  "commit_real env i =
     andthen
       (bind (gets (\<lambda>s. tx s i)) (\<lambda>t. only_if (materialized t)
         (andthen (db_exec env CommitDb)
           (only_if (iso_given (isolation t)) (db_exec env ResetIsolation)))))
       (andthen (with_heap (\<lambda>h. Some (full_commit_bang h i))) (finish_if_materialized i OCommit))"

definition commit :: "env \<Rightarrow> nat \<Rightarrow> unit act" where
  "commit env i = bind (gets (\<lambda>s. kind (tx s i))) (\<lambda>k.
     case k of
       Savepoint nm \<Rightarrow> commit_savepoint env i nm
     | Real \<Rightarrow> commit_real env i
     | RestartParent p \<Rightarrow> with_heap (\<lambda>h. Some (commit_bang h i)))"

definition is_full_rollback :: "tx_kind \<Rightarrow> bool" where
  "is_full_rollback k \<longleftrightarrow> (case k of Real \<Rightarrow> True | _ \<Rightarrow> False)"

end
