(* ===== verification/Txn_Records.thy ===== *)
theory Txn_Records
  imports Txn
begin

text \<open>
  Enrolled records and callbacks of a transaction
  (\<open>Transaction#addRecord\<close> to \<open>Transaction#prepareInstancesToRunCallbacksOn\<close> in
  \<^verbatim>\<open>packages/activerecord/src/connection-adapters/abstract/transaction.ts\<close>) and the user-facing
  handle of \<^verbatim>\<open>packages/activerecord/src/transaction.ts\<close>. Records and callbacks are numbered;
  calling one of their methods appends the call to the log and then runs the environment's
  \<open>hook\<close>.
\<close>

section \<open>Enrolment\<close>

definition add_record :: "nat \<Rightarrow> nat \<Rightarrow> bool \<Rightarrow> unit act" where
  "add_record i r ensure_finalize =
     (if ensure_finalize then upd_tx i (recs_update (\<lambda>rs. rs @ [r]))
      else upd_tx i (lazy_recs_update (\<lambda>rs. if r \<in> set rs then rs else rs @ [r])))"

text \<open>The getter \<open>records\<close>: it moves the lazily enrolled records over before it answers.\<close>

definition records :: "nat \<Rightarrow> nat list act" where
  "records i = andthen
     (upd_tx i (\<lambda>t. t\<lparr>recs := recs t @ lazy_recs t, lazy_recs := []\<rparr>))
     (gets (\<lambda>s. recs (tx s i)))"

definition unique_records :: "nat list \<Rightarrow> nat list" where
  "unique_records rs = uniq_from [] rs"

definition records_equal :: "env \<Rightarrow> nat \<Rightarrow> nat \<Rightarrow> bool" where
  "records_equal env a b \<longleftrightarrow> a = b \<or> rec_equals env a b \<or> rec_equals env b a"

definition unique_records_by_equality :: "env \<Rightarrow> nat list \<Rightarrow> nat list" where
  "unique_records_by_equality env rs =
     foldl (\<lambda>result r. if \<exists>kept \<in> set result. records_equal env r kept then result
                       else result @ [r]) [] rs"

text \<open>The pairs \<open>entries\<close> searched by record equality.\<close>

fun find_entry :: "env \<Rightarrow> (nat \<times> nat) list \<Rightarrow> nat \<Rightarrow> nat option" where
  "find_entry env [] r = None"
| "find_entry env ((k, v) # es) r = (if records_equal env r k then Some v else find_entry env es r)"

fun put_entry :: "env \<Rightarrow> (nat \<times> nat) list \<Rightarrow> nat \<Rightarrow> (nat \<times> nat) list" where
  "put_entry env [] r = [(r, r)]"
| "put_entry env ((k, v) # es) r =
     (if records_equal env r k then (k, r) # es else (k, v) # put_entry env es r)"

text \<open>\<open>prepareInstancesToRunCallbacksOn\<close>: which instance of each record runs the callbacks, and the
  flags \<open>_newRecordBeforeLastCommit\<close> it passes on.\<close>

fun prepare_loop :: "env \<Rightarrow> nat list \<Rightarrow> (nat \<times> nat) list \<Rightarrow> (nat \<Rightarrow> bool)
    \<Rightarrow> (nat \<times> nat) list \<times> (nat \<Rightarrow> bool)" where
  "prepare_loop env [] es nb = (es, nb)"
| "prepare_loop env (r # rs) es nb =
     (if \<not> rec_triggers env r then prepare_loop env rs es nb
      else case find_entry env es r of
        None \<Rightarrow> prepare_loop env rs (put_entry env es r) nb
      | Some earlier \<Rightarrow>
          if rec_first_saved env r then prepare_loop env rs es nb
          else if rec_destroyed env earlier \<and> \<not> rec_destroyed env r
          then prepare_loop env rs es nb
          else prepare_loop env rs (put_entry env es r)
                 (if nb earlier then nb(r := True) else nb))"

definition prepare_instances :: "env \<Rightarrow> nat list \<Rightarrow> (nat \<times> nat) list act" where
  "prepare_instances env rs = (\<lambda>s. case prepare_loop env rs [] (new_before s) of
     (es, nb) \<Rightarrow> (Inr es, s\<lparr>new_before := nb\<rparr>))"

text \<open>\<open>runActionOnRecords\<close> takes each record off the list before it calls back, so a callback that
  throws leaves the records not yet reached in the list.\<close>

fun run_action :: "nat list \<Rightarrow> (nat \<Rightarrow> nat option) \<Rightarrow> (nat \<Rightarrow> bool \<Rightarrow> unit act) \<Rightarrow> sys
    \<Rightarrow> (err + unit) \<times> nat list \<times> sys" where
  "run_action [] lookup cb s = (Inr (), [], s)"
| "run_action (r # rs) lookup cb s =
     (case cb r (lookup r = Some r) s of
        (Inl e, s') \<Rightarrow> (Inl e, rs, s')
      | (Inr _, s') \<Rightarrow> run_action rs lookup cb s')"

definition run_action_then_rest :: "nat list \<Rightarrow> (nat \<Rightarrow> nat option) \<Rightarrow> (nat \<Rightarrow> bool \<Rightarrow> unit act)
    \<Rightarrow> unit act" where
  "run_action_then_rest rs lookup cb s =
     (case run_action rs lookup cb s of
        (r, rest, s1) \<Rightarrow> ensure (\<lambda>_. (r, s1)) (for_each rest (\<lambda>i. cb i False)) s)"

definition run_action_only :: "nat list \<Rightarrow> (nat \<Rightarrow> nat option) \<Rightarrow> (nat \<Rightarrow> bool \<Rightarrow> unit act)
    \<Rightarrow> unit act" where
  "run_action_only rs lookup cb s =
     (case run_action rs lookup cb s of (r, rest, s1) \<Rightarrow> (r, s1))"

section \<open>Callbacks\<close>

definition register :: "cb_event \<Rightarrow> nat \<Rightarrow> nat \<Rightarrow> unit act" where
  "register ev i f = bind (gets (\<lambda>s. is_finalized (st (heap s ! i)))) (\<lambda>fin.
     if fin then throw FinalizedTransaction
     else upd_tx i (callbacks_update (\<lambda>cs. cs @ [(ev, f)])))"

definition append_callbacks :: "nat \<Rightarrow> (cb_event \<times> nat) list \<Rightarrow> unit act" where
  "append_callbacks i cs = upd_tx i (callbacks_update (\<lambda>old. old @ cs))"

text \<open>\<open>TransactionCallback\<close>: the callback runs only for the event it was registered for.\<close>

definition run_callback :: "env \<Rightarrow> cb_event \<Rightarrow> cb_event \<times> nat \<Rightarrow> unit act" where
  "run_callback env ev c = (if fst c = ev then notify env (CbRun (snd c)) else skip)"

text \<open>\<open>for (const cb of this._callbacks)\<close> reads the live array, so a callback registered while the
  loop runs is reached too; the fuel bounds the number of steps.\<close>

fun run_callbacks_from :: "nat \<Rightarrow> env \<Rightarrow> cb_event \<Rightarrow> nat \<Rightarrow> nat \<Rightarrow> unit act" where
  "run_callbacks_from 0 env ev i k = throw Diverged"
| "run_callbacks_from (Suc n) env ev i k = bind (gets (\<lambda>s. callbacks (tx s i))) (\<lambda>cs.
     if k < length cs
     then andthen (run_callback env ev (cs ! k)) (run_callbacks_from n env ev i (Suc k))
     else skip)"

definition run_callbacks :: "env \<Rightarrow> cb_event \<Rightarrow> nat \<Rightarrow> unit act" where
  "run_callbacks env ev i = run_callbacks_from (cb_fuel env) env ev i 0"

section \<open>The three passes over the records\<close>

definition rollback_records :: "env \<Rightarrow> nat \<Rightarrow> unit act" where
  "rollback_records env i =
     andthen
       (bind (records i) (\<lambda>rs. let ite = unique_records rs in
          bind (gets (\<lambda>s. is_full_rollback (kind (tx s i)))) (\<lambda>full.
          bind (prepare_instances env ite) (\<lambda>es.
            run_action_then_rest ite (find_entry env es)
              (\<lambda>r run. notify env (RecRolledback r full run))))))
       (run_callbacks env AfterRollback i)"

definition before_commit_records :: "env \<Rightarrow> nat \<Rightarrow> unit act" where
  "before_commit_records env i = bind (gets (\<lambda>s. run_commit_cbs (tx s i))) (\<lambda>rc. only_if rc
     (andthen
       (bind (records i) (\<lambda>rs.
          if before_on_all env
          then run_action_only (unique_records rs)
                 (find_entry env (foldl (\<lambda>es r. put_entry env es r) [] rs))
                 (\<lambda>r run. if run then notify env (RecBeforeCommitted r) else skip)
          else for_each (unique_records_by_equality env rs)
                 (\<lambda>r. notify env (RecBeforeCommitted r))))
       (run_callbacks env BeforeCommit i)))"

text \<open>\<open>addTransactionRecord\<close> of the connection: enrol in whatever transaction is current.\<close>

definition add_transaction_record :: "nat \<Rightarrow> unit act" where
  "add_transaction_record r = bind (gets current_transaction) (\<lambda>c.
     case c of None \<Rightarrow> skip | Some p \<Rightarrow> add_record p r True)"

definition commit_records :: "env \<Rightarrow> nat \<Rightarrow> unit act" where
  "commit_records env i = bind (gets (\<lambda>s. run_commit_cbs (tx s i))) (\<lambda>rc.
     andthen
       (bind (records i) (\<lambda>rs. let ite = unique_records rs in
          if rc
          then bind (prepare_instances env ite) (\<lambda>es.
                 run_action_then_rest ite (find_entry env es)
                   (\<lambda>r run. notify env (RecCommitted r run)))
          else for_each ite add_transaction_record))
       (if rc then run_callbacks env AfterCommit i
        else bind (gets (\<lambda>s. (current_transaction s, callbacks (tx s i)))) (\<lambda>(c, cs).
          case c of None \<Rightarrow> skip | Some p \<Rightarrow> append_callbacks p cs)))"

section \<open>The user's handle\<close>

text \<open>\<open>UserTransaction\<close> wraps a transaction, or nothing for \<open>NULL_TRANSACTION\<close>.\<close>

definition user_after_commit :: "env \<Rightarrow> nat option \<Rightarrow> nat \<Rightarrow> unit act" where
  "user_after_commit env h f =
     (case h of None \<Rightarrow> notify env (CbRun f) | Some i \<Rightarrow> register AfterCommit i f)"

definition user_after_rollback :: "nat option \<Rightarrow> nat \<Rightarrow> unit act" where
  "user_after_rollback h f = (case h of None \<Rightarrow> skip | Some i \<Rightarrow> register AfterRollback i f)"

definition user_is_closed :: "sys \<Rightarrow> nat option \<Rightarrow> bool" where
  "user_is_closed s h \<longleftrightarrow> (case h of None \<Rightarrow> True | Some i \<Rightarrow> is_finalized (st (heap s ! i)))"

end
