(* ===== verification/Txn_Manager.thy ===== *)
theory Txn_Manager
  imports Txn_Records
begin

text \<open>
  \<open>TransactionManager\<close> of
  \<^verbatim>\<open>packages/activerecord/src/connection-adapters/abstract/transaction.ts\<close>: the stack of open
  transactions of one connection. The connection's monitor runs one call at a time, so every
  method is one step on \<open>sys\<close>.
\<close>

definition new_manager :: sys where
  "new_manager = \<lparr>heap = [], txns = [], stack = [], has_unmaterialized = False,
     lazy_enabled = True, materializing = False, new_before = (\<lambda>_. False), log = []\<rparr>"

section \<open>Constructors\<close>

definition new_txn :: "tx_kind \<Rightarrow> bool \<Rightarrow> string option \<Rightarrow> bool \<Rightarrow> txn" where
  "new_txn k j lvl rc = \<lparr>kind = k, joinable = j, isolation = lvl, run_commit_cbs = rc,
     materialized = False, dirty = False, written = False, instr_started = False,
     callbacks = [], recs = [], lazy_recs = []\<rparr>"

definition alloc :: "txn \<Rightarrow> nat act" where
  "alloc t = (\<lambda>s. (Inr (length (txns s)),
     s\<lparr>txns := txns s @ [t], heap := heap s @ [new_state]\<rparr>))"

definition construct_real :: "bool \<Rightarrow> string option \<Rightarrow> bool \<Rightarrow> nat act" where
  "construct_real j lvl rc = alloc (new_txn Real j lvl rc)"

definition construct_restart_parent :: "nat \<Rightarrow> bool \<Rightarrow> string option \<Rightarrow> bool \<Rightarrow> nat act" where
  "construct_restart_parent p j lvl rc =
     bind (alloc (new_txn (RestartParent p) j lvl rc)) (\<lambda>i.
       if iso_given lvl then throw TransactionIsolationError
       else andthen (with_heap (\<lambda>h. Some (add_child h p i))) (ret i))"

definition construct_savepoint :: "string \<Rightarrow> nat \<Rightarrow> bool \<Rightarrow> string option \<Rightarrow> bool \<Rightarrow> nat act" where
  "construct_savepoint nm p j lvl rc =
     bind (alloc (new_txn (Savepoint nm) j lvl rc)) (\<lambda>i.
       andthen (with_heap (\<lambda>h. Some (add_child h p i)))
         (if iso_given lvl then throw TransactionIsolationError else ret i))"

definition is_restartable :: "txn \<Rightarrow> bool" where
  "is_restartable t \<longleftrightarrow> joinable t \<and> \<not> dirty t"

text \<open>Decimal digits, for the savepoint name \<open>active_record_\<close>\<open>n\<close>.\<close>

fun show_nat :: "nat \<Rightarrow> string" where
  "show_nat n =
     (if n < 10 then [char_of (48 + n)] else show_nat (n div 10) @ [char_of (48 + n mod 10)])"

definition savepoint_name :: "nat \<Rightarrow> string" where
  "savepoint_name n = ''active_record_'' @ show_nat n"

section \<open>Beginning\<close>

definition build_transaction :: "string option \<Rightarrow> bool \<Rightarrow> nat act" where
  "build_transaction lvl j = bind (gets (\<lambda>s. s)) (\<lambda>s.
     case current_transaction s of
       None \<Rightarrow> construct_real j lvl True
     | Some c \<Rightarrow>
         let rc = \<not> joinable (tx s c) in
         if is_restartable (tx s c) then construct_restart_parent c j lvl rc
         else construct_savepoint (savepoint_name (length (stack s))) c j lvl rc)"

definition begin_transaction :: "env \<Rightarrow> string option \<Rightarrow> bool \<Rightarrow> bool \<Rightarrow> nat act" where
  "begin_transaction env lvl j lz = bind (build_transaction lvl j) (\<lambda>i.
     andthen
       (bind (is_materialized_act i) (\<lambda>m. if m then skip
         else bind (gets lazy_enabled) (\<lambda>le.
           if supports_lazy env \<and> le \<and> lz \<and> \<not> iso_given lvl
           then modify (\<lambda>s. s\<lparr>has_unmaterialized := True\<rparr>)
           else materialize_bang env i)))
       (andthen (modify (\<lambda>s. s\<lparr>stack := stack s @ [i]\<rparr>)) (ret i)))"

section \<open>Laziness, restoring\<close>

definition disable_lazy_transactions :: "env \<Rightarrow> unit act" where
  "disable_lazy_transactions env = andthen (materialize_transactions env)
     (modify (\<lambda>s. s\<lparr>lazy_enabled := False\<rparr>))"

definition enable_lazy_transactions :: "unit act" where
  "enable_lazy_transactions = modify (\<lambda>s. s\<lparr>lazy_enabled := True\<rparr>)"

definition is_restorable :: "sys \<Rightarrow> bool" where
  "is_restorable s \<longleftrightarrow> (\<forall>i \<in> set (stack s). \<not> dirty (tx s i))"

definition restore_transactions :: "env \<Rightarrow> bool act" where
  "restore_transactions env = bind (gets (\<lambda>s. (is_restorable s, stack s))) (\<lambda>(ok, stk).
     if \<not> ok then ret False
     else andthen (for_each stk (restore_bang env)) (ret True))"

section \<open>Ending\<close>

definition pop_stack :: "unit act" where
  "pop_stack = modify (\<lambda>s. s\<lparr>stack := butlast (stack s)\<rparr>)"

definition pop_if_top :: "nat \<Rightarrow> unit act" where
  "pop_if_top i = bind (gets current_transaction) (\<lambda>c. only_if (c = Some i) pop_stack)"

definition commit_transaction :: "env \<Rightarrow> unit act" where
  "commit_transaction env = bind (gets current_transaction) (\<lambda>c.
     case c of
       None \<Rightarrow> skip
     | Some i \<Rightarrow>
         andthen (ensure (before_commit_records env i) pop_stack)
          (andthen (bind (gets (\<lambda>s. dirty (tx s i))) (\<lambda>d. only_if d dirty_current_transaction))
            (andthen (commit env i) (commit_records env i))))"

definition rollback_transaction :: "env \<Rightarrow> nat option \<Rightarrow> unit act" where
  "rollback_transaction env given = bind (gets current_transaction) (\<lambda>c.
     case (case given of None \<Rightarrow> c | Some i \<Rightarrow> Some i) of
       None \<Rightarrow> skip
     | Some i \<Rightarrow>
         andthen (ensure (rollback env i) (pop_if_top i)) (rollback_records env i))"

definition after_failure_actions :: "env \<Rightarrow> nat \<Rightarrow> err \<Rightarrow> unit act" where
  "after_failure_actions env i e = bind (gets (\<lambda>s. kind (tx s i))) (\<lambda>k.
     if k \<noteq> Real then skip
     else if e \<noteq> PreparedStatementCacheExpired then skip
     else db_send env ClearCache)"

section \<open>A block inside a new transaction\<close>

text \<open>The \<open>finally\<close> of \<open>withinNewTransaction\<close>: a transaction that neither committed nor rolled back
  takes its connection out of the pool.\<close>

definition is_completed_act :: "nat \<Rightarrow> bool act" where
  "is_completed_act i = gets (\<lambda>s. is_completed (st (heap s ! i)))"

definition discard_unless_completed :: "nat \<Rightarrow> unit act" where
  "discard_unless_completed i = bind (is_completed_act i) (\<lambda>d.
     if d then skip else andthen (emit ThrowAway) (incomplete_bang i))"

definition run_body :: "env \<Rightarrow> nat \<Rightarrow> 'a act \<Rightarrow> 'a act" where
  "run_body env i body = catching body (\<lambda>e.
     andthen (rollback_transaction env None)
       (andthen (after_failure_actions env i e) (throw e)))"

definition commit_or_undo :: "env \<Rightarrow> nat \<Rightarrow> unit act" where
  "commit_or_undo env i = catching (commit_transaction env) (\<lambda>e.
     andthen
       (bind (is_completed_act i) (\<lambda>d.
         if e = ConnectionFailed
         then (if d then skip else with_heap (\<lambda>h. invalidate_bang h i))
         else (if d then skip else rollback_transaction env (Some i))))
       (throw e))"

definition within_new_transaction :: "env \<Rightarrow> string option \<Rightarrow> bool \<Rightarrow> (nat \<Rightarrow> 'a act) \<Rightarrow> 'a act" where
  "within_new_transaction env lvl j fn = (\<lambda>s.
     case begin_transaction env lvl j True s of
       (Inl e, s1) \<Rightarrow> ensure (throw e) (emit ThrowAway) s1
     | (Inr i, s1) \<Rightarrow>
         ensure
           (bind (run_body env i (fn i)) (\<lambda>x. andthen (commit_or_undo env i) (ret x)))
           (discard_unless_completed i) s1)"

end
