(* ===== verification/Txn_Effects.thy ===== *)
theory Txn_Effects
  imports Txn_Manager "HOL-Library.Sublist"
begin

text \<open>
  What the operations of a transaction cannot do. The locale \<open>calm\<close> collects the primitive
  writes of the passes over records and callbacks, \<open>quiet\<close> adds the changes of state objects: any
  relation between states that allows these writes is kept by every operation below the manager,
  whatever the database answers, provided the hooks keep it too. The interpretations are in
  \<open>Txn_Stack\<close>: the stack is untouched, the log only grows, constructor arguments never change,
  well-formedness is kept, and (for \<open>calm\<close>) a committed transaction stays committed.
\<close>

definition same_shape :: "store \<Rightarrow> store \<Rightarrow> bool" where
  "same_shape h h' \<longleftrightarrow> length h' = length h \<and> (\<forall>i < length h. kids (h' ! i) = kids (h ! i))"

lemma same_shape_refl: "same_shape h h"
  by (simp add: same_shape_def)

lemma same_shape_trans: "same_shape g h \<Longrightarrow> same_shape h k \<Longrightarrow> same_shape g k"
  by (simp add: same_shape_def)

lemma same_shape_set_st: "same_shape h (set_st h i v)"
  by (simp add: same_shape_def)

lemma same_shape_wf: "same_shape h h' \<Longrightarrow> wf_store h' = wf_store h"
  by (rule wf_store_shape) (simp_all add: same_shape_def)

lemma fold_bind_None: "fold (\<lambda>c acc. Option.bind acc (\<lambda>h'. f h' c)) cs None = None"
  by (induction cs) auto

lemma fold_shape:
  assumes "\<And>h c h'. f h c = Some h' \<Longrightarrow> same_shape h h'"
    and "fold (\<lambda>c acc. Option.bind acc (\<lambda>h'. f h' c)) cs (Some h) = Some h'"
  shows "same_shape h h'"
  using assms(2)
proof (induction cs arbitrary: h)
  case Nil
  then show ?case by (simp add: same_shape_refl)
next
  case (Cons c cs)
  then obtain g where "f h c = Some g"
    by (cases "f h c") (auto simp: fold_bind_None)
  with Cons show ?case using assms(1) same_shape_trans by fastforce
qed

lemma mark_down_shape: "mark_down v n h i = Some h' \<Longrightarrow> same_shape h h'"
proof (induction n arbitrary: h i h')
  case 0
  then show ?case by simp
next
  case (Suc n)
  then obtain g where g: "fold (\<lambda>c acc. Option.bind acc (\<lambda>h'. mark_down v n h' c))
      (kids (h ! i)) (Some h) = Some g" and h': "h' = set_st g i (Some v)"
    by auto
  from fold_shape [OF Suc.IH g] have "same_shape h g" .
  then show ?case using h' same_shape_set_st same_shape_trans by blast
qed

lemma rollback_bang_shape: "rollback_bang h i = Some h' \<Longrightarrow> same_shape h h'"
  by (simp add: rollback_bang_def mark_down_shape)

lemma invalidate_bang_shape: "invalidate_bang h i = Some h' \<Longrightarrow> same_shape h h'"
  by (simp add: invalidate_bang_def mark_down_shape)

lemma full_rollback_bang_shape: "full_rollback_bang h i = Some h' \<Longrightarrow> same_shape h h'"
  using fold_shape [of rollback_bang] rollback_bang_shape same_shape_set_st same_shape_trans
  by (fastforce simp: full_rollback_bang_def)

lemma commit_bang_shape: "Some (commit_bang h i) = Some h' \<Longrightarrow> same_shape h h'"
  by (auto simp: commit_bang_def same_shape_set_st)

lemma full_commit_bang_shape: "Some (full_commit_bang h i) = Some h' \<Longrightarrow> same_shape h h'"
  by (auto simp: full_commit_bang_def same_shape_set_st)

lemmas bang_shapes = rollback_bang_shape invalidate_bang_shape full_rollback_bang_shape
  commit_bang_shape full_commit_bang_shape

text \<open>The constructor arguments of a transaction object.\<close>

definition ctor :: "txn \<Rightarrow> tx_kind \<times> bool \<times> string option \<times> bool" where
  "ctor t = (kind t, joinable t, isolation t, run_commit_cbs t)"

definition hooks :: "(sys \<Rightarrow> sys \<Rightarrow> bool) \<Rightarrow> env \<Rightarrow> bool" where
  "hooks R env \<longleftrightarrow> (\<forall>e. stable R (hook env e))"

locale calm = effect R for R :: "sys \<Rightarrow> sys \<Rightarrow> bool" +
  assumes set_txn: "(\<And>t. ctor (f t) = ctor t) \<Longrightarrow> R s (set_txn i f s)"
    and set_log: "R s (s\<lparr>log := log s @ [e]\<rparr>)"
    and set_materializing: "R s (s\<lparr>materializing := b\<rparr>)"
    and set_pending: "R s (s\<lparr>has_unmaterialized := b\<rparr>)"
    and set_new_before: "R s (s\<lparr>new_before := nb\<rparr>)"
begin

lemma case_prod: "(\<And>a b. stable R (f a b)) \<Longrightarrow> stable R (case p of (a, b) \<Rightarrow> f a b)"
  by (cases p) simp

lemma case_option:
  "stable R m \<Longrightarrow> (\<And>x. stable R (f x)) \<Longrightarrow> stable R (case c of None \<Rightarrow> m | Some x \<Rightarrow> f x)"
  by (cases c) simp_all

lemma case_kind:
  "stable R m \<Longrightarrow> (\<And>nm. stable R (f nm)) \<Longrightarrow> (\<And>p. stable R (g p)) \<Longrightarrow>
   stable R (case k of Real \<Rightarrow> m | Savepoint nm \<Rightarrow> f nm | RestartParent p \<Rightarrow> g p)"
  by (cases k) simp_all

lemmas cases_rules = case_prod case_option case_kind

lemma upd_tx: "(\<And>t. ctor (f t) = ctor t) \<Longrightarrow> stable R (upd_tx i f)"
  unfolding upd_tx_def by (rule modify) (rule set_txn)

lemma emit: "stable R (emit e)"
  unfolding emit_def by (rule modify) (rule set_log)

lemma notify: "hooks R env \<Longrightarrow> stable R (notify env e)"
  unfolding notify_def hooks_def by (intro andthen emit) blast

lemma db_send: "stable R (db_send env c)"
  by (rule stableI) (simp add: db_send_def set_log split: option.splits)

lemma dirty_current: "stable R dirty_current_transaction"
  unfolding dirty_current_transaction_def
  by (intro rules case_option upd_tx) (simp add: ctor_def)

lemma instr_start: "stable R (instr_start i)"
  unfolding instr_start_def by (intro rules upd_tx emit) (simp add: ctor_def)

lemma instr_finish: "stable R (instr_finish i out)"
  unfolding instr_finish_def by (intro rules upd_tx emit) (simp add: ctor_def)

lemma base_materialize: "stable R (base_materialize i)"
  unfolding base_materialize_def by (intro rules upd_tx instr_start) (simp add: ctor_def)

lemma is_materialized: "stable R (is_materialized n i)"
  by (induction n arbitrary: i) (simp, intro rules, simp, intro rules case_kind, auto)

lemma is_materialized_act: "stable R (is_materialized_act i)"
  unfolding is_materialized_act_def by (intro rules is_materialized)

lemma incomplete_bang: "stable R (incomplete_bang i)"
  unfolding incomplete_bang_def by (intro rules case_kind instr_finish)

lemma finish_if_materialized: "stable R (finish_if_materialized i out)"
  unfolding finish_if_materialized_def by (intro rules instr_finish)

lemma register: "stable R (register ev i f)"
  unfolding register_def by (intro rules upd_tx) (simp add: ctor_def)

lemma append_callbacks: "stable R (append_callbacks i cs)"
  unfolding append_callbacks_def by (intro upd_tx) (simp add: ctor_def)

lemma add_record: "stable R (add_record i r b)"
  unfolding add_record_def by (intro rules upd_tx) (simp_all add: ctor_def)

lemma records: "stable R (records i)"
  unfolding records_def by (intro rules upd_tx) (simp add: ctor_def)

lemma prepare_instances: "stable R (prepare_instances env rs)"
  by (rule stableI) (simp add: prepare_instances_def set_new_before split: prod.splits)

lemma run_action:
  assumes "\<And>r b. stable R (cb r b)"
  shows "run_action rs lookup cb s = (q, rest, t) \<Longrightarrow> R s t"
proof (induction rs arbitrary: s)
  case Nil
  then show ?case by (simp add: refl)
next
  case (Cons r rs)
  obtain p u where u: "cb r (lookup r = Some r) s = (p, u)" by fastforce
  then have "R s u" using assms run by blast
  then show ?case using Cons u by (cases p) (auto intro: trans)
qed

lemma run_action_then_rest:
  assumes "\<And>r b. stable R (cb r b)"
  shows "stable R (run_action_then_rest rs lookup cb)"
proof (rule stableI)
  fix s
  obtain q rest t where q: "run_action rs lookup cb s = (q, rest, t)"
    by (metis prod_cases3)
  obtain p u where p: "for_each rest (\<lambda>i. cb i False) t = (p, u)" by fastforce
  have "R t u" using run [OF for_each p] assms by blast
  moreover have "R s t" using run_action [OF assms q] .
  ultimately show "R s (snd (run_action_then_rest rs lookup cb s))"
    using q p by (cases p) (auto simp: run_action_then_rest_def ensure_def intro: trans)
qed

lemma run_action_only: "(\<And>r b. stable R (cb r b)) \<Longrightarrow> stable R (run_action_only rs lookup cb)"
  by (rule stableI) (auto simp: run_action_only_def split: prod.splits intro: run_action)

lemma run_callback: "hooks R env \<Longrightarrow> stable R (run_callback env ev c)"
  unfolding run_callback_def by (intro rules notify)

lemma run_callbacks:
  assumes "hooks R env"
  shows "stable R (run_callbacks env ev i)"
proof -
  have "stable R (run_callbacks_from n env ev i k)" for n k
  proof (induction n arbitrary: k)
    case 0
    show ?case by (simp add: throw)
  next
    case (Suc n)
    show ?case
      unfolding run_callbacks_from.simps by (intro rules run_callback assms Suc.IH)
  qed
  then show ?thesis by (simp add: run_callbacks_def)
qed

lemma rollback_records: "hooks R env \<Longrightarrow> stable R (rollback_records env i)"
  unfolding rollback_records_def Let_def
  by (intro rules records prepare_instances run_action_then_rest notify run_callbacks)

lemma before_commit_records: "hooks R env \<Longrightarrow> stable R (before_commit_records env i)"
  unfolding before_commit_records_def
  by (intro rules records run_action_only notify run_callbacks)

lemma add_transaction_record: "stable R (add_transaction_record r)"
  unfolding add_transaction_record_def by (intro rules case_option add_record)

lemma commit_records: "hooks R env \<Longrightarrow> stable R (commit_records env i)"
  unfolding commit_records_def Let_def
  by (intro rules cases_rules records prepare_instances run_action_then_rest notify
      run_callbacks add_transaction_record append_callbacks)

lemma after_failure_actions: "stable R (after_failure_actions env i e)"
  unfolding after_failure_actions_def by (intro rules db_send)

lemma discard_unless_completed: "stable R (discard_unless_completed i)"
  unfolding discard_unless_completed_def is_completed_act_def
  by (intro rules emit incomplete_bang)

end

locale quiet = calm R for R :: "sys \<Rightarrow> sys \<Rightarrow> bool" +
  assumes set_heap: "same_shape (heap s) h \<Longrightarrow> R s (s\<lparr>heap := h\<rparr>)"
begin

lemma with_heap: "(\<And>h h'. f h = Some h' \<Longrightarrow> same_shape h h') \<Longrightarrow> stable R (with_heap f)"
  by (rule stableI) (auto simp: with_heap_def refl set_heap split: option.splits)

lemma invalidate: "stable R (invalidate_transaction env e)"
  unfolding invalidate_transaction_def
  by (intro rules case_option with_heap) (rule bang_shapes)

lemma db_exec: "stable R (db_exec env c)"
  unfolding db_exec_def by (intro rules db_send invalidate)

lemma rollback_db: "stable R (rollback_db_transaction env)"
  unfolding rollback_db_transaction_def by (intro rules db_exec)

lemma begin_real: "stable R (begin_real env t)"
  unfolding begin_real_def by (intro rules db_exec)

lemma with_raw: "stable R mt \<Longrightarrow> stable R (with_raw_connection mt env c)"
  unfolding with_raw_connection_def by (intro rules db_exec dirty_current)

lemma materialize_with: "stable R mt \<Longrightarrow> stable R (materialize_with mt env n i)"
  by (induction n arbitrary: i)
    (simp, intro rules, simp,
      intro rules case_kind with_raw begin_real base_materialize, auto)

lemma materialize_transactions: "stable R (materialize_transactions env)"
  unfolding materialize_transactions_def
  by (intro rules case_prod is_materialized materialize_with modify
      set_materializing set_pending)

lemma materialize_bang: "stable R (materialize_bang env i)"
  unfolding materialize_bang_def by (intro rules materialize_with materialize_transactions)

lemma send: "stable R (send env c)"
  unfolding send_def by (intro with_raw materialize_transactions)

lemma restore_bang: "stable R (restore_bang env i)"
  unfolding restore_bang_def
  by (intro rules case_kind incomplete_bang upd_tx materialize_bang) (simp_all add: ctor_def)

lemma restart_with: "stable R (restart_with env n i)"
proof (induction n arbitrary: i)
  case 0
  show ?case by (simp add: throw)
next
  case (Suc n)
  show ?case
    unfolding restart_with.simps
    by (intro rules case_kind instr_finish instr_start send db_exec rollback_db materialize_bang
        Suc.IH)
qed

lemma restart: "stable R (restart env i)"
  unfolding restart_def by (intro rules restart_with)

lemma rollback: "stable R (rollback env i)"
  unfolding rollback_def rollback_savepoint_def rollback_real_def
  by (intro rules case_kind send finish_if_materialized rollback_db db_exec restart with_heap)
    (erule bang_shapes)+

lemma commit: "stable R (commit env i)"
  unfolding commit_def commit_savepoint_def commit_real_def
  by (intro rules case_kind send finish_if_materialized db_exec with_heap)
    (erule bang_shapes)+

end

end
