(* ===== verification/Txn_Stack.thy ===== *)
theory Txn_Stack
  imports Txn_Effects
begin

text \<open>
  The manager keeps its stack: a block run by \<open>withinNewTransaction\<close> leaves the stack as it found
  it on every path, a block that returns has committed, and a transaction left unfinished costs
  the connection.
\<close>

section \<open>Four relations the transaction operations keep\<close>

definition log_grows :: "sys \<Rightarrow> sys \<Rightarrow> bool" where
  "log_grows s t \<longleftrightarrow> prefix (log s) (log t)"

definition ctors_kept :: "sys \<Rightarrow> sys \<Rightarrow> bool" where
  "ctors_kept s t \<longleftrightarrow> length (txns s) \<le> length (txns t) \<and>
     (\<forall>i < length (txns s). ctor (tx t i) = ctor (tx s i))"

text \<open>Well-formedness: one state object per transaction, children newer than their parent, and
  every object the manager or a transaction refers to exists.\<close>

definition wf_objects :: "store \<Rightarrow> txn list \<Rightarrow> nat list \<Rightarrow> bool" where
  "wf_objects h ts stk \<longleftrightarrow> length h = length ts \<and> wf_store h \<and>
     (\<forall>i < length ts. \<forall>p. kind (ts ! i) = RestartParent p \<longrightarrow> p < i) \<and>
     (\<forall>i \<in> set stk. i < length ts)"

definition wf_sys :: "sys \<Rightarrow> bool" where
  "wf_sys s \<longleftrightarrow> wf_objects (heap s) (txns s) (stack s)"

lemma length_set_txn [simp]: "length (txns (set_txn i f s)) = length (txns s)"
  by (simp add: set_txn_def)

lemma heap_set_txn [simp]: "heap (set_txn i f s) = heap s"
  and stack_set_txn [simp]: "stack (set_txn i f s) = stack s"
  and log_set_txn [simp]: "log (set_txn i f s) = log s"
  by (simp_all add: set_txn_def)

lemma tx_set_txn:
  "j < length (txns s) \<Longrightarrow> tx (set_txn i f s) j = (if j = i then f (tx s i) else tx s j)"
  by (auto simp: tx_def set_txn_def)

lemma ctor_set_txn:
  "(\<And>t. ctor (f t) = ctor t) \<Longrightarrow> j < length (txns s) \<Longrightarrow>
   ctor (txns (set_txn i f s) ! j) = ctor (txns s ! j)"
  using tx_set_txn [of j s i f] by (auto simp: tx_def)

lemma ctor_kind: "ctor t = ctor u \<Longrightarrow> kind t = kind u"
  by (simp add: ctor_def)

lemma wf_objects_cong:
  assumes "length h' = length h" "wf_store h' = wf_store h" "length ts' = length ts"
    and "\<And>i. i < length ts \<Longrightarrow> kind (ts' ! i) = kind (ts ! i)"
  shows "wf_objects h' ts' stk = wf_objects h ts stk"
  unfolding wf_objects_def assms(1-3) using assms(4) by metis

text \<open>\<open>moves xs\<close>: the stack has become \<open>xs\<close>, the log has only grown, constructor arguments are
  unchanged and the state is well-formed. \<open>tidy\<close>: from a well-formed state, all of this with the
  stack left alone; it is what the hooks and the bodies of blocks are asked to be.\<close>

definition moves :: "nat list \<Rightarrow> sys \<Rightarrow> sys \<Rightarrow> bool" where
  "moves xs s t \<longleftrightarrow> stack t = xs \<and> wf_sys t \<and> ctors_kept s t \<and> log_grows s t"

definition tidy :: "sys \<Rightarrow> sys \<Rightarrow> bool" where
  "tidy s t \<longleftrightarrow> (wf_sys s \<longrightarrow> moves (stack s) s t)"

lemma log_grows_refl [simp]: "log_grows s s"
  by (simp add: log_grows_def)

lemma log_grows_trans: "log_grows s t \<Longrightarrow> log_grows t u \<Longrightarrow> log_grows s u"
  by (auto simp: log_grows_def intro: prefix_order.trans)

lemma ctors_kept_refl [simp]: "ctors_kept s s"
  by (simp add: ctors_kept_def)

lemma ctors_kept_trans: "ctors_kept s t \<Longrightarrow> ctors_kept t u \<Longrightarrow> ctors_kept s u"
  by (simp add: ctors_kept_def)

lemma moves_tidy: "moves xs s t \<Longrightarrow> tidy t u \<Longrightarrow> moves xs s u"
  by (auto simp: moves_def tidy_def intro: ctors_kept_trans log_grows_trans)

lemma moves_trans: "moves xs s t \<Longrightarrow> moves ys t u \<Longrightarrow> moves ys s u"
  by (auto simp: moves_def intro: ctors_kept_trans log_grows_trans)

lemma moves_wf: "moves xs s t \<Longrightarrow> wf_sys t"
  and moves_stack: "moves xs s t \<Longrightarrow> stack t = xs"
  by (simp_all add: moves_def)

lemma wf_sys_length: "wf_sys s \<Longrightarrow> length (heap s) = length (txns s)"
  by (simp add: wf_sys_def wf_objects_def)

lemma moves_heap: "moves xs s t \<Longrightarrow> wf_sys s \<Longrightarrow> length (heap s) \<le> length (heap t)"
  by (simp add: moves_def wf_sys_length, simp add: ctors_kept_def)

interpretation td: effect tidy
proof unfold_locales
  show "tidy s s" for s by (simp add: tidy_def moves_def)
  show "tidy s u" if "tidy s t" "tidy t u" for s t u
    using that by (auto simp: tidy_def intro: moves_tidy)
qed

lemma wf_set_txn:
  assumes "\<And>t. ctor (f t) = ctor t" shows "wf_sys (set_txn i f s) = wf_sys s"
proof -
  have "kind (txns (set_txn i f s) ! j) = kind (txns s ! j)" if "j < length (txns s)" for j
    using ctor_set_txn ctor_kind assms that by blast
  then have "wf_objects (heap s) (txns (set_txn i f s)) stk = wf_objects (heap s) (txns s) stk" for stk
    by (intro wf_objects_cong) simp_all
  then show ?thesis by (simp add: wf_sys_def)
qed

lemma wf_set_heap:
  assumes "same_shape (heap s) h" shows "wf_sys (s\<lparr>heap := h\<rparr>) = wf_sys s"
proof -
  have "wf_objects h (txns s) stk = wf_objects (heap s) (txns s) stk" for stk
    using assms by (intro wf_objects_cong same_shape_wf) (simp_all add: same_shape_def)
  then show ?thesis by (simp add: wf_sys_def)
qed

interpretation td: quiet tidy
  by unfold_locales (simp_all add: tidy_def moves_def wf_set_txn wf_set_heap ctors_kept_def
      log_grows_def ctor_set_txn tx_def, simp_all add: wf_sys_def)

section \<open>Construction\<close>

lemma wf_alloc:
  assumes "wf_sys s" and "\<And>p. kind t = RestartParent p \<Longrightarrow> p < length (txns s)"
  shows "wf_sys (s\<lparr>txns := txns s @ [t], heap := heap s @ [new_state]\<rparr>)"
  using assms by (auto simp: wf_sys_def wf_objects_def wf_store_snoc nth_append less_Suc_eq)

lemma wf_link:
  assumes "wf_sys s" "p < c" "c < length (txns s)"
  shows "wf_sys (s\<lparr>heap := add_child (heap s) p c\<rparr>)"
  using assms wf_add_child by (simp add: wf_sys_def wf_objects_def)

lemmas build_defs = build_transaction_def construct_real_def construct_restart_parent_def
  construct_savepoint_def alloc_def with_heap_def Let_def

lemma build_Inl: "build_transaction lvl j s = (Inl e, t) \<Longrightarrow> e = TransactionIsolationError \<and> iso_given lvl"
  by (auto simp: build_defs comp_simps split: option.splits if_splits)

lemma build_Inr:
  "build_transaction lvl j s = (Inr i, t) \<Longrightarrow>
   i = length (txns s) \<and> (\<exists>k rc. txns t = txns s @ [new_txn k j lvl rc])"
  by (auto simp: build_defs comp_simps split: option.splits if_splits) blast+

lemma build_stack: "stack (snd (build_transaction lvl j s)) = stack s"
  by (auto simp: build_defs comp_simps split: option.splits)

lemma build_log: "log (snd (build_transaction lvl j s)) = log s"
  by (auto simp: build_defs comp_simps split: option.splits)

lemma build_ctors: "ctors_kept s (snd (build_transaction lvl j s))"
  by (auto simp: ctors_kept_def tx_def build_defs comp_simps nth_append split: option.splits)

lemma current_lt: "wf_sys s \<Longrightarrow> current_transaction s = Some c \<Longrightarrow> c < length (txns s)"
  by (auto simp: wf_sys_def wf_objects_def current_transaction_def split: if_splits)

lemma build_wf: "wf_sys s \<Longrightarrow> wf_sys (snd (build_transaction lvl j s))"
proof (cases "current_transaction s")
  case None
  assume "wf_sys s"
  then have "wf_sys (s\<lparr>txns := txns s @ [new_txn Real j lvl True], heap := heap s @ [new_state]\<rparr>)"
    by (rule wf_alloc) (simp add: new_txn_def)
  then show ?thesis
    by (simp add: None build_defs comp_simps)
next
  case (Some c)
  assume wf: "wf_sys s"
  then have c: "c < length (txns s)" using Some by (rule current_lt)
  define u where "u k = s\<lparr>txns := txns s @ [new_txn k j lvl (\<not> joinable (tx s c))],
     heap := heap s @ [new_state]\<rparr>" for k
  have u: "wf_sys (u k)" if "\<And>p. k = RestartParent p \<Longrightarrow> p = c" for k
    unfolding u_def by (rule wf_alloc [OF wf]) (use that c in \<open>auto simp: new_txn_def\<close>)
  have l: "wf_sys ((u k)\<lparr>heap := add_child (heap (u k)) c (length (txns s))\<rparr>)"
    if "\<And>p. k = RestartParent p \<Longrightarrow> p = c" for k
    by (rule wf_link [OF u [OF that]]) (use c in \<open>auto simp: u_def\<close>)
  show ?thesis
    using u [of "RestartParent c"] l [of "RestartParent c"] l [of "Savepoint nm" for nm]
    by (auto simp: Some build_defs comp_simps u_def)
qed

section \<open>Beginning and ending\<close>

text \<open>What \<open>beginTransaction\<close> does after the constructor and before the push.\<close>

definition begin_rest :: "env \<Rightarrow> string option \<Rightarrow> bool \<Rightarrow> nat \<Rightarrow> unit act" where
  "begin_rest env lvl lz i = bind (is_materialized_act i) (\<lambda>m. if m then skip
     else bind (gets lazy_enabled) (\<lambda>le.
       if supports_lazy env \<and> le \<and> lz \<and> \<not> iso_given lvl
       then modify (\<lambda>s. s\<lparr>has_unmaterialized := True\<rparr>)
       else materialize_bang env i))"

context quiet begin

lemma begin_rest: "stable R (begin_rest env lvl lz i)"
  unfolding begin_rest_def
  by (intro rules is_materialized_act modify set_pending materialize_bang)

end

lemma begin_unfold:
  "begin_transaction env lvl j lz = bind (build_transaction lvl j) (\<lambda>i.
     andthen (begin_rest env lvl lz i) (andthen (modify (\<lambda>s. s\<lparr>stack := stack s @ [i]\<rparr>)) (ret i)))"
  by (simp add: begin_transaction_def begin_rest_def)

lemma begin_cases:
  assumes "begin_transaction env lvl j lz s = (r, t)"
  obtains (build) e where "build_transaction lvl j s = (Inl e, t)" "r = Inl e"
        | (rest) u e where "build_transaction lvl j s = (Inr (length (txns s)), u)"
            "begin_rest env lvl lz (length (txns s)) u = (Inl e, t)" "r = Inl e"
        | (ok) u v where "build_transaction lvl j s = (Inr (length (txns s)), u)"
            "begin_rest env lvl lz (length (txns s)) u = (Inr (), v)"
            "t = v\<lparr>stack := stack v @ [length (txns s)]\<rparr>" "r = Inr (length (txns s))"
  using assms unfolding begin_unfold
proof (cases rule: bind_cases)
  case (err e)
  then show ?thesis using build by simp
next
  case (ok i u)
  have i: "i = length (txns s)" using build_Inr [OF ok(1)] by simp
  show ?thesis
  proof (cases "begin_rest env lvl lz i u")
    case (Pair q v)
    show ?thesis
    proof (cases q)
      case (Inl e)
      then show ?thesis using rest [of u e] ok i Pair by (simp add: comp_simps)
    next
      case (Inr x)
      then show ?thesis using that(3) [of u v] ok i Pair by (auto simp: comp_simps)
    qed
  qed
qed

lemma build_tidy: "tidy s (snd (build_transaction lvl j s))"
  by (auto simp: tidy_def moves_def log_grows_def build_stack build_log build_ctors build_wf)

lemma wf_push: "wf_sys s \<Longrightarrow> i < length (txns s) \<Longrightarrow> wf_sys (s\<lparr>stack := stack s @ [i]\<rparr>)"
  unfolding wf_sys_def wf_objects_def by simp

lemma moves_push:
  "moves xs s t \<Longrightarrow> i < length (txns t) \<Longrightarrow> moves (xs @ [i]) s (t\<lparr>stack := stack t @ [i]\<rparr>)"
  using wf_push by (auto simp: moves_def ctors_kept_def log_grows_def tx_def)

lemma begin_moves:
  assumes "begin_transaction env lvl j lz s = (r, t)" and "wf_sys s"
  shows "case r of Inl e \<Rightarrow> moves (stack s) s t
         | Inr i \<Rightarrow> moves (stack s @ [i]) s t \<and> i = length (txns s) \<and> i < length (txns t)"
  using assms(1)
proof (cases rule: begin_cases)
  case (build e)
  then show ?thesis using build_tidy [of s lvl j] assms(2) by (simp add: tidy_def)
next
  case (rest u e)
  then have "moves (stack s) s u"
    using build_tidy [of s lvl j] assms(2) by (simp add: tidy_def)
  then show ?thesis
    using moves_tidy stable_run [OF td.begin_rest rest(2)] rest(3) by simp
next
  case (ok u v)
  then have su: "moves (stack s) s u"
    using build_tidy [of s lvl j] assms(2) by (simp add: tidy_def)
  have uv: "tidy u v" by (rule stable_run [OF td.begin_rest ok(2)])
  have v: "moves (stack s) s v" by (rule moves_tidy [OF su uv])
  have "length (txns u) \<le> length (txns v)"
    using uv moves_wf [OF su] by (simp add: tidy_def moves_def ctors_kept_def)
  moreover have "length (txns u) = Suc (length (txns s))"
    using build_Inr [OF ok(1)] by auto
  ultimately have "length (txns s) < length (txns v)" by simp
  from moves_push [OF v this] this show ?thesis unfolding ok(3,4) by simp
qed

lemma pop_stack_run: "pop_stack s = (Inr (), s\<lparr>stack := butlast (stack s)\<rparr>)"
  by (simp add: pop_stack_def modify_def)

lemma pop_if_top_run:
  "pop_if_top i s = (Inr (), if current_transaction s = Some i
     then s\<lparr>stack := butlast (stack s)\<rparr> else s)"
  by (simp add: pop_if_top_def pop_stack_def comp_simps)

lemma moves_pop: "moves xs s t \<Longrightarrow> moves (butlast xs) s (t\<lparr>stack := butlast (stack t)\<rparr>)"
  by (auto simp: moves_def wf_sys_def wf_objects_def ctors_kept_def log_grows_def tx_def
      dest: in_set_butlastD)

lemma stable_moves: "stable tidy m \<Longrightarrow> wf_sys s \<Longrightarrow> moves (stack s) s (snd (m s))"
  using stableD by (fastforce simp: tidy_def)

lemma moves_andthen:
  assumes "moves xs s (snd (m s))" and "stable tidy n"
  shows "moves xs s (snd (andthen m n s))"
proof (cases "m s")
  case (Pair r t)
  then show ?thesis using assms moves_tidy stableD [OF assms(2), of t]
    by (cases r) (simp_all add: comp_simps)
qed

lemma moves_ensure:
  assumes "moves xs s (snd (m u))" and "stable tidy f"
  shows "moves xs s (snd (ensure m f u))"
proof (cases "m u")
  case (Pair r t)
  then show ?thesis using assms moves_tidy stableD [OF assms(2), of t]
    by (cases "f t"; cases "fst (f t)") (auto simp: ensure_def)
qed

lemma commit_moves:
  assumes "hooks tidy env" and "wf_sys s"
  shows "moves (butlast (stack s)) s (snd (commit_transaction env s))"
proof (cases "current_transaction s")
  case None
  then show ?thesis using assms(2)
    by (simp add: commit_transaction_def comp_simps current_transaction_def moves_def split: if_splits)
next
  case (Some i)
  obtain q u where u: "before_commit_records env i s = (q, u)" by fastforce
  then have "moves (stack s) s u"
    using stable_moves [OF td.before_commit_records [OF assms(1)] assms(2), of i] by simp
  then have "moves (butlast (stack s)) s (snd (ensure (before_commit_records env i) pop_stack s))"
    using u moves_pop by (simp add: ensure_def pop_stack_run)
  moreover have "stable tidy (andthen (bind (gets (\<lambda>s. dirty (tx s i)))
      (\<lambda>d. only_if d dirty_current_transaction)) (andthen (commit env i) (commit_records env i)))"
    by (intro td.rules td.dirty_current td.commit td.commit_records assms)
  ultimately show ?thesis
    using moves_andthen by (simp add: commit_transaction_def bind_gets [of current_transaction] Some)
qed

lemma rollback_moves:
  assumes "hooks tidy env" and "wf_sys s"
  shows "moves (case given of
       None \<Rightarrow> butlast (stack s)
     | Some i \<Rightarrow> if current_transaction s = Some i then butlast (stack s) else stack s)
    s (snd (rollback_transaction env given s))"
proof -
  define txn where "txn = (case given of None \<Rightarrow> current_transaction s | Some i \<Rightarrow> Some i)"
  show ?thesis
  proof (cases txn)
    case None
    then show ?thesis using assms(2)
      by (cases given) (auto simp: txn_def rollback_transaction_def comp_simps moves_def
          current_transaction_def split: if_splits)
  next
    case (Some i)
    obtain q u where u: "rollback env i s = (q, u)" by fastforce
    then have su: "moves (stack s) s u"
      using stable_moves [OF td.rollback assms(2), of env i] by simp
    then have "current_transaction u = current_transaction s"
      by (simp add: current_transaction_def moves_def)
    then have "moves (if current_transaction s = Some i then butlast (stack s) else stack s) s
        (snd (ensure (rollback env i) (pop_if_top i) s))"
      using u su moves_pop by (simp add: ensure_def pop_if_top_run)
    then have "moves (if current_transaction s = Some i then butlast (stack s) else stack s) s
        (snd (andthen (ensure (rollback env i) (pop_if_top i)) (rollback_records env i) s))"
      by (rule moves_andthen) (rule td.rollback_records [OF assms(1)])
    then show ?thesis
      using Some by (cases given) (auto simp: txn_def rollback_transaction_def
          bind_gets [of current_transaction])
  qed
qed

section \<open>A block inside a new transaction\<close>

lemma andthen_throw_fails: "andthen m (throw e) s = (r, t) \<Longrightarrow> \<exists>e'. r = Inl e'"
  by (auto simp: comp_simps split: prod.splits sum.splits)

text \<open>The body: it ends with the stack it started with when it returns, and one transaction
  shorter when it throws.\<close>

lemma run_body_moves:
  assumes "hooks tidy env" and "wf_sys s" and "stack s = stk @ [i]"
    and "stable tidy body" and "run_body env i body s = (r, t)"
  shows "moves (case r of Inr x \<Rightarrow> stk @ [i] | Inl e \<Rightarrow> stk) s t"
proof (cases "body s")
  case (Pair q u)
  then have u: "moves (stk @ [i]) s u" using stable_moves [OF assms(4,2)] assms(3) by simp
  show ?thesis
  proof (cases q)
    case (Inr x)
    then show ?thesis using assms(5) Pair u by (auto simp: run_body_def catching_def)
  next
    case (Inl e)
    let ?h = "andthen (rollback_transaction env None) (andthen (after_failure_actions env i e) (throw e))"
    have "moves stk u (snd (rollback_transaction env None u))"
      using rollback_moves [OF assms(1) moves_wf [OF u], of None] moves_stack [OF u] by simp
    then have "moves stk u (snd (?h u))"
      by (rule moves_andthen) (intro td.rules td.after_failure_actions)
    moreover have h: "?h u = (r, t)"
      using assms(5) Pair Inl by (simp add: run_body_def catching_def)
    moreover obtain e' where "r = Inl e'"
      using andthen_throw_fails [OF h [folded andthen_assoc]] by (elim exE)
    ultimately show ?thesis using moves_trans [OF u, of stk t] by (metis snd_conv sum.case(1))
  qed
qed

lemma commit_or_undo_moves:
  assumes "hooks tidy env" and "wf_sys s" and "stack s = stk @ [i]" and "i \<notin> set stk"
  shows "moves stk s (snd (commit_or_undo env i s))"
proof -
  obtain q u where u: "commit_transaction env s = (q, u)" by fastforce
  then have su: "moves stk s u"
    using commit_moves [OF assms(1,2)] assms(3) by simp
  then have not_cur: "current_transaction u \<noteq> Some i"
    using assms(4) by (auto simp: current_transaction_def moves_def split: if_splits)
  have rb: "moves stk u (snd (rollback_transaction env (Some i) u))"
    using rollback_moves [OF assms(1) moves_wf [OF su], of "Some i"] not_cur moves_stack [OF su] by simp
  have inv: "moves stk u (snd (with_heap (\<lambda>h. invalidate_bang h i) u))"
    using stable_moves [OF td.with_heap [OF invalidate_bang_shape] moves_wf [OF su]]
      moves_stack [OF su] by simp
  have nop: "moves stk u u"
    using su by (simp add: moves_def)
  have "moves stk u (snd (andthen (bind (is_completed_act i) (\<lambda>d.
      if e = ConnectionFailed then (if d then skip else with_heap (\<lambda>h. invalidate_bang h i))
      else (if d then skip else rollback_transaction env (Some i)))) (throw e) u))" for e
    by (rule moves_andthen)
      (auto simp: bind_def is_completed_act_def gets_def ret_def rb inv nop td.throw)
  from moves_trans [OF su this] show ?thesis
    using u su by (cases q) (auto simp: commit_or_undo_def catching_def)
qed

lemma emit_moves: "moves xs s t \<Longrightarrow> moves xs s (snd (emit e t))"
  using moves_tidy stableD [OF td.emit] by blast

lemma current_snoc: "stack s = stk @ [i] \<Longrightarrow> current_transaction s = Some i"
  by (simp add: current_transaction_def)

lemma block_moves:
  assumes "hooks tidy env" and "stable tidy body" and "wf_sys s"
    and "begin_transaction env lvl j lz s = (Inr i, u)"
  shows "moves (stack s) s (snd (bind (run_body env i body)
       (\<lambda>x. andthen (commit_or_undo env i) (ret x)) u))" (is "moves _ _ ?v")
    and "i < length (txns (snd (bind (run_body env i body)
       (\<lambda>x. andthen (commit_or_undo env i) (ret x)) u)))"
proof -
  have u: "moves (stack s @ [i]) s u" and i: "i = length (txns s)"
    using begin_moves [OF assms(4,3)] by auto
  then have fresh: "i \<notin> set (stack s)" using assms(3) by (auto simp: wf_sys_def wf_objects_def)
  obtain r v where v: "run_body env i body u = (r, v)" by fastforce
  note body = run_body_moves [OF assms(1) moves_wf [OF u] moves_stack [OF u] assms(2) v]
  have uw: "moves (stack s) u ?v"
  proof (cases r)
    case (Inl e)
    then show ?thesis using v body by (simp add: bind_def)
  next
    case (Inr x)
    then have uv: "moves (stack s @ [i]) u v" using body by simp
    have "moves (stack s) v (snd (andthen (commit_or_undo env i) (ret x) v))"
      by (intro moves_andthen commit_or_undo_moves assms(1) moves_wf [OF uv] moves_stack [OF uv]
          fresh td.ret)
    then show ?thesis using v Inr moves_trans [OF uv] by (simp add: bind_def)
  qed
  then show "moves (stack s) s ?v" by (rule moves_trans [OF u])
  show "i < length (txns ?v)"
    using uw begin_moves [OF assms(4,3)] by (simp add: moves_def ctors_kept_def)
qed

lemma within_moves:
  assumes "hooks tidy env" and "\<And>i. stable tidy (fn i)"
  shows "stable tidy (within_new_transaction env lvl j fn)"
proof (rule stableI, unfold tidy_def, rule impI)
  fix s assume wf: "wf_sys s"
  obtain q u where b: "begin_transaction env lvl j True s = (q, u)" by fastforce
  show "moves (stack s) s (snd (within_new_transaction env lvl j fn s))"
  proof (cases q)
    case (Inl e)
    then have "moves (stack s) s (snd (emit ThrowAway u))"
      using begin_moves [OF b wf] emit_moves by simp
    then show ?thesis using b Inl
      by (simp add: within_new_transaction_def ensure_def throw_def emit_def modify_def)
  next
    case (Inr i)
    let ?run = "bind (run_body env i (fn i)) (\<lambda>x. andthen (commit_or_undo env i) (ret x))"
    have "moves (stack s) s (snd (?run u))"
      using block_moves(1) [OF assms wf] b Inr by blast
    then have "moves (stack s) s (snd (ensure ?run (discard_unless_completed i) u))"
      by (rule moves_ensure) (rule td.discard_unless_completed)
    then show ?thesis
      using b Inr by (simp add: within_new_transaction_def)
  qed
qed

section \<open>Outcomes\<close>

text \<open>The error handlers rethrow, so a body or a commit that throws is never turned into a value.\<close>

lemma rethrow_Inr: "catching m (\<lambda>e. andthen (h e) (throw e)) s = (Inr x, t) \<Longrightarrow> m s = (Inr x, t)"
proof (cases "m s")
  case (Pair q u)
  assume run: "catching m (\<lambda>e. andthen (h e) (throw e)) s = (Inr x, t)"
  show "m s = (Inr x, t)"
  proof (cases q)
    case (Inl e)
    then have "andthen (h e) (throw e) u = (Inr x, t)"
      using run Pair by (simp add: catching_def)
    from andthen_throw_fails [OF this] show ?thesis by simp
  next
    case (Inr y)
    then show ?thesis using run Pair by (simp add: catching_def)
  qed
qed

lemma run_body_Inr: "run_body env i body s = (Inr x, t) \<Longrightarrow> body s = (Inr x, t)"
  unfolding run_body_def andthen_assoc [symmetric] by (rule rethrow_Inr)

lemma commit_or_undo_Inr: "commit_or_undo env i s = (Inr (), t) \<Longrightarrow> commit_transaction env s = (Inr (), t)"
  unfolding commit_or_undo_def by (rule rethrow_Inr)

lemma ensure_Inr: "ensure m f s = (Inr x, t) \<Longrightarrow> \<exists>u. m s = (Inr x, u) \<and> f u = (Inr (), t)"
  by (auto simp: ensure_def split: prod.splits sum.splits)

lemma within_Inr:
  assumes "within_new_transaction env lvl j fn s = (Inr x, t)"
  obtains u v w where "begin_transaction env lvl j True s = (Inr (length (txns s)), u)"
    and "fn (length (txns s)) u = (Inr x, v)"
    and "commit_transaction env v = (Inr (), w)"
    and "discard_unless_completed (length (txns s)) w = (Inr (), t)"
proof (cases "begin_transaction env lvl j True s")
  case (Pair q u)
  show thesis
  proof (cases q)
    case (Inl e)
    then show thesis using assms Pair
      by (auto simp: within_new_transaction_def ensure_def throw_def split: prod.splits sum.splits)
  next
    case (Inr i)
    then have i: "i = length (txns s)"
      using Pair begin_cases [OF Pair] by auto
    from assms Pair Inr obtain w where w:
      "bind (run_body env i (fn i)) (\<lambda>x. andthen (commit_or_undo env i) (ret x)) u = (Inr x, w)"
      "discard_unless_completed i w = (Inr (), t)"
      by (auto simp: within_new_transaction_def dest: ensure_Inr)
    from w(1) obtain v where v: "run_body env i (fn i) u = (Inr x, v)"
        "commit_or_undo env i v = (Inr (), w)"
      by (auto simp: bind_def andthen_def ret_def split: prod.splits sum.splits)
    then show thesis
      using that [of u v w] Pair Inr i w(2) by (auto dest: run_body_Inr commit_or_undo_Inr)
  qed
qed

end
