(* ===== verification/Txn_Outcome.thy ===== *)
theory Txn_Outcome
  imports Txn_Stack
begin

text \<open>
  What a block run by \<open>withinNewTransaction\<close> amounts to: which outcomes are possible, what they
  say of the transaction's state, and that a transaction nobody used costs no statement.
\<close>

section \<open>A committed transaction stays committed\<close>

definition committed_in :: "nat \<Rightarrow> sys \<Rightarrow> bool" where
  "committed_in i s \<longleftrightarrow> i < length (heap s) \<and> is_committed (st (heap s ! i))"

definition completed_in :: "nat \<Rightarrow> sys \<Rightarrow> bool" where
  "completed_in i s \<longleftrightarrow> i < length (heap s) \<and> is_completed (st (heap s ! i))"

interpretation cm: calm "kept (committed_in i)" for i
  by unfold_locales (simp_all add: kept_def committed_in_def)

interpretation lg: calm log_grows
  by unfold_locales (auto intro: log_grows_trans simp: log_grows_def)

lemma committed_completed: "committed_in i s \<Longrightarrow> completed_in i s"
  by (simp add: committed_in_def completed_in_def is_completed_def)

lemma commit_marks:
  assumes "commit env i s = (Inr (), t)" and "wf_sys s" and "i < length (heap s)"
  shows "committed_in i t"
proof -
  have set_ok: "committed_in i (s'\<lparr>heap := commit_bang (heap s') i\<rparr>)"
       "committed_in i (s'\<lparr>heap := full_commit_bang (heap s') i\<rparr>)" if "i < length (heap s')" for s'
    using that by (simp_all add: committed_in_def commit_bang_def full_commit_bang_def set_st_def
        is_committed_def)
  have after: "committed_in i t"
    if "andthen m (andthen (with_heap (\<lambda>h. Some (f h))) (finish_if_materialized i out)) s = (Inr (), t)"
      and "stable tidy m" and "f = (\<lambda>h. commit_bang h i) \<or> f = (\<lambda>h. full_commit_bang h i)" for m :: "unit act" and f out
  proof -
    from that(1) obtain u where u: "m s = (Inr (), u)"
      and v: "andthen (with_heap (\<lambda>h. Some (f h))) (finish_if_materialized i out) u = (Inr (), t)"
      by (rule andthen_returns) simp
    from v have v: "finish_if_materialized i out (u\<lparr>heap := f (heap u)\<rparr>) = (Inr (), t)"
      by (simp add: andthen_def bind_def with_heap_def)
    have "moves (stack s) s u" using stable_run [OF that(2) u] assms(2) by (simp add: tidy_def)
    then have "i < length (heap u)"
      using moves_heap assms(2,3) by fastforce
    then have "committed_in i (u\<lparr>heap := f (heap u)\<rparr>)" using that(3) set_ok by auto
    then show ?thesis
      using stable_run [OF cm.finish_if_materialized v] by (simp add: kept_def)
  qed
  show ?thesis
  proof (cases "kind (tx s i)")
    case Real
    show ?thesis
      using assms(1) unfolding commit_def bind_gets [of "\<lambda>s. kind (tx s i)"] Real commit_real_def
      by (simp, elim after, intro td.rules td.db_exec) simp
  next
    case (Savepoint nm)
    show ?thesis
      using assms(1) unfolding commit_def bind_gets [of "\<lambda>s. kind (tx s i)"] Savepoint commit_savepoint_def
      by (simp, elim after, intro td.rules td.send) simp
  next
    case (RestartParent p)
    then show ?thesis
      using assms(1,3) by (auto simp: commit_def bind_gets with_heap_def set_ok)
  qed
qed

lemma commit_pops:
  assumes "hooks tidy env" and "wf_sys s"
  shows "moves (butlast (stack s)) s (snd (ensure (before_commit_records env i) pop_stack s))"
proof (cases "before_commit_records env i s")
  case (Pair q u)
  then show ?thesis
    using moves_pop [OF stable_moves [OF td.before_commit_records [OF assms(1)] assms(2), of i]]
    by (simp add: ensure_def pop_stack_run)
qed

lemma commit_transaction_marks:
  assumes "hooks tidy env" and "hooks (kept (committed_in i)) env"
    and "wf_sys s" and "current_transaction s = Some i"
    and "commit_transaction env s = (Inr (), t)"
  shows "committed_in i t"
proof -
  let ?dirty = "bind (gets (\<lambda>s. dirty (tx s i))) (\<lambda>d. only_if d dirty_current_transaction)"
  have run: "andthen (ensure (before_commit_records env i) pop_stack)
      (andthen ?dirty (andthen (commit env i) (commit_records env i))) s = (Inr (), t)"
    using assms(5) by (simp add: commit_transaction_def bind_gets [of current_transaction] assms(4))
  from andthen_returns [OF run] obtain u where
    u: "ensure (before_commit_records env i) pop_stack s = (Inr (), u)" and
    ut: "andthen ?dirty (andthen (commit env i) (commit_records env i)) u = (Inr (), t)" by auto
  from andthen_returns [OF ut] obtain v where
    v: "?dirty u = (Inr (), v)" and vt: "andthen (commit env i) (commit_records env i) v = (Inr (), t)"
    by auto
  from andthen_returns [OF vt] obtain w where
    w: "commit env i v = (Inr (), w)" "commit_records env i w = (Inr (), t)" by auto
  have su: "moves (butlast (stack s)) s u"
    using commit_pops [OF assms(1,3), of i] u by simp
  have "stable tidy ?dirty"
    by (intro td.rules td.dirty_current)
  then have "tidy u v" using v by (rule stable_run)
  with su have sv: "moves (butlast (stack s)) s v" by (rule moves_tidy)
  then have "i < length (heap v)"
    using moves_heap [OF sv assms(3)] current_lt [OF assms(3,4)] wf_sys_length [OF assms(3)] by simp
  then have "committed_in i w" using commit_marks [OF w(1) moves_wf [OF sv]] by simp
  then show ?thesis
    using stable_run [OF cm.commit_records [OF assms(2)] w(2)] by (simp add: kept_def)
qed

lemma discard_log:
  assumes "discard_unless_completed i s = (r, t)"
  shows "(t = s \<and> is_completed (st (heap s ! i))) \<or> (\<exists>es. log t = log s @ ThrowAway # es)"
proof (cases "is_completed (st (heap s ! i))")
  case True
  then show ?thesis
    using assms by (simp add: discard_unless_completed_def is_completed_act_def bind_gets ret_def)
next
  case False
  then obtain u where u: "u = s\<lparr>log := log s @ [ThrowAway]\<rparr>" "incomplete_bang i u = (r, t)"
    using assms unfolding discard_unless_completed_def is_completed_act_def bind_gets
    by (simp add: andthen_def emit_def modify_def bind_def)
  then show ?thesis
    using stable_run [OF lg.incomplete_bang u(2)] by (auto simp: log_grows_def prefix_def)
qed

section \<open>The block\<close>

text \<open>A connection whose statements all succeed and whose records and callbacks do nothing; the
  examples below run on it.\<close>

definition plain_env :: env where
  "plain_env = \<lparr>supports_lazy = True, supports_restart = False, sp_errors_invalidate = True,
     before_on_all = True, cb_fuel = 10, db_reply = (\<lambda>_ _. None), conn_active = (\<lambda>_. True),
     rec_equals = (\<lambda>_ _. False), rec_triggers = (\<lambda>_. True), rec_destroyed = (\<lambda>_. False),
     rec_first_saved = (\<lambda>_. False), hook = (\<lambda>_. skip)\<rparr>"

lemma plain_hooks: "(\<And>s. R s s) \<Longrightarrow> hooks R plain_env"
  by (simp add: hooks_def plain_env_def stable_def ret_def)

lemma wf_new_manager: "wf_sys new_manager"
  by (simp add: wf_sys_def wf_objects_def new_manager_def wf_store_def)

lemma within_cases:
  assumes "within_new_transaction env lvl j fn s = (r, t)"
  obtains (unbegun) e u where "begin_transaction env lvl j True s = (Inl e, u)" "r = Inl e"
        "t = u\<lparr>log := log u @ [ThrowAway]\<rparr>"
        | (ran) u q v where "begin_transaction env lvl j True s = (Inr (length (txns s)), u)"
        "bind (run_body env (length (txns s)) (fn (length (txns s))))
           (\<lambda>x. andthen (commit_or_undo env (length (txns s))) (ret x)) u = (q, v)"
        "ensure (\<lambda>_. (q, v)) (discard_unless_completed (length (txns s))) v = (r, t)"
proof (cases "begin_transaction env lvl j True s")
  case (Pair q u)
  show thesis
  proof (cases q)
    case (Inl e)
    then show thesis using unbegun [of e u] assms Pair
      by (simp add: within_new_transaction_def ensure_def throw_def emit_def modify_def)
  next
    case (Inr i)
    then have i: "i = length (txns s)" using begin_cases [OF Pair] by auto
    obtain q' v where
      "bind (run_body env i (fn i)) (\<lambda>x. andthen (commit_or_undo env i) (ret x)) u = (q', v)"
      by fastforce
    then show thesis using ran [of u q' v] assms Pair Inr i
      by (simp add: within_new_transaction_def ensure_def)
  qed
qed

text \<open>
  C1. A block run by \<open>withinNewTransaction\<close> leaves the stack of open transactions exactly as it
  found it, whether it returns or throws, whatever the database answers and wherever the error
  comes from, provided the body and the hooks do; the state stays well-formed, the log only grows
  and no transaction object is re-made. The conclusion has the form of the premise, so blocks nest.
\<close>

theorem within_restores_stack:
  assumes "hooks tidy env" and "\<And>i. stable tidy (fn i)" and "wf_sys s"
    and "within_new_transaction env lvl j fn s = (r, t)"
  shows "stack t = stack s \<and> wf_sys t \<and> log_grows s t \<and> ctors_kept s t"
proof -
  have "tidy s t"
    by (rule stable_run [OF within_moves [OF assms(1,2)] assms(4)])
  then show ?thesis using assms(3) by (simp add: tidy_def moves_def)
qed

lemma within_restores_stack_example:
  "let (r, t) = within_new_transaction plain_env None True
     (\<lambda>_. within_new_transaction plain_env None True (\<lambda>_. throw (OtherError 0) :: unit act))
     new_manager
   in stack t = [] \<and> wf_sys t"
proof -
  obtain r t where run: "within_new_transaction plain_env None True
      (\<lambda>_. within_new_transaction plain_env None True (\<lambda>_. throw (OtherError 0) :: unit act))
      new_manager = (r, t)" by fastforce
  have h: "hooks tidy plain_env" by (rule plain_hooks) (rule td.refl)
  have "stack t = stack new_manager \<and> wf_sys t \<and> log_grows new_manager t \<and> ctors_kept new_manager t"
    by (rule within_restores_stack [OF h _ wf_new_manager run], rule within_moves [OF h], rule td.throw)
  then show ?thesis unfolding run by (simp add: new_manager_def)
qed

text \<open>
  C3. A block that returns a value has run its body to a normal return and its transaction is
  committed: no error of the body, of a callback or of the commit itself is turned into a result.
\<close>

theorem within_returns_only_committed:
  assumes "hooks tidy env" and "hooks (kept (committed_in (length (txns s)))) env"
    and "\<And>i. stable tidy (fn i)" and "wf_sys s"
    and "within_new_transaction env lvl j fn s = (Inr x, t)"
  shows "committed_in (length (txns s)) t \<and>
    (\<exists>u v. begin_transaction env lvl j True s = (Inr (length (txns s)), u) \<and>
       fn (length (txns s)) u = (Inr x, v))"
proof -
  let ?i = "length (txns s)"
  from within_Inr [OF assms(5)] obtain u v w where
    b: "begin_transaction env lvl j True s = (Inr ?i, u)" and body: "fn ?i u = (Inr x, v)" and
    c: "commit_transaction env v = (Inr (), w)" and d: "discard_unless_completed ?i w = (Inr (), t)"
    by blast
  have u: "moves (stack s @ [?i]) s u" using begin_moves [OF b assms(4)] by simp
  have "moves (stack u) u v"
    using stable_run [OF assms(3) body] moves_wf [OF u] by (simp add: tidy_def)
  then have "wf_sys v" and "current_transaction v = Some ?i"
    using u by (simp_all add: moves_def current_snoc)
  then have "committed_in ?i w" using commit_transaction_marks assms(1,2) c by blast
  moreover have "w = t"
    using d \<open>committed_in ?i w\<close> committed_completed unfolding discard_unless_completed_def
      is_completed_act_def bind_gets completed_in_def by (auto simp: ret_def)
  ultimately show ?thesis using b body by blast
qed

lemma within_returns_only_committed_example:
  "let (r, t) = within_new_transaction plain_env None True (\<lambda>_. send plain_env (Statement 7)) new_manager
   in r = Inr () \<and> committed_in 0 t"
proof -
  let ?fn = "\<lambda>_. send plain_env (Statement 7)"
  obtain r t where run: "within_new_transaction plain_env None True ?fn new_manager = (r, t)"
    by fastforce
  have "fst (within_new_transaction plain_env None True ?fn new_manager) = Inr ()"
    by code_simp
  with run have run: "within_new_transaction plain_env None True ?fn new_manager = (Inr (), t)"
    by simp
  have h: "hooks tidy plain_env" by (rule plain_hooks) (rule td.refl)
  have k: "hooks (kept (committed_in (length (txns new_manager)))) plain_env"
    by (rule plain_hooks) (simp add: kept_def)
  have "committed_in (length (txns new_manager)) t"
    using within_returns_only_committed [OF h k td.send wf_new_manager run] by blast
  then show ?thesis unfolding run by (simp add: new_manager_def)
qed

text \<open>
  C2. Whatever happens, when the block ends its transaction is committed or rolled back, or
  else the connection has been thrown away (the event is in the log): no connection goes back to
  its pool with the block's transaction in an unknown state.
\<close>

theorem within_never_leaves_unfinished:
  assumes "hooks tidy env" and "\<And>i. stable tidy (fn i)" and "wf_sys s"
    and "within_new_transaction env lvl j fn s = (r, t)"
  shows "completed_in (length (txns s)) t \<or> (\<exists>es. log t = log s @ es \<and> ThrowAway \<in> set es)"
  using assms(4)
proof (cases rule: within_cases)
  case (unbegun e u)
  have "log_grows s u" using begin_moves [OF unbegun(1) assms(3)] by (simp add: moves_def)
  then show ?thesis using unbegun(3) by (auto simp: log_grows_def prefix_def)
next
  case (ran u q v)
  let ?i = "length (txns s)"
  have sv: "moves (stack s) s v" and i: "?i < length (txns v)"
    using block_moves [OF assms(1) assms(2) [of ?i] assms(3) ran(1)] unfolding ran(2) by simp_all
  obtain p w where p: "discard_unless_completed ?i v = (p, w)" by fastforce
  then have tw: "t = w" using ran(3) by (cases p) (auto simp: ensure_def)
  from discard_log [OF p] show ?thesis
  proof
    assume w: "w = v \<and> is_completed (st (heap v ! ?i))"
    then show ?thesis using tw i wf_sys_length [OF moves_wf [OF sv]] by (simp add: completed_in_def)
  next
    assume "\<exists>es. log w = log v @ ThrowAway # es"
    then show ?thesis using tw sv by (auto simp: moves_def log_grows_def prefix_def)
  qed
qed


text \<open>A connection that fails when asked to commit.\<close>

definition broken_env :: env where
  "broken_env = plain_env\<lparr>db_reply := (\<lambda>_ c. if c = CommitDb then Some ConnectionFailed else None)\<rparr>"

lemma within_never_leaves_unfinished_example:
  "let (r, t) = within_new_transaction broken_env None True (\<lambda>_. send broken_env (Statement 7)) new_manager
   in \<not> completed_in 0 t \<and> ThrowAway \<in> set (log t)"
proof -
  let ?fn = "\<lambda>_. send broken_env (Statement 7)"
  obtain r t where run: "within_new_transaction broken_env None True ?fn new_manager = (r, t)"
    by fastforce
  have h: "hooks tidy broken_env"
    by (simp add: hooks_def broken_env_def plain_env_def td.ret)
  have "completed_in (length (txns new_manager)) t \<or>
      (\<exists>es. log t = log new_manager @ es \<and> ThrowAway \<in> set es)"
    by (rule within_never_leaves_unfinished [OF h td.send wf_new_manager run])
  moreover have "\<not> completed_in 0 (snd (within_new_transaction broken_env None True ?fn new_manager))"
    by code_simp
  ultimately show ?thesis unfolding run by (simp add: new_manager_def)
qed

section \<open>A transaction nobody uses\<close>

lemma is_materialized_returns:
  "wf_sys s \<Longrightarrow> i < length (txns s) \<Longrightarrow> i < n \<Longrightarrow> \<exists>b. is_materialized n i s = (Inr b, s)"
proof (induction n arbitrary: i)
  case 0
  then show ?case by simp
next
  case (Suc n)
  show ?case
  proof (cases "kind (tx s i)")
    case (RestartParent p)
    then have "p < i" using Suc.prems by (auto simp: wf_sys_def wf_objects_def tx_def)
    then show ?thesis using Suc RestartParent by (simp add: bind_gets)
  qed (simp_all add: bind_gets ret_def)
qed

text \<open>A transaction as the constructors leave it, but for its state object.\<close>

definition untouched :: "nat \<Rightarrow> sys \<Rightarrow> bool" where
  "untouched i s \<longleftrightarrow> i < length (txns s) \<and> i < length (heap s) \<and>
     (\<exists>k j lvl rc. tx s i = new_txn k j lvl rc)"

lemma untouched_records: "untouched i s \<Longrightarrow> records i s = (Inr [], s)"
proof -
  assume u: "untouched i s"
  then have "(txns s)[i := (txns s ! i)\<lparr>recs := [], lazy_recs := []\<rparr>] = txns s"
    by (metis (no_types, lifting) list_update_id new_txn_def tx_def txn.update_convs(10,11) untouched_def)
  moreover have "recs (txns s ! i) = []" "lazy_recs (txns s ! i) = []"
    using u by (auto simp: untouched_def tx_def new_txn_def)
  ultimately show ?thesis
    by (simp add: records_def upd_tx_def andthen_def bind_def modify_def gets_def set_txn_def tx_def)
qed

lemma untouched_callbacks:
  "untouched i s \<Longrightarrow> 0 < cb_fuel env \<Longrightarrow> run_callbacks env ev i s = (Inr (), s)"
  by (cases "cb_fuel env") (auto simp: run_callbacks_def bind_gets untouched_def new_txn_def ret_def)

lemma untouched_before_commit:
  assumes "untouched i s" "0 < cb_fuel env"
  shows "before_commit_records env i s = (Inr (), s)"
  using untouched_records [OF assms(1)] untouched_callbacks [OF assms, of BeforeCommit]
  by (simp add: before_commit_records_def gets_def only_if_def ret_def andthen_def bind_def
      unique_records_def unique_records_by_equality_def run_action_only_def)

lemma untouched_commit_records:
  assumes "untouched i s" "0 < cb_fuel env"
  shows "\<exists>t. commit_records env i s = (Inr (), t) \<and> log t = log s \<and> heap t = heap s"
proof -
  have cs: "callbacks (tx s i) = []" using assms by (auto simp: untouched_def new_txn_def)
  show ?thesis
  proof (cases "run_commit_cbs (tx s i)")
    case True
    have "untouched i (s\<lparr>new_before := new_before s\<rparr>)" using assms by simp
    then show ?thesis
      using True untouched_records [OF assms(1)] untouched_callbacks [OF assms, of AfterCommit]
      by (simp add: commit_records_def gets_def andthen_def bind_def unique_records_def Let_def
          prepare_instances_def run_action_then_rest_def ensure_def ret_def)
  next
    case False
    then show ?thesis
      using untouched_records [OF assms(1)] cs
      by (simp add: commit_records_def gets_def andthen_def bind_def unique_records_def Let_def
          ret_def append_callbacks_def upd_tx_def modify_def set_txn_def gets_def split: option.splits)
  qed
qed

lemma untouched_commit:
  assumes "untouched i s"
  shows "\<exists>t. commit env i s = (Inr (), t) \<and> log t = log s \<and> untouched i t \<and> committed_in i t"
  using assms
  by (cases "kind (tx s i)")
    (auto simp: commit_def commit_savepoint_def commit_real_def with_heap_def andthen_def
      bind_def gets_def only_if_def ret_def finish_if_materialized_def untouched_def new_txn_def tx_def
      commit_bang_def full_commit_bang_def set_st_def committed_in_def is_committed_def)

lemma build_plain:
  assumes "\<not> iso_given lvl" and "wf_sys s"
  shows "\<exists>u. build_transaction lvl j s = (Inr (length (txns s)), u) \<and> untouched (length (txns s)) u
     \<and> lazy_enabled u = lazy_enabled s"
  using assms wf_sys_length [OF assms(2)]
  by (auto simp: build_defs comp_simps untouched_def tx_def add_child_def split: option.splits)

lemma lazy_begin:
  assumes "supports_lazy env" and "lazy_enabled s" and "\<not> iso_given lvl" and "wf_sys s"
  shows "\<exists>u. begin_transaction env lvl j True s = (Inr (length (txns s)), u) \<and> log u = log s \<and>
     untouched (length (txns s)) u \<and> current_transaction u = Some (length (txns s))"
proof -
  let ?i = "length (txns s)"
  obtain u where b: "build_transaction lvl j s = (Inr ?i, u)" and u: "untouched ?i u" "lazy_enabled u"
    using build_plain [OF assms(3,4)] assms(2) by blast
  have "wf_sys u" using build_wf [OF assms(4), of lvl j] b by simp
  then obtain m where "is_materialized (length (txns u)) ?i u = (Inr m, u)"
    using is_materialized_returns u(1) untouched_def by blast
  then have "begin_rest env lvl True ?i u = (Inr (), if m then u else u\<lparr>has_unmaterialized := True\<rparr>)"
    using assms(1,3) u(2) by (simp add: begin_rest_def is_materialized_act_def bind_gets bind_def
        gets_def ret_def modify_def)
  moreover have "log u = log s" using build_log [of lvl j s] b by simp
  moreover have "begin_transaction env lvl j True s = (andthen (begin_rest env lvl True ?i)
      (andthen (modify (\<lambda>s. s\<lparr>stack := stack s @ [?i]\<rparr>)) (ret ?i))) u"
    using b by (simp add: begin_unfold bind_def)
  ultimately show ?thesis using u(1)
    by (auto simp: andthen_def bind_def modify_def ret_def current_transaction_def untouched_def tx_def)
qed

text \<open>
  With lazy transactions on, a block whose body does nothing sends no statement and
  starts no instrumentation, nested or not: the log is unchanged, the body's value is returned
  and the transaction counts as committed.
\<close>

theorem unused_transaction_is_free:
  assumes "supports_lazy env" and "lazy_enabled s" and "\<not> iso_given lvl" and "0 < cb_fuel env"
    and "wf_sys s"
  shows "\<exists>t. within_new_transaction env lvl j (\<lambda>_. ret x) s = (Inr x, t) \<and> log t = log s \<and>
     committed_in (length (txns s)) t"
proof -
  let ?i = "length (txns s)"
  obtain u where u: "begin_transaction env lvl j True s = (Inr ?i, u)" "log u = log s"
      "untouched ?i u" "current_transaction u = Some ?i"
    using lazy_begin [OF assms(1,2,3,5)] by blast
  let ?v = "u\<lparr>stack := butlast (stack u)\<rparr>"
  have v: "untouched ?i ?v" and clean: "\<not> dirty (tx ?v ?i)"
    using u(3) by (auto simp: untouched_def tx_def new_txn_def)
  obtain w where w: "commit env ?i ?v = (Inr (), w)" "log w = log u" "untouched ?i w" "committed_in ?i w"
    using untouched_commit [OF v] by auto
  obtain t where t: "commit_records env ?i w = (Inr (), t)" "log t = log w" "heap t = heap w"
    using untouched_commit_records [OF w(3) assms(4)] by blast
  have "committed_in ?i t"
    using w(4) t(3) by (simp add: committed_in_def)
  moreover have "commit_transaction env u = (Inr (), t)"
    using w(1) t(1) u(4) clean untouched_before_commit [OF u(3) assms(4)]
    by (simp add: commit_transaction_def bind_gets [of current_transaction] ensure_def pop_stack_run
        andthen_def bind_def gets_def only_if_def ret_def)
  ultimately show ?thesis
    using u(1,2) w(2) t(2)
    by (simp add: within_new_transaction_def run_body_def commit_or_undo_def catching_def bind_def
        andthen_def ret_def ensure_def discard_unless_completed_def is_completed_act_def gets_def
        committed_in_def is_completed_def)
qed

lemma unused_transaction_is_free_example:
  "\<exists>t. within_new_transaction plain_env None True (\<lambda>_. ret (3 :: nat)) new_manager = (Inr 3, t) \<and>
     log t = log new_manager \<and> committed_in (length (txns new_manager)) t"
  by (rule unused_transaction_is_free [OF _ _ _ _ wf_new_manager])
    (simp_all add: plain_env_def new_manager_def iso_given_def)

end
