(* ===== verification/Txn_Passes.thy ===== *)
theory Txn_Passes
  imports Txn_Outcome
begin

text \<open>
  The passes over state objects, records and callbacks when a transaction ends: which state
  objects change, which records are told, and what a nested transaction hands to its parent.
\<close>

section \<open>State objects\<close>

text \<open>
  C4. Rolling back a top-level transaction marks it fully rolled back, marks every state
  object reachable from it through its children rolled back, whatever they were before (a savepoint
  already committed inside it included), changes no other object, and always ends.
\<close>

theorem full_rollback_marks_descendants:
  assumes "wf_store h" and "i < length h"
  shows "\<exists>h'. full_rollback_bang h i = Some h' \<and> length h' = length h \<and>
    (\<forall>j < length h. st (h' ! j) =
       (if j = i then Some FullyRolledback
        else if (child h)\<^sup>*\<^sup>* i j then Some Rolledback else st (h ! j)))"
  by (rule full_rollback_bang_spec [OF assms]) blast

definition three_states :: store where
  "three_states = [\<lparr>st = None, kids = [2]\<rparr>, \<lparr>st = Some Committed, kids = []\<rparr>,
     \<lparr>st = Some Committed, kids = []\<rparr>]"

lemma wf_three_states: "wf_store three_states"
  by (rule wf_storeI) (auto simp: three_states_def less_Suc_eq nth_Cons')

lemma full_rollback_marks_descendants_example:
  "\<exists>h'. full_rollback_bang three_states 0 = Some h' \<and> st (h' ! 0) = Some FullyRolledback \<and>
     st (h' ! 1) = Some Committed"
proof -
  obtain h' where h': "full_rollback_bang three_states 0 = Some h'" "length h' = length three_states"
    "\<forall>j < length three_states. st (h' ! j) =
       (if j = 0 then Some FullyRolledback
        else if (child three_states)\<^sup>*\<^sup>* 0 j then Some Rolledback else st (three_states ! j))"
    using full_rollback_marks_descendants [OF wf_three_states, of 0] by (auto simp: three_states_def)
  have "map_option (\<lambda>h. st (h ! 1)) (full_rollback_bang three_states 0) = Some (Some Committed)"
    by code_simp
  then show ?thesis using h' by (auto simp: three_states_def)
qed

section \<open>Unique records\<close>

lemma unique_records_facts:
  "set (unique_records rs) = set rs" "distinct (unique_records rs)" "subseq (unique_records rs) rs"
  by (simp_all add: unique_records_def uniq_from_set uniq_from_distinct uniq_from_subseq)

section \<open>Every record is told, once\<close>

text \<open>The records told of the outcome by a stretch of the log.\<close>

fun told :: "event list \<Rightarrow> nat list" where
  "told [] = []"
| "told (RecRolledback r f b # es) = r # told es"
| "told (RecCommitted r b # es) = r # told es"
| "told (_ # es) = told es"

lemma told_append [simp]: "told (es @ fs) = told es @ told fs"
  by (induction es rule: told.induct) auto

definition tells :: "nat list \<Rightarrow> sys \<Rightarrow> sys \<Rightarrow> bool" where
  "tells rs s t \<longleftrightarrow> (\<exists>es. log t = log s @ es \<and> told es = rs)"

lemma told_Cons: "told (e # es) = told [e] @ told es"
  using told_append [of "[e]" es] by simp

lemma tells_refl [simp]: "tells [] s s"
  by (simp add: tells_def)

lemma tells_trans: "tells rs s t \<Longrightarrow> tells qs t u \<Longrightarrow> tells (rs @ qs) s u"
  by (auto simp: tells_def)

interpretation tl: effect "tells []"
  by unfold_locales (auto simp: tells_def)

text \<open>Hooks that tell no record by themselves, and do not throw for a record told without its
  callbacks (\<open>shouldRunCallbacks: false\<close>).\<close>

definition discreet :: "env \<Rightarrow> bool" where
  "discreet env \<longleftrightarrow> hooks (tells []) env \<and>
     (\<forall>r full s. fst (hook env (RecRolledback r full False) s) = Inr ()) \<and>
     (\<forall>r s. fst (hook env (RecCommitted r False) s) = Inr ())"

lemma notify_tells: "hooks (tells []) env \<Longrightarrow> tells (told [e]) s (snd (notify env e s))"
proof -
  assume "hooks (tells []) env"
  then have "tells [] (s\<lparr>log := log s @ [e]\<rparr>) (snd (hook env e (s\<lparr>log := log s @ [e]\<rparr>)))"
    by (simp add: hooks_def stable_def)
  then obtain es where "log (snd (hook env e (s\<lparr>log := log s @ [e]\<rparr>))) = log s @ e # es"
      and "told es = []" by (auto simp: tells_def)
  moreover from this have "told (e # es) = told [e]" using told_Cons [of e es] by simp
  ultimately show ?thesis
    by (auto simp: notify_def emit_def andthen_def bind_def modify_def tells_def)
qed

lemma run_action_tells:
  assumes "\<And>r b s. tells [r] s (snd (cb r b s))"
  shows "run_action rs look cb s = (q, rest, t) \<Longrightarrow>
    \<exists>ds. rs = ds @ rest \<and> tells ds s t"
proof (induction rs arbitrary: s)
  case Nil
  then show ?case by simp
next
  case (Cons r rs)
  obtain p u where u: "cb r (look r = Some r) s = (p, u)" by fastforce
  then have su: "tells [r] s u" using assms by (metis snd_conv)
  show ?case
  proof (cases p)
    case (Inl e)
    then show ?thesis using Cons.prems u su by (intro exI [of _ "[r]"]) auto
  next
    case (Inr x)
    then have "run_action rs look cb u = (q, rest, t)" using Cons.prems u by simp
    from Cons.IH [OF this] obtain d where d: "rs = d @ rest" "tells d u t" by blast
    then show ?thesis using tells_trans [OF su d(2)] by (intro exI [of _ "r # d"]) simp
  qed
qed

lemma for_each_tells:
  assumes "\<And>r s. tells [r] s (snd (f r s))" and "\<And>r s. fst (f r s) = Inr ()"
  shows "\<exists>t. for_each rs f s = (Inr (), t) \<and> tells rs s t"
proof (induction rs arbitrary: s)
  case Nil
  then show ?case by (simp add: ret_def)
next
  case (Cons r rs)
  obtain u where u: "f r s = (Inr (), u)" using assms(2) by (metis prod.collapse)
  then have "tells [r] s u" using assms(1) by (metis snd_conv)
  moreover obtain t where "for_each rs f u = (Inr (), t)" "tells rs u t" using Cons by blast
  ultimately show ?case using u tells_trans [of "[r]" s u rs t] by (simp add: andthen_def bind_def)
qed

lemma run_action_then_rest_tells:
  assumes "\<And>r b s. tells [r] s (snd (cb r b s))" and "\<And>r s. fst (cb r False s) = Inr ()"
  shows "tells rs s (snd (run_action_then_rest rs look cb s))"
proof -
  obtain q rest t where run: "run_action rs look cb s = (q, rest, t)" by (metis prod_cases3)
  then obtain d where d: "rs = d @ rest" "tells d s t" using run_action_tells [OF assms(1) run] by blast
  obtain u where u: "for_each rest (\<lambda>i. cb i False) t = (Inr (), u)" "tells rest t u"
    using for_each_tells [of "\<lambda>i. cb i False" rest t] assms by blast
  show ?thesis
    using tells_trans [OF d(2) u(2)] d(1) run u(1) by (simp add: run_action_then_rest_def ensure_def)
qed

lemma records_run:
  "records i s = (Inr (recs (tx s i) @ lazy_recs (tx s i)),
     set_txn i (\<lambda>t. t\<lparr>recs := recs t @ lazy_recs t, lazy_recs := []\<rparr>) s)"
  if "i < length (txns s)"
  using that by (simp add: records_def upd_tx_def andthen_def bind_def modify_def gets_def tx_set_txn)

lemma tells_andthen: "tells rs s (snd (m s)) \<Longrightarrow> stable (tells []) n \<Longrightarrow> tells rs s (snd (andthen m n s))"
proof -
  assume m: "tells rs s (snd (m s))" and n: "stable (tells []) n"
  show ?thesis
  proof (cases "m s")
    case (Pair r t)
    then show ?thesis using m tells_trans [of rs s t "[]"] stableD [OF n, of t]
      by (cases r) (simp_all add: andthen_def bind_def)
  qed
qed

lemma run_callbacks_tells:
  assumes "hooks (tells []) env" shows "stable (tells []) (run_callbacks env ev i)"
proof -
  have cb: "stable (tells []) (run_callback env ev c)" for c
  proof (rule stableI)
    fix s show "tells [] s (snd (run_callback env ev c s))"
      using notify_tells [OF assms, of "CbRun (snd c)" s] by (simp add: run_callback_def ret_def)
  qed
  have "stable (tells []) (run_callbacks_from n env ev i k)" for n k
  proof (induction n arbitrary: k)
    case 0
    show ?case by (simp add: tl.throw)
  next
    case (Suc n)
    show ?case unfolding run_callbacks_from.simps by (intro tl.rules cb Suc.IH)
  qed
  then show ?thesis by (simp add: run_callbacks_def)
qed

lemma set_txn_tells: "tells rs (set_txn i f s) t = tells rs s t"
  by (simp add: tells_def)

text \<open>
  C5. When a transaction rolls back, or commits outside any other, every record enrolled in
  it is told so, each exactly once, in the order of enrolment, whether or not one of the records or
  a callback throws on the way (a record reached after an error is told without its callbacks).
\<close>

theorem every_record_told_once:
  assumes "discreet env" and "i < length (txns s)"
  shows "tells (unique_records (recs (tx s i) @ lazy_recs (tx s i))) s
      (snd (rollback_records env i s)) \<and>
    (run_commit_cbs (tx s i) \<longrightarrow>
     tells (unique_records (recs (tx s i) @ lazy_recs (tx s i))) s (snd (commit_records env i s)))"
proof -
  let ?rs = "recs (tx s i) @ lazy_recs (tx s i)"
  let ?s = "set_txn i (\<lambda>t. t\<lparr>recs := recs t @ lazy_recs t, lazy_recs := []\<rparr>) s"
  have h: "hooks (tells []) env" using assms(1) by (simp add: discreet_def)
  have pass: "tells rs u (snd (bind (prepare_instances env rs) (\<lambda>es.
      run_action_then_rest rs (find_entry env es) cb) u))"
    if "\<And>r b s. tells [r] s (snd (cb r b s))" "\<And>r s. fst (cb r False s) = Inr ()" for rs cb u
  proof -
    obtain es nb where "prepare_loop env rs [] (new_before u) = (es, nb)" by fastforce
    then show ?thesis
      using run_action_then_rest_tells [of cb, OF that, of rs "u\<lparr>new_before := nb\<rparr>"]
      by (simp add: bind_def prepare_instances_def tells_def)
  qed
  have quiet_note: "fst (notify env (RecRolledback r f False) u) = Inr ()"
      "fst (notify env (RecCommitted r False) u) = Inr ()" for r f u
    using assms(1) by (simp_all add: notify_def emit_def andthen_def bind_def modify_def discreet_def)
  have tell: "tells [r] u (snd (notify env (RecRolledback r f b) u))"
      "tells [r] u (snd (notify env (RecCommitted r b) u))" for r f b u
    using notify_tells [OF h, of "RecRolledback r f b" u] notify_tells [OF h, of "RecCommitted r b" u]
    by simp_all
  have "tells (unique_records ?rs) s (snd (bind (records i) (\<lambda>rs. let ite = unique_records rs in
          bind (gets (\<lambda>s. is_full_rollback (kind (tx s i)))) (\<lambda>full.
          bind (prepare_instances env ite) (\<lambda>es.
            run_action_then_rest ite (find_entry env es)
              (\<lambda>r run. notify env (RecRolledback r full run))))) s))"
    using pass [of "\<lambda>r run. notify env (RecRolledback r (is_full_rollback (kind (tx ?s i))) run)",
        OF tell(1) quiet_note(1), of "unique_records ?rs" ?s]
    by (simp add: bind_def [of "records i"] records_run [OF assms(2)] Let_def bind_gets set_txn_tells)
  then have "tells (unique_records ?rs) s (snd (rollback_records env i s))"
    unfolding rollback_records_def by (rule tells_andthen) (rule run_callbacks_tells [OF h])
  moreover have "tells (unique_records ?rs) s (snd (commit_records env i s))"
    if rc: "run_commit_cbs (tx s i)"
  proof -
    have "tells (unique_records ?rs) s (snd (bind (records i) (\<lambda>rs. let ite = unique_records rs in
          if True then bind (prepare_instances env ite) (\<lambda>es.
                 run_action_then_rest ite (find_entry env es)
                   (\<lambda>r run. notify env (RecCommitted r run)))
          else for_each ite add_transaction_record) s))"
      using pass [of "\<lambda>r run. notify env (RecCommitted r run)", OF tell(2) quiet_note(2), of "unique_records ?rs" ?s]
      by (simp add: bind_def [of "records i"] records_run [OF assms(2)] Let_def set_txn_tells)
    then show ?thesis
      unfolding commit_records_def bind_gets [of "\<lambda>s. run_commit_cbs (tx s i)"]
      by (simp only: rc if_True) (rule tells_andthen, simp, rule run_callbacks_tells [OF h])
  qed
  ultimately show ?thesis by blast
qed

text \<open>Two records enrolled twice over, the first of which throws when told with its callbacks.\<close>

definition failing_env :: env where
  "failing_env = plain_env\<lparr>hook := (\<lambda>e. if e = RecRolledback 4 True True then throw (OtherError 1)
     else skip)\<rparr>"

definition enrolled :: sys where
  "enrolled = new_manager\<lparr>heap := [new_state], txns := [(new_txn Real True None True)
     \<lparr>recs := [4, 5, 4], lazy_recs := [6, 5]\<rparr>], stack := [0]\<rparr>"

lemma every_record_told_once_example:
  "tells [4, 5, 6] enrolled (snd (rollback_records failing_env 0 enrolled)) \<and>
   fst (rollback_records failing_env 0 enrolled) = Inl (OtherError 1)"
proof
  have "discreet failing_env"
    by (simp add: discreet_def hooks_def failing_env_def plain_env_def tl.ret tl.throw)
      (simp add: ret_def)
  from every_record_told_once [OF this, of 0 enrolled]
  show "tells [4, 5, 6] enrolled (snd (rollback_records failing_env 0 enrolled))"
    by (simp add: enrolled_def tx_def unique_records_def)
  show "fst (rollback_records failing_env 0 enrolled) = Inl (OtherError 1)"
    by code_simp
qed

section \<open>Handing over to the parent\<close>

lemma enrol_all:
  "p < length (txns s) \<Longrightarrow> current_transaction s = Some p \<Longrightarrow>
   for_each rs add_transaction_record s =
     (Inr (), set_txn p (recs_update (\<lambda>old. old @ rs)) s)"
proof (induction rs arbitrary: s)
  case Nil
  have "recs_update (\<lambda>old. old @ []) t = t" for t :: txn by (cases t) simp
  then have "set_txn p (recs_update (\<lambda>old. old @ [])) s = s"
    unfolding set_txn_def by (simp only: list_update_id) simp
  then show ?case by (simp add: ret_def)
next
  case (Cons r rs)
  let ?u = "set_txn p (recs_update (\<lambda>old. old @ [r])) s"
  have "add_transaction_record r s = (Inr (), ?u)"
    using Cons.prems by (simp add: add_transaction_record_def bind_gets add_record_def upd_tx_def modify_def)
  moreover have "for_each rs add_transaction_record ?u =
      (Inr (), set_txn p (recs_update (\<lambda>old. old @ rs)) ?u)"
    using Cons by (intro Cons.IH) (simp_all only: current_transaction_def stack_set_txn length_set_txn)
  ultimately show ?case
    using Cons.prems(1) by (simp add: andthen_def bind_def set_txn_def comp_def)
qed

text \<open>
  C6. A transaction committed inside a joinable one tells no record and runs no callback: its
  unique records and all its callbacks are appended, in order, to those of the transaction that is
  current then, which will deal with them when it ends itself.
\<close>

theorem nested_commit_hands_over:
  assumes "\<not> run_commit_cbs (tx s i)" and "current_transaction s = Some p" and "p \<noteq> i"
    and "p < length (txns s)" and "i < length (txns s)"
  shows "\<exists>t. commit_records env i s = (Inr (), t) \<and> log t = log s \<and>
    recs (tx t p) = recs (tx s p) @ unique_records (recs (tx s i) @ lazy_recs (tx s i)) \<and>
    callbacks (tx t p) = callbacks (tx s p) @ callbacks (tx s i)"
proof -
  let ?rs = "unique_records (recs (tx s i) @ lazy_recs (tx s i))"
  let ?s = "set_txn i (\<lambda>t. t\<lparr>recs := recs t @ lazy_recs t, lazy_recs := []\<rparr>) s"
  let ?u = "set_txn p (recs_update (\<lambda>old. old @ ?rs)) ?s"
  have cur: "current_transaction ?s = Some p" "current_transaction ?u = Some p"
    using assms(2) by (simp_all only: current_transaction_def stack_set_txn)
  have "for_each ?rs add_transaction_record ?s = (Inr (), ?u)"
    by (rule enrol_all) (use assms cur in simp_all)
  then have "commit_records env i s = append_callbacks p (callbacks (tx ?u i)) ?u"
    using assms(1) cur(2)
    by (simp add: commit_records_def andthen_def bind_def gets_def records_run [OF assms(5)] Let_def)
  then show ?thesis
    using assms by (simp add: append_callbacks_def upd_tx_def modify_def tx_set_txn)
qed

lemma nested_commit_hands_over_example:
  "\<exists>t. commit_records plain_env 1 (enrolled\<lparr>txns := txns enrolled @
       [(new_txn (Savepoint ''sp'') True None False)\<lparr>recs := [8, 8], callbacks := [(AfterCommit, 3)]\<rparr>]\<rparr>)
     = (Inr (), t) \<and> recs (tx t 0) = [4, 5, 4, 8] \<and> callbacks (tx t 0) = [(AfterCommit, 3)]"
  using nested_commit_hands_over [of "enrolled\<lparr>txns := txns enrolled @
       [(new_txn (Savepoint ''sp'') True None False)\<lparr>recs := [8, 8], callbacks := [(AfterCommit, 3)]\<rparr>]\<rparr>"
       1 0 plain_env]
  by (auto simp: enrolled_def new_manager_def new_txn_def tx_def current_transaction_def
      unique_records_def)

section \<open>An unmaterialized savepoint begun again\<close>

text \<open>
  A savepoint still waiting to be materialized, then a transaction begun inside it with
  \<open>_lazy: false\<close>: materializing the parent sends \<open>SAVEPOINT\<close>, sending it first materializes
  everything pending, the parent included, and the parent's instrumenter is then started twice. The
  savepoint is created twice and the begin fails with \<open>InstrumentationAlreadyStartedError\<close>.
\<close>

theorem eager_begin_in_lazy_savepoint_fails:
  "let run = andthen (begin_transaction plain_env None True True)
       (andthen (send plain_env (Statement 7))
         (andthen (begin_transaction plain_env None True True)
           (begin_transaction plain_env None True False)));
     (r, t) = run new_manager
   in r = Inl InstrumentationAlreadyStarted \<and>
     filter (\<lambda>e. e = Sql (CreateSavepoint ''active_record_1'')) (log t) =
       [Sql (CreateSavepoint ''active_record_1''), Sql (CreateSavepoint ''active_record_1'')]"
  by code_simp

end
