(* ===== verification/Ruby_Hash.thy ===== *)
theory Ruby_Hash
  imports Prelude
begin

text \<open>
  \<^verbatim>\<open>packages/ruby-compat/src/hash.ts\<close>: Ruby's hash over JavaScript's containers.

  A JavaScript \<open>Map\<close> is an association list in insertion order (\<open>map_put\<close>, \<open>map_drop\<close>). A plain
  object is the list of its own properties in creation order together with what its prototype
  chain answers; reading its keys (\<open>own_keys\<close>) lists array indices first, in numeric order, as
  \<open>Object.keys\<close> does. The class \<open>Hash\<close> adds a default value or procedure and the frozen flag.
  An absent value (\<open>undefined\<close>) is \<open>None\<close>. A property named \<open>__proto__\<close> of an object that has
  \<open>Object.prototype\<close> behind it is not modelled here.

  The locales \<open>key_value\<close> and \<open>ordered_key_value\<close> state what a container promises about lookups
  and about the order of its keys, up to a normal form of keys; they are interpreted here for the
  \<open>Map\<close> and the object, and in \<open>Rack_Headers\<close> for the case-insensitive header table.
\<close>

section \<open>What a container promises\<close>

locale key_value =
  fixes norm :: "'k \<Rightarrow> 'k"
    and look :: "'s \<Rightarrow> 'k \<Rightarrow> 'v option"
    and put :: "'k \<Rightarrow> 'v \<Rightarrow> 's \<Rightarrow> 's"
    and drop_key :: "'k \<Rightarrow> 's \<Rightarrow> 's"
    and ok :: "'s \<Rightarrow> bool"
  assumes ok_put: "ok s \<Longrightarrow> ok (put k v s)"
    and ok_drop: "ok s \<Longrightarrow> ok (drop_key k s)"
    and look_put: "ok s \<Longrightarrow> look (put k v s) k' = (if norm k' = norm k then Some v else look s k')"
    and look_drop: "ok s \<Longrightarrow> look (drop_key k s) k' = (if norm k' = norm k then None else look s k')"
begin

lemma ok_put_all: "ok s \<Longrightarrow> ok (fold (\<lambda>(k, v). put k v) kvs s)"
  by (induction kvs arbitrary: s) (auto simp: ok_put)

lemma look_put_all:
  "ok s \<Longrightarrow> look (fold (\<lambda>(k, v). put k v) kvs s) k =
    (case map_of (rev (map (\<lambda>(k, v). (norm k, v)) kvs)) (norm k) of
       Some v \<Rightarrow> Some v | None \<Rightarrow> look s k)"
proof (induction kvs arbitrary: s)
  case Nil
  then show ?case by simp
next
  case (Cons kv kvs)
  then show ?case
    by (cases kv) (auto simp: ok_put look_put map_add_def split: option.splits)
qed

lemma ok_drop_all: "ok s \<Longrightarrow> ok (fold drop_key ks s)"
  by (induction ks arbitrary: s) (auto simp: ok_drop)

lemma look_drop_all:
  "ok s \<Longrightarrow> look (fold drop_key ks s) k = (if norm k \<in> norm ` set ks then None else look s k)"
  by (induction ks arbitrary: s) (auto simp: ok_drop look_drop)

end

locale ordered_key_value = key_value norm look put drop_key ok
  for norm :: "'k \<Rightarrow> 'k" and look :: "'s \<Rightarrow> 'k \<Rightarrow> 'v option"
    and put :: "'k \<Rightarrow> 'v \<Rightarrow> 's \<Rightarrow> 's" and drop_key :: "'k \<Rightarrow> 's \<Rightarrow> 's" and ok :: "'s \<Rightarrow> bool" +
  fixes keys_of :: "'s \<Rightarrow> 'k list"
  assumes look_keys: "ok s \<Longrightarrow> look s k = None \<longleftrightarrow> norm k \<notin> set (keys_of s)"
    and keys_put: "ok s \<Longrightarrow> keys_of (put k v s) =
      (if norm k \<in> set (keys_of s) then keys_of s else keys_of s @ [norm k])"
    and keys_drop: "ok s \<Longrightarrow> keys_of (drop_key k s) = filter (\<lambda>x. x \<noteq> norm k) (keys_of s)"
begin

lemma keys_put_all: "ok s \<Longrightarrow> \<exists>new. keys_of (fold (\<lambda>(k, v). put k v) kvs s) = keys_of s @ new \<and>
   set new = (norm \<circ> fst) ` set kvs - set (keys_of s)"
proof (induction kvs arbitrary: s)
  case Nil
  then show ?case by simp
next
  case (Cons kv kvs)
  obtain k v where kv: "kv = (k, v)" by (cases kv)
  from Cons.IH [OF ok_put [OF Cons.prems, of k v]] obtain new where new:
    "keys_of (fold (\<lambda>(k, v). put k v) kvs (put k v s)) = keys_of (put k v s) @ new"
    "set new = (norm \<circ> fst) ` set kvs - set (keys_of (put k v s))" by blast
  show ?case
  proof (cases "norm k \<in> set (keys_of s)")
    case True
    then show ?thesis using new keys_put [OF Cons.prems, of k v] kv by auto
  next
    case False
    then show ?thesis using new keys_put [OF Cons.prems, of k v] kv
      by (intro exI [of _ "norm k # new"]) auto
  qed
qed

lemma keys_drop_all: "ok s \<Longrightarrow> keys_of (fold drop_key ks s) =
   filter (\<lambda>x. x \<notin> norm ` set ks) (keys_of s)"
  by (induction ks arbitrary: s) (auto simp: ok_drop keys_drop intro: filter_cong)

end

section \<open>JavaScript's \<open>Map\<close>\<close>

fun map_put :: "'k \<Rightarrow> 'v \<Rightarrow> ('k \<times> 'v) list \<Rightarrow> ('k \<times> 'v) list" where
  "map_put k v [] = [(k, v)]"
| "map_put k v ((a, b) # es) = (if a = k then (a, v) # es else (a, b) # map_put k v es)"

definition map_drop :: "'k \<Rightarrow> ('k \<times> 'v) list \<Rightarrow> ('k \<times> 'v) list" where
  "map_drop k es = filter (\<lambda>e. fst e \<noteq> k) es"

definition map_has :: "('k \<times> 'v) list \<Rightarrow> 'k \<Rightarrow> bool" where
  "map_has es k \<longleftrightarrow> k \<in> set (map fst es)"

definition map_ok :: "('k \<times> 'v) list \<Rightarrow> bool" where
  "map_ok es \<longleftrightarrow> distinct (map fst es)"

lemma map_put_keys: "map fst (map_put k v es) =
   (if k \<in> set (map fst es) then map fst es else map fst es @ [k])"
  by (induction k v es rule: map_put.induct) simp_all

lemma map_put_lookup: "map_of (map_put k v es) k' = (if k' = k then Some v else map_of es k')"
  by (induction es) auto

lemma map_put_new: "k \<notin> fst ` set es \<Longrightarrow> map_put k v es = es @ [(k, v)]"
  by (induction es) auto

lemma map_put_at:
  "distinct (map fst es) \<Longrightarrow> i < length es \<Longrightarrow> map_put (fst (es ! i)) v es = es[i := (fst (es ! i), v)]"
proof (induction es arbitrary: i)
  case Nil
  then show ?case by simp
next
  case (Cons e es)
  show ?case
  proof (cases i)
    case 0
    then show ?thesis by (cases e) simp
  next
    case (Suc n)
    then have "fst (es ! n) \<in> fst ` set es" using Cons.prems by simp
    moreover have "fst e \<notin> fst ` set es" using Cons.prems by simp
    ultimately have "fst (es ! n) \<noteq> fst e" by metis
    then show ?thesis using Cons Suc by (cases e) auto
  qed
qed

lemma map_drop_lookup: "map_of (map_drop k es) k' = (if k' = k then None else map_of es k')"
  by (induction es) (auto simp: map_drop_def)

lemma map_drop_keys: "map fst (map_drop k es) = filter (\<lambda>x. x \<noteq> k) (map fst es)"
  by (simp add: map_drop_def filter_map o_def)

lemma map_ok_put: "map_ok es \<Longrightarrow> map_ok (map_put k v es)"
  by (simp add: map_ok_def map_put_keys)

lemma map_ok_drop: "map_ok es \<Longrightarrow> map_ok (map_drop k es)"
  by (simp add: map_ok_def map_drop_keys)

interpretation jm: ordered_key_value "\<lambda>k. k" map_of map_put map_drop map_ok "map fst"
  by unfold_locales (simp_all add: map_ok_put map_ok_drop map_put_lookup map_drop_lookup
      map_of_eq_None_iff map_put_keys map_drop_keys)

section \<open>Plain objects\<close>

record 'v obj =
  own :: "(string \<times> 'v) list"
  inherited :: "string \<Rightarrow> 'v option"

definition null_obj :: "'v obj" where
  "null_obj = \<lparr>own = [], inherited = (\<lambda>_. None)\<rparr>"

text \<open>Array indices: the decimal numerals below \<open>2 ^ 32 - 1\<close>.\<close>

definition digit :: "char \<Rightarrow> bool" where
  "digit c \<longleftrightarrow> of_char c \<in> {48..<58::nat}"

definition number_of :: "string \<Rightarrow> nat" where
  "number_of cs = foldl (\<lambda>n c. 10 * n + (of_char c - 48)) 0 cs"

definition array_index :: "string \<Rightarrow> bool" where
  "array_index cs \<longleftrightarrow> cs \<noteq> [] \<and> list_all digit cs \<and> (hd cs = CHR ''0'' \<longrightarrow> length cs = 1) \<and>
     number_of cs < 2 ^ 32 - 1"

definition own_keys :: "'v obj \<Rightarrow> string list" where
  "own_keys o' = sort_key number_of (filter array_index (map fst (own o'))) @
     filter (\<lambda>k. \<not> array_index k) (map fst (own o'))"

definition obj_get :: "'v obj \<Rightarrow> string \<Rightarrow> 'v option" where
  "obj_get o' k = (case map_of (own o') k of Some v \<Rightarrow> Some v | None \<Rightarrow> inherited o' k)"

definition obj_put :: "string \<Rightarrow> 'v \<Rightarrow> 'v obj \<Rightarrow> 'v obj" where
  "obj_put k v o' = o'\<lparr>own := map_put k v (own o')\<rparr>"

definition obj_drop :: "string \<Rightarrow> 'v obj \<Rightarrow> 'v obj" where
  "obj_drop k o' = o'\<lparr>own := map_drop k (own o')\<rparr>"

definition has_key :: "'v obj \<Rightarrow> string \<Rightarrow> bool" where
  "has_key o' k \<longleftrightarrow> map_has (own o') k"

definition obj_ok :: "'v obj \<Rightarrow> bool" where
  "obj_ok o' \<longleftrightarrow> map_ok (own o')"

interpretation oj: key_value "\<lambda>k. k" "\<lambda>o'. map_of (own o')" obj_put obj_drop obj_ok
  by unfold_locales (simp_all add: obj_put_def obj_drop_def obj_ok_def jm.ok_put jm.ok_drop
      map_put_lookup map_drop_lookup)

lemma own_keys_set: "set (own_keys o') = fst ` set (own o')"
  by (auto simp: own_keys_def)

lemma own_keys_distinct: "obj_ok o' \<Longrightarrow> distinct (own_keys o')"
  by (auto simp: own_keys_def obj_ok_def map_ok_def)

section \<open>Hash functions over plain objects\<close>

datatype herr =
    KeyErr string
  | IndexErr string
  | FrozenErr
  | TypeErr string
  | ArgErr string
  | Raised nat

text \<open>The optional last argument of \<open>fetch\<close>: nothing, a value, or a block.\<close>

datatype 'v fallback = NoFallback | Value "'v option" | Yield "string \<Rightarrow> herr + 'v option"

definition str_ellipsize :: "string \<Rightarrow> nat \<Rightarrow> string" where
  "str_ellipsize cs n =
     (if length cs \<le> n then cs
      else if n \<le> 3 then ''...''
      else take (n - 3) cs @ ''...'')"

definition fetch :: "(string \<Rightarrow> string) \<Rightarrow> 'v obj \<Rightarrow> string \<Rightarrow> 'v fallback \<Rightarrow> herr + 'v option" where
  "fetch rb_inspect o' k arg =
     (if \<not> has_key o' k then
        (case arg of
           Yield f \<Rightarrow> f k
         | NoFallback \<Rightarrow> Inl (KeyErr (''key not found: '' @ str_ellipsize (rb_inspect k) 65))
         | Value d \<Rightarrow> Inr d)
      else Inr (obj_get o' k))"

text \<open>Copying the own properties into a fresh object without prototype.\<close>

definition obj_dup :: "'v obj \<Rightarrow> 'v obj" where
  "obj_dup o' = fold (\<lambda>k r. case obj_get o' k of Some v \<Rightarrow> obj_put k v r | None \<Rightarrow> r) (own_keys o') null_obj"

definition update_one :: "(string \<Rightarrow> 'v option \<Rightarrow> 'v option \<Rightarrow> 'v) option \<Rightarrow> 'v obj \<Rightarrow> 'v obj \<Rightarrow> 'v obj" where
  "update_one blk o' h = fold (\<lambda>k r.
     case blk of
       Some f \<Rightarrow> if has_key r k then obj_put k (f k (obj_get r k) (obj_get o' k)) r
                 else (case obj_get o' k of Some v \<Rightarrow> obj_put k v r | None \<Rightarrow> r)
     | None \<Rightarrow> (case obj_get o' k of Some v \<Rightarrow> obj_put k v r | None \<Rightarrow> r)) (own_keys o') h"

definition update :: "(string \<Rightarrow> 'v option \<Rightarrow> 'v option \<Rightarrow> 'v) option \<Rightarrow> 'v obj list \<Rightarrow> 'v obj \<Rightarrow> 'v obj" where
  "update blk others h = fold (update_one blk) others h"

definition merge :: "(string \<Rightarrow> 'v option \<Rightarrow> 'v option \<Rightarrow> 'v) option \<Rightarrow> 'v obj list \<Rightarrow> 'v obj \<Rightarrow> 'v obj" where
  "merge blk others h = update blk others (obj_dup h)"

text \<open>What a block answers, and Ruby's test of it.\<close>

datatype answer = Undefined | Null | Bool bool | Other nat

definition rtest :: "answer \<Rightarrow> bool" where
  "rtest a \<longleftrightarrow> a \<noteq> Undefined \<and> a \<noteq> Null \<and> a \<noteq> Bool False"

definition delete_if :: "(string \<Rightarrow> 'v option \<Rightarrow> answer) \<Rightarrow> 'v obj \<Rightarrow> 'v obj" where
  "delete_if blk h = fold (\<lambda>k r. if rtest (blk k (obj_get r k)) then obj_drop k r else r) (own_keys h) h"

definition obj_reject :: "(string \<Rightarrow> 'v option \<Rightarrow> answer) \<Rightarrow> 'v obj \<Rightarrow> 'v obj" where
  "obj_reject blk h = delete_if blk (obj_dup h)"

text \<open>The iterators, as the sequence of calls their block gets.\<close>

definition each_pair :: "'v obj \<Rightarrow> (string \<times> 'v option) list" where
  "each_pair h = map (\<lambda>k. (k, obj_get h k)) (own_keys h)"

definition each_value :: "'v obj \<Rightarrow> 'v option list" where
  "each_value h = map (obj_get h) (own_keys h)"

definition each_key :: "'v obj \<Rightarrow> string list" where
  "each_key h = own_keys h"

definition transform_values :: "('v option \<Rightarrow> 'u) \<Rightarrow> 'v obj \<Rightarrow> 'u obj" where
  "transform_values f h = fold (\<lambda>k r. obj_put k (f (obj_get h k)) r) (own_keys h) null_obj"

definition obj_slice :: "string list \<Rightarrow> 'v obj \<Rightarrow> 'v obj" where
  "obj_slice ks h = fold (\<lambda>k r. if has_key h k
     then (case obj_get h k of Some v \<Rightarrow> obj_put k v r | None \<Rightarrow> r) else r) ks null_obj"

definition except_keys :: "string list \<Rightarrow> 'v obj \<Rightarrow> 'v obj" where
  "except_keys ks h = fold obj_drop ks (obj_dup h)"

definition values_at :: "'v obj \<Rightarrow> string list \<Rightarrow> 'v option list" where
  "values_at h ks = map (obj_get h) ks"

definition map_values_at :: "('k \<times> 'v) list \<Rightarrow> 'k list \<Rightarrow> 'v option list" where
  "map_values_at m ks = map (map_of m) ks"

section \<open>Lemmas on the object functions\<close>

lemma has_key_own: "has_key o' k \<longleftrightarrow> map_of (own o') k \<noteq> None"
  by (simp add: has_key_def map_has_def map_of_eq_None_iff)

lemma obj_get_own: "has_key o' k \<Longrightarrow> obj_get o' k = map_of (own o') k"
  by (auto simp: has_key_own obj_get_def)

lemma own_keys_has: "k \<in> set (own_keys o') \<longleftrightarrow> has_key o' k"
  by (simp add: own_keys_set has_key_def map_has_def)

lemma obj_ok_null: "obj_ok null_obj"
  by (simp add: obj_ok_def map_ok_def null_obj_def)

lemma null_obj_own [simp]: "own null_obj = []" and null_obj_inherited [simp]: "inherited null_obj k = None"
  by (simp_all add: null_obj_def)

lemma obj_put_inherited [simp]: "inherited (obj_put k v o') = inherited o'"
  by (simp add: obj_put_def)

lemma obj_drop_inherited [simp]: "inherited (obj_drop k o') = inherited o'"
  by (simp add: obj_drop_def)

text \<open>Building an object by putting fresh keys one after the other.\<close>

lemma put_fresh:
  assumes "distinct ks" and "set ks \<inter> fst ` set (own r) = {}" and "\<And>k. k \<in> set ks \<Longrightarrow> val k = Some (g k)"
  shows "own (fold (\<lambda>k r. case val k of Some v \<Rightarrow> obj_put k v r | None \<Rightarrow> r) ks r) =
     own r @ map (\<lambda>k. (k, g k)) ks"
  using assms
proof (induction ks arbitrary: r)
  case Nil
  then show ?case by simp
next
  case (Cons k ks)
  have "own (obj_put k (g k) r) = own r @ [(k, g k)]"
    using Cons.prems(2) by (simp add: obj_put_def map_put_new)
  then show ?case using Cons by auto
qed

lemma own_keys_value: "k \<in> set (own_keys o') \<Longrightarrow> obj_get o' k = Some (the (map_of (own o') k))"
  using own_keys_has [of k o'] has_key_own [of o' k] by (simp add: obj_get_own)

lemma obj_dup_own: "obj_ok o' \<Longrightarrow>
   own (obj_dup o') = map (\<lambda>k. (k, the (map_of (own o') k))) (own_keys o')"
  unfolding obj_dup_def
  by (subst put_fresh [where g = "\<lambda>k. the (map_of (own o') k)"])
    (simp_all add: own_keys_distinct own_keys_value)

lemma sorted_filter_index:
  "own_keys \<lparr>own = map (\<lambda>k. (k, f k)) (own_keys o'), inherited = i\<rparr> = own_keys o'"
proof -
  let ?ks = "map fst (own o')"
  have a: "filter array_index (own_keys o') = sort_key number_of (filter array_index ?ks)"
    and b: "filter (\<lambda>k. \<not> array_index k) (own_keys o') = filter (\<lambda>k. \<not> array_index k) ?ks"
    by (simp_all add: own_keys_def filter_sort comp_def flip: filter_filter)
  show ?thesis
    by (simp add: own_keys_def [of "\<lparr>own = _, inherited = i\<rparr>"] comp_def a b sort_key_id_if_sorted)
      (simp add: own_keys_def)
qed

lemma own_keys_dup: "obj_ok o' \<Longrightarrow> own_keys (obj_dup o') = own_keys o'"
proof -
  assume ok: "obj_ok o'"
  have "obj_dup o' = \<lparr>own = own (obj_dup o'), inherited = inherited (obj_dup o')\<rparr>" by simp
  then show ?thesis by (metis ok obj_dup_own sorted_filter_index)
qed

lemma map_of_keys: "map_of (map (\<lambda>k. (k, g k)) ks) k = (if k \<in> set ks then Some (g k) else None)"
  by (induction ks) auto

lemma dup_lookup: "obj_ok o' \<Longrightarrow> map_of (own (obj_dup o')) k = map_of (own o') k"
  using own_keys_has [of k o'] has_key_own [of o' k]
  by (auto simp: obj_dup_own map_of_keys)

lemma dup_ok: "obj_ok o' \<Longrightarrow> obj_ok (obj_dup o')"
  by (simp add: obj_ok_def map_ok_def obj_dup_own [unfolded obj_ok_def map_ok_def] comp_def
      own_keys_distinct [unfolded obj_ok_def map_ok_def])

lemma dup_inherited: "inherited (obj_dup o') k = None"
proof -
  have "inherited (fold (\<lambda>k r. case obj_get o' k of Some v \<Rightarrow> obj_put k v r | None \<Rightarrow> r) ks r) = inherited r"
    for ks and r :: "'a obj"
    by (induction ks arbitrary: r) (auto split: option.splits)
  then show ?thesis by (simp add: obj_dup_def)
qed

lemma update_one_ok: "obj_ok h \<Longrightarrow> obj_ok (update_one blk o' h)"
proof -
  have "obj_ok h \<Longrightarrow> obj_ok (fold (\<lambda>k r.
     case blk of
       Some f \<Rightarrow> if has_key r k then obj_put k (f k (obj_get r k) (obj_get o' k)) r
                 else (case obj_get o' k of Some v \<Rightarrow> obj_put k v r | None \<Rightarrow> r)
     | None \<Rightarrow> (case obj_get o' k of Some v \<Rightarrow> obj_put k v r | None \<Rightarrow> r)) ks h)" for ks
    by (induction ks arbitrary: h) (auto split: option.splits simp: oj.ok_put)
  then show "obj_ok h \<Longrightarrow> ?thesis" by (simp add: update_one_def)
qed

text \<open>What one argument of \<open>update\<close> does to a lookup.\<close>

definition joined :: "(string \<Rightarrow> 'v option \<Rightarrow> 'v option \<Rightarrow> 'v) option \<Rightarrow> string \<Rightarrow> 'v option \<Rightarrow> 'v option \<Rightarrow> 'v option" where
  "joined blk k old new =
     (case (new, old, blk) of
        (None, _, _) \<Rightarrow> old
      | (Some v, Some w, Some f) \<Rightarrow> Some (f k (Some w) (Some v))
      | (Some v, _, _) \<Rightarrow> Some v)"

lemma update_keys_lookup:
  assumes "obj_ok h" and "distinct ks" and "set ks \<subseteq> set (own_keys o')"
  shows "map_of (own (fold (\<lambda>k r.
     case blk of
       Some f \<Rightarrow> if has_key r k then obj_put k (f k (obj_get r k) (obj_get o' k)) r
                 else (case obj_get o' k of Some v \<Rightarrow> obj_put k v r | None \<Rightarrow> r)
     | None \<Rightarrow> (case obj_get o' k of Some v \<Rightarrow> obj_put k v r | None \<Rightarrow> r)) ks h)) k =
   (if k \<in> set ks then joined blk k (map_of (own h) k) (map_of (own o') k) else map_of (own h) k)"
  using assms
proof (induction ks arbitrary: h)
  case Nil
  then show ?case by simp
next
  case (Cons x ks)
  have x: "obj_get o' x = map_of (own o') x" "map_of (own o') x \<noteq> None"
    using Cons.prems(3) own_keys_has [of x o'] has_key_own [of o' x] obj_get_own by auto
  then obtain v where v: "map_of (own o') x = Some v" by blast
  let ?h = "case blk of
       Some f \<Rightarrow> if has_key h x then obj_put x (f x (obj_get h x) (obj_get o' x)) h
                 else (case obj_get o' x of Some v \<Rightarrow> obj_put x v h | None \<Rightarrow> h)
     | None \<Rightarrow> (case obj_get o' x of Some v \<Rightarrow> obj_put x v h | None \<Rightarrow> h)"
  have ok: "obj_ok ?h" using Cons.prems(1) by (auto split: option.splits simp: oj.ok_put)
  have "map_of (own ?h) k = (if k = x then joined blk k (map_of (own h) k) (map_of (own o') k)
      else map_of (own h) k)"
    using Cons.prems(1) x v obj_get_own [of h x] has_key_own [of h x]
    by (auto simp: oj.look_put joined_def split: option.splits)
  then show ?case using Cons.IH [OF ok] Cons.prems(2,3) by auto
qed

lemma update_one_lookup:
  assumes "obj_ok h" and "obj_ok o'"
  shows "map_of (own (update_one blk o' h)) k = joined blk k (map_of (own h) k) (map_of (own o') k)"
proof -
  have "joined blk k (map_of (own h) k) (map_of (own o') k) = map_of (own h) k"
    if "k \<notin> set (own_keys o')"
    using that own_keys_has [of k o'] has_key_own [of o' k] by (simp add: joined_def)
  then show ?thesis
    using update_keys_lookup [OF assms(1) own_keys_distinct [OF assms(2)], of o' blk k]
    by (auto simp: update_one_def)
qed

text \<open>
  \<open>merge\<close>: the value of a key in the result is that of the receiver, joined in turn with
  that of each argument: an argument without the key leaves it, an argument with it replaces it, or,
  when a conflict block is given and the key is already there, the block decides from the old value
  and the new one.
\<close>

theorem merge_lookup:
  assumes "obj_ok h" and "list_all obj_ok others"
  shows "map_of (own (merge blk others h)) k =
    foldl (\<lambda>old o'. joined blk k old (map_of (own o') k)) (map_of (own h) k) others"
proof -
  have "map_of (own (update blk others g)) k =
      foldl (\<lambda>old o'. joined blk k old (map_of (own o') k)) (map_of (own g) k) others \<and>
      obj_ok (update blk others g)" if "obj_ok g" for g
    using assms(2) that unfolding update_def
    by (induction others arbitrary: g) (simp_all add: update_one_lookup update_one_ok)
  from this [OF dup_ok [OF assms(1)]] show ?thesis
    by (simp add: merge_def dup_lookup [OF assms(1)])
qed

lemma merge_lookup_example:
  "map_of (own (merge (Some (\<lambda>_ a b. the a + the b)) [obj_put ''a'' (5 :: nat) null_obj]
     (obj_put ''b'' 1 (obj_put ''a'' 2 null_obj)))) ''a'' = Some 7"
  by (subst merge_lookup) (simp_all add: oj.ok_put obj_ok_def map_ok_def joined_def obj_put_def)

text \<open>
  \<open>delete_if\<close> removes exactly the pairs its block answers truthily for (anything but
  \<open>undefined\<close>, \<open>null\<close> and \<open>false\<close>; \<open>0\<close> counts as true, as in Ruby) and keeps the order of
  the others.
\<close>

theorem delete_if_keys:
  assumes "obj_ok h"
  shows "map fst (own (delete_if blk h)) =
    filter (\<lambda>k. \<not> rtest (blk k (map_of (own h) k))) (map fst (own h))"
proof -
  have "map fst (own (fold (\<lambda>k r. if rtest (blk k (obj_get r k)) then obj_drop k r else r) ks g)) =
      filter (\<lambda>k. k \<in> set ks \<longrightarrow> \<not> rtest (blk k (map_of (own g) k))) (map fst (own g))"
    if "obj_ok g" "distinct ks" "set ks \<subseteq> fst ` set (own g)" for ks g
    using that
  proof (induction ks arbitrary: g)
    case Nil
    then show ?case by simp
  next
    case (Cons x ks)
    define g' where "g' = (if rtest (blk x (obj_get g x)) then obj_drop x g else g)"
    have x: "obj_get g x = map_of (own g) x"
      using Cons.prems(3) by (intro obj_get_own) (auto simp: has_key_def map_has_def)
    have keys: "map fst (own g') = filter (\<lambda>k. k = x \<longrightarrow> \<not> rtest (blk k (map_of (own g) k))) (map fst (own g))"
      by (auto simp: g'_def x obj_drop_def map_drop_keys intro: filter_cong)
    have look: "map_of (own g') k = map_of (own g) k" if "k \<noteq> x" for k
      using that Cons.prems(1) by (simp add: g'_def oj.look_drop)
    have ok: "obj_ok g'" using Cons.prems(1) by (simp add: g'_def oj.ok_drop)
    have "set ks \<subseteq> fst ` set (own g')"
      using Cons.prems(2,3) keys [THEN arg_cong [where f = set]] by auto
    from Cons.IH [OF ok _ this] Cons.prems(2)
    have "map fst (own (fold (\<lambda>k r. if rtest (blk k (obj_get r k)) then obj_drop k r else r) ks g')) =
      filter (\<lambda>k. k \<in> set ks \<longrightarrow> \<not> rtest (blk k (map_of (own g') k))) (map fst (own g'))" by simp
    also have "\<dots> = filter (\<lambda>k. k \<in> set (x # ks) \<longrightarrow> \<not> rtest (blk k (map_of (own g) k))) (map fst (own g))"
      unfolding keys filter_filter
    proof (rule filter_cong [OF HOL.refl])
      fix k
      show "((k = x \<longrightarrow> \<not> rtest (blk k (map_of (own g) k))) \<and>
          (k \<in> set ks \<longrightarrow> \<not> rtest (blk k (map_of (own g') k)))) =
          (k \<in> set (x # ks) \<longrightarrow> \<not> rtest (blk k (map_of (own g) k)))"
        using Cons.prems(2) look [of k] by (cases "k = x") auto
    qed
    finally show ?case by (simp add: g'_def)
  qed
  note this [OF assms own_keys_distinct [OF assms], unfolded own_keys_set, OF order_refl]
  also have "filter (\<lambda>k. k \<in> fst ` set (own h) \<longrightarrow> \<not> rtest (blk k (map_of (own h) k))) (map fst (own h)) =
      filter (\<lambda>k. \<not> rtest (blk k (map_of (own h) k))) (map fst (own h))"
    by (rule filter_cong) auto
  finally show ?thesis by (simp add: delete_if_def)
qed

lemma delete_if_keys_example:
  "map fst (own (delete_if (\<lambda>k v. if v = Some 0 then Other 0 else Null)
     (obj_put ''b'' (1 :: nat) (obj_put ''a'' 0 null_obj)))) = [''b'']"
  by (subst delete_if_keys) (simp_all add: oj.ok_put obj_ok_def map_ok_def obj_put_def rtest_def)

lemma slice_own:
  "own (fold (\<lambda>k r. if has_key h k
     then (case obj_get h k of Some v \<Rightarrow> obj_put k v r | None \<Rightarrow> r) else r) ks r) =
   fold (\<lambda>k es. map_put k (the (map_of (own h) k)) es) (filter (has_key h) ks) (own r)"
proof (induction ks arbitrary: r)
  case Nil
  then show ?case by simp
next
  case (Cons k ks)
  then show ?case using own_keys_value [of k h] own_keys_has [of k h]
    by (auto simp: obj_put_def split: option.splits)
qed

lemma slice_lookup:
  "map_of (own (obj_slice ks h)) k = (if k \<in> set ks then map_of (own h) k else None)"
proof -
  have "map_of (fold (\<lambda>k es. map_put k (the (map_of (own h) k)) es) (filter (has_key h) ks) es) k =
      (if k \<in> set ks \<and> has_key h k then map_of (own h) k else map_of es k)" for es
    by (induction ks arbitrary: es) (auto simp: map_put_lookup has_key_own)
  then show ?thesis
    using has_key_own [of h k] by (auto simp: obj_slice_def slice_own)
qed

lemma except_lookup:
  assumes "obj_ok h"
  shows "map_of (own (except_keys ks h)) k = (if k \<in> set ks then None else map_of (own h) k)"
  unfolding except_keys_def using oj.look_drop_all [OF dup_ok [OF assms], of ks k]
  by (simp add: dup_lookup [OF assms])

text \<open>
  \<open>slice\<close> and \<open>except\<close> split a hash: the one holds exactly the given keys the hash has,
  the other exactly the rest, each with its value.
\<close>

theorem slice_except_split:
  assumes "obj_ok h"
  shows "map_of (own (obj_slice ks h)) ++ map_of (own (except_keys ks h)) = map_of (own h) \<and>
    dom (map_of (own (obj_slice ks h))) \<inter> dom (map_of (own (except_keys ks h))) = {}"
  using assms
  by (auto simp: slice_lookup except_lookup map_add_def fun_eq_iff dom_def split: option.splits if_splits)

lemma slice_except_split_example:
  "let h = obj_put ''b'' (1 :: nat) (obj_put ''a'' 0 null_obj)
   in map_of (own (obj_slice [''b'', ''z''] h)) ++ map_of (own (except_keys [''b'', ''z''] h)) = map_of (own h)"
proof -
  have "obj_ok (obj_put ''b'' (1 :: nat) (obj_put ''a'' 0 null_obj))"
    by (simp add: oj.ok_put obj_ok_null)
  from slice_except_split [OF this, of "[''b'', ''z'']"] show ?thesis by (simp add: Let_def)
qed

text \<open>
  \<open>slice\<close> does not keep the argument order when a key is an array index: asked for
  \<open>"b"\<close> and then \<open>"1"\<close>, it answers a hash whose keys read \<open>"1"\<close>, \<open>"b"\<close>.
\<close>

theorem slice_reorders_indices:
  "own_keys (obj_slice [''b'', ''1''] (obj_put ''1'' True (obj_put ''b'' False null_obj))) = [''1'', ''b'']"
  by (simp add: own_keys_def array_index_def digit_def number_of_def obj_slice_def has_key_def
      map_has_def obj_get_def obj_put_def null_obj_def)

text \<open>
  \<open>valuesAt\<close> on an ordinary object answers what the prototype chain holds for a key the hash
  does not have, where \<open>fetch\<close> and \<open>hasKey\<close> on the same hash find nothing.
\<close>

theorem values_at_reads_the_prototype:
  assumes "map_of (own h) k = None"
  shows "values_at h [k] = [inherited h k] \<and> \<not> has_key h k \<and> fetch ins h k (Value d) = Inr d"
  using assms by (simp add: values_at_def obj_get_def has_key_own fetch_def)

lemma values_at_reads_the_prototype_example:
  "values_at \<lparr>own = [], inherited = [''toString'' \<mapsto> (9 :: nat)]\<rparr> [''toString''] = [Some 9]"
  using values_at_reads_the_prototype [of "\<lparr>own = [], inherited = [''toString'' \<mapsto> (9 :: nat)]\<rparr>" "''toString''"]
  by simp

section \<open>The class \<open>Hash\<close>\<close>

text \<open>A default procedure is given the entries and the missing key; it answers, or throws, and may
  change the entries. Procedures that freeze the hash or change its default are not modelled.\<close>

type_synonym ('k, 'v) proc =
  "('k \<times> 'v option) list \<Rightarrow> 'k \<Rightarrow> (herr + 'v option) \<times> ('k \<times> 'v option) list"

record ('k, 'v) rhash =
  entries :: "('k \<times> 'v option) list"
  default_value :: "'v option"
  default_proc :: "('k, 'v) proc option"
  frozen :: bool

type_synonym ('k, 'v, 'a) hact = "(('k, 'v) rhash, herr, 'a) comp"

definition hash_blank :: "('k, 'v) rhash" where
  "hash_blank = \<lparr>entries = [], default_value = None, default_proc = None, frozen = False\<rparr>"

definition modify_check :: "('k, 'v, unit) hact" where
  "modify_check = bind (gets frozen) (\<lambda>b. if b then throw FrozenErr else skip)"

definition freeze :: "('k, 'v, unit) hact" where
  "freeze = modify (frozen_update (\<lambda>_. True))"

definition is_frozen :: "('k, 'v) rhash \<Rightarrow> bool" where
  "is_frozen h = frozen h"

definition hash_set :: "'k \<Rightarrow> 'v option \<Rightarrow> ('k, 'v, unit) hact" where
  "hash_set k v = andthen modify_check (modify (\<lambda>h. h\<lparr>entries := map_put k v (entries h)\<rparr>))"

definition hash_clear :: "('k, 'v, unit) hact" where
  "hash_clear = andthen modify_check (modify (\<lambda>h. h\<lparr>entries := []\<rparr>))"

text \<open>\<open>default()\<close> and \<open>default(key)\<close>.\<close>

definition default0 :: "('k, 'v) rhash \<Rightarrow> 'v option" where
  "default0 h = (case default_proc h of Some p \<Rightarrow> None | None \<Rightarrow> default_value h)"

definition default1 :: "'k \<Rightarrow> ('k, 'v, 'v option) hact" where
  "default1 k = (\<lambda>h. case default_proc h of
     Some p \<Rightarrow> (case p (entries h) k of (r, es) \<Rightarrow> (r, h\<lparr>entries := es\<rparr>))
   | None \<Rightarrow> (Inr (default_value h), h))"

definition hash_get :: "'k \<Rightarrow> ('k, 'v, 'v option) hact" where
  "hash_get k = bind (gets entries) (\<lambda>es.
     case map_of es k of Some v \<Rightarrow> ret v | None \<Rightarrow> default1 k)"

definition set_default :: "'v option \<Rightarrow> ('k, 'v, unit) hact" where
  "set_default v = andthen modify_check (modify (\<lambda>h. h\<lparr>default_value := v, default_proc := None\<rparr>))"

definition set_default_proc :: "('k, 'v) proc option \<Rightarrow> ('k, 'v, unit) hact" where
  "set_default_proc p = andthen modify_check (case p of
     None \<Rightarrow> set_default None
   | Some q \<Rightarrow> modify (\<lambda>h. h\<lparr>default_value := None, default_proc := Some q\<rparr>))"

text \<open>The constructor's argument: a procedure, a value, or nothing.\<close>

datatype ('k, 'v) ifnone = IfProc "('k, 'v) proc" | IfValue 'v | IfNothing

definition hash_new :: "('k, 'v) ifnone \<Rightarrow> (herr + unit) \<times> ('k, 'v) rhash" where
  "hash_new arg = (case arg of
     IfProc p \<Rightarrow> set_default_proc (Some p) hash_blank
   | IfValue v \<Rightarrow> set_default (Some v) hash_blank
   | IfNothing \<Rightarrow> (Inr (), hash_blank))"

definition hash_delete :: "'k \<Rightarrow> ('k \<Rightarrow> herr + 'v option) option \<Rightarrow> ('k, 'v, 'v option) hact" where
  "hash_delete k blk = andthen modify_check (bind (gets entries) (\<lambda>es.
     case map_of es k of
       Some v \<Rightarrow> andthen (modify (\<lambda>h. h\<lparr>entries := map_drop k (entries h)\<rparr>)) (ret v)
     | None \<Rightarrow> (case blk of
         Some f \<Rightarrow> (case f k of Inl e \<Rightarrow> throw e | Inr v \<Rightarrow> ret v)
       | None \<Rightarrow> ret None)))"

definition hash_keys :: "('k, 'v) rhash \<Rightarrow> 'k list" where
  "hash_keys h = map fst (entries h)"

definition hash_values :: "('k, 'v) rhash \<Rightarrow> 'v option list" where
  "hash_values h = map snd (entries h)"

text \<open>\<open>dup\<close> of a \<open>Hash\<close>: a fresh hash, the receiver's default seat, then its pairs one by one.\<close>

definition hash_dup :: "('k, 'v) rhash \<Rightarrow> (herr + unit) \<times> ('k, 'v) rhash" where
  "hash_dup h = andthen
     (case default_proc h of Some p \<Rightarrow> set_default_proc (Some p) | None \<Rightarrow> set_default (default0 h))
     (for_each (entries h) (\<lambda>(k, v). hash_set k v)) hash_blank"

text \<open>\<open>toH\<close>: the receiver itself when its class is \<open>Hash\<close>, a copy otherwise.\<close>

definition to_h :: "bool \<Rightarrow> ('k, 'v) rhash \<Rightarrow> (herr + unit) \<times> ('k, 'v) rhash" where
  "to_h exactly_hash h = (if exactly_hash then (Inr (), h) else hash_dup h)"

section \<open>Lemmas on the class\<close>

definition hash_ok :: "('k, 'v) rhash \<Rightarrow> bool" where
  "hash_ok h \<longleftrightarrow> map_ok (entries h) \<and> (default_proc h \<noteq> None \<longrightarrow> default_value h = None)"

lemma modify_check_run: "modify_check h = (if frozen h then Inl FrozenErr else Inr (), h)"
  by (simp add: modify_check_def comp_simps)

lemma checked_frozen: "frozen h \<Longrightarrow> andthen modify_check m h = (Inl FrozenErr, h)"
  by (simp add: andthen_def bind_def modify_check_run)

lemma checked_ok: "\<not> frozen h \<Longrightarrow> andthen modify_check m h = m h"
  by (simp add: andthen_def bind_def modify_check_run)

lemma hash_set_run: "\<not> frozen h \<Longrightarrow> hash_set k v h = (Inr (), h\<lparr>entries := map_put k v (entries h)\<rparr>)"
  by (simp add: hash_set_def checked_ok modify_def)

text \<open>Every mutator of a frozen hash throws and changes nothing.\<close>

theorem frozen_hash_unchanged:
  assumes "frozen h"
  shows "hash_set k v h = (Inl FrozenErr, h) \<and> hash_clear h = (Inl FrozenErr, h) \<and>
    hash_delete k blk h = (Inl FrozenErr, h) \<and> set_default d h = (Inl FrozenErr, h) \<and>
    set_default_proc p h = (Inl FrozenErr, h)"
  using assms by (simp add: hash_set_def hash_clear_def hash_delete_def set_default_def
      set_default_proc_def checked_frozen)

lemma set_all_run:
  "\<not> frozen h \<Longrightarrow> for_each kvs (\<lambda>(k, v). hash_set k v) h =
     (Inr (), h\<lparr>entries := fold (\<lambda>(k, v). map_put k v) kvs (entries h)\<rparr>)"
  by (induction kvs arbitrary: h) (auto simp: ret_def andthen_def bind_def hash_set_run)

lemma put_all_fresh:
  "distinct (map fst (es @ kvs)) \<Longrightarrow> fold (\<lambda>(k, v). map_put k v) kvs es = es @ kvs"
proof (induction kvs arbitrary: es)
  case Nil
  then show ?case by simp
next
  case (Cons kv kvs)
  obtain k v where kv: "kv = (k, v)" by (cases kv)
  then have "map_put k v es = es @ [(k, v)]" using Cons.prems by (intro map_put_new) auto
  then show ?case using Cons.IH [of "es @ [(k, v)]"] Cons.prems kv by simp
qed

text \<open>
  \<open>dup\<close> of a hash, frozen or not, is an unfrozen hash with the same pairs in the same
  order and the same default value or procedure.
\<close>

theorem hash_dup_same:
  assumes "hash_ok h"
  shows "hash_dup h = (Inr (), h\<lparr>frozen := False\<rparr>)"
proof (cases "default_proc h")
  case None
  have "distinct (map fst (entries h))" using assms by (simp add: hash_ok_def map_ok_def)
  then show ?thesis using None
    by (simp add: hash_dup_def andthen_def bind_def set_default_def checked_ok [unfolded andthen_def bind_def]
        modify_check_run modify_def hash_blank_def set_all_run put_all_fresh default0_def)
next
  case (Some p)
  have "distinct (map fst (entries h))" "default_value h = None"
    using assms Some by (simp_all add: hash_ok_def map_ok_def)
  then show ?thesis using Some
    by (simp add: hash_dup_def andthen_def bind_def set_default_proc_def
        modify_check_run modify_def hash_blank_def set_all_run put_all_fresh)
qed

lemma hash_dup_same_example:
  "hash_dup \<lparr>entries = [(2 :: nat, Some True), (1, None)], default_value = Some False,
     default_proc = None, frozen = True\<rparr> =
   (Inr (), \<lparr>entries = [(2, Some True), (1, None)], default_value = Some False,
     default_proc = None, frozen = False\<rparr>)"
  by (subst hash_dup_same) (simp_all add: hash_ok_def map_ok_def)

text \<open>The mutators keep keys distinct and the two default seats exclusive.\<close>

lemma hash_ok_steps:
  assumes "hash_ok h"
  shows "hash_ok (snd (hash_set k v h))" "hash_ok (snd (hash_clear h))" "hash_ok (snd (freeze h))"
    "hash_ok (snd (hash_delete k blk h))" "hash_ok (snd (set_default d h))"
    "hash_ok (snd (set_default_proc p h))"
  using assms
  by (auto simp: hash_set_def hash_clear_def freeze_def hash_delete_def set_default_def
      set_default_proc_def andthen_def bind_def modify_check_run modify_def gets_def ret_def
      throw_def hash_ok_def jm.ok_put jm.ok_drop map_ok_def [of "[]"] split: option.splits sum.splits)

end
