(* ===== verification/Rack_Headers.thy ===== *)
theory Rack_Headers
  imports Ruby_Hash
begin

text \<open>
  \<^verbatim>\<open>packages/rack/src/headers.ts\<close>: the case-insensitive header table, a \<open>Hash\<close> whose keys go
  through \<open>toLowerCase\<close> on the way in and out. Header names are Latin-1 strings here, on which
  \<open>toLowerCase\<close> maps character by character. A value that is \<open>null\<close> or \<open>undefined\<close> is \<open>None\<close>.
  Operations that build a new table run on \<open>hash_blank\<close> and answer it with the outcome.
  \<open>sort\<close>, which depends on the locale, is not modelled.
\<close>

type_synonym headers = "(string, string) rhash"
type_synonym 'a header_act = "(string, string, 'a) hact"

definition downcase_char :: "char \<Rightarrow> char" where
  "downcase_char c = (let n = of_char c :: nat in
     if 65 \<le> n \<and> n \<le> 90 \<or> 192 \<le> n \<and> n \<le> 222 \<and> n \<noteq> 215 then char_of (n + 32) else c)"

definition downcase :: "string \<Rightarrow> string" where
  "downcase k = map downcase_char k"

section \<open>Single pairs\<close>

definition header_get :: "string \<Rightarrow> string option header_act" where
  "header_get k = hash_get (downcase k)"

definition header_set :: "string \<Rightarrow> string option \<Rightarrow> unit header_act" where
  "header_set k v = hash_set (downcase k) v"

definition header_has :: "headers \<Rightarrow> string \<Rightarrow> bool" where
  "header_has h k \<longleftrightarrow> map_has (entries h) (downcase k)"

definition header_delete :: "string \<Rightarrow> string option header_act" where
  "header_delete k = hash_delete (downcase k) None"

definition header_length :: "headers \<Rightarrow> nat" where
  "header_length h = length (entries h)"

definition header_empty :: "headers \<Rightarrow> bool" where
  "header_empty h \<longleftrightarrow> header_length h = 0"

text \<open>\<open>this.get(k)!\<close> after \<open>this.has(k)\<close>.\<close>

definition stored :: "headers \<Rightarrow> string \<Rightarrow> string option" where
  "stored h k = (case map_of (entries h) (downcase k) of Some v \<Rightarrow> v | None \<Rightarrow> None)"

text \<open>\<open>Headers.from\<close> with an object, and with a flat list of names and values.\<close>

definition set_all :: "(string \<times> string option) list \<Rightarrow> unit header_act" where
  "set_all kvs = for_each kvs (\<lambda>(k, v). header_set k v)"

definition from_object :: "string option obj \<Rightarrow> (herr + unit) \<times> headers" where
  "from_object o' = set_all (map (\<lambda>k. (k, the (obj_get o' k))) (own_keys o')) hash_blank"

fun pairs_of :: "string list \<Rightarrow> (string \<times> string option) list" where
  "pairs_of (k # v # rest) = (k, Some v) # pairs_of rest"
| "pairs_of _ = []"

definition from_args :: "string list \<Rightarrow> (herr + unit) \<times> headers" where
  "from_args args = (if odd (length args)
     then (Inl (ArgErr ''odd number of arguments for Headers''), hash_blank)
     else set_all (pairs_of args) hash_blank)"

definition header_fetch :: "string \<Rightarrow> string fallback list \<Rightarrow> string option header_act" where
  "header_fetch k args = (if 1 < length args then throw (ArgErr ''wrong number of arguments'')
     else bind (gets (\<lambda>h. h)) (\<lambda>h. let lk = downcase k in
       if header_has h lk then ret (stored h lk)
       else (case args of
           Yield f # _ \<Rightarrow> (case f lk of Inl e \<Rightarrow> throw e | Inr v \<Rightarrow> ret v)
         | Value v # _ \<Rightarrow> ret v
         | _ \<Rightarrow> throw (IndexErr (''key not found: '' @ k)))))"

definition fetch_values :: "string list \<Rightarrow> string option list header_act" where
  "fetch_values ks = map_each (\<lambda>k. bind (gets (\<lambda>h. h)) (\<lambda>h. let lk = downcase k in
     if \<not> header_has h lk then throw (KeyErr (''key not found: '' @ k))
     else ret (stored h lk))) ks"

definition header_values_at :: "string list \<Rightarrow> string option list header_act" where
  "header_values_at ks = map_each header_get ks"

definition dig :: "string \<Rightarrow> nat \<Rightarrow> string option header_act" where
  "dig k rest = bind (header_get k) (\<lambda>v.
     if rest = 0 then ret v else if v = None then ret None
     else throw (TypeErr ''String does not have #dig method''))"

definition assoc :: "headers \<Rightarrow> string \<Rightarrow> (string \<times> string option) option" where
  "assoc h k = (let lk = downcase k in if header_has h lk then Some (lk, stored h lk) else None)"

definition rassoc :: "headers \<Rightarrow> string option \<Rightarrow> (string \<times> string option) option" where
  "rassoc h v = find (\<lambda>e. snd e = v) (entries h)"

definition key_for :: "headers \<Rightarrow> string option \<Rightarrow> string option" where
  "key_for h v = map_option fst (find (\<lambda>e. snd e = v) (entries h))"

definition has_value :: "headers \<Rightarrow> string option \<Rightarrow> bool" where
  "has_value h v \<longleftrightarrow> list_ex (\<lambda>e. snd e = v) (entries h)"

definition shift :: "(string \<times> string option) option header_act" where
  "shift = bind (gets entries) (\<lambda>es. case es of
     [] \<Rightarrow> ret None
   | e # _ \<Rightarrow> andthen (bind (header_delete (fst e)) (\<lambda>_. skip)) (ret (Some e)))"

section \<open>Whole tables\<close>

definition header_dup :: "headers \<Rightarrow> (herr + unit) \<times> headers" where
  "header_dup h = andthen
     (case default_proc h of Some p \<Rightarrow> set_default_proc (Some p) | None \<Rightarrow> set_default (default0 h))
     (set_all (entries h)) hash_blank"

type_synonym conflict = "string \<Rightarrow> string option \<Rightarrow> string option \<Rightarrow> string option"

definition merge_pair :: "conflict option \<Rightarrow> string \<times> string option \<Rightarrow> unit header_act" where
  "merge_pair fn kv = bind (gets (\<lambda>h. h)) (\<lambda>h. let lk = downcase (fst kv) in
     case fn of
       Some f \<Rightarrow> if header_has h lk then header_set lk (f lk (stored h lk) (snd kv))
                 else header_set lk (snd kv)
     | None \<Rightarrow> header_set lk (snd kv))"

text \<open>The pairs merged from: another table or object, or the receiver itself.\<close>

datatype source = Pairs "(string \<times> string option) list" | Itself

definition source_pairs :: "source \<Rightarrow> headers \<Rightarrow> (string \<times> string option) list" where
  "source_pairs src h = (case src of Pairs kvs \<Rightarrow> kvs | Itself \<Rightarrow> entries h)"

definition merge_in_place :: "source \<Rightarrow> conflict option \<Rightarrow> unit header_act" where
  "merge_in_place src fn = bind (gets (source_pairs src)) (\<lambda>kvs. for_each kvs (merge_pair fn))"

definition header_merge :: "source \<Rightarrow> conflict option \<Rightarrow> headers \<Rightarrow> (herr + unit) \<times> headers" where
  "header_merge src fn h = (case header_dup h of
     (Inl e, r) \<Rightarrow> (Inl e, r)
   | (Inr _, r) \<Rightarrow> for_each (source_pairs src h) (merge_pair fn) r)"

definition header_replace :: "source \<Rightarrow> unit header_act" where
  "header_replace src = andthen hash_clear (merge_in_place src None)"

type_synonym pair_test = "string \<Rightarrow> string option \<Rightarrow> bool"

definition header_select :: "pair_test \<Rightarrow> headers \<Rightarrow> (herr + unit) \<times> headers" where
  "header_select f h = set_all (filter (\<lambda>(k, v). f k v) (entries h)) hash_blank"

definition header_reject :: "pair_test \<Rightarrow> headers \<Rightarrow> (herr + unit) \<times> headers" where
  "header_reject f h = set_all (filter (\<lambda>(k, v). \<not> f k v) (entries h)) hash_blank"

text \<open>The in-place versions walk a copy of the pairs.\<close>

definition delete_where :: "pair_test \<Rightarrow> unit header_act" where
  "delete_where f = bind (gets entries) (\<lambda>es. for_each es (\<lambda>(k, v).
     only_if (f k v) (bind (header_delete k) (\<lambda>_. skip))))"

definition changing :: "pair_test \<Rightarrow> bool header_act" where
  "changing f = bind (gets entries) (\<lambda>es.
     andthen (delete_where f) (ret (list_ex (\<lambda>(k, v). f k v) es)))"

definition select_in_place :: "pair_test \<Rightarrow> bool header_act" where
  "select_in_place f = changing (\<lambda>k v. \<not> f k v)"

definition reject_in_place :: "pair_test \<Rightarrow> bool header_act" where
  "reject_in_place f = changing f"

definition header_delete_if :: "pair_test \<Rightarrow> unit header_act" where
  "header_delete_if f = delete_where f"

definition keep_if :: "pair_test \<Rightarrow> unit header_act" where
  "keep_if f = delete_where (\<lambda>k v. \<not> f k v)"

definition compact :: "headers \<Rightarrow> (herr + unit) \<times> headers" where
  "compact h = set_all (filter (\<lambda>(k, v). v \<noteq> None) (entries h)) hash_blank"

definition compact_in_place :: "bool header_act" where
  "compact_in_place = changing (\<lambda>k v. v = None)"

definition header_slice :: "string list \<Rightarrow> headers \<Rightarrow> (herr + unit) \<times> headers" where
  "header_slice ks h = for_each ks (\<lambda>k. let lk = downcase k in
     if header_has h lk then header_set lk (stored h lk) else skip) hash_blank"

definition header_except :: "string list \<Rightarrow> headers \<Rightarrow> (herr + unit) \<times> headers" where
  "header_except ks h = set_all (filter (\<lambda>(k, v). k \<notin> set (map downcase ks)) (entries h)) hash_blank"

definition header_transform_values :: "(string option \<Rightarrow> string option) \<Rightarrow> headers \<Rightarrow> (herr + unit) \<times> headers" where
  "header_transform_values f h = set_all (map (\<lambda>(k, v). (k, f v)) (entries h)) hash_blank"

text \<open>\<open>for (const [k, v] of this) this.set(k, fn(v))\<close> walks the live table: a pair added behind the
  cursor would be reached too, so the loop carries fuel; \<open>None\<close> is fuel used up.\<close>

fun transform_from :: "nat \<Rightarrow> (string option \<Rightarrow> string option) \<Rightarrow> nat \<Rightarrow> headers
    \<Rightarrow> ((herr + unit) \<times> headers) option" where
  "transform_from 0 f i h = None"
| "transform_from (Suc n) f i h =
     (if i < length (entries h) then
        (case entries h ! i of (k, v) \<Rightarrow>
          (case header_set k (f v) h of
             (Inl e, h') \<Rightarrow> Some (Inl e, h')
           | (Inr _, h') \<Rightarrow> transform_from n f (Suc i) h'))
      else Some (Inr (), h))"

definition transform_values_in_place :: "(string option \<Rightarrow> string option) \<Rightarrow> headers
    \<Rightarrow> ((herr + unit) \<times> headers) option" where
  "transform_values_in_place f h = transform_from (Suc (length (entries h))) f 0 h"

definition transform_keys :: "(string \<Rightarrow> string) \<Rightarrow> headers \<Rightarrow> (herr + unit) \<times> headers" where
  "transform_keys f h = set_all (map (\<lambda>(k, v). (downcase (f k), v)) (entries h)) hash_blank"

definition transform_keys_in_place :: "(string \<Rightarrow> string) \<Rightarrow> unit header_act" where
  "transform_keys_in_place f = bind (gets entries) (\<lambda>es. andthen hash_clear
     (set_all (map (\<lambda>(k, v). (downcase (f k), v)) es)))"

definition string_of :: "string option \<Rightarrow> string" where
  "string_of v = (case v of Some cs \<Rightarrow> downcase cs | None \<Rightarrow> ''undefined'')"

definition invert :: "headers \<Rightarrow> (herr + unit) \<times> headers" where
  "invert h = set_all (map (\<lambda>(k, v). (string_of v, Some k)) (entries h)) hash_blank"

definition header_flatten :: "headers \<Rightarrow> string option list" where
  "header_flatten h = concat (map (\<lambda>(k, v). [Some k, v]) (entries h))"

text \<open>\<open>toHash\<close> writes into an ordinary object: assigning to \<open>__proto__\<close> there stores nothing.\<close>

definition to_hash :: "headers \<Rightarrow> string option obj" where
  "to_hash h = fold (\<lambda>(k, v) o'. if k = ''__proto__'' then o' else obj_put k v o') (entries h) null_obj"

definition value_at :: "string option obj \<Rightarrow> string \<Rightarrow> string option" where
  "value_at o' k = (case map_of (own o') k of Some v \<Rightarrow> v | None \<Rightarrow> None)"

definition equals_object :: "headers \<Rightarrow> string option obj \<Rightarrow> bool" where
  "equals_object h o' \<longleftrightarrow> length (own_keys (to_hash h)) = length (own_keys o') \<and>
     list_all (\<lambda>k. value_at (to_hash h) k = value_at o' k) (own_keys (to_hash h))"

definition header_equals :: "headers \<Rightarrow> headers \<Rightarrow> bool" where
  "header_equals a b \<longleftrightarrow> equals_object a (to_hash b)"

definition quoted :: "string \<Rightarrow> string" where
  "quoted cs = [CHR 0x22] @ cs @ [CHR 0x22]"

fun joined_by :: "string \<Rightarrow> string list \<Rightarrow> string" where
  "joined_by sep [] = []"
| "joined_by sep [x] = x"
| "joined_by sep (x # xs) = x @ sep @ joined_by sep xs"

definition header_inspect :: "headers \<Rightarrow> string" where
  "header_inspect h = (if header_length h = 0 then ''{}''
     else ''{'' @ joined_by '', '' (map (\<lambda>(k, v). quoted k @ ''=>'' @
       quoted (case v of Some cs \<Rightarrow> cs | None \<Rightarrow> ''undefined'')) (entries h)) @ ''}'')"

section \<open>The table keeps its contract\<close>

definition header_ok :: "headers \<Rightarrow> bool" where
  "header_ok h \<longleftrightarrow> hash_ok h \<and> \<not> frozen h \<and> list_all (\<lambda>k. downcase k = k) (hash_keys h)"

definition header_look :: "headers \<Rightarrow> string \<Rightarrow> string option option" where
  "header_look h k = map_of (entries h) (downcase k)"

definition header_put :: "string \<Rightarrow> string option \<Rightarrow> headers \<Rightarrow> headers" where
  "header_put k v h = h\<lparr>entries := map_put (downcase k) v (entries h)\<rparr>"

definition header_drop :: "string \<Rightarrow> headers \<Rightarrow> headers" where
  "header_drop k h = h\<lparr>entries := map_drop (downcase k) (entries h)\<rparr>"

lemma downcase_char_idem: "downcase_char (downcase_char c) = downcase_char c"
proof -
  have lt: "(of_char c :: nat) < 256" by simp
  show ?thesis
  proof (cases "65 \<le> (of_char c :: nat) \<and> (of_char c :: nat) \<le> 90 \<or>
      192 \<le> (of_char c :: nat) \<and> (of_char c :: nat) \<le> 222 \<and> (of_char c :: nat) \<noteq> 215")
    case True
    then have "(of_char (downcase_char c) :: nat) = of_char c + 32"
      using lt by (auto simp: downcase_char_def Let_def)
    then show ?thesis using True by (auto simp: downcase_char_def [of "downcase_char c"] Let_def)
  next
    case False
    then show ?thesis by (auto simp: downcase_char_def Let_def)
  qed
qed

lemma downcase_idem [simp]: "downcase (downcase k) = downcase k"
  by (simp add: downcase_def downcase_char_idem)

lemma header_ok_put: "header_ok h \<Longrightarrow> header_ok (header_put k v h)"
  by (auto simp: header_ok_def hash_ok_def header_put_def map_ok_put hash_keys_def map_put_keys list_all_iff
      split: if_splits)

lemma header_ok_drop: "header_ok h \<Longrightarrow> header_ok (header_drop k h)"
  by (auto simp: header_ok_def hash_ok_def header_drop_def map_ok_drop hash_keys_def map_drop_keys list_all_iff)

interpretation hd: ordered_key_value downcase header_look header_put header_drop header_ok hash_keys
proof unfold_locales
  show "(header_look h k = None) = (downcase k \<notin> set (hash_keys h))" if "header_ok h" for h k
    by (simp add: header_look_def hash_keys_def map_of_eq_None_iff)
  show "header_ok (header_put k v h)" "header_ok (header_drop k h)" if "header_ok h" for h k v
    using that by (rule header_ok_put header_ok_drop)+
qed (simp_all add: header_look_def header_put_def header_drop_def
      map_put_lookup map_drop_lookup hash_keys_def map_put_keys map_drop_keys)

lemma header_set_run: "\<not> frozen h \<Longrightarrow> header_set k v h = (Inr (), header_put k v h)"
  by (simp add: header_set_def hash_set_run header_put_def)

lemma header_put_frozen [simp]: "frozen (header_put k v h) = frozen h"
  by (simp add: header_put_def)

lemma set_all_puts: "\<not> frozen h \<Longrightarrow> set_all kvs h = (Inr (), fold (\<lambda>(k, v). header_put k v) kvs h)"
  unfolding set_all_def
  by (induction kvs arbitrary: h) (auto simp: ret_def andthen_def bind_def header_set_run)

lemma blank_ok: "header_ok hash_blank"
  by (simp add: header_ok_def hash_ok_def hash_blank_def map_ok_def hash_keys_def)

lemma blank_look [simp]: "header_look hash_blank k = None"
  by (simp add: header_look_def hash_blank_def)

lemma ok_unfrozen: "header_ok h \<Longrightarrow> \<not> frozen h"
  by (simp add: header_ok_def)

text \<open>Putting pairs whose keys are in normal form, distinct and new appends them.\<close>

lemma put_all_append:
  "distinct (hash_keys h @ map fst kvs) \<Longrightarrow> list_all (\<lambda>k. downcase k = k) (map fst kvs) \<Longrightarrow>
   fold (\<lambda>(k, v). header_put k v) kvs h = h\<lparr>entries := entries h @ kvs\<rparr>"
proof (induction kvs arbitrary: h)
  case Nil
  then show ?case by simp
next
  case (Cons kv kvs)
  obtain k v where kv: "kv = (k, v)" by (cases kv)
  then have "header_put k v h = h\<lparr>entries := entries h @ [(k, v)]\<rparr>"
    using Cons.prems by (simp add: header_put_def hash_keys_def map_put_new)
  then show ?case using Cons kv by (simp add: hash_keys_def)
qed

lemma header_ok_entries:
  "header_ok h \<Longrightarrow> distinct (map fst (entries h)) \<and> (\<forall>e \<in> set (entries h). downcase (fst e) = fst e)"
  by (auto simp: header_ok_def hash_ok_def map_ok_def hash_keys_def list_all_iff)

lemma rebuild:
  assumes "header_ok h" and "map fst kvs = map fst (filter P (entries h))"
  shows "set_all kvs hash_blank = (Inr (), hash_blank\<lparr>entries := kvs\<rparr>)"
proof -
  have d: "distinct (map fst (filter P (entries h)))"
    using header_ok_entries [OF assms(1)] distinct_map_filter by blast
  have l: "list_all (\<lambda>k. downcase k = k) (map fst (filter P (entries h)))"
    using header_ok_entries [OF assms(1)] by (auto simp: list_all_iff)
  have "fold (\<lambda>(k, v). header_put k v) kvs hash_blank = hash_blank\<lparr>entries := entries hash_blank @ kvs\<rparr>"
    by (rule put_all_append) (use d l assms(2) in \<open>simp_all add: hash_keys_def hash_blank_def\<close>)
  then show ?thesis by (simp add: set_all_puts hash_blank_def)
qed

section \<open>Selecting\<close>

lemma header_delete_run:
  "\<not> frozen h \<Longrightarrow> \<exists>v. header_delete k h = (Inr v, header_drop k h)"
proof -
  assume u: "\<not> frozen h"
  show ?thesis
  proof (cases "map_of (entries h) (downcase k)")
    case None
    then have "map_drop (downcase k) (entries h) = entries h"
      by (force simp: map_drop_def map_of_eq_None_iff filter_id_conv)
    then show ?thesis using u None
      by (simp add: header_delete_def hash_delete_def checked_ok bind_gets ret_def header_drop_def)
  next
    case (Some v)
    then show ?thesis using u
      by (simp add: header_delete_def hash_delete_def checked_ok bind_gets)
        (simp add: ret_def header_drop_def andthen_def bind_def modify_def)
  qed
qed

lemma delete_loop:
  "\<not> frozen g \<Longrightarrow> \<forall>e \<in> set kvs. downcase (fst e) = fst e \<Longrightarrow>
   for_each kvs (\<lambda>(k, v). only_if (f k v) (bind (header_delete k) (\<lambda>_. skip))) g =
   (Inr (), g\<lparr>entries := filter (\<lambda>e. fst e \<notin> fst ` set (filter (\<lambda>(k, v). f k v) kvs)) (entries g)\<rparr>)"
proof (induction kvs arbitrary: g)
  case Nil
  then show ?case by (simp add: ret_def)
next
  case (Cons kv kvs)
  obtain k v where kv: "kv = (k, v)" by (cases kv)
  define g' where "g' = (if f k v then header_drop k g else g)"
  have step: "only_if (f k v) (bind (header_delete k) (\<lambda>_. skip)) g = (Inr (), g')"
    using header_delete_run [OF Cons.prems(1), of k] by (auto simp: only_if_def ret_def bind_def g'_def)
  have "entries g' = filter (\<lambda>e. \<not> (f k v \<and> fst e = k)) (entries g)"
    using Cons.prems(2) kv by (auto simp: g'_def header_drop_def map_drop_def)
  moreover have "\<not> frozen g'" using Cons.prems(1) by (simp add: g'_def header_drop_def)
  moreover have "g'\<lparr>entries := es\<rparr> = g\<lparr>entries := es\<rparr>" for es by (simp add: g'_def header_drop_def)
  ultimately show ?case using Cons.IH [of g'] Cons.prems(2) kv step
    by (auto simp: andthen_def bind_def intro!: arg_cong [where f = "\<lambda>es. g\<lparr>entries := es\<rparr>"] filter_cong)
qed

lemma filter_by_key:
  assumes "distinct (map fst es)"
  shows "filter (\<lambda>e. fst e \<notin> fst ` set (filter P es)) es = filter (\<lambda>e. \<not> P e) es"
proof (rule filter_cong [OF HOL.refl])
  fix e assume e: "e \<in> set es"
  have "P e" if "e' \<in> set es" "P e'" "fst e = fst e'" for e'
    using that e assms by (metis eq_key_imp_eq_value prod.collapse)
  then show "(fst e \<notin> fst ` set (filter P es)) = (\<not> P e)" using e by auto
qed

lemma delete_where_run:
  assumes "header_ok h"
  shows "delete_where f h = (Inr (), h\<lparr>entries := filter (\<lambda>(k, v). \<not> f k v) (entries h)\<rparr>)"
proof -
  have "filter (\<lambda>e. \<not> (\<lambda>(k, v). f k v) e) (entries h) = filter (\<lambda>(k, v). \<not> f k v) (entries h)"
    by (rule filter_cong) auto
  then show ?thesis
    using filter_by_key [OF conjunct1 [OF header_ok_entries [OF assms]], of "\<lambda>(k, v). f k v"]
      delete_loop [OF ok_unfrozen [OF assms] conjunct2 [OF header_ok_entries [OF assms]], of f]
    by (simp only: delete_where_def bind_gets)
qed

lemma list_ex_dropped: "list_ex (\<lambda>x. \<not> P x) es = (length (filter P es) < length es)"
proof (induction es)
  case (Cons e es)
  then show ?case using length_filter_le [of P es] by (auto simp: less_Suc_eq_le)
qed simp

text \<open>
  Selecting: the copying operation and its in-place twin hold the same pairs in the same
  order, and the in-place one answers whether anything was dropped. Rejecting is selecting the
  opposite.
\<close>

theorem select_in_place_agrees:
  assumes "header_ok h"
  shows "\<exists>r t. header_select f h = (Inr (), r) \<and>
    select_in_place f h = (Inr (length (entries r) < length (entries h)), t) \<and>
    entries t = entries r \<and> entries r = filter (\<lambda>(k, v). f k v) (entries h) \<and>
    header_reject (\<lambda>k v. \<not> f k v) h = (Inr (), r)"
proof -
  let ?es = "filter (\<lambda>(k, v). f k v) (entries h)"
  have r: "header_select f h = (Inr (), hash_blank\<lparr>entries := ?es\<rparr>)"
    unfolding header_select_def by (rule rebuild [OF assms HOL.refl])
  have "(\<lambda>(k, v). \<not> f k v) = (\<lambda>x. \<not> (\<lambda>(k, v). f k v) x)" by auto
  then have "list_ex (\<lambda>(k, v). \<not> f k v) (entries h) = (length ?es < length (entries h))"
    using list_ex_dropped [of "\<lambda>(k, v). f k v" "entries h"] by metis
  moreover have "select_in_place f h = (Inr (list_ex (\<lambda>(k, v). \<not> f k v) (entries h)), h\<lparr>entries := ?es\<rparr>)"
    by (simp add: select_in_place_def changing_def gets_def andthen_def bind_def
        delete_where_run [OF assms] ret_def)
  moreover have "header_reject (\<lambda>k v. \<not> f k v) h = (Inr (), hash_blank\<lparr>entries := ?es\<rparr>)"
    using r by (simp add: header_reject_def header_select_def)
  ultimately show ?thesis using r by simp
qed

lemma select_in_place_agrees_example:
  "fst (select_in_place (\<lambda>k v. k = ''b'') (hash_blank\<lparr>entries := [(''a'', Some ''1''), (''b'', None)]\<rparr>)) = Inr True"
proof -
  have "header_ok (hash_blank\<lparr>entries := [(''a'', Some ''1''), (''b'', None)]\<rparr>)"
    by (simp add: header_ok_def hash_ok_def map_ok_def hash_keys_def hash_blank_def downcase_def
        downcase_char_def)
  from select_in_place_agrees [OF this, of "\<lambda>k v. k = ''b''"] show ?thesis by auto
qed

section \<open>Transforming in place\<close>

text \<open>
  \<open>transformValues!\<close> ends although it writes to the table it walks, because every key is in
  normal form already and no write adds a pair: each value is transformed once, in place.
\<close>

theorem transform_values_in_place_total:
  assumes "header_ok h"
  shows "transform_values_in_place f h =
    Some (Inr (), h\<lparr>entries := map (\<lambda>(k, v). (k, f v)) (entries h)\<rparr>)"
proof -
  let ?es = "entries h" and ?g = "\<lambda>(k, v). (k, f v)"
  have "transform_from n f i (h\<lparr>entries := map ?g (take i ?es) @ drop i ?es\<rparr>) =
      Some (Inr (), h\<lparr>entries := map ?g ?es\<rparr>)" if "i + n = Suc (length ?es)" "i \<le> length ?es" for n i
    using that
  proof (induction n arbitrary: i)
    case 0
    then show ?case by simp
  next
    case (Suc n)
    let ?cur = "map ?g (take i ?es) @ drop i ?es"
    show ?case
    proof (cases "i < length ?es")
      case False
      then show ?thesis using Suc.prems by simp
    next
      case True
      obtain k v where kv: "?es ! i = (k, v)" by (cases "?es ! i")
      then have k: "downcase k = k" using header_ok_entries [OF assms] True by (metis fst_conv nth_mem)
      have keys: "map fst ?cur = map fst ?es"
      proof -
        have "map fst (map ?g (take i ?es)) = map fst (take i ?es)" by (simp add: case_prod_unfold)
        then show ?thesis by (metis append_take_drop_id map_append)
      qed
      have cur_i: "?cur ! i = (k, v)" "i < length ?cur"
        using True kv by (simp_all add: nth_append)
      have "map_put k (f v) ?cur = ?cur[i := (k, f v)]"
        using map_put_at [of ?cur i "f v", unfolded keys cur_i(1), OF conjunct1 [OF header_ok_entries [OF assms]] cur_i(2)]
        by (simp only: fst_conv)
      also have "\<dots> = map ?g (take (Suc i) ?es) @ drop (Suc i) ?es"
        using True kv by (simp add: list_update_append take_Suc_conv_app_nth Cons_nth_drop_Suc [symmetric])
      finally show ?thesis
        using Suc True kv k cur_i ok_unfrozen [OF assms]
        by (simp add: header_set_run header_put_def)
    qed
  qed
  from this [of 0 "Suc (length ?es)"] show ?thesis by (simp add: transform_values_in_place_def)
qed

lemma transform_values_in_place_total_example:
  "transform_values_in_place (map_option (\<lambda>cs. cs @ cs)) (hash_blank\<lparr>entries := [(''a'', Some ''1''), (''b'', None)]\<rparr>)
   = Some (Inr (), hash_blank\<lparr>entries := [(''a'', Some ''11''), (''b'', None)]\<rparr>)"
  by (subst transform_values_in_place_total)
    (simp_all add: header_ok_def hash_ok_def map_ok_def hash_keys_def hash_blank_def downcase_def
        downcase_char_def)

section \<open>Tables built anew\<close>

lemma set_all_ok: "header_ok h \<Longrightarrow> header_ok (snd (set_all kvs h))"
  using hd.ok_put_all [of h kvs] by (simp add: set_all_puts ok_unfrozen)

lemma merge_pair_run:
  "header_ok h \<Longrightarrow> merge_pair fn (k, v) h = (Inr (), header_put k
     (case (fn, header_look h k) of (Some f, Some w) \<Rightarrow> f (downcase k) w v | _ \<Rightarrow> v) h)"
proof -
  assume ok: "header_ok h"
  have "map_has (entries h) (downcase k) = (map_of (entries h) (downcase k) \<noteq> None)"
    by (simp add: map_has_def map_of_eq_None_iff)
  then show ?thesis using ok
    by (auto simp: merge_pair_def bind_gets Let_def header_set_run ok_unfrozen header_put_def header_has_def
        stored_def header_look_def split: option.splits)
qed

definition seat_of :: "headers \<Rightarrow> headers" where
  "seat_of h = hash_blank\<lparr>default_value := default_value h, default_proc := default_proc h\<rparr>"

lemma header_dup_run: "header_ok h \<Longrightarrow> header_dup h = (Inr (), h)"
proof -
  assume ok: "header_ok h"
  have seat: "(case default_proc h of Some p \<Rightarrow> set_default_proc (Some p) | None \<Rightarrow> set_default (default0 h))
      hash_blank = (Inr (), seat_of h)"
    using ok by (auto simp: header_ok_def hash_ok_def set_default_proc_def set_default_def default0_def
        andthen_def bind_def modify_check_run modify_def hash_blank_def seat_of_def split: option.splits)
  have "fold (\<lambda>(k, v). header_put k v) (entries h) (seat_of h) = (seat_of h)\<lparr>entries := entries (seat_of h) @ entries h\<rparr>"
    using header_ok_entries [OF ok]
    by (intro put_all_append) (auto simp: hash_keys_def seat_of_def hash_blank_def list_all_iff)
  moreover have "(seat_of h)\<lparr>entries := entries (seat_of h) @ entries h\<rparr> = h"
    using ok by (simp add: seat_of_def hash_blank_def header_ok_def)
  moreover have "\<not> frozen (seat_of h)" by (simp add: seat_of_def hash_blank_def)
  ultimately show ?thesis
    using seat by (simp add: header_dup_def andthen_def bind_def set_all_puts)
qed

lemma merge_all_run:
  "header_ok h \<Longrightarrow> \<exists>t. for_each kvs (merge_pair fn) h = (Inr (), t) \<and> header_ok t \<and>
     header_look t k = foldl (\<lambda>old (k', v). if downcase k = downcase k'
       then Some (case (fn, old) of (Some f, Some w) \<Rightarrow> f (downcase k) w v | _ \<Rightarrow> v) else old)
       (header_look h k) kvs"
proof (induction kvs arbitrary: h)
  case Nil
  then show ?case by (simp add: ret_def)
next
  case (Cons kv kvs)
  obtain k' v where kv: "kv = (k', v)" by (cases kv)
  let ?w = "case (fn, header_look h k') of (Some f, Some w) \<Rightarrow> f (downcase k') w v | _ \<Rightarrow> v"
  let ?h = "header_put k' ?w h"
  have "header_look h k' = header_look h k" if "downcase k = downcase k'"
    using that by (simp add: header_look_def)
  then have look: "header_look ?h k = (if downcase k = downcase k'
       then Some (case (fn, header_look h k) of (Some f, Some w) \<Rightarrow> f (downcase k) w v | _ \<Rightarrow> v)
       else header_look h k)"
    using hd.look_put [OF Cons.prems, of k' ?w k]
    by (cases "downcase k = downcase k'") (simp_all split: option.splits)
  obtain t where "for_each kvs (merge_pair fn) ?h = (Inr (), t)" "header_ok t"
    "header_look t k = foldl (\<lambda>old (k', v). if downcase k = downcase k'
       then Some (case (fn, old) of (Some f, Some w) \<Rightarrow> f (downcase k) w v | _ \<Rightarrow> v) else old)
       (header_look ?h k) kvs"
    using Cons.IH [OF header_ok_put [OF Cons.prems]] by blast
  then show ?case
    using merge_pair_run [OF Cons.prems, of fn k' v] kv look by (simp add: andthen_def bind_def)
qed

text \<open>
  Merging headers, whatever the case they are spelled in: the value found for a name is
  the receiver's, replaced in turn by every merged pair of that name, or joined with it by the
  conflict function where the name was there already. The receiver's default is kept.
\<close>

theorem header_merge_lookup:
  assumes "header_ok h"
  shows "\<exists>t. header_merge src fn h = (Inr (), t) \<and> header_ok t \<and>
    header_look t k = foldl (\<lambda>old (k', v). if downcase k = downcase k'
       then Some (case (fn, old) of (Some f, Some w) \<Rightarrow> f (downcase k) w v | _ \<Rightarrow> v) else old)
       (header_look h k) (source_pairs src h)"
  using merge_all_run [OF assms] by (simp add: header_merge_def header_dup_run [OF assms])

lemma header_merge_lookup_example:
  "\<exists>t. header_merge (Pairs [(''A'', Some ''2''), (''a'', Some ''3'')])
     (Some (\<lambda>_ old new. Some (the old @ '','' @ the new)))
     (hash_blank\<lparr>entries := [(''a'', Some ''1'')]\<rparr>) = (Inr (), t) \<and> header_look t ''A'' = Some (Some ''1,2,3'')"
proof -
  let ?h = "hash_blank\<lparr>entries := [(''a'', Some ''1'')]\<rparr> :: headers"
  have "header_ok ?h"
    by (simp add: header_ok_def hash_ok_def map_ok_def hash_keys_def hash_blank_def downcase_def
        downcase_char_def)
  note run = header_merge_lookup [OF this, of "Pairs [(''A'', Some ''2''), (''a'', Some ''3'')]"
      "Some (\<lambda>_ old new. Some (the old @ '','' @ the new))" "''A''"]
  have low: "downcase ''A'' = ''a''" "downcase ''a'' = ''a''" by code_simp+
  show ?thesis using run by (auto simp: source_pairs_def header_look_def low)
qed

text \<open>
  Every table the operations build, from whatever arguments, has its names distinct and
  in normal form; merging, deleting, transforming and replacing in place keep it so.
\<close>

theorem header_operations_ok:
  "header_ok (snd (from_args args)) \<and> header_ok (snd (from_object o')) \<and>
   header_ok (snd (header_select f h)) \<and> header_ok (snd (header_reject f h)) \<and>
   header_ok (snd (compact h)) \<and> header_ok (snd (header_except ks h)) \<and>
   header_ok (snd (header_transform_values g h)) \<and> header_ok (snd (transform_keys ren h)) \<and>
   header_ok (snd (invert h)) \<and> header_ok (snd (header_slice ks h)) \<and>
   (header_ok h \<longrightarrow> header_ok (snd (header_dup h)) \<and> header_ok (snd (header_merge src fn h)) \<and>
     header_ok (snd (merge_in_place src fn h)) \<and> header_ok (snd (header_replace src h)) \<and>
     header_ok (snd (transform_keys_in_place ren h)) \<and> header_ok (snd (header_set k v h)) \<and>
     header_ok (snd (header_delete k h)) \<and> header_ok (snd (delete_where f h)))"
proof -
  have slice: "header_ok (snd (for_each ks (\<lambda>k. let lk = downcase k in
     if header_has h lk then header_set lk (stored h lk) else skip) g))" if "header_ok g" for g
    using that
  proof (induction ks arbitrary: g)
    case Nil
    then show ?case by (simp add: ret_def)
  next
    case (Cons k ks)
    then show ?case
      by (simp add: Let_def andthen_def bind_def ret_def header_set_run ok_unfrozen header_ok_put)
  qed
  have merged: "header_ok (snd (merge_in_place src fn h))" if "header_ok h" for h src fn
    using merge_all_run [OF that, of "source_pairs src h" fn undefined]
    by (elim exE conjE) (simp add: merge_in_place_def bind_gets)
  have clear: "hash_clear h = (Inr (), h\<lparr>entries := []\<rparr>)" "header_ok (h\<lparr>entries := []\<rparr>)" if "header_ok h"
    using that by (auto simp: hash_clear_def checked_ok header_ok_def hash_ok_def map_ok_def modify_def
        hash_keys_def)
  have drop: "header_ok (snd (header_delete k h))" if "header_ok h"
    using header_delete_run [OF ok_unfrozen [OF that], of k] header_ok_drop [OF that, of k] by auto
  have dropped: "header_ok (snd (delete_where f h))" if "header_ok h"
    using header_ok_entries [OF that] that
    by (auto simp: delete_where_run [OF that] header_ok_def hash_ok_def map_ok_def hash_keys_def
        distinct_map_filter list_all_iff)
  show ?thesis
    by (simp add: from_args_def from_object_def header_select_def header_reject_def compact_def
        header_except_def header_transform_values_def transform_keys_def invert_def set_all_ok blank_ok
        header_slice_def slice)
      (auto simp: header_dup_run header_merge_lookup merged drop dropped header_set_run ok_unfrozen header_ok_put
        header_replace_def transform_keys_in_place_def gets_def andthen_def bind_def clear set_all_ok
        dest: header_merge_lookup [of h src fn])
qed

lemma header_operations_ok_example:
  "header_ok (snd (transform_keys_in_place (\<lambda>k. ''X-'' @ k) (hash_blank\<lparr>entries := [(''a'', None)]\<rparr>)))"
proof -
  have "header_ok (hash_blank\<lparr>entries := [(''a'', None)]\<rparr>)"
    by (simp add: header_ok_def hash_ok_def map_ok_def hash_keys_def hash_blank_def downcase_def
        downcase_char_def)
  then show ?thesis
    using header_operations_ok [of "[]" null_obj "\<lambda>_ _. True" "hash_blank\<lparr>entries := [(''a'', None)]\<rparr>" "[]"
        "\<lambda>v. v" "\<lambda>k. ''X-'' @ k" "Pairs []" None "''a''" None] by blast
qed

section \<open>Equality\<close>

lemma to_hash_own:
  assumes "header_ok h"
  shows "own (to_hash h) = filter (\<lambda>e. fst e \<noteq> ''__proto__'') (entries h)"
proof -
  have "own (fold (\<lambda>(k, v) o'. if k = ''__proto__'' then o' else obj_put k v o') kvs o') =
      own o' @ filter (\<lambda>e. fst e \<noteq> ''__proto__'') kvs"
    if "distinct (map fst (own o' @ kvs))" for kvs and o' :: "string option obj"
    using that
  proof (induction kvs arbitrary: o')
    case Nil
    then show ?case by simp
  next
    case (Cons kv kvs)
    obtain k v where kv: "kv = (k, v)" by (cases kv)
    have "own (obj_put k v o') = own o' @ [(k, v)]"
      using Cons.prems kv by (simp add: obj_put_def map_put_new)
    then show ?case using Cons.IH [of o'] Cons.IH [of "obj_put k v o'"] Cons.prems kv by auto
  qed
  from this [of null_obj "entries h"] show ?thesis
    using header_ok_entries [OF assms] by (simp add: to_hash_def)
qed

lemma own_keys_length: "length (own_keys o') = length (own o')"
proof -
  have "length (filter array_index ks) + length (filter (\<lambda>k. \<not> array_index k) ks) = length ks" for ks
    by (rule sum_length_filter_compl)
  from this [of "map fst (own o')"] show ?thesis by (simp add: own_keys_def)
qed

text \<open>
  Two tables without a header called \<open>__proto__\<close> and without \<open>undefined\<close> values are equal
  exactly when every name is looked up alike in both, whatever the order of their pairs.
\<close>

theorem header_equals_iff:
  assumes "header_ok a" and "header_ok b"
    and "\<And>h k v. h \<in> {a, b} \<Longrightarrow> (k, v) \<in> set (entries h) \<Longrightarrow> k \<noteq> ''__proto__'' \<and> v \<noteq> None"
  shows "header_equals a b \<longleftrightarrow> (\<forall>k. header_look a k = header_look b k)"
proof -
  have own: "own (to_hash h) = entries h" if "h \<in> {a, b}" for h
    using that assms(1,2) assms(3) [OF that] by (auto simp: to_hash_own filter_id_conv)
  have d: "distinct (map fst (entries a))" "distinct (map fst (entries b))"
    using header_ok_entries assms(1,2) by blast+
  let ?A = "fst ` set (entries a)" and ?B = "fst ` set (entries b)"
  have card: "card ?A = length (entries a)" "card ?B = length (entries b)"
    using d by (simp_all add: distinct_card flip: set_map)
  have eq: "header_equals a b \<longleftrightarrow> length (entries a) = length (entries b) \<and>
      (\<forall>k \<in> ?A. map_of (entries a) k = map_of (entries b) k)"
  proof -
    have "value_at (to_hash a) k = value_at (to_hash b) k \<longleftrightarrow> map_of (entries a) k = map_of (entries b) k"
      if k: "k \<in> ?A" for k
    proof -
      obtain v where v: "(k, v) \<in> set (entries a)" using k by auto
      then have "map_of (entries a) k = Some v" using d(1) by simp
      moreover have "w \<noteq> None" if "map_of (entries b) k = Some w" for w
        using that assms(3) [of b k w] map_of_SomeD by fastforce
      moreover have "v \<noteq> None" using v assms(3) [of a k v] by blast
      ultimately show ?thesis by (auto simp: value_at_def own split: option.splits)
    qed
    then show ?thesis
      by (auto simp: header_equals_def equals_object_def own_keys_length own own_keys_set list_all_iff)
  qed
  show ?thesis
  proof
    assume "header_equals a b"
    then have len: "length (entries a) = length (entries b)"
      and same: "\<forall>k \<in> ?A. map_of (entries a) k = map_of (entries b) k" using eq by blast+
    have "?A \<subseteq> ?B" using same by (metis map_of_eq_None_iff subsetI)
    then have "?A = ?B" using card len by (simp add: card_subset_eq)
    then have "map_of (entries a) k = map_of (entries b) k" for k
      using same by (cases "k \<in> ?A") (auto simp: map_of_eq_None_iff [THEN iffD2])
    then show "\<forall>k. header_look a k = header_look b k" by (simp add: header_look_def)
  next
    assume look: "\<forall>k. header_look a k = header_look b k"
    have low: "downcase k = k" if "k \<in> ?A \<union> ?B" for k
      using that header_ok_entries assms(1,2) by auto
    have same: "map_of (entries a) k = map_of (entries b) k" if "k \<in> ?A \<union> ?B" for k
      using look [rule_format, of k] low [OF that] by (simp add: header_look_def)
    have "?A = ?B" using same by (metis UnCI map_of_eq_None_iff subsetI subset_antisym)
    then show "header_equals a b" using eq same card by auto
  qed
qed

lemma header_equals_iff_example:
  "header_equals (hash_blank\<lparr>entries := [(''a'', Some ''1''), (''b'', Some ''2'')]\<rparr>)
     (hash_blank\<lparr>entries := [(''b'', Some ''2''), (''a'', Some ''1'')]\<rparr>)"
proof -
  have ok: "header_ok (hash_blank\<lparr>entries := [(''a'', Some ''1''), (''b'', Some ''2'')]\<rparr>)"
    "header_ok (hash_blank\<lparr>entries := [(''b'', Some ''2''), (''a'', Some ''1'')]\<rparr>)"
    by (simp_all add: header_ok_def hash_ok_def map_ok_def hash_keys_def hash_blank_def downcase_def
        downcase_char_def)
  show ?thesis
    by (subst header_equals_iff [OF ok]) (auto simp: header_look_def)
qed

text \<open>
  \<open>equals\<close> goes through \<open>toHash\<close>, whose plain object cannot hold a property
  \<open>__proto__\<close>: two tables that differ in such a header are called equal.
\<close>

theorem equals_misses_proto:
  "let a = hash_blank\<lparr>entries := [(''__proto__'', Some ''1'')]\<rparr> :: headers
   in header_ok a \<and> header_equals a hash_blank \<and> header_look a ''__proto__'' \<noteq> header_look hash_blank ''__proto__''"
  by (simp add: Let_def header_ok_def hash_ok_def map_ok_def hash_keys_def hash_blank_def downcase_def
      downcase_char_def header_equals_def equals_object_def to_hash_def own_keys_def header_look_def)

end
