(* ===== verification/Journey_Syntax.thy ===== *)
theory Journey_Syntax
  imports Prelude
begin

text \<open>
  Route patterns, \<^verbatim>\<open>packages/actionpack/src/action-dispatch/journey/\<close>: the nodes of
  \<^verbatim>\<open>nodes/node.ts\<close>, the scanner of \<^verbatim>\<open>scanner.ts\<close>, the parser of \<^verbatim>\<open>parser.ts\<close> and the
  printing visitor of \<^verbatim>\<open>visitors.ts\<close>.

  The scanner and the parser keep their fields (\<open>str\<close>, \<open>pos\<close>, \<open>len\<close>, the token read ahead). The
  parser's recursion carries fuel; \<open>parse\<close> gives it four units per character and
  six more, which is always enough. A regular expression is one of the two of
  \<^verbatim>\<open>node.ts\<close>, the one of a star, or a user's (by number); what a user's accepts is a parameter of
  the theories that match. The last section follows the scanner and the parser on a string and on the same
  string with a right parenthesis and more behind it.
\<close>

section \<open>Nodes\<close>

datatype regexp = DefaultExp | GreedyExp | StarExp | UserExp nat

text \<open>Terminals carry their memo, the number of the route they belong to.\<close>

datatype node =
    Literal string "nat option"
  | Slash string "nat option"
  | Dot string "nat option"
  | Symbol string regexp "nat option"
  | Group node
  | Star node regexp
  | Cat node node
  | Or "node list"

definition strip_marks :: "string \<Rightarrow> string" where
  "strip_marks cs = filter (\<lambda>c. c \<noteq> CHR ''*'' \<and> c \<noteq> CHR '':'') cs"

fun left_text :: "node \<Rightarrow> string option" where
  "left_text (Literal l m) = Some l"
| "left_text (Slash l m) = Some l"
| "left_text (Dot l m) = Some l"
| "left_text (Symbol l r m) = Some l"
| "left_text _ = None"

text \<open>\<open>name\<close>; \<open>None\<close> is the thrown error of a node whose \<open>left\<close> is a node.\<close>

fun node_name :: "node \<Rightarrow> string option" where
  "node_name (Star n r) = map_option strip_marks (node_name n)"
| "node_name n = map_option strip_marks (left_text n)"

fun children :: "node \<Rightarrow> node list" where
  "children (Group n) = [n]"
| "children (Star n r) = [n]"
| "children (Cat a b) = [a, b]"
| "children (Or ns) = ns"
| "children _ = []"

text \<open>The iterator: the node, then everything below each child in order.\<close>

fun nodes_of :: "node \<Rightarrow> node list" where
  "nodes_of (Group n) = Group n # nodes_of n"
| "nodes_of (Star n r) = Star n r # nodes_of n"
| "nodes_of (Cat a b) = Cat a b # nodes_of a @ nodes_of b"
| "nodes_of (Or ns) = Or ns # concat (map nodes_of ns)"
| "nodes_of n = [n]"

fun join_with :: "string \<Rightarrow> string list \<Rightarrow> string" where
  "join_with sep [] = []"
| "join_with sep [x] = x"
| "join_with sep (x # xs) = x @ sep @ join_with sep xs"

fun to_string :: "node \<Rightarrow> string" where
  "to_string (Literal l m) = l"
| "to_string (Slash l m) = l"
| "to_string (Dot l m) = l"
| "to_string (Symbol l r m) = l"
| "to_string (Group n) = ''('' @ to_string n @ '')''"
| "to_string (Star n r) = to_string n"
| "to_string (Cat a b) = to_string a @ to_string b"
| "to_string (Or ns) = join_with ''|'' (map to_string ns)"

definition is_symbol :: "node \<Rightarrow> bool" where
  "is_symbol n \<longleftrightarrow> (case n of Symbol _ _ _ \<Rightarrow> True | _ \<Rightarrow> False)"

definition is_star :: "node \<Rightarrow> bool" where
  "is_star n \<longleftrightarrow> (case n of Star _ _ \<Rightarrow> True | _ \<Rightarrow> False)"

definition is_group :: "node \<Rightarrow> bool" where
  "is_group n \<longleftrightarrow> (case n of Group _ \<Rightarrow> True | _ \<Rightarrow> False)"

definition is_literal :: "node \<Rightarrow> bool" where
  "is_literal n \<longleftrightarrow> (case n of Literal _ _ \<Rightarrow> True | _ \<Rightarrow> False)"

definition is_terminal :: "node \<Rightarrow> bool" where
  "is_terminal n \<longleftrightarrow> left_text n \<noteq> None"

section \<open>The tree of a route\<close>

record ast =
  tree :: node
  path_params :: "string list"
  wildcards :: "string list"
  terminals :: "node list"
  globs :: "node list"

text \<open>\<open>Ast\<close>: one walk over the tree. \<open>formatted\<close> says that the argument is not \<open>false\<close>; \<open>wildcards\<close> are
  the own keys of \<open>wildcardOptions\<close>, each mapped to \<open>/.+?/s\<close>. The test \<open>key in this.wildcardOptions\<close>
  also finds what a plain object inherits.\<close>

definition object_prototype_keys :: "string list" where
  "object_prototype_keys = [''constructor'', ''toString'', ''toLocaleString'', ''valueOf'',
     ''hasOwnProperty'', ''isPrototypeOf'', ''propertyIsEnumerable'', ''__proto__'',
     ''__defineGetter__'', ''__defineSetter__'', ''__lookupGetter__'', ''__lookupSetter__'']"

definition add_wildcard :: "node \<Rightarrow> string list \<Rightarrow> string list" where
  "add_wildcard n ks = (case node_name n of
     Some k \<Rightarrow> if k \<in> set ks \<or> k \<in> set object_prototype_keys then ks else ks @ [k]
   | None \<Rightarrow> ks)"

definition new_ast :: "node \<Rightarrow> bool \<Rightarrow> ast" where
  "new_ast t formatted = (let ns = nodes_of t in
     \<lparr>tree = t,
      path_params = List.map_filter (\<lambda>n. if is_symbol n then node_name n else None) ns,
      wildcards = (if formatted then fold add_wildcard (filter is_star ns) [] else []),
      terminals = filter is_terminal ns,
      globs = filter is_star ns\<rparr>)"

definition is_glob :: "ast \<Rightarrow> bool" where
  "is_glob a \<longleftrightarrow> globs a \<noteq> []"

text \<open>The setter \<open>requirements\<close>: the expression of every symbol and star whose name has one.\<close>

fun set_requirements :: "(string \<rightharpoonup> regexp) \<Rightarrow> node \<Rightarrow> node" where
  "set_requirements reqs (Symbol l r m) =
     Symbol l (case reqs (strip_marks l) of Some r' \<Rightarrow> r' | None \<Rightarrow> r) m"
| "set_requirements reqs (Star n r) = Star (set_requirements reqs n)
     (case node_name n of
        Some k \<Rightarrow> (case reqs (strip_marks k) of Some r' \<Rightarrow> r' | None \<Rightarrow> r)
      | None \<Rightarrow> r)"
| "set_requirements reqs (Group n) = Group (set_requirements reqs n)"
| "set_requirements reqs (Cat a b) = Cat (set_requirements reqs a) (set_requirements reqs b)"
| "set_requirements reqs (Or ns) = Or (map (set_requirements reqs) ns)"
| "set_requirements reqs n = n"

text \<open>The setter \<open>route\<close>: the memo of every terminal.\<close>

fun set_route :: "nat option \<Rightarrow> node \<Rightarrow> node" where
  "set_route v (Literal l m) = Literal l v"
| "set_route v (Slash l m) = Slash l v"
| "set_route v (Dot l m) = Dot l v"
| "set_route v (Symbol l r m) = Symbol l r v"
| "set_route v (Group n) = Group (set_route v n)"
| "set_route v (Star n r) = Star (set_route v n) r"
| "set_route v (Cat a b) = Cat (set_route v a) (set_route v b)"
| "set_route v (Or ns) = Or (map (set_route v) ns)"

section \<open>The printing visitor\<close>

fun print_into :: "node \<Rightarrow> string \<Rightarrow> string"
  and print_nary :: "node list \<Rightarrow> string \<Rightarrow> string" where
  "print_into (Cat a b) seed = print_into b (print_into a seed)"
| "print_into (Or ns) seed = print_nary ns seed"
| "print_into (Group n) seed = print_into n (seed @ ''('') @ '')''"
| "print_into (Star n r) seed = print_into n seed"
| "print_into (Literal l m) seed = seed @ l"
| "print_into (Slash l m) seed = seed @ l"
| "print_into (Dot l m) seed = seed @ l"
| "print_into (Symbol l r m) seed = seed @ l"
| "print_nary [] seed = seed"
| "print_nary [n] seed = print_into n seed"
| "print_nary (n # n' # ns) seed = print_nary (n' # ns) (print_into n seed @ ''|'')"

section \<open>The scanner\<close>

datatype token = SLASH | DOT | LPAREN | RPAREN | OR | SYMBOL | STAR | LITERAL

definition static_token :: "char \<Rightarrow> token option" where
  "static_token c =
     (if c = CHR ''.'' then Some DOT
      else if c = CHR ''/'' then Some SLASH
      else if c = CHR ''('' then Some LPAREN
      else if c = CHR '')'' then Some RPAREN
      else if c = CHR ''|'' then Some OR
      else if c = CHR '':'' then Some SYMBOL
      else if c = CHR ''*'' then Some STAR
      else None)"

definition word_char :: "char \<Rightarrow> bool" where
  "word_char c \<longleftrightarrow> (let n = of_char c :: nat in
     48 \<le> n \<and> n \<le> 57 \<or> 65 \<le> n \<and> n \<le> 90 \<or> 97 \<le> n \<and> n \<le> 122 \<or> n = 95)"

definition literal_char :: "char \<Rightarrow> bool" where
  "literal_char c \<longleftrightarrow> word_char c \<or> c \<in> set ''%-~!$&*+,;=@'' \<or> c = CHR 0x27"

text \<open>How many characters \<open>/(?:[\w%\-~!$&'*+,;=@]|\\[:()])+/y\<close> takes.\<close>

fun literal_run :: "string \<Rightarrow> nat" where
  "literal_run [] = 0"
| "literal_run (c # cs) =
     (if literal_char c then Suc (literal_run cs)
      else if c = CHR 0x5C then
        (case cs of
           d # ds \<Rightarrow> if d \<in> set '':()'' then Suc (Suc (literal_run ds)) else 0
         | [] \<Rightarrow> 0)
      else 0)"

record scanner =
  str :: string
  pos :: nat
  len :: nat

definition scan_setup :: "string \<Rightarrow> scanner" where
  "scan_setup s = \<lparr>str = s, pos = 0, len = 0\<rparr>"

definition next_not_token :: "scanner \<Rightarrow> bool" where
  "next_not_token sc \<longleftrightarrow> (case drop (Suc (pos sc)) (str sc) of
     [] \<Rightarrow> True | c # _ \<Rightarrow> static_token c = None)"

text \<open>\<open>scan\<close>, called with \<open>pos < length str\<close>.\<close>

definition scan :: "scanner \<Rightarrow> token \<times> scanner" where
  "scan sc =
     (case static_token (str sc ! pos sc) of
        Some t \<Rightarrow>
          if t \<noteq> SYMBOL \<or> next_not_token sc then
            (if t = SYMBOL \<or> t = STAR then
               (let skipped = length (takeWhile word_char (drop (Suc (pos sc)) (str sc)))
                in (t, sc\<lparr>pos := Suc (pos sc) + skipped, len := skipped + 1\<rparr>))
             else (t, sc\<lparr>pos := Suc (pos sc)\<rparr>))
          else (let n = literal_run (drop (pos sc) (str sc)) in
            if n > 0 then (LITERAL, sc\<lparr>len := n, pos := pos sc + n\<rparr>)
            else (LITERAL, sc\<lparr>len := 1, pos := pos sc + 1\<rparr>))
      | None \<Rightarrow>
          (let n = literal_run (drop (pos sc) (str sc)) in
            if n > 0 then (LITERAL, sc\<lparr>len := n, pos := pos sc + n\<rparr>)
            else (LITERAL, sc\<lparr>len := 1, pos := pos sc + 1\<rparr>)))"

text \<open>\<open>scan\<close> never answers \<open>null\<close>, so the loop of \<open>nextToken\<close> runs once.\<close>

definition next_token :: "scanner \<Rightarrow> token option \<times> scanner" where
  "next_token sc = (if length (str sc) \<le> pos sc then (None, sc)
     else (case scan sc of (t, sc') \<Rightarrow> (Some t, sc')))"

definition last_string :: "scanner \<Rightarrow> string" where
  "last_string sc = take (len sc) (drop (pos sc - len sc) (str sc))"

definition last_literal :: "scanner \<Rightarrow> string" where
  "last_literal sc = filter (\<lambda>c. c \<noteq> CHR 0x5C) (last_string sc)"

section \<open>The parser\<close>

datatype parse_error = MissingRightParen | UnexpectedToken "token option" | OutOfFuel

record parser =
  scn :: scanner
  ahead :: "token option"

type_synonym 'a parse = "(parser, parse_error, 'a) comp"

definition advance_token :: "unit parse" where
  "advance_token = modify (\<lambda>p. case next_token (scn p) of (t, sc) \<Rightarrow> \<lparr>scn = sc, ahead = t\<rparr>)"

definition parse_star :: "node parse" where
  "parse_star = bind (gets (\<lambda>p. Star (Symbol (last_string (scn p)) GreedyExp None) StarExp))
     (\<lambda>n. andthen advance_token (ret n))"

definition parse_terminal :: "node parse" where
  "parse_terminal = bind (gets (\<lambda>p. p)) (\<lambda>p. bind
     (case ahead p of
        Some SYMBOL \<Rightarrow> ret (Symbol (last_string (scn p)) DefaultExp None)
      | Some LITERAL \<Rightarrow> ret (Literal (last_literal (scn p)) None)
      | Some SLASH \<Rightarrow> ret (Slash ''/'' None)
      | Some DOT \<Rightarrow> ret (Dot ''.'' None)
      | t \<Rightarrow> throw (UnexpectedToken t))
     (\<lambda>n. andthen advance_token (ret n)))"

fun parse_expressions :: "nat \<Rightarrow> node parse"
  and parse_rest :: "nat \<Rightarrow> node \<Rightarrow> node parse"
  and parse_or :: "nat \<Rightarrow> node \<Rightarrow> node parse"
  and parse_expression :: "nat \<Rightarrow> node parse"
  and parse_group :: "nat \<Rightarrow> node parse" where
  "parse_expressions 0 = throw OutOfFuel"
| "parse_expressions (Suc n) = bind (parse_expression n) (\<lambda>l. parse_rest n l)"
| "parse_rest 0 l = throw OutOfFuel"
| "parse_rest (Suc n) l = bind (gets ahead) (\<lambda>t.
     if t = None \<or> t = Some RPAREN then ret l
     else if t = Some OR then bind (parse_or n l) (\<lambda>l'. parse_rest n l')
     else bind (parse_expressions n) (\<lambda>r. parse_rest n (Cat l r)))"
| "parse_or 0 l = throw OutOfFuel"
| "parse_or (Suc n) l = andthen advance_token (bind (parse_expression n) (\<lambda>r. ret (Or [l, r])))"
| "parse_expression 0 = throw OutOfFuel"
| "parse_expression (Suc n) = bind (gets ahead) (\<lambda>t.
     if t = Some STAR then parse_star
     else if t = Some LPAREN then parse_group n
     else parse_terminal)"
| "parse_group 0 = throw OutOfFuel"
| "parse_group (Suc n) = andthen advance_token (bind (parse_expressions n) (\<lambda>inner.
     bind (gets ahead) (\<lambda>t. if t \<noteq> Some RPAREN then throw MissingRightParen
       else andthen advance_token (ret (Group inner)))))"

definition parser_fuel :: "string \<Rightarrow> nat" where
  "parser_fuel s = 4 * (length s + 1) + 2"

definition parse :: "string \<Rightarrow> (parse_error + node) \<times> parser" where
  "parse s = andthen advance_token (parse_expressions (parser_fuel s))
     \<lparr>scn = scan_setup s, ahead = None\<rparr>"

section \<open>Printing\<close>

text \<open>
  The printing visitor, which threads the text written so far, writes what \<open>toString\<close> of
  the node answers.
\<close>

theorem print_into_to_string: "print_into n seed = seed @ to_string n"
proof -
  have "print_into n seed = seed @ to_string n"
    and "print_nary ns seed = seed @ join_with ''|'' (map to_string ns)" for ns
    by (induction n seed and ns seed rule: print_into_print_nary.induct) simp_all
  then show ?thesis by blast
qed

section \<open>Scanning\<close>

definition text_of :: "token \<Rightarrow> scanner \<Rightarrow> string" where
  "text_of t sc = (case t of
     SLASH \<Rightarrow> ''/'' | DOT \<Rightarrow> ''.'' | LPAREN \<Rightarrow> ''('' | RPAREN \<Rightarrow> '')'' | OR \<Rightarrow> ''|''
   | _ \<Rightarrow> last_string sc)"

lemma literal_run_le: "literal_run cs \<le> length cs"
  by (induction cs rule: literal_run.induct) (auto split: list.splits)

lemma static_token_char:
  "static_token c = Some t \<Longrightarrow> t \<noteq> SYMBOL \<Longrightarrow> t \<noteq> STAR \<Longrightarrow> text_of t sc = [c]"
  by (auto simp: static_token_def text_of_def split: if_splits)

text \<open>Every token is at least one character long, and the tokens' texts are the string.\<close>

lemma lexeme:
  assumes "pos sc + n \<le> length (str sc)"
  shows "drop (pos sc) (str sc) =
    last_string (sc\<lparr>pos := pos sc + n, len := n\<rparr>) @ drop (pos sc + n) (str sc)"
  using assms by (simp add: last_string_def) (metis add.commute append_take_drop_id drop_drop)

lemma scan_step:
  assumes "scan sc = (t, sc')" and "pos sc < length (str sc)"
  shows "str sc' = str sc \<and> pos sc < pos sc' \<and> pos sc' \<le> length (str sc) \<and>
    drop (pos sc) (str sc) = text_of t sc' @ drop (pos sc') (str sc)"
proof -
  let ?lit = "let n = literal_run (drop (pos sc) (str sc)) in
            if n > 0 then (LITERAL, sc\<lparr>len := n, pos := pos sc + n\<rparr>)
            else (LITERAL, sc\<lparr>len := 1, pos := pos sc + 1\<rparr>)"
  have run: "pos sc + literal_run (drop (pos sc) (str sc)) \<le> length (str sc)"
    using literal_run_le [of "drop (pos sc) (str sc)"] assms(2) by simp
  have lit: ?thesis if l: "?lit = (t, sc')"
  proof -
    have "\<exists>n. t = LITERAL \<and> sc' = sc\<lparr>pos := pos sc + n, len := n\<rparr> \<and> 0 < n \<and> pos sc + n \<le> length (str sc)"
    proof (cases "literal_run (drop (pos sc) (str sc)) > 0")
      case True
      then show ?thesis using l run
        by (auto simp: Let_def intro!: exI [of _ "literal_run (drop (pos sc) (str sc))"])
    next
      case False
      then show ?thesis using l assms(2) by (auto simp: Let_def intro!: exI [of _ 1])
    qed
    then obtain n where n: "t = LITERAL" "sc' = sc\<lparr>pos := pos sc + n, len := n\<rparr>" "0 < n"
      "pos sc + n \<le> length (str sc)" by blast
    then show ?thesis using lexeme [OF n(4)] by (simp add: text_of_def)
  qed
  show ?thesis
  proof (cases "static_token (str sc ! pos sc)")
    case None
    then show ?thesis using lit assms(1) by (simp add: scan_def)
  next
    case (Some k)
    show ?thesis
    proof (cases "k \<noteq> SYMBOL \<or> next_not_token sc")
      case False
      then show ?thesis using lit assms(1) Some by (simp add: scan_def)
    next
      case True
      have first: "drop (pos sc) (str sc) = (str sc ! pos sc) # drop (Suc (pos sc)) (str sc)"
        using assms(2) by (simp add: Cons_nth_drop_Suc)
      show ?thesis
      proof (cases "k = SYMBOL \<or> k = STAR")
        case False
        then show ?thesis
          using assms Some True first static_token_char [OF Some] by (auto simp: scan_def)
      next
        case word: True
        let ?n = "length (takeWhile word_char (drop (Suc (pos sc)) (str sc))) + 1"
        have "length (takeWhile word_char (drop (Suc (pos sc)) (str sc))) \<le> length (str sc) - Suc (pos sc)"
          using length_takeWhile_le [of word_char "drop (Suc (pos sc)) (str sc)"] by simp
        then have le: "pos sc + ?n \<le> length (str sc)" using assms(2) by simp
        have "t = k" "sc' = sc\<lparr>pos := pos sc + ?n, len := ?n\<rparr>"
          using assms(1) Some True word by (simp_all add: scan_def Let_def)
        then show ?thesis using lexeme [OF le] le word by (auto simp: text_of_def)
      qed
    qed
  qed
qed

section \<open>Parsing\<close>

text \<open>What is left to parse, from the token read ahead on.\<close>

definition rest :: "parser \<Rightarrow> string" where
  "rest p = (case ahead p of None \<Rightarrow> [] | Some t \<Rightarrow> text_of t (scn p) @ drop (pos (scn p)) (str (scn p)))"

definition left_over :: "parser \<Rightarrow> nat" where
  "left_over p = (case ahead p of None \<Rightarrow> 0 | Some t \<Rightarrow> Suc (length (str (scn p)) - pos (scn p)))"

definition fresh :: "parser \<Rightarrow> bool" where
  "fresh p \<longleftrightarrow> pos (scn p) \<le> length (str (scn p)) \<and>
     (ahead p = None \<longrightarrow> pos (scn p) = length (str (scn p)))"

lemma advance_run:
  assumes "pos (scn p) \<le> length (str (scn p))"
  obtains p' where "advance_token p = (Inr (), p')" "fresh p'" "str (scn p') = str (scn p)"
    "rest p' = drop (pos (scn p)) (str (scn p))" "left_over p' \<le> length (str (scn p)) - pos (scn p)"
proof (cases "pos (scn p) < length (str (scn p))")
  case False
  then show thesis using that [of "\<lparr>scn = scn p, ahead = None\<rparr>"] assms
    by (simp add: advance_token_def modify_def next_token_def fresh_def rest_def left_over_def)
next
  case True
  obtain t sc where t: "scan (scn p) = (t, sc)" by fastforce
  note step = scan_step [OF t True]
  then have "Suc (length (str (scn p)) - pos sc) \<le> length (str (scn p)) - pos (scn p)" by auto
  with step show thesis using that [of "\<lparr>scn = sc, ahead = Some t\<rparr>"] True t
    by (simp add: advance_token_def modify_def next_token_def fresh_def rest_def left_over_def)
qed

text \<open>\<open>reads strict pre m p\<close>: \<open>m\<close>, run on \<open>p\<close>, does not run out of fuel, and a node it answers is
  the text before the token it stops at, put behind \<open>pre\<close>.\<close>

definition reads :: "bool \<Rightarrow> string \<Rightarrow> node parse \<Rightarrow> parser \<Rightarrow> bool" where
  "reads strict pre m p \<longleftrightarrow> (case m p of
     (Inl e, p') \<Rightarrow> e \<noteq> OutOfFuel
   | (Inr n, p') \<Rightarrow> fresh p' \<and> str (scn p') = str (scn p) \<and>
       (if strict then left_over p' < left_over p else left_over p' \<le> left_over p) \<and>
       (CHR 0x5C \<notin> set (str (scn p)) \<longrightarrow> pre @ rest p = to_string n @ rest p'))"

lemma readsI_throw: "e \<noteq> OutOfFuel \<Longrightarrow> m p = (Inl e, p') \<Longrightarrow> reads st pre m p"
  by (simp add: reads_def)

lemma reads_bind:
  assumes "reads st [] m p"
    and "\<And>n p'. m p = (Inr n, p') \<Longrightarrow> fresh p' \<Longrightarrow> str (scn p') = str (scn p) \<Longrightarrow>
      (st \<Longrightarrow> left_over p' < left_over p) \<Longrightarrow> left_over p' \<le> left_over p \<Longrightarrow>
      reads st' (pre @ to_string n) (f n) p'"
  shows "reads (st \<or> st') pre (bind m f) p"
proof (cases "m p")
  case (Pair r p')
  show ?thesis
  proof (cases r)
    case (Inl e)
    then show ?thesis using assms(1) Pair by (simp add: reads_def bind_def)
  next
    case (Inr n)
    have p': "fresh p'" "str (scn p') = str (scn p)" "if st then left_over p' < left_over p else left_over p' \<le> left_over p"
      "CHR 0x5C \<notin> set (str (scn p)) \<longrightarrow> rest p = to_string n @ rest p'"
      using assms(1) Pair Inr by (simp_all add: reads_def)
    have "reads st' (pre @ to_string n) (f n) p'"
      by (rule assms(2)) (use p' Pair Inr in \<open>simp_all split: if_splits\<close>)
    then show ?thesis using p' Pair Inr
      by (cases "f n p'") (auto simp: reads_def bind_def split: sum.splits if_splits)
  qed
qed

lemma reads_weaken: "reads True pre m p \<Longrightarrow> reads st pre m p"
  by (auto simp: reads_def split: prod.splits sum.splits)

text \<open>Consuming the token ahead.\<close>

lemma consume:
  assumes "fresh p" and "ahead p = Some t"
  obtains p' where "advance_token p = (Inr (), p')" "fresh p'" "str (scn p') = str (scn p)"
    "rest p = text_of t (scn p) @ rest p'" "left_over p' < left_over p"
proof -
  have "pos (scn p) \<le> length (str (scn p))" using assms(1) by (simp add: fresh_def)
  from advance_run [OF this] obtain p' where p': "advance_token p = (Inr (), p')" "fresh p'"
    "str (scn p') = str (scn p)" "rest p' = drop (pos (scn p)) (str (scn p))"
    "left_over p' \<le> length (str (scn p)) - pos (scn p)" .
  then show thesis using that [of p'] assms(2) by (simp add: rest_def left_over_def)
qed

lemma last_literal_plain:
  assumes "CHR 0x5C \<notin> set (str sc)" shows "last_literal sc = last_string sc"
proof -
  have "set (last_string sc) \<subseteq> set (str sc)"
    unfolding last_string_def using set_take_subset set_drop_subset by (meson order_trans)
  then show ?thesis using assms by (auto simp: last_literal_def filter_id_conv)
qed

lemma token_node:
  assumes "fresh p" and "ahead p = Some t"
    and "CHR 0x5C \<notin> set (str (scn p)) \<longrightarrow> to_string n = text_of t (scn p)"
  shows "reads True [] (andthen advance_token (ret n)) p"
proof -
  from consume [OF assms(1,2)] obtain p' where "advance_token p = (Inr (), p')" "fresh p'"
    "str (scn p') = str (scn p)" "rest p = text_of t (scn p) @ rest p'" "left_over p' < left_over p" .
  then show ?thesis using assms(3) by (simp add: reads_def andthen_def bind_def ret_def)
qed

lemma parse_terminal_reads: "fresh p \<Longrightarrow> reads True [] parse_terminal p"
proof (cases "ahead p")
  case None
  then show ?thesis by (simp add: reads_def parse_terminal_def bind_def gets_def throw_def)
next
  case (Some t)
  assume fresh: "fresh p"
  have run: "reads True [] parse_terminal p"
    if "parse_terminal p = andthen advance_token (ret n) p"
      and "CHR 0x5C \<notin> set (str (scn p)) \<longrightarrow> to_string n = text_of t (scn p)" for n
    using token_node [OF fresh Some that(2)] that(1) by (simp add: reads_def)
  show ?thesis
  proof (cases t)
    case SYMBOL
    then show ?thesis using Some
      by (intro run [of "Symbol (last_string (scn p)) DefaultExp None"])
        (simp_all add: parse_terminal_def bind_def gets_def ret_def text_of_def)
  next
    case LITERAL
    then show ?thesis using Some
      by (intro run [of "Literal (last_literal (scn p)) None"])
        (simp_all add: parse_terminal_def bind_def gets_def ret_def text_of_def last_literal_plain)
  next
    case SLASH
    then show ?thesis using Some
      by (intro run [of "Slash ''/'' None"])
        (simp_all add: parse_terminal_def bind_def gets_def ret_def text_of_def)
  next
    case DOT
    then show ?thesis using Some
      by (intro run [of "Dot ''.'' None"])
        (simp_all add: parse_terminal_def bind_def gets_def ret_def text_of_def)
  qed (use Some in \<open>simp_all add: reads_def parse_terminal_def bind_def gets_def throw_def\<close>)
qed

lemma parse_star_reads: "fresh p \<Longrightarrow> ahead p = Some STAR \<Longrightarrow> reads True [] parse_star p"
  using token_node [of p STAR "Star (Symbol (last_string (scn p)) GreedyExp None) StarExp"]
  by (simp add: parse_star_def bind_gets reads_def text_of_def)

lemma reads_then:
  assumes "reads st pre m p"
    and "\<And>n p'. m p = (Inr n, p') \<Longrightarrow> fresh p' \<Longrightarrow> (st \<Longrightarrow> left_over p' < left_over p) \<Longrightarrow>
      left_over p' \<le> left_over p \<Longrightarrow> reads st' (to_string n) (f n) p'"
  shows "reads (st \<or> st') pre (bind m f) p"
proof (cases "m p")
  case (Pair r p')
  show ?thesis
  proof (cases r)
    case (Inl e)
    then show ?thesis using assms(1) Pair by (simp add: reads_def bind_def)
  next
    case (Inr n)
    have p': "fresh p'" "str (scn p') = str (scn p)"
      "if st then left_over p' < left_over p else left_over p' \<le> left_over p"
      "CHR 0x5C \<notin> set (str (scn p)) \<longrightarrow> pre @ rest p = to_string n @ rest p'"
      using assms(1) Pair Inr by (simp_all add: reads_def)
    have "reads st' (to_string n) (f n) p'"
      by (rule assms(2)) (use p' Pair Inr in \<open>simp_all split: if_splits\<close>)
    then show ?thesis using p' Pair Inr
      by (cases "f n p'") (auto simp: reads_def bind_def split: sum.splits if_splits)
  qed
qed

lemma reads_run: "m p = m' p \<Longrightarrow> reads st pre m' p \<Longrightarrow> reads st pre m p"
  by (simp add: reads_def)

text \<open>Skipping a token whose text is \<open>t\<close> before the rest of a computation.\<close>

lemma reads_skip:
  assumes "fresh p" and "ahead p = Some t"
    and "\<And>p'. fresh p' \<Longrightarrow> str (scn p') = str (scn p) \<Longrightarrow> left_over p' < left_over p \<Longrightarrow>
      reads st (pre @ text_of t (scn p)) m p'"
  shows "reads True pre (andthen advance_token m) p"
proof -
  from consume [OF assms(1,2)] obtain p' where p': "advance_token p = (Inr (), p')" "fresh p'"
    "str (scn p') = str (scn p)" "rest p = text_of t (scn p) @ rest p'" "left_over p' < left_over p" .
  from assms(3) [OF p'(2,3,5)] show ?thesis using p'
    by (cases "m p'") (auto simp: reads_def andthen_def bind_def split: sum.splits if_splits)
qed

lemma parse_reads_all:
  "(\<forall>p. fresh p \<longrightarrow> 4 * left_over p + 2 \<le> n \<longrightarrow> reads True [] (parse_expressions n) p) \<and>
   (\<forall>p l. fresh p \<longrightarrow> 4 * left_over p + 3 \<le> n \<longrightarrow> reads False (to_string l) (parse_rest n l) p) \<and>
   (\<forall>p l. fresh p \<longrightarrow> ahead p = Some OR \<longrightarrow> 4 * left_over p + 2 \<le> n \<longrightarrow>
      reads True (to_string l) (parse_or n l) p) \<and>
   (\<forall>p. fresh p \<longrightarrow> 4 * left_over p + 1 \<le> n \<longrightarrow> reads True [] (parse_expression n) p) \<and>
   (\<forall>p. fresh p \<longrightarrow> ahead p = Some LPAREN \<longrightarrow> 4 * left_over p \<le> n \<longrightarrow> reads True [] (parse_group n) p)"
  (is "?exprs n \<and> ?rest n \<and> ?or n \<and> ?expr n \<and> ?group n")
proof (induction n)
  case 0
  then show ?case by (simp add: left_over_def)
next
  case (Suc n)
  then have exprs: "?exprs n" and rest: "?rest n" and or: "?or n" and expr: "?expr n" and group: "?group n"
    by blast+
  have "?exprs (Suc n)"
  proof (intro allI impI)
    fix p assume p: "fresh p" "4 * left_over p + 2 \<le> Suc n"
    have "reads (True \<or> False) [] (bind (parse_expression n) (\<lambda>l. parse_rest n l)) p"
    proof (rule reads_then)
      show "reads True [] (parse_expression n) p" using expr [rule_format, OF p(1)] p(2) by simp
      show "reads False (to_string x) (parse_rest n x) p'"
        if "fresh p'" "True \<Longrightarrow> left_over p' < left_over p" for x p'
        using rest [rule_format, OF that(1), of x] that(2) p(2) by simp
    qed
    then show "reads True [] (parse_expressions (Suc n)) p" by simp
  qed
  moreover have "?rest (Suc n)"
  proof (intro allI impI)
    fix p l assume p: "fresh p" "4 * left_over p + 3 \<le> Suc n"
    show "reads False (to_string l) (parse_rest (Suc n) l) p"
    proof (cases "ahead p = None \<or> ahead p = Some RPAREN")
      case True
      then show ?thesis using p(1) by (auto simp: reads_def bind_gets ret_def)
    next
      case False
      show ?thesis
      proof (cases "ahead p = Some OR")
        case True
        have "reads (True \<or> False) (to_string l) (bind (parse_or n l) (\<lambda>l'. parse_rest n l')) p"
        proof (rule reads_then)
          show "reads True (to_string l) (parse_or n l) p" using or [rule_format, OF p(1) True] p(2) by simp
          show "reads False (to_string x) (parse_rest n x) p'"
            if "fresh p'" "True \<Longrightarrow> left_over p' < left_over p" for x p'
            using rest [rule_format, OF that(1), of x] that(2) p(2) by simp
        qed
        from this [simplified] have "reads False (to_string l) (bind (parse_or n l) (\<lambda>l'. parse_rest n l')) p"
          by (rule reads_weaken)
        then show ?thesis using True by (rule_tac reads_run) (simp_all add: bind_gets)
      next
        case False
        have "reads (True \<or> False) (to_string l) (bind (parse_expressions n) (\<lambda>r. parse_rest n (Cat l r))) p"
        proof (rule reads_bind)
          show "reads True [] (parse_expressions n) p" using exprs [rule_format, OF p(1)] p(2) by simp
          fix r p' assume "fresh p'" "True \<Longrightarrow> left_over p' < left_over p"
          then have "reads False (to_string (Cat l r)) (parse_rest n (Cat l r)) p'"
            using rest [rule_format, of p' "Cat l r"] p(2) by simp
          then show "reads False (to_string l @ to_string r) (parse_rest n (Cat l r)) p'" by simp
        qed
        from this [simplified]
        have "reads False (to_string l) (bind (parse_expressions n) (\<lambda>r. parse_rest n (Cat l r))) p"
          by (rule reads_weaken)
        then show ?thesis using False \<open>\<not> (ahead p = None \<or> ahead p = Some RPAREN)\<close>
          by (rule_tac reads_run) (auto simp: bind_gets)
      qed
    qed
  qed
  moreover have "?or (Suc n)"
  proof (intro allI impI)
    fix p l assume p: "fresh p" "ahead p = Some OR" "4 * left_over p + 2 \<le> Suc n"
    show "reads True (to_string l) (parse_or (Suc n) l) p"
      unfolding parse_or.simps
    proof (rule reads_skip [OF p(1,2)])
      fix p' assume p': "fresh p'" "left_over p' < left_over p"
      have "reads (True \<or> False) (to_string l @ ''|'') (bind (parse_expression n) (\<lambda>r. ret (Or [l, r]))) p'"
      proof (rule reads_bind)
        show "reads True [] (parse_expression n) p'" using expr [rule_format, OF p'(1)] p'(2) p(3) by simp
        show "reads False ((to_string l @ ''|'') @ to_string x) (ret (Or [l, x])) q" if "fresh q" for x q
          using that by (simp add: reads_def ret_def)
      qed
      then show "reads True (to_string l @ text_of OR (scn p)) (bind (parse_expression n) (\<lambda>r. ret (Or [l, r]))) p'"
        by (simp add: text_of_def)
    qed
  qed
  moreover have "?expr (Suc n)"
  proof (intro allI impI)
    fix p assume p: "fresh p" "4 * left_over p + 1 \<le> Suc n"
    show "reads True [] (parse_expression (Suc n)) p"
    proof (rule reads_run [where m' = "if ahead p = Some STAR then parse_star
        else if ahead p = Some LPAREN then parse_group n else parse_terminal"])
      show "parse_expression (Suc n) p = (if ahead p = Some STAR then parse_star
        else if ahead p = Some LPAREN then parse_group n else parse_terminal) p"
        by (simp add: bind_gets)
      show "reads True [] (if ahead p = Some STAR then parse_star
        else if ahead p = Some LPAREN then parse_group n else parse_terminal) p"
        using parse_star_reads [OF p(1)] parse_terminal_reads [OF p(1)] group [rule_format, OF p(1)] p(2)
        by simp
    qed
  qed
  moreover have "?group (Suc n)"
  proof (intro allI impI)
    fix p assume p: "fresh p" "ahead p = Some LPAREN" "4 * left_over p \<le> Suc n"
    show "reads True [] (parse_group (Suc n)) p"
      unfolding parse_group.simps
    proof (rule reads_skip [OF p(1,2)])
      fix p' assume p': "fresh p'" "left_over p' < left_over p"
      have "reads (True \<or> True) ''('' (bind (parse_expressions n) (\<lambda>inner.
        bind (gets ahead) (\<lambda>t. if t \<noteq> Some RPAREN then throw MissingRightParen
          else andthen advance_token (ret (Group inner))))) p'"
      proof (rule reads_bind)
        show "reads True [] (parse_expressions n) p'"
          using exprs [rule_format, OF p'(1)] p'(2) p(3) by simp
        fix r q assume q: "fresh q"
        show "reads True (''('' @ to_string r) (bind (gets ahead) (\<lambda>t. if t \<noteq> Some RPAREN then throw MissingRightParen
          else andthen advance_token (ret (Group r)))) q"
        proof (cases "ahead q = Some RPAREN")
          case False
          then show ?thesis by (intro readsI_throw [of MissingRightParen _ _ q]) (simp_all add: bind_gets throw_def)
        next
          case True
          have "reads True (''('' @ to_string r) (andthen advance_token (ret (Group r))) q"
            by (rule reads_skip [OF q True, where st = False]) (simp add: reads_def ret_def text_of_def)
          then show ?thesis using True by (rule_tac reads_run) (simp_all add: bind_gets)
        qed
      qed
      then show "reads True ([] @ text_of LPAREN (scn p)) (bind (parse_expressions n) (\<lambda>inner.
        bind (gets ahead) (\<lambda>t. if t \<noteq> Some RPAREN then throw MissingRightParen
          else andthen advance_token (ret (Group inner))))) p'"
        by (simp add: text_of_def)
    qed
  qed
  ultimately show ?case by blast
qed

lemma parse_unfold:
  obtains p where "parse s = parse_expressions (parser_fuel s) p" "fresh p" "str (scn p) = s" "rest p = s"
    "4 * left_over p + 2 \<le> parser_fuel s"
proof -
  let ?p = "\<lparr>scn = scan_setup s, ahead = None\<rparr>"
  have "pos (scn ?p) \<le> length (str (scn ?p))" by (simp add: scan_setup_def)
  from advance_run [OF this] obtain p where "advance_token ?p = (Inr (), p)" "fresh p" "str (scn p) = s"
    "rest p = s" "left_over p \<le> length s"
    by (auto simp: scan_setup_def)
  then show thesis using that [of p] by (simp add: parse_def andthen_def bind_def parser_fuel_def)
qed

lemma parse_reads: "reads True [] (\<lambda>_. parse s) p"
  if "fresh p" "str (scn p) = s" "rest p = s" "parse s = parse_expressions (parser_fuel s) p"
    "4 * left_over p + 2 \<le> parser_fuel s"
  using conjunct1 [OF parse_reads_all [of "parser_fuel s"]] that by (simp add: reads_def)

text \<open>
  C24. The parser ends on every string: the fuel it is given never runs out, so it answers a
  tree or one of its two errors.
\<close>

theorem parse_total: "fst (parse s) \<noteq> Inl OutOfFuel"
proof -
  obtain p where p: "parse s = parse_expressions (parser_fuel s) p" "fresh p" "str (scn p) = s" "rest p = s"
    "4 * left_over p + 2 \<le> parser_fuel s" by (rule parse_unfold)
  from parse_reads [OF p(2-4) p(1) p(5)] show ?thesis
    by (cases "parse s") (auto simp: reads_def split: sum.splits)
qed

text \<open>
  C25. A pattern without backslashes that is parsed to its end prints back as itself.
\<close>

theorem parse_to_string:
  assumes "CHR 0x5C \<notin> set s" and "parse s = (Inr n, p)" and "ahead p = None"
  shows "to_string n = s"
proof -
  obtain q where q: "parse s = parse_expressions (parser_fuel s) q" "fresh q" "str (scn q) = s" "rest q = s"
    "4 * left_over q + 2 \<le> parser_fuel s" by (rule parse_unfold)
  from parse_reads [OF q(2-4) q(1) q(5)] have "s = to_string n @ rest p"
    using assms(1,2) q(3,4) by (simp add: reads_def)
  then show ?thesis using assms(3) by (simp add: rest_def)
qed

lemma parse_to_string_example: "to_string (projr (fst (parse ''/a(/:b|*c).d''))) = ''/a(/:b|*c).d''"
proof -
  let ?s = "''/a(/:b|*c).d''"
  have a: "\<not> isl (fst (parse ?s))" and b: "ahead (snd (parse ?s)) = None"
    by code_simp+
  from a have "fst (parse ?s) = Inr (projr (fst (parse ?s)))" by (rule sum.collapse(2) [symmetric])
  then have "parse ?s = (Inr (projr (fst (parse ?s))), snd (parse ?s))" by (simp only: prod_eq_iff fst_conv snd_conv)
  from parse_to_string [OF _ this b] show ?thesis by simp
qed

section \<open>Parentheses without a partner\<close>

text \<open>The scanner on a string, and the scanner on the same string followed by a right parenthesis and
  anything: as long as the first has something to read, both read the same.\<close>

definition open_ended :: "string \<Rightarrow> bool" where
  "open_ended w \<longleftrightarrow> w \<noteq> [] \<and> last w \<in> {CHR '':'', CHR 0x5C}"

definition alongside :: "string \<Rightarrow> scanner \<Rightarrow> scanner \<Rightarrow> bool" where
  "alongside r sc sc' \<longleftrightarrow> pos sc \<le> length (str sc) \<and> len sc \<le> pos sc \<and> \<not> open_ended (str sc) \<and>
     sc' = sc\<lparr>str := str sc @ CHR '')'' # r\<rparr>"

lemma literal_run_before_paren:
  "x = [] \<or> last x \<noteq> CHR 0x5C \<Longrightarrow> literal_run (x @ CHR '')'' # r) = literal_run x"
proof (induction x rule: literal_run.induct)
  case 1
  then show ?case by (simp add: literal_char_def word_char_def Let_def)
next
  case (2 c cs)
  then show ?case by (cases cs) (auto split: if_splits)
qed

lemma word_run_before_paren:
  "takeWhile word_char (x @ CHR '')'' # r) = takeWhile word_char x"
  by (induction x) (simp_all add: word_char_def Let_def)

lemma last_string_alongside: "alongside r sc sc' \<Longrightarrow> last_string sc' = last_string sc"
  by (simp add: alongside_def last_string_def)

lemma scan_alongside:
  assumes "alongside r sc sc'" and "pos sc < length (str sc)"
  shows "\<exists>t sd sd'. scan sc = (t, sd) \<and> scan sc' = (t, sd') \<and> alongside r sd sd'"
proof -
  let ?x = "drop (pos sc) (str sc)"
  have sc': "str sc' = str sc @ CHR '')'' # r" "pos sc' = pos sc" "len sc' = len sc"
    using assms(1) by (simp_all add: alongside_def)
  have closed: "last (str sc) \<noteq> CHR '':''" "last (str sc) \<noteq> CHR 0x5C"
    using assms by (auto simp: alongside_def open_ended_def)
  have lit: "literal_run (drop (pos sc') (str sc')) = literal_run ?x"
    using assms(2) closed sc' literal_run_before_paren [of ?x r] by (simp add: last_drop)
  have word: "takeWhile word_char (drop (Suc (pos sc')) (str sc')) =
      takeWhile word_char (drop (Suc (pos sc)) (str sc))"
    using assms(2) sc' word_run_before_paren by simp
  have head: "str sc' ! pos sc' = str sc ! pos sc" using assms(2) sc' by (simp add: nth_append)
  have symbol: "next_not_token sc' = next_not_token sc" if "str sc ! pos sc = CHR '':''"
  proof -
    have "Suc (pos sc) < length (str sc)"
    proof (rule ccontr)
      assume "\<not> Suc (pos sc) < length (str sc)"
      then have "pos sc = length (str sc) - 1" using assms(2) by linarith
      moreover have "str sc \<noteq> []" using assms(2) by auto
      ultimately show False using that closed(1) by (simp add: last_conv_nth)
    qed
    then show ?thesis using sc' by (simp add: next_not_token_def split: list.splits)
  qed
  have rec: "sc' = sc\<lparr>str := str sc @ CHR '')'' # r\<rparr>" using assms(1) by (simp add: alongside_def)
  obtain t sd where t: "scan sc = (t, sd)" by fastforce
  have "scan sc' = (fst (scan sc), (snd (scan sc))\<lparr>str := str sc @ CHR '')'' # r\<rparr>)"
  proof (cases "static_token (str sc ! pos sc)")
    case None
    then show ?thesis by (simp add: scan_def head lit Let_def) (simp add: rec)
  next
    case (Some k)
    then have "k = SYMBOL \<Longrightarrow> str sc ! pos sc = CHR '':''" by (auto simp: static_token_def split: if_splits)
    then show ?thesis using Some symbol
      by (simp add: scan_def head lit word Let_def) (simp add: rec)
  qed
  then have "scan sc' = (t, sd\<lparr>str := str sc @ CHR '')'' # r\<rparr>)" using t by simp
  moreover have "str sd = str sc" "pos sd \<le> length (str sc)" using scan_step [OF t assms(2)] by simp_all
  moreover have "len sd \<le> pos sd"
    using t assms(1) by (auto simp: scan_def Let_def alongside_def split: if_splits option.splits)
  ultimately show ?thesis using t assms(1) by (auto simp: alongside_def)
qed

text \<open>The parsers on them: they agree until the first is at the end of its string, where the second
  has the parenthesis ahead.\<close>

definition in_step :: "string \<Rightarrow> parser \<Rightarrow> parser \<Rightarrow> bool" where
  "in_step r p q \<longleftrightarrow> (if ahead p = None then ahead q = Some RPAREN
     else ahead q = ahead p \<and> alongside r (scn p) (scn q))"

lemma advance_in_step:
  assumes "alongside r (scn p) (scn q)"
  shows "\<exists>p' q'. advance_token p = (Inr (), p') \<and> advance_token q = (Inr (), q') \<and> in_step r p' q'"
proof (cases "pos (scn p) < length (str (scn p))")
  case True
  from scan_alongside [OF assms this] show ?thesis using True assms
    by (auto simp: advance_token_def modify_def next_token_def in_step_def alongside_def)
next
  case False
  then have "pos (scn p) = length (str (scn p))" using assms by (simp add: alongside_def)
  then show ?thesis using assms
    by (auto simp: advance_token_def modify_def next_token_def in_step_def alongside_def scan_def
        static_token_def split: prod.splits)
qed

text \<open>\<open>keeps_up r A m m'\<close>: where the token ahead is in \<open>A\<close> and \<open>m\<close> answers a node, so does \<open>m'\<close>.\<close>

definition keeps_up :: "string \<Rightarrow> token option set \<Rightarrow> node parse \<Rightarrow> node parse \<Rightarrow> bool" where
  "keeps_up r A m m' \<longleftrightarrow> (\<forall>p q n p'. in_step r p q \<longrightarrow> ahead p \<in> A \<longrightarrow> m p = (Inr n, p') \<longrightarrow>
     (\<exists>q'. m' q = (Inr n, q') \<and> in_step r p' q'))"

lemma keeps_upI:
  assumes "\<And>p q n p'. in_step r p q \<Longrightarrow> ahead p \<in> A \<Longrightarrow> ahead q = (if ahead p = None then Some RPAREN else ahead p) \<Longrightarrow>
    m p = (Inr n, p') \<Longrightarrow> \<exists>q'. m' q = (Inr n, q') \<and> in_step r p' q'"
  shows "keeps_up r A m m'"
  using assms by (simp add: keeps_up_def in_step_def)

lemma keeps_upD:
  "keeps_up r A m m' \<Longrightarrow> in_step r p q \<Longrightarrow> ahead p \<in> A \<Longrightarrow> m p = (Inr n, p') \<Longrightarrow>
     \<exists>q'. m' q = (Inr n, q') \<and> in_step r p' q'"
  by (simp add: keeps_up_def)

lemma keeps_up_ret: "keeps_up r A (ret n) (ret n)"
  by (simp add: keeps_up_def ret_def)

lemma keeps_up_throw: "keeps_up r A (throw e) m"
  by (simp add: keeps_up_def throw_def)

lemma keeps_up_bind:
  assumes "keeps_up r A m m'" and "\<And>n. keeps_up r UNIV (f n) (f' n)"
  shows "keeps_up r A (bind m f) (bind m' f')"
proof (rule keeps_upI)
  fix p q n p' assume pq: "in_step r p q" "ahead p \<in> A" and run: "bind m f p = (Inr n, p')"
  from run obtain x p1 where m: "m p = (Inr x, p1)" and f: "f x p1 = (Inr n, p')"
    by (auto elim: bind_returns)
  from keeps_upD [OF assms(1) pq m] obtain q1 where "m' q = (Inr x, q1)" "in_step r p1 q1" by blast
  with keeps_upD [OF assms(2) _ UNIV_I f] show "\<exists>q'. bind m' f' q = (Inr n, q') \<and> in_step r p' q'"
    by (auto simp: bind_def)
qed

lemma keeps_up_skip:
  assumes "keeps_up r UNIV m m'" "None \<notin> A"
  shows "keeps_up r A (andthen advance_token m) (andthen advance_token m')"
proof (rule keeps_upI)
  fix p q n p' assume pq: "in_step r p q" "ahead p \<in> A" and run: "andthen advance_token m p = (Inr n, p')"
  have "alongside r (scn p) (scn q)" using pq assms(2) by (auto simp: in_step_def split: if_splits)
  from advance_in_step [OF this] obtain p1 q1 where
    "advance_token p = (Inr (), p1)" "advance_token q = (Inr (), q1)" "in_step r p1 q1" by blast
  then show "\<exists>q'. andthen advance_token m' q = (Inr n, q') \<and> in_step r p' q'"
    using keeps_upD [OF assms(1)] run by (auto simp: andthen_def bind_def)
qed

text \<open>Branching on the token ahead: the end of the first string must be answered as the parenthesis is.\<close>

lemma keeps_up_branch:
  assumes "\<And>t. t \<in> A \<Longrightarrow> keeps_up r {t} (f t) (f' (if t = None then Some RPAREN else t))"
  shows "keeps_up r A (bind (gets ahead) f) (bind (gets ahead) f')"
proof (rule keeps_upI)
  fix p q n p' assume pq: "in_step r p q" "ahead p \<in> A"
    "ahead q = (if ahead p = None then Some RPAREN else ahead p)" "bind (gets ahead) f p = (Inr n, p')"
  then show "\<exists>q'. bind (gets ahead) f' q = (Inr n, q') \<and> in_step r p' q'"
    using keeps_upD [OF assms [of "ahead p"] pq(1)] by (simp add: bind_gets)
qed

lemma keeps_up_weaken: "keeps_up r UNIV m m' \<Longrightarrow> keeps_up r A m m'"
  by (simp add: keeps_up_def)

lemma in_step_last: "in_step r p q \<Longrightarrow> ahead p \<noteq> None \<Longrightarrow>
    last_string (scn q) = last_string (scn p) \<and> last_literal (scn q) = last_literal (scn p)"
  by (auto simp: in_step_def last_literal_def last_string_alongside)

lemma keeps_up_token:
  assumes "None \<notin> A"
    and "\<And>p q. last_string (scn q) = last_string (scn p) \<Longrightarrow> last_literal (scn q) = last_literal (scn p) \<Longrightarrow>
      ahead p \<in> A \<Longrightarrow> ahead q = ahead p \<Longrightarrow> \<exists>x. m p = andthen advance_token (ret x) p \<and>
        m q = andthen advance_token (ret x) q"
  shows "keeps_up r A m m"
proof (rule keeps_upI)
  fix p q n p' assume pq: "in_step r p q" "ahead p \<in> A"
    "ahead q = (if ahead p = None then Some RPAREN else ahead p)" "m p = (Inr n, p')"
  have some: "ahead p \<noteq> None" using pq(2) assms(1) by metis
  obtain x where x: "m p = andthen advance_token (ret x) p" "m q = andthen advance_token (ret x) q"
    using assms(2) [of q p] in_step_last [OF pq(1) some] pq(2,3) some by auto
  from keeps_upD [OF keeps_up_skip [OF keeps_up_ret assms(1)] pq(1,2)] pq(4) x
  show "\<exists>q'. m q = (Inr n, q') \<and> in_step r p' q'" by simp
qed

lemma keeps_up_star: "keeps_up r {Some STAR} parse_star parse_star"
  by (rule keeps_up_token) (auto simp: parse_star_def bind_gets)

lemma keeps_up_terminal: "keeps_up r {t} parse_terminal parse_terminal"
proof (cases "t \<in> Some ` {SYMBOL, LITERAL, SLASH, DOT}")
  case True
  then show ?thesis
    by (intro keeps_up_token) (auto simp: parse_terminal_def bind_gets ret_def bind_def [of "Pair _"])
next
  case False
  then have "\<not> (\<exists>n p'. parse_terminal p = (Inr n, p'))" if "ahead p = t" for p
    using that by (cases t; cases "the t") (auto simp: parse_terminal_def bind_gets throw_def bind_def [of "Pair _"])
  then show ?thesis by (auto intro: keeps_upI)
qed

lemma from_Suc: "(\<forall>k \<ge> Suc n. P k) \<longleftrightarrow> (\<forall>k \<ge> n. P (Suc k))"
  by (metis Suc_le_D Suc_le_mono)

text \<open>The parsers, the second with at least as much fuel.\<close>

lemma keeps_up_parsers:
  "(\<forall>k \<ge> n. keeps_up r UNIV (parse_expressions n) (parse_expressions k)) \<and>
   (\<forall>k \<ge> n. \<forall>l. keeps_up r UNIV (parse_rest n l) (parse_rest k l)) \<and>
   (\<forall>k \<ge> n. \<forall>l. keeps_up r {Some OR} (parse_or n l) (parse_or k l)) \<and>
   (\<forall>k \<ge> n. keeps_up r UNIV (parse_expression n) (parse_expression k)) \<and>
   (\<forall>k \<ge> n. keeps_up r {Some LPAREN} (parse_group n) (parse_group k))"
proof (induction n)
  case 0
  then show ?case by (simp add: keeps_up_throw)
next
  case (Suc n)
  have "keeps_up r UNIV (parse_expressions (Suc n)) (parse_expressions (Suc k)) \<and>
      (\<forall>l. keeps_up r UNIV (parse_rest (Suc n) l) (parse_rest (Suc k) l)) \<and>
      (\<forall>l. keeps_up r {Some OR} (parse_or (Suc n) l) (parse_or (Suc k) l)) \<and>
      keeps_up r UNIV (parse_expression (Suc n)) (parse_expression (Suc k)) \<and>
      keeps_up r {Some LPAREN} (parse_group (Suc n)) (parse_group (Suc k))" if "n \<le> k" for k
  proof -
    from Suc.IH \<open>n \<le> k\<close> have ih: "keeps_up r UNIV (parse_expressions n) (parse_expressions k)"
      "\<And>l. keeps_up r UNIV (parse_rest n l) (parse_rest k l)"
      "\<And>l. keeps_up r {Some OR} (parse_or n l) (parse_or k l)"
      "keeps_up r UNIV (parse_expression n) (parse_expression k)"
      "keeps_up r {Some LPAREN} (parse_group n) (parse_group k)" by blast+
    have close: "keeps_up r UNIV
        (bind (gets ahead) (\<lambda>t. if t \<noteq> Some RPAREN then throw MissingRightParen else andthen advance_token (ret g)))
        (bind (gets ahead) (\<lambda>t. if t \<noteq> Some RPAREN then throw MissingRightParen else andthen advance_token (ret g)))"
      for g by (rule keeps_up_branch) (auto intro: keeps_up_throw keeps_up_skip keeps_up_ret)
    have more: "keeps_up r A (bind (parse_expressions n) (\<lambda>e. parse_rest n (Cat l e)))
        (bind (parse_expressions k) (\<lambda>e. parse_rest k (Cat l e)))" for A l
      by (rule keeps_up_weaken) (intro keeps_up_bind ih)
    have "keeps_up r UNIV (parse_rest (Suc n) l) (parse_rest (Suc k) l)" for l
      unfolding parse_rest.simps by (rule keeps_up_branch) (auto simp: keeps_up_ret more keeps_up_bind ih)
    moreover have "keeps_up r UNIV (parse_expression (Suc n)) (parse_expression (Suc k))"
      unfolding parse_expression.simps
      by (rule keeps_up_branch) (simp add: keeps_up_star keeps_up_terminal ih)
    moreover have "keeps_up r {Some LPAREN} (parse_group (Suc n)) (parse_group (Suc k))"
      unfolding parse_group.simps by (intro keeps_up_skip keeps_up_bind ih close) simp
    moreover have "keeps_up r {Some OR} (parse_or (Suc n) l) (parse_or (Suc k) l)" for l
      unfolding parse_or.simps by (intro keeps_up_skip keeps_up_bind keeps_up_ret ih) simp
    moreover have "keeps_up r UNIV (parse_expressions (Suc n)) (parse_expressions (Suc k))"
      unfolding parse_expressions.simps by (intro keeps_up_bind ih)
    ultimately show ?thesis by blast
  qed
  then show ?case unfolding from_Suc by simp
qed

text \<open>A parse that answers a tree stops at the end or at a right parenthesis.\<close>

lemma rest_stops: "parse_rest n l p = (Inr m, p') \<Longrightarrow> ahead p' \<in> {None, Some RPAREN}"
proof (induction n arbitrary: l p)
  case 0
  then show ?case by (simp add: throw_def)
next
  case (Suc n)
  then show ?case
    by (auto simp: bind_gets ret_def elim!: bind_returns split: if_splits)
qed

lemma expressions_stop: "parse_expressions n p = (Inr m, p') \<Longrightarrow> ahead p' \<in> {None, Some RPAREN}"
  by (cases n) (auto simp: throw_def elim!: bind_returns dest: rest_stops)

text \<open>
  C26. A right parenthesis without its left one is no error: where a pattern is accepted, the pattern
  followed by a right parenthesis and any text at all is accepted too, with the same tree, and the parser
  stops at the parenthesis, the text behind it never read. (A colon or a backslash just before
  the parenthesis would be read together with it.)
\<close>

theorem unmatched_paren_truncates:
  assumes "parse w = (Inr n, p)" and "last w \<notin> {CHR '':'', CHR 0x5C}"
  shows "\<exists>q. parse (w @ CHR '')'' # r) = (Inr n, q) \<and> ahead q = Some RPAREN"
proof -
  let ?s = "w @ CHR '')'' # r"
  let ?p = "\<lparr>scn = scan_setup w, ahead = None\<rparr>" and ?q = "\<lparr>scn = scan_setup ?s, ahead = None\<rparr>"
  have "alongside r (scn ?p) (scn ?q)" using assms(2) by (simp add: alongside_def scan_setup_def open_ended_def)
  from advance_in_step [OF this] obtain p1 q1 where
    a: "advance_token ?p = (Inr (), p1)" "advance_token ?q = (Inr (), q1)" "in_step r p1 q1" by blast
  have run: "parse_expressions (parser_fuel w) p1 = (Inr n, p)"
    using assms(1) a(1) by (simp add: parse_def andthen_def bind_def)
  have "parser_fuel w \<le> parser_fuel ?s" by (simp add: parser_fuel_def)
  with conjunct1 [OF keeps_up_parsers [of "parser_fuel w" r]]
  have "keeps_up r UNIV (parse_expressions (parser_fuel w)) (parse_expressions (parser_fuel ?s))" by blast
  from keeps_upD [OF this a(3) UNIV_I run] obtain q where
    "parse_expressions (parser_fuel ?s) q1 = (Inr n, q)" "in_step r p q" by blast
  then show ?thesis using a(2) expressions_stop [OF run] in_step_def [of r p q]
    by (auto simp: parse_def andthen_def bind_def)
qed

lemma unmatched_paren_truncates_witness:
  "\<exists>q. parse ''/a(/:b))/c'' = (Inr (projr (fst (parse ''/a(/:b)''))), q) \<and> ahead q = Some RPAREN"
proof -
  have "\<not> isl (fst (parse ''/a(/:b)''))" by code_simp
  then have "parse ''/a(/:b)'' = (Inr (projr (fst (parse ''/a(/:b)''))), snd (parse ''/a(/:b)''))"
    by (simp add: sum.collapse(2) prod_eq_iff)
  from unmatched_paren_truncates [OF this, of "''/c''"] show ?thesis by simp
qed

text \<open>
  A glob named like a property every object inherits gets no wildcard option: for
  \<open>*constructor\<close> the test \<open>key in this.wildcardOptions\<close> is already true.
\<close>

theorem constructor_glob_has_no_wildcard:
  "let star = \<lambda>k. Star (Symbol (CHR ''*'' # k) GreedyExp None) StarExp
   in wildcards (new_ast (Cat (Slash ''/'' None) (star ''rest'')) True) = [''rest''] \<and>
      wildcards (new_ast (Cat (Slash ''/'' None) (star ''constructor'')) True) = []"
  by code_simp

end
