(* ===== verification/Journey_Gtg.thy ===== *)
theory Journey_Gtg
  imports Journey_Syntax "HOL-Library.Multiset"
begin

text \<open>
  The matching automaton of routes, \<^verbatim>\<open>packages/actionpack/src/action-dispatch/journey/gtg/\<close>:
  \<open>Builder\<close> turns the tree of all routes into a deterministic automaton over edges by the positions
  of its terminals, \<open>TransitionTable\<close> holds it and moves along a token, \<open>Simulator\<close> runs it over
  a path.

  The builder tells terminals apart by object identity. Here a tree is numbered first: a position is
  a terminal with its index from left to right, and the end marker is the position after the last.
  Arrays of positions have an identity of their own, too: each array the builder makes is new, so
  the set \<open>marked\<close> never finds one again and an array's number is the one it got when it was made
  or, for the first array, when its first transition was. The worklist loop is a
  \<open>partial_function\<close>; that it ends is proved with the table it builds (Journey_Table).

  What a user's regular expression accepts is a parameter, the record \<open>engine\<close>; two expressions with
  the same source and flags have the same number, and none has the source of the default one.
\<close>

section \<open>Positions\<close>

record engine =
  accepts :: "nat \<Rightarrow> string \<Rightarrow> bool"
  finds_empty :: "nat \<Rightarrow> bool"

text \<open>\<open>^(?:re)$\<close> tested on a string, for the three expressions of the sources and a user's.\<close>

definition rx_test :: "engine \<Rightarrow> regexp \<Rightarrow> string \<Rightarrow> bool" where
  "rx_test en r s = (case r of
     DefaultExp \<Rightarrow> s \<noteq> [] \<and> list_all (\<lambda>c. c \<notin> set ''./?'') s
   | GreedyExp \<Rightarrow> s \<noteq> [] \<and> list_all (\<lambda>c. c \<noteq> CHR 0x0A \<and> c \<noteq> CHR 0x0D) s
   | StarExp \<Rightarrow> s \<noteq> []
   | UserExp n \<Rightarrow> accepts en n s)"

definition rx_finds_empty :: "engine \<Rightarrow> regexp \<Rightarrow> bool" where
  "rx_finds_empty en r = (case r of UserExp n \<Rightarrow> finds_empty en n | _ \<Rightarrow> False)"

type_synonym position = "nat \<times> node"

datatype ptree =
    PLeaf nat node
  | PGroup ptree
  | PStar ptree regexp
  | PCat ptree ptree
  | POr "ptree list"

fun leaves :: "node \<Rightarrow> nat" and leaves_list :: "node list \<Rightarrow> nat" where
  "leaves (Group n) = leaves n"
| "leaves (Star n r) = leaves n"
| "leaves (Cat a b) = leaves a + leaves b"
| "leaves (Or ns) = leaves_list ns"
| "leaves _ = 1"
| "leaves_list [] = 0"
| "leaves_list (n # ns) = leaves n + leaves_list ns"

fun number :: "nat \<Rightarrow> node \<Rightarrow> ptree" and number_list :: "nat \<Rightarrow> node list \<Rightarrow> ptree list" where
  "number i (Group n) = PGroup (number i n)"
| "number i (Star n r) = PStar (number i n) r"
| "number i (Cat a b) = PCat (number i a) (number (i + leaves a) b)"
| "number i (Or ns) = POr (number_list i ns)"
| "number i n = PLeaf i n"
| "number_list i [] = []"
| "number_list i (n # ns) = number i n # number_list (i + leaves n) ns"

definition end_node :: node where
  "end_node = Literal ''<end>'' None"

definition with_end :: "node \<Rightarrow> ptree" where
  "with_end root = PCat (number 0 root) (PLeaf (leaves root) end_node)"

fun memo_of :: "node \<Rightarrow> nat option" where
  "memo_of (Literal l m) = m"
| "memo_of (Slash l m) = m"
| "memo_of (Dot l m) = m"
| "memo_of (Symbol l r m) = m"
| "memo_of _ = None"

section \<open>The builder\<close>

fun nullable :: "engine \<Rightarrow> ptree \<Rightarrow> bool" where
  "nullable en (PGroup t) = True"
| "nullable en (PStar t r) = rx_finds_empty en r"
| "nullable en (POr ts) = list_ex (nullable en) ts"
| "nullable en (PCat a b) = (nullable en a \<and> nullable en b)"
| "nullable en (PLeaf i n) = (left_text n = Some [])"

definition uniq_concat :: "'a list \<Rightarrow> 'a list \<Rightarrow> 'a list" where
  "uniq_concat xs ys = uniq_from [] (xs @ ys)"

fun firstpos :: "engine \<Rightarrow> ptree \<Rightarrow> position list" where
  "firstpos en (PStar t r) = firstpos en t"
| "firstpos en (PCat a b) =
     (if nullable en a then uniq_concat (firstpos en a) (firstpos en b) else firstpos en a)"
| "firstpos en (POr ts) = uniq_from [] (concat (map (firstpos en) ts))"
| "firstpos en (PGroup t) = firstpos en t"
| "firstpos en (PLeaf i n) = (if left_text n = Some [] then [] else [(i, n)])"

fun lastpos :: "engine \<Rightarrow> ptree \<Rightarrow> position list" where
  "lastpos en (PStar t r) = lastpos en t"
| "lastpos en (POr ts) = uniq_from [] (concat (map (lastpos en) ts))"
| "lastpos en (PCat a b) =
     (if nullable en b then uniq_concat (lastpos en a) (lastpos en b) else lastpos en b)"
| "lastpos en (PLeaf i n) = (if left_text n = Some [] then [] else [(i, n)])"
| "lastpos en (PGroup t) = lastpos en t"

text \<open>The concatenations below a tree, in the order of its iterator.\<close>

fun cats :: "ptree \<Rightarrow> (ptree \<times> ptree) list" where
  "cats (PCat a b) = (a, b) # cats a @ cats b"
| "cats (PGroup t) = cats t"
| "cats (PStar t r) = cats t"
| "cats (POr ts) = concat (map cats ts)"
| "cats (PLeaf i n) = []"

type_synonym follow_table = "(position \<times> position list) list"

definition build_followpos :: "engine \<Rightarrow> ptree \<Rightarrow> follow_table" where
  "build_followpos en t =
     concat (map (\<lambda>(a, b). map (\<lambda>i. (i, firstpos en b)) (lastpos en a)) (cats t))"

definition followpos :: "follow_table \<Rightarrow> position \<Rightarrow> position list" where
  "followpos tbl p = concat (map snd (filter (\<lambda>e. fst e = p) tbl))"

datatype edge = Text string | Rx regexp

definition edge_of :: "position \<Rightarrow> edge" where
  "edge_of p = (case snd p of
     Symbol l r m \<Rightarrow> Rx r
   | n \<Rightarrow> Text (case left_text n of Some l \<Rightarrow> l | None \<Rightarrow> []))"

text \<open>\<open>groups\<close>: the positions of a state by edge, in the order the edges were met.\<close>

fun add_to_group :: "position \<Rightarrow> (edge \<times> position list) list \<Rightarrow> (edge \<times> position list) list" where
  "add_to_group p [] = [(edge_of p, [p])]"
| "add_to_group p ((e, ps) # gs) =
     (if e = edge_of p then (e, ps @ [p]) # gs else (e, ps) # add_to_group p gs)"

definition group_positions :: "position list \<Rightarrow> (edge \<times> position list) list" where
  "group_positions s = fold add_to_group s []"

section \<open>The transition table\<close>

record table =
  strs :: "nat \<Rightarrow> string \<Rightarrow> nat option"
  stds :: "nat \<Rightarrow> nat option"
  regs :: "nat \<Rightarrow> (regexp \<times> nat) list"
  accepting :: "nat list"
  memos :: "nat \<Rightarrow> nat option list"

definition empty_table :: table where
  "empty_table = \<lparr>strs = (\<lambda>_ _. None), stds = (\<lambda>_. None), regs = (\<lambda>_. []), accepting = [],
     memos = (\<lambda>_. [])\<rparr>"

definition add_accepting :: "nat \<Rightarrow> table \<Rightarrow> table" where
  "add_accepting s tt = tt\<lparr>accepting := (if s \<in> set (accepting tt) then accepting tt else accepting tt @ [s])\<rparr>"

definition is_accepting :: "table \<Rightarrow> nat \<Rightarrow> bool" where
  "is_accepting tt s \<longleftrightarrow> s \<in> set (accepting tt)"

definition add_memo :: "nat \<Rightarrow> nat option \<Rightarrow> table \<Rightarrow> table" where
  "add_memo s m tt = tt\<lparr>memos := (memos tt)(s := memos tt s @ [m])\<rparr>"

definition set_edge :: "nat \<Rightarrow> nat \<Rightarrow> edge \<Rightarrow> table \<Rightarrow> table" where
  "set_edge from to e tt = (case e of
     Rx r \<Rightarrow> if r = DefaultExp then tt\<lparr>stds := (stds tt)(from \<mapsto> to)\<rparr>
             else tt\<lparr>regs := (regs tt)(from := regs tt from @ [(r, to)])\<rparr>
   | Text l \<Rightarrow> tt\<lparr>strs := (strs tt)(from := (strs tt from)(l \<mapsto> to))\<rparr>)"

type_synonym gtg_state = "(nat \<times> nat option) list"

definition slice :: "string \<Rightarrow> nat \<Rightarrow> nat \<Rightarrow> string" where
  "slice s i j = take (j - i) (drop i s)"

definition move_one :: "engine \<Rightarrow> table \<Rightarrow> string \<Rightarrow> nat \<Rightarrow> nat \<Rightarrow> nat \<times> nat option \<Rightarrow> gtg_state" where
  "move_one en tt full i j c = (case c of (s, prev) \<Rightarrow>
     (if prev = None then
        (if rx_test en DefaultExp (slice full i j)
         then (case stds tt s of Some v \<Rightarrow> [(v, None)] | None \<Rightarrow> []) else []) @
        (case strs tt s (slice full i j) of Some v \<Rightarrow> [(v, None)] | None \<Rightarrow> [])
      else []) @
     (if regs tt s \<noteq> [] then
        (let k = (case prev of Some k \<Rightarrow> k | None \<Rightarrow> i) in
          map (\<lambda>(r, v). (v, None)) (filter (\<lambda>(r, v). rx_test en r (slice full k j)) (regs tt s)) @
          [(s, Some k)])
      else []))"

definition move :: "engine \<Rightarrow> table \<Rightarrow> gtg_state \<Rightarrow> string \<Rightarrow> nat \<Rightarrow> nat \<Rightarrow> gtg_state" where
  "move en tt t full i j = (if t = [] then [] else concat (map (move_one en tt full i j) t))"

section \<open>The worklist\<close>

record build =
  bt :: table
  next_id :: nat
  own_id :: "nat option"
  fresh_arrays :: "(position list \<times> nat option) list"

text \<open>One group of the state at hand: \<open>own_id\<close> is its number once it has one.\<close>

definition build_group :: "follow_table \<Rightarrow> position \<Rightarrow> edge \<times> position list \<Rightarrow> build \<Rightarrow> build" where
  "build_group tbl endp g b = (case g of (e, ps) \<Rightarrow>
     let u = uniq_from [] (concat (map (followpos tbl) ps)) in
     if u = [] then b
     else
       let (from, n) = (case own_id b of Some i \<Rightarrow> (i, next_id b) | None \<Rightarrow> (next_id b, Suc (next_id b)));
           to = n in
       if list_all (\<lambda>p. p = endp) u then
         b\<lparr>bt := fold (\<lambda>p. add_memo to (memo_of (snd p))) ps (add_accepting to (set_edge from to e (bt b))),
           own_id := Some from, next_id := Suc n, fresh_arrays := fresh_arrays b @ [(u, None)]\<rparr>
       else
         let tt = set_edge from to e (bt b);
             tt' = (if endp \<in> set u
               then add_accepting to (fold (\<lambda>p. add_memo to (memo_of (snd p)))
                 (filter (\<lambda>p. endp \<in> set (followpos tbl p)) ps) tt)
               else tt)
         in b\<lparr>bt := tt', own_id := Some from, next_id := Suc n, fresh_arrays := fresh_arrays b @ [(u, Some to)]\<rparr>)"

definition build_state :: "follow_table \<Rightarrow> position \<Rightarrow> position list \<times> nat option \<Rightarrow> nat \<Rightarrow> table \<Rightarrow> build" where
  "build_state tbl endp s n tt =
     fold (build_group tbl endp) (group_positions (fst s))
       \<lparr>bt = tt, next_id = n, own_id = snd s, fresh_arrays = []\<rparr>"

partial_function (option) build_loop ::
  "follow_table \<Rightarrow> position \<Rightarrow> (position list \<times> nat option) list \<Rightarrow> nat \<Rightarrow> table \<Rightarrow> table option" where
  "build_loop tbl endp q n tt = (case q of
     [] \<Rightarrow> Some tt
   | s # q' \<Rightarrow> (let b = build_state tbl endp s n tt in
       build_loop tbl endp (q' @ fresh_arrays b) (next_id b) (bt b)))"

declare build_loop.simps [code]

definition transition_table :: "engine \<Rightarrow> node \<Rightarrow> table option" where
  "transition_table en root =
     build_loop (build_followpos en (with_end root)) (leaves root, end_node)
       [(firstpos en (number 0 root), None)] 0 empty_table"

section \<open>The simulator\<close>

definition separator :: "char \<Rightarrow> bool" where
  "separator c \<longleftrightarrow> c \<in> set ''/.?''"

text \<open>The tokens of \<open>/([/.?]|[^/.?]+)/y\<close>: a separator, or a run of other characters.\<close>

function tokens :: "string \<Rightarrow> string list" where
  "tokens [] = []"
| "tokens (c # cs) =
     (if separator c then [c] # tokens cs
      else (c # takeWhile (\<lambda>d. \<not> separator d) cs) # tokens (dropWhile (\<lambda>d. \<not> separator d) cs))"
  by pat_completeness auto
termination
  by (relation "measure length") (auto simp: le_imp_less_Suc length_dropWhile_le)

fun simulate :: "engine \<Rightarrow> table \<Rightarrow> string \<Rightarrow> nat \<Rightarrow> string list \<Rightarrow> gtg_state \<Rightarrow> gtg_state" where
  "simulate en tt full i [] st = st"
| "simulate en tt full i (t # ts) st =
     simulate en tt full (i + length t) ts (move en tt st full i (i + length t))"

definition simulator_memos :: "engine \<Rightarrow> table \<Rightarrow> string \<Rightarrow> nat option list" where
  "simulator_memos en tt s =
     concat (map (\<lambda>(q, idx). if idx = None \<and> is_accepting tt q then memos tt q else [])
       (simulate en tt s 0 (tokens s) [(0, None)]))"

end
