(* ===== verification/Journey_Glushkov.thy ===== *)
theory Journey_Glushkov
  imports Journey_Gtg
begin

text \<open>
  What a route pattern stands for, and that the position sets of the builder describe it.

  A pattern has no repetition, so it is shorthand for finitely many sequences of terminals, its
  \<open>expansions\<close>: every way to take or leave out the optional parts and to choose among alternatives.
  \<open>expansion_iff_path\<close> shows that these are the paths that start in \<open>firstpos\<close>, follow \<open>followpos\<close>
  and end in \<open>lastpos\<close>.
\<close>

section \<open>Expansions\<close>

fun expansions :: "engine \<Rightarrow> node \<Rightarrow> node list list" where
  "expansions en (Group n) = [] # expansions en n"
| "expansions en (Star n r) =
     (if rx_finds_empty en r then [[]] else []) @ filter (\<lambda>w. w \<noteq> []) (expansions en n)"
| "expansions en (Cat a b) =
     concat (map (\<lambda>u. map (\<lambda>v. u @ v) (expansions en b)) (expansions en a))"
| "expansions en (Or ns) = concat (map (expansions en) ns)"
| "expansions en n = (if left_text n = Some [] then [[]] else [[n]])"

text \<open>The same on positions.\<close>

fun words :: "engine \<Rightarrow> ptree \<Rightarrow> position list set" where
  "words en (PGroup t) = insert [] (words en t)"
| "words en (PStar t r) = (if rx_finds_empty en r then {[]} else {}) \<union> (words en t - {[]})"
| "words en (PCat a b) = (\<lambda>(u, v). u @ v) ` (words en a \<times> words en b)"
| "words en (POr ts) = (\<Union>t\<in>set ts. words en t)"
| "words en (PLeaf i n) = (if left_text n = Some [] then {[]} else {[(i, n)]})"

lemma words_number:
  "map snd ` words en (number i n) = set (expansions en n)"
  "(\<Union>t\<in>set (number_list i ns). map snd ` words en t) = (\<Union>n\<in>set ns. set (expansions en n))"
proof (induction i n and i ns rule: number_number_list.induct)
  case (3 i a b)
  have "map snd ` words en (number i (Cat a b)) =
    (\<lambda>(u, v). u @ v) ` ((map snd ` words en (number i a)) \<times> (map snd ` words en (number (i + leaves a) b)))"
    by (force simp: image_iff)
  also have "\<dots> = set (expansions en (Cat a b))"
    by (auto simp: 3)
  finally show ?case .
next
  case (2 i n r)
  have "map snd ` (words en (number i n) - {[]}) = map snd ` words en (number i n) - {[]}"
    by auto
  then show ?case using 2 by (auto simp: image_Un)
next
  case (4 i ns)
  have "map snd ` words en (number i (Or ns)) = (\<Union>t\<in>set (number_list i ns). map snd ` words en t)"
    by (simp add: image_UN)
  then show ?case using 4 by simp
qed auto

lemma nullable_iff: "nullable en t \<longleftrightarrow> [] \<in> words en t"
  by (induction t) (auto simp: list_ex_iff image_iff)

section \<open>Positions of a tree\<close>

fun positions :: "ptree \<Rightarrow> position set" where
  "positions (PGroup t) = positions t"
| "positions (PStar t r) = positions t"
| "positions (PCat a b) = positions a \<union> positions b"
| "positions (POr ts) = (\<Union>t\<in>set ts. positions t)"
| "positions (PLeaf i n) = {(i, n)}"

text \<open>The positions of the parts of a tree are disjoint, and ascend from left to right.\<close>

fun apart :: "ptree \<Rightarrow> bool" where
  "apart (PGroup t) = apart t"
| "apart (PStar t r) = apart t"
| "apart (PCat a b) = (apart a \<and> apart b \<and> (\<forall>p\<in>positions a. \<forall>q\<in>positions b. fst p < fst q))"
| "apart (POr ts) = ((\<forall>t\<in>set ts. apart t) \<and>
     sorted_wrt (\<lambda>t u. \<forall>p\<in>positions t. \<forall>q\<in>positions u. fst p < fst q) ts)"
| "apart (PLeaf i n) = True"

lemma positions_number:
  "p \<in> positions (number i n) \<Longrightarrow> i \<le> fst p \<and> fst p < i + leaves n"
  "p \<in> (\<Union>t\<in>set (number_list i ns). positions t) \<Longrightarrow> i \<le> fst p \<and> fst p < i + leaves_list ns"
  by (induction i n and i ns rule: number_number_list.induct) (auto, fastforce+)

lemma apart_number:
  "apart (number i n)"
  "apart (POr (number_list i ns))"
proof (induction i n and i ns rule: number_number_list.induct)
  case (3 i a b)
  then show ?case
    using positions_number(1) [of _ i a] positions_number(1) [of _ "i + leaves a" b]
    by fastforce
next
  case (7 i n ns)
  have "fst p < fst q" if "p \<in> positions (number i n)" "t \<in> set (number_list (i + leaves n) ns)" "q \<in> positions t"
    for p q t
    using positions_number(1) [OF that(1)] positions_number(2) [of q "i + leaves n" ns] that(2,3)
    by fastforce
  then show ?case using 7 by auto
qed auto

lemma firstpos_positions: "set (firstpos en t) \<subseteq> positions t"
  by (induction t) (auto simp: uniq_concat_def uniq_from_set split: if_splits)

lemma lastpos_positions: "set (lastpos en t) \<subseteq> positions t"
  by (induction t) (auto simp: uniq_concat_def uniq_from_set split: if_splits)

definition follows :: "engine \<Rightarrow> ptree \<Rightarrow> position \<Rightarrow> position \<Rightarrow> bool" where
  "follows en t p q \<longleftrightarrow> (\<exists>(a, b)\<in>set (cats t). p \<in> set (lastpos en a) \<and> q \<in> set (firstpos en b))"

lemma follows_simps:
  "follows en (PGroup t) p q = follows en t p q"
  "follows en (PStar t r) p q = follows en t p q"
  "follows en (PLeaf i n) p q = False"
  "follows en (PCat a b) p q =
     (p \<in> set (lastpos en a) \<and> q \<in> set (firstpos en b) \<or> follows en a p q \<or> follows en b p q)"
  "follows en (POr ts) p q = (\<exists>t\<in>set ts. follows en t p q)"
  by (auto simp: follows_def)

lemma follows_positions: "follows en t p q \<Longrightarrow> p \<in> positions t \<and> q \<in> positions t"
  by (induction t) (auto simp: follows_simps dest: subsetD [OF firstpos_positions] subsetD [OF lastpos_positions])

lemma follows_ascends: "follows en t p q \<Longrightarrow> apart t \<Longrightarrow> fst p < fst q"
proof (induction t)
  case (PCat a b)
  have "fst p < fst q" if "p \<in> set (lastpos en a)" "q \<in> set (firstpos en b)"
    using that PCat.prems(2) subsetD [OF lastpos_positions that(1)] subsetD [OF firstpos_positions that(2)]
    by (simp only: apart.simps)
  then show ?case using PCat by (auto simp: follows_simps)
qed (auto simp: follows_simps)

lemma in_followpos: "q \<in> set (followpos tbl p) \<longleftrightarrow> (\<exists>qs. (p, qs) \<in> set tbl \<and> q \<in> set qs)"
  unfolding followpos_def by (induction tbl) auto

lemma in_build_followpos:
  "(p, qs) \<in> set (build_followpos en t) \<longleftrightarrow>
    (\<exists>(a, b)\<in>set (cats t). p \<in> set (lastpos en a) \<and> qs = firstpos en b)"
  unfolding build_followpos_def by (induction "cats t") auto

lemma followpos_follows:
  "q \<in> set (followpos (build_followpos en t) p) \<longleftrightarrow> follows en t p q"
  unfolding in_followpos in_build_followpos follows_def by blast

section \<open>Expansions are paths\<close>

definition path :: "engine \<Rightarrow> ptree \<Rightarrow> position list \<Rightarrow> bool" where
  "path en t w \<longleftrightarrow> w \<noteq> [] \<and> hd w \<in> set (firstpos en t) \<and> last w \<in> set (lastpos en t) \<and>
     successively (follows en t) w"

lemma successively_stays:
  assumes "successively R w" "w \<noteq> []" "hd w \<in> A" "\<And>p q. p \<in> A \<Longrightarrow> R p q \<Longrightarrow> q \<in> A \<and> S p q"
  shows "successively S w" and "set w \<subseteq> A"
proof -
  have "successively S w \<and> set w \<subseteq> A"
    using assms
  proof (induction w rule: induct_list012)
    case (3 x y zs)
    then have "y \<in> A \<and> S x y" by simp
    with 3 show ?case by simp
  qed simp_all
  then show "successively S w" and "set w \<subseteq> A" by blast+
qed

text \<open>A walk that starts left of a concatenation stays there or crosses once.\<close>

lemma successively_crosses:
  assumes "successively R w" "w \<noteq> []" "hd w \<in> A"
    and "\<And>p q. p \<in> A \<Longrightarrow> R p q \<Longrightarrow> q \<in> A \<and> S p q \<or> L p \<and> F q"
    and "\<And>p q. p \<in> B \<Longrightarrow> R p q \<Longrightarrow> q \<in> B \<and> T p q" and "\<And>q. F q \<Longrightarrow> q \<in> B"
  shows "successively S w \<and> set w \<subseteq> A \<or>
    (\<exists>u v. w = u @ v \<and> u \<noteq> [] \<and> v \<noteq> [] \<and> successively S u \<and> set u \<subseteq> A \<and> L (last u) \<and> F (hd v) \<and>
       successively T v \<and> set v \<subseteq> B)"
  using assms(1-3)
proof (induction w rule: induct_list012)
  case (3 x y zs)
  then have "R x y" "successively R (y # zs)" by simp_all
  with 3 consider "y \<in> A" "S x y" | "L x" "F y" using assms(4) [of x y] by auto
  then show ?case
  proof cases
    case 1
    with 3 \<open>successively R (y # zs)\<close> consider "successively S (y # zs)" "set (y # zs) \<subseteq> A"
      | u v where "y # zs = u @ v" "u \<noteq> []" "v \<noteq> []" "successively S u" "set u \<subseteq> A" "L (last u)" "F (hd v)"
          "successively T v" "set v \<subseteq> B"
      by auto
    then show ?thesis
    proof cases
      case a: 1
      with \<open>S x y\<close> 3 show ?thesis by simp
    next
      case b: 2
      then have "successively S (x # u)" using \<open>S x y\<close> by (cases u) auto
      moreover have "x # y # zs = (x # u) @ v" "last (x # u) = last u" using b by auto
      ultimately show ?thesis using b 3 by (metis list.discI list.sel(1) set_ConsD subset_code(1))
    qed
  next
    case 2
    have "successively T (y # zs)" "set (y # zs) \<subseteq> B"
      using successively_stays [OF \<open>successively R (y # zs)\<close>, of B T] assms(5) assms(6) [OF 2(2)] by auto
    then have "x # y # zs = [x] @ (y # zs) \<and> [x] \<noteq> [] \<and> y # zs \<noteq> [] \<and> successively S [x] \<and>
      set [x] \<subseteq> A \<and> L (last [x]) \<and> F (hd (y # zs)) \<and> successively T (y # zs) \<and> set (y # zs) \<subseteq> B"
      using 2 3 by simp
    then show ?thesis by blast
  qed
qed simp_all

lemma successively_append: "u \<noteq> [] \<Longrightarrow> v \<noteq> [] \<Longrightarrow>
    successively R (u @ v) \<longleftrightarrow> successively R u \<and> R (last u) (hd v) \<and> successively R v"
  by (auto simp: successively_append_iff)

lemma successively_weaken: "successively R w \<Longrightarrow> (\<And>p q. R p q \<Longrightarrow> S p q) \<Longrightarrow> successively S w"
  by (erule successively_mono) blast

lemma apart_choice:
  "apart (POr ts) \<Longrightarrow> t \<in> set ts \<Longrightarrow> u \<in> set ts \<Longrightarrow> p \<in> positions t \<Longrightarrow> p \<in> positions u \<Longrightarrow> t = u"
  by (induction ts) fastforce+

lemma path_choice:
  assumes "apart (POr ts)"
  shows "path en (POr ts) w \<longleftrightarrow> (\<exists>t\<in>set ts. path en t w)"
proof
  assume path: "path en (POr ts) w"
  then obtain t where t: "t \<in> set ts" "hd w \<in> set (firstpos en t)"
    by (auto simp: path_def uniq_from_set)
  have step: "q \<in> positions t \<and> follows en t p q" if "p \<in> positions t" "follows en (POr ts) p q" for p q
  proof -
    from that(2) obtain u where u: "u \<in> set ts" "follows en u p q" by (auto simp: follows_simps)
    then have "u = t" using apart_choice [OF assms u(1) t(1)] follows_positions [OF u(2)] that(1) by blast
    with u show ?thesis using follows_positions by blast
  qed
  have w: "successively (follows en (POr ts)) w" "w \<noteq> []" "hd w \<in> positions t"
    using path t firstpos_positions by (auto simp: path_def)
  have in_t: "successively (follows en t) w" "set w \<subseteq> positions t"
    by (rule successively_stays [OF w], erule (1) step)+
  from path obtain u where u: "u \<in> set ts" "last w \<in> set (lastpos en u)"
    by (auto simp: path_def uniq_from_set)
  moreover have "last w \<in> positions t" using in_t(2) w(2) last_in_set by blast
  ultimately have "u = t" using apart_choice [OF assms u(1) t(1)] lastpos_positions by blast
  with u t in_t w show "\<exists>t\<in>set ts. path en t w" by (auto simp: path_def)
next
  assume "\<exists>t\<in>set ts. path en t w"
  then obtain t where t: "t \<in> set ts" "path en t w" by blast
  have "successively (follows en (POr ts)) w"
    by (rule successively_weaken [of "follows en t"]) (use t in \<open>auto simp: path_def follows_simps\<close>)
  with t show "path en (POr ts) w" by (auto simp: path_def uniq_from_set)
qed

lemma in_firstpos_cat: "q \<in> set (firstpos en (PCat a b)) \<longleftrightarrow>
    q \<in> set (firstpos en a) \<or> nullable en a \<and> q \<in> set (firstpos en b)"
  by (simp add: uniq_concat_def uniq_from_set)

lemma in_lastpos_cat: "q \<in> set (lastpos en (PCat a b)) \<longleftrightarrow>
    q \<in> set (lastpos en b) \<or> nullable en b \<and> q \<in> set (lastpos en a)"
  by (auto simp add: uniq_concat_def uniq_from_set)

lemma path_cat_weaken:
  "successively (follows en a) w \<Longrightarrow> successively (follows en (PCat a b)) w"
  "successively (follows en b) w \<Longrightarrow> successively (follows en (PCat a b)) w"
  by (erule successively_weaken, simp add: follows_simps)+

lemma path_cat_crossing:
  "p \<in> set (lastpos en a) \<Longrightarrow> q \<in> set (firstpos en b) \<Longrightarrow> follows en (PCat a b) p q"
  by (simp add: follows_simps)

lemma path_cat_intros:
  "path en a u \<Longrightarrow> path en b v \<Longrightarrow> path en (PCat a b) (u @ v)"
  "nullable en b \<Longrightarrow> path en a w \<Longrightarrow> path en (PCat a b) w"
  "nullable en a \<Longrightarrow> path en b w \<Longrightarrow> path en (PCat a b) w"
  by (simp_all add: path_def in_firstpos_cat in_lastpos_cat successively_append path_cat_weaken
    path_cat_crossing del: firstpos.simps lastpos.simps)

lemma path_cat_cases:
  assumes "apart (PCat a b)" and path: "path en (PCat a b) w"
  obtains (both) u v where "w = u @ v" "path en a u" "path en b v"
    | (left) "nullable en b" "path en a w"
    | (right) "nullable en a" "path en b w"
proof -
  let ?F = "\<lambda>q. q \<in> set (firstpos en b)" and ?L = "\<lambda>p. p \<in> set (lastpos en a)"
  have disj: "p \<in> positions a \<Longrightarrow> p \<in> positions b \<Longrightarrow> False" for p using assms(1) by fastforce
  have F: "?F q \<Longrightarrow> q \<in> positions b" and L: "?L q \<Longrightarrow> q \<in> positions a" for q
    using firstpos_positions lastpos_positions by blast+
  have in_b: "q \<in> positions b \<and> follows en b p q" if "p \<in> positions b" "follows en (PCat a b) p q" for p q
    using that disj [of p] L [of p] follows_positions [of en a p q] follows_positions [of en b p q]
    unfolding follows_simps by blast
  have in_a: "q \<in> positions a \<and> follows en a p q \<or> ?L p \<and> ?F q"
    if "p \<in> positions a" "follows en (PCat a b) p q" for p q
    using that disj [of p] follows_positions [of en a p q] follows_positions [of en b p q]
    unfolding follows_simps by blast
  have w: "successively (follows en (PCat a b)) w" "w \<noteq> []"
    and ends: "hd w \<in> set (firstpos en a) \<or> nullable en a \<and> ?F (hd w)"
      "last w \<in> set (lastpos en b) \<or> nullable en b \<and> ?L (last w)"
    using path unfolding path_def in_firstpos_cat in_lastpos_cat by blast+
  show thesis
  proof (cases "?F (hd w)")
    case True
    have "successively (follows en b) w" "set w \<subseteq> positions b"
      by (rule successively_stays [OF w F [OF True]], erule (1) in_b)+
    moreover have "last w \<in> positions b" using calculation w(2) last_in_set by blast
    moreover have "nullable en a" using ends(1) True disj F firstpos_positions by blast
    ultimately show thesis using True w(2) ends(2) disj L right unfolding path_def by blast
  next
    case False
    with ends(1) have hd: "hd w \<in> set (firstpos en a)" by blast
    then have "hd w \<in> positions a" using firstpos_positions by blast
    then have "successively (follows en a) w \<and> set w \<subseteq> positions a \<or>
      (\<exists>u v. w = u @ v \<and> u \<noteq> [] \<and> v \<noteq> [] \<and> successively (follows en a) u \<and> set u \<subseteq> positions a \<and>
        ?L (last u) \<and> ?F (hd v) \<and> successively (follows en b) v \<and> set v \<subseteq> positions b)"
      by (rule successively_crosses [OF w]) (fact in_a in_b F)+
    then show thesis
    proof (elim disjE exE conjE)
      assume "successively (follows en a) w" "set w \<subseteq> positions a"
      moreover have "last w \<in> positions a" using calculation w(2) last_in_set by blast
      ultimately show thesis
        using hd w(2) ends(2) disj lastpos_positions left unfolding path_def by blast
    next
      fix u v assume uv: "w = u @ v" "u \<noteq> []" "v \<noteq> []" "successively (follows en a) u" "?L (last u)" "?F (hd v)"
        "successively (follows en b) v" "set v \<subseteq> positions b"
      then have "last v \<in> positions b" "last w = last v" "hd w = hd u" using last_in_set by auto
      then have "last v \<in> set (lastpos en b)" using ends(2) disj L by metis
      with uv hd \<open>hd w = hd u\<close> have "path en a u" "path en b v" unfolding path_def by auto
      with uv(1) show thesis by (rule both)
    qed
  qed
qed

lemma words_cat:
  "w \<noteq> [] \<Longrightarrow> w \<in> words en (PCat a b) \<longleftrightarrow>
    (\<exists>u v. w = u @ v \<and> u \<noteq> [] \<and> v \<noteq> [] \<and> u \<in> words en a \<and> v \<in> words en b) \<or>
    [] \<in> words en b \<and> w \<in> words en a \<or> [] \<in> words en a \<and> w \<in> words en b"
  unfolding words.simps image_iff by (auto simp: Bex_def) (metis append_Nil append_Nil2)+

theorem expansion_iff_path:
  "apart t \<Longrightarrow> w \<noteq> [] \<Longrightarrow> w \<in> words en t \<longleftrightarrow> path en t w"
proof (induction t arbitrary: w)
  case (PLeaf i n)
  then show ?case by (cases w rule: remdups_adj.cases) (auto simp: path_def follows_simps)
next
  case (PCat a b)
  have "(w \<in> words en a) = path en a w" "(w \<in> words en b) = path en b w" if "w \<noteq> []" for w
    using PCat that by simp_all
  moreover have "path en t w \<Longrightarrow> w \<noteq> []" for t w by (simp add: path_def)
  ultimately show ?case
    unfolding words_cat [OF PCat.prems(2)] nullable_iff [symmetric]
    using path_cat_intros path_cat_cases [OF PCat.prems(1)] PCat.prems(2) by metis
next
  case (POr ts)
  then show ?case by (simp add: path_choice)
qed (simp_all add: path_def follows_simps)

end
