(* ===== verification/Journey_Table.thy ===== *)
theory Journey_Table
  imports Journey_Glushkov
begin

text \<open>
  The worklist of the builder ends, and the table it leaves behind is the subset construction.

  Every state of the table stands for an array of positions. \<open>complete\<close> says of a state that it has
  one arrow for each edge of its positions, to a state of the positions that follow, and that this
  state accepts and carries memos as it should; \<open>table_complete\<close> says that every state of the built
  table is complete.
\<close>

section \<open>Arrows\<close>

definition edge_in :: "table \<Rightarrow> nat \<Rightarrow> edge \<Rightarrow> nat \<Rightarrow> bool" where
  "edge_in tt i e j \<longleftrightarrow> (case e of
     Text l \<Rightarrow> strs tt i l = Some j
   | Rx r \<Rightarrow> if r = DefaultExp then stds tt i = Some j else (r, j) \<in> set (regs tt i))"

definition reach :: "follow_table \<Rightarrow> position list \<Rightarrow> position set" where
  "reach tbl ps = (\<Union>p\<in>set ps. set (followpos tbl p))"

definition final_memos :: "follow_table \<Rightarrow> position \<Rightarrow> position list \<Rightarrow> nat option set" where
  "final_memos tbl endp ps = (\<lambda>p. memo_of (snd p)) ` {p \<in> set ps. endp \<in> set (followpos tbl p)}"

definition at_edge :: "position list \<Rightarrow> edge \<Rightarrow> position list" where
  "at_edge s e = filter (\<lambda>p. edge_of p = e) s"

definition arrow ::
  "follow_table \<Rightarrow> position \<Rightarrow> table \<Rightarrow> (nat \<Rightarrow> position list) \<Rightarrow> position list \<Rightarrow> nat \<Rightarrow> bool" where
  "arrow tbl endp tt \<nu> ps j \<longleftrightarrow> set (\<nu> j) = reach tbl ps \<and>
     (is_accepting tt j \<longleftrightarrow> endp \<in> reach tbl ps) \<and> set (memos tt j) = final_memos tbl endp ps"

definition complete ::
  "follow_table \<Rightarrow> position \<Rightarrow> table \<Rightarrow> (nat \<Rightarrow> position list) \<Rightarrow> nat \<Rightarrow> nat \<Rightarrow> bool" where
  "complete tbl endp tt \<nu> n i \<longleftrightarrow> (\<forall>e.
     if reach tbl (at_edge (\<nu> i) e) = {} then \<forall>j. \<not> edge_in tt i e j
     else \<exists>j<n. (\<forall>k. edge_in tt i e k \<longleftrightarrow> k = j) \<and> arrow tbl endp tt \<nu> (at_edge (\<nu> i) e) j)"

definition blank :: "table \<Rightarrow> nat \<Rightarrow> bool" where
  "blank tt n \<longleftrightarrow> (\<forall>i\<ge>n. memos tt i = [] \<and> \<not> is_accepting tt i \<and> (\<forall>e j. \<not> edge_in tt i e j))"

lemma edge_in_set_edge:
  assumes "\<And>j. \<not> edge_in tt from e j"
  shows "edge_in (set_edge from to e tt) i e' j \<longleftrightarrow> (if i = from \<and> e' = e then j = to else edge_in tt i e' j)"
  using assms by (cases e; cases e') (auto simp: edge_in_def set_edge_def split: if_splits)

lemma edge_in_memo [simp]: "edge_in (add_memo s m tt) = edge_in tt"
  by (simp add: edge_in_def fun_eq_iff add_memo_def split: edge.splits)

lemma edge_in_accepting [simp]: "edge_in (add_accepting s tt) = edge_in tt"
  by (simp add: edge_in_def fun_eq_iff add_accepting_def split: edge.splits)

lemma accepting_add [simp]: "is_accepting (add_accepting s tt) i \<longleftrightarrow> i = s \<or> is_accepting tt i"
  by (auto simp: is_accepting_def add_accepting_def)

lemma set_edge_others [simp]:
  "is_accepting (set_edge from to e tt) = is_accepting tt" "memos (set_edge from to e tt) = memos tt"
  by (simp_all add: set_edge_def is_accepting_def fun_eq_iff split: edge.splits)

lemma memos_accepting [simp]: "memos (add_accepting s tt) = memos tt"
  by (simp add: add_accepting_def)

lemma add_memo_others [simp]:
  "is_accepting (add_memo j m tt) = is_accepting tt"
  "memos (add_memo j m tt) = (memos tt)(j := memos tt j @ [m])"
  by (simp_all add: add_memo_def is_accepting_def fun_eq_iff)

lemma fold_memos [simp]:
  "edge_in (fold (\<lambda>p. add_memo j (f p)) ps tt) = edge_in tt"
  "is_accepting (fold (\<lambda>p. add_memo j (f p)) ps tt) = is_accepting tt"
  "memos (fold (\<lambda>p. add_memo j (f p)) ps tt) = (memos tt)(j := memos tt j @ map f ps)"
  by (induction ps arbitrary: tt) simp_all

section \<open>Grouping\<close>

lemma keys_add_to_group:
  "map fst (add_to_group p gs) =
    map fst gs @ (if edge_of p \<in> set (map fst gs) then [] else [edge_of p])"
proof (induction gs)
  case (Cons g gs)
  then show ?case by (cases g) simp
qed simp

lemma in_add_to_group:
  "distinct (map fst gs) \<Longrightarrow> (e, ps) \<in> set (add_to_group p gs) \<longleftrightarrow>
    (if e = edge_of p then (if e \<in> set (map fst gs) then \<exists>qs. (e, qs) \<in> set gs \<and> ps = qs @ [p] else ps = [p])
     else (e, ps) \<in> set gs)"
proof (induction gs)
  case (Cons g gs)
  obtain e' qs where g: "g = (e', qs)" by (cases g)
  have "e' \<notin> set (map fst gs)" using Cons.prems g by simp
  then have "(e', qs) \<notin> set gs" for qs by force
  with Cons g show ?case by (cases "e = edge_of p"; cases "e' = edge_of p") auto
qed simp

lemma group_positions_snoc: "group_positions (s @ [p]) = add_to_group p (group_positions s)"
  by (simp add: group_positions_def)

lemma group_positions_keys:
  "distinct (map fst (group_positions s)) \<and> set (map fst (group_positions s)) = edge_of ` set s"
proof (induction s rule: rev_induct)
  case Nil
  then show ?case by (simp add: group_positions_def)
next
  case (snoc p s)
  then show ?case unfolding group_positions_snoc keys_add_to_group by auto
qed

lemma group_positions_values: "(e, ps) \<in> set (group_positions s) \<Longrightarrow> ps = at_edge s e"
proof (induction s arbitrary: ps rule: rev_induct)
  case Nil
  then show ?case by (simp add: group_positions_def)
next
  case (snoc p s)
  note in_add = snoc.prems [unfolded group_positions_snoc in_add_to_group [OF conjunct1 [OF group_positions_keys]]]
  show ?case
  proof (cases "e = edge_of p")
    case True
    have "at_edge s e = []" if "e \<notin> set (map fst (group_positions s))"
      using that conjunct2 [OF group_positions_keys] by (fastforce simp: at_edge_def filter_empty_conv)
    with True in_add snoc.IH show ?thesis by (auto simp: at_edge_def split: if_splits)
  next
    case False
    with in_add snoc.IH show ?thesis by (simp add: at_edge_def)
  qed
qed

lemma group_positions_has:
  assumes "p \<in> set s"
  shows "(edge_of p, at_edge s (edge_of p)) \<in> set (group_positions s)"
proof -
  have "edge_of p \<in> set (map fst (group_positions s))"
    using assms conjunct2 [OF group_positions_keys [of s]] by blast
  then obtain ps where "(edge_of p, ps) \<in> set (group_positions s)" by auto
  then show ?thesis using group_positions_values by blast
qed

section \<open>One group\<close>

lemma set_targets: "set (uniq_from [] (concat (map (followpos tbl) ps))) = reach tbl ps"
  by (simp add: uniq_from_set reach_def)

lemma targets_Nil: "uniq_from [] (concat (map (followpos tbl) ps)) = [] \<longleftrightarrow> reach tbl ps = {}"
  by (metis set_empty set_targets)

definition follow_alive :: "follow_table \<Rightarrow> position list \<Rightarrow> bool" where
  "follow_alive tbl ps \<longleftrightarrow> (reach tbl ps \<noteq> {} \<longrightarrow> (\<forall>p\<in>set ps. followpos tbl p \<noteq> []))"

lemma build_group_dead: "reach tbl ps = {} \<Longrightarrow> build_group tbl endp (e, ps) b = b"
  by (simp add: build_group_def targets_Nil)

lemma build_group_alive:
  fixes endp :: position and e :: edge
  assumes "reach tbl ps \<noteq> {}" "own_id b = Some i" "follow_alive tbl ps"
  defines "b' \<equiv> build_group tbl endp (e, ps) b" and "n \<equiv> next_id b"
  shows "\<exists>u. set u = reach tbl ps \<and>
      fresh_arrays b' = fresh_arrays b @ [(u, if reach tbl ps \<subseteq> {endp} then None else Some n)]"
    and "own_id b' = Some i" and "next_id b' = Suc n"
    and "edge_in (bt b') = edge_in (set_edge i n e (bt b))"
    and "is_accepting (bt b') j \<longleftrightarrow> is_accepting (bt b) j \<or> j = n \<and> endp \<in> reach tbl ps"
    and "memos (bt b') = (memos (bt b))(n := memos (bt b) n @
      map (\<lambda>p. memo_of (snd p)) (filter (\<lambda>p. endp \<in> set (followpos tbl p)) ps))"
proof -
  let ?u = "uniq_from [] (concat (map (followpos tbl) ps))"
  have u: "set ?u = reach tbl ps" by (rule set_targets)
  then have ne: "?u \<noteq> []" using assms(1) by auto
  have all: "list_all (\<lambda>p. p = endp) ?u \<longleftrightarrow> reach tbl ps \<subseteq> {endp}"
    unfolding u [symmetric] list_all_iff by blast
  have one: "filter (\<lambda>p. endp \<in> set (followpos tbl p)) ps = ps" "endp \<in> reach tbl ps" if "reach tbl ps \<subseteq> {endp}"
  proof -
    have "endp \<in> set (followpos tbl p)" if "p \<in> set ps" for p
    proof -
      have "set (followpos tbl p) \<subseteq> {endp}" "followpos tbl p \<noteq> []"
        using that \<open>reach tbl ps \<subseteq> {endp}\<close> assms(1,3) unfolding follow_alive_def reach_def by blast+
      then show ?thesis by (metis last_in_set singletonD subsetD)
    qed
    then show "filter (\<lambda>p. endp \<in> set (followpos tbl p)) ps = ps" by (simp add: filter_id_conv)
    show "endp \<in> reach tbl ps" using that assms(1) by blast
  qed
  have none: "filter (\<lambda>p. endp \<in> set (followpos tbl p)) ps = []" if "endp \<notin> reach tbl ps"
    using that unfolding reach_def filter_empty_conv by blast
  let ?t = "set_edge i n e (bt b)"
  let ?ms = "\<lambda>ps. fold (\<lambda>p. add_memo n (memo_of (snd p))) ps"
  let ?f = "filter (\<lambda>p. endp \<in> set (followpos tbl p)) ps"
  have b': "b' = b\<lparr>bt := (if reach tbl ps \<subseteq> {endp} then ?ms ps (add_accepting n ?t)
      else if endp \<in> reach tbl ps then add_accepting n (?ms ?f ?t) else ?t),
    own_id := Some i, next_id := Suc n,
    fresh_arrays := fresh_arrays b @ [(?u, if reach tbl ps \<subseteq> {endp} then None else Some n)]\<rparr>"
    using assms(2) ne by (simp add: b'_def build_group_def n_def Let_def all u)
  show "\<exists>u. set u = reach tbl ps \<and>
      fresh_arrays b' = fresh_arrays b @ [(u, if reach tbl ps \<subseteq> {endp} then None else Some n)]"
    using u by (auto simp: b')
  show "own_id b' = Some i" "next_id b' = Suc n" "edge_in (bt b') = edge_in ?t"
    by (simp_all add: b')
  show "is_accepting (bt b') j \<longleftrightarrow> is_accepting (bt b) j \<or> j = n \<and> endp \<in> reach tbl ps"
    using one(2) by (auto simp: b')
  show "memos (bt b') = (memos (bt b))(n := memos (bt b) n @ map (\<lambda>p. memo_of (snd p)) ?f)"
    by (cases "reach tbl ps \<subseteq> {endp}") (simp_all add: b' one none)
qed

section \<open>One state\<close>

text \<open>What has been done after the groups \<open>gs\<close> of state \<open>i\<close>, from the table \<open>tt\<close> with \<open>n\<close> states.\<close>

definition progress ::
  "follow_table \<Rightarrow> position \<Rightarrow> nat \<Rightarrow> nat \<Rightarrow> table \<Rightarrow> (edge \<times> position list) list \<Rightarrow> build \<Rightarrow>
    (nat \<Rightarrow> position list) \<Rightarrow> bool" where
  "progress tbl endp i n tt gs b \<nu> \<longleftrightarrow>
     own_id b = Some i \<and> n \<le> next_id b \<and> blank (bt b) (next_id b) \<and>
     (\<forall>k e j. k \<noteq> i \<longrightarrow> k < n \<longrightarrow> edge_in (bt b) k e j = edge_in tt k e j) \<and>
     (\<forall>k e j. n \<le> k \<longrightarrow> \<not> edge_in (bt b) k e j) \<and>
     (\<forall>j<n. is_accepting (bt b) j = is_accepting tt j \<and> memos (bt b) j = memos tt j) \<and>
     (\<forall>e. (\<forall>ps. (e, ps) \<in> set gs \<longrightarrow> reach tbl ps = {}) \<longrightarrow> (\<forall>j. \<not> edge_in (bt b) i e j)) \<and>
     (\<forall>e ps. (e, ps) \<in> set gs \<longrightarrow> reach tbl ps \<noteq> {} \<longrightarrow>
       (\<exists>j. n \<le> j \<and> j < next_id b \<and> (\<forall>k. edge_in (bt b) i e k \<longleftrightarrow> k = j) \<and> arrow tbl endp (bt b) \<nu> ps j)) \<and>
     (\<forall>u x. (u, x) \<in> set (fresh_arrays b) \<longrightarrow> (\<exists>e ps. (e, ps) \<in> set gs \<and> set u = reach tbl ps \<and> u \<noteq> []) \<and>
       (case x of None \<Rightarrow> set u \<subseteq> {endp} | Some j \<Rightarrow> n \<le> j \<and> j < next_id b \<and> \<nu> j = u)) \<and>
     (\<forall>j. n \<le> j \<longrightarrow> j < next_id b \<longrightarrow> (\<nu> j, Some j) \<in> set (fresh_arrays b) \<or> set (\<nu> j) \<subseteq> {endp}) \<and>
     distinct (List.map_filter snd (fresh_arrays b))"

lemma arrow_cong:
  "arrow tbl endp tt \<nu> ps j \<Longrightarrow> \<nu>' j = \<nu> j \<Longrightarrow> is_accepting tt' j = is_accepting tt j \<Longrightarrow>
    memos tt' j = memos tt j \<Longrightarrow> arrow tbl endp tt' \<nu>' ps j"
  by (simp add: arrow_def)

lemma map_filter_snoc: "List.map_filter f (xs @ [x]) = List.map_filter f xs @ (case f x of None \<Rightarrow> [] | Some y \<Rightarrow> [y])"
  by (simp add: List.map_filter_def split: option.splits)

lemma map_filter_snd: "j \<in> set (List.map_filter snd xs) \<longleftrightarrow> (\<exists>u. (u, Some j) \<in> set xs)"
  by (induction xs) (auto simp: List.map_filter_simps split: option.splits)

lemma progress_dead:
  assumes "progress tbl endp i n tt gs b \<nu>" "reach tbl ps = {}"
  shows "progress tbl endp i n tt (gs @ [(e, ps)]) (build_group tbl endp (e, ps) b) \<nu>"
proof -
  have "(\<forall>qs. (e', qs) \<in> set (gs @ [(e, ps)]) \<longrightarrow> reach tbl qs = {}) \<longleftrightarrow>
      (\<forall>qs. (e', qs) \<in> set gs \<longrightarrow> reach tbl qs = {})" for e'
    using assms(2) by auto
  moreover have "(e', qs) \<in> set (gs @ [(e, ps)]) \<Longrightarrow> reach tbl qs \<noteq> {} \<Longrightarrow> (e', qs) \<in> set gs" for e' qs
    using assms(2) by auto
  moreover have "(e', qs) \<in> set gs \<Longrightarrow> (e', qs) \<in> set (gs @ [(e, ps)])" for e' qs by simp
  ultimately show ?thesis
    using assms(1) unfolding progress_def build_group_dead [OF assms(2)] by meson
qed

lemma progress_alive:
  assumes P: "progress tbl endp i n tt gs b \<nu>" and alive: "reach tbl ps \<noteq> {}" "follow_alive tbl ps"
    and new: "e \<notin> set (map fst gs)" and i: "i < n"
  shows "\<exists>u. progress tbl endp i n tt (gs @ [(e, ps)]) (build_group tbl endp (e, ps) b) (\<nu>(next_id b := u))"
proof -
  let ?b = "build_group tbl endp (e, ps) b" and ?m = "next_id b"
  have own: "own_id b = Some i" and nm: "n \<le> ?m" and blank: "blank (bt b) ?m"
    and other: "\<And>k e j. k \<noteq> i \<Longrightarrow> k < n \<Longrightarrow> edge_in (bt b) k e j = edge_in tt k e j"
    and late: "\<And>k e j. n \<le> k \<Longrightarrow> \<not> edge_in (bt b) k e j"
    and old: "\<And>j. j < n \<Longrightarrow> is_accepting (bt b) j = is_accepting tt j \<and> memos (bt b) j = memos tt j"
    and off: "\<And>e j. (\<And>ps. (e, ps) \<in> set gs \<Longrightarrow> reach tbl ps = {}) \<Longrightarrow> \<not> edge_in (bt b) i e j"
    and on: "\<And>e ps. (e, ps) \<in> set gs \<Longrightarrow> reach tbl ps \<noteq> {} \<Longrightarrow>
       \<exists>j. n \<le> j \<and> j < ?m \<and> (\<forall>k. edge_in (bt b) i e k \<longleftrightarrow> k = j) \<and> arrow tbl endp (bt b) \<nu> ps j"
    and fresh: "\<And>u x. (u, x) \<in> set (fresh_arrays b) \<Longrightarrow> (\<exists>e ps. (e, ps) \<in> set gs \<and> set u = reach tbl ps \<and> u \<noteq> []) \<and>
       (case x of None \<Rightarrow> set u \<subseteq> {endp} | Some j \<Rightarrow> n \<le> j \<and> j < ?m \<and> \<nu> j = u)"
    and queued: "\<And>j. n \<le> j \<Longrightarrow> j < ?m \<Longrightarrow> (\<nu> j, Some j) \<in> set (fresh_arrays b) \<or> set (\<nu> j) \<subseteq> {endp}"
    and dist: "distinct (List.map_filter snd (fresh_arrays b))"
    using P unfolding progress_def by blast+
  note g = build_group_alive [OF alive(1) own alive(2), of endp e]
  obtain u where u: "set u = reach tbl ps"
    "fresh_arrays ?b = fresh_arrays b @ [(u, if reach tbl ps \<subseteq> {endp} then None else Some ?m)]"
    using g(1) by blast
  let ?\<nu> = "\<nu>(?m := u)"
  have no_e: "\<not> edge_in (bt b) i e j" for j using off [of e] new by force
  have edges: "edge_in (bt ?b) k e' j \<longleftrightarrow> (if k = i \<and> e' = e then j = ?m else edge_in (bt b) k e' j)" for k e' j
    unfolding g(4) by (rule edge_in_set_edge) (rule no_e)
  have blank_m: "memos (bt b) ?m = []" "\<not> is_accepting (bt b) ?m" using blank by (simp_all add: blank_def)
  have arrow_new: "arrow tbl endp (bt ?b) ?\<nu> ps ?m"
    using u(1) blank_m by (auto simp: arrow_def g(5,6) final_memos_def)
  have arrow_old: "arrow tbl endp (bt ?b) ?\<nu> qs j" if "arrow tbl endp (bt b) \<nu> qs j" "j < ?m" for qs j
    using that by (elim arrow_cong) (simp_all add: g(5,6))
  have "progress tbl endp i n tt (gs @ [(e, ps)]) ?b ?\<nu>"
    unfolding progress_def
  proof (intro conjI allI impI)
    show "blank (bt ?b) (next_id ?b)"
      using blank i nm by (auto simp: blank_def g(3,5,6) edges)
  next
    fix e' j assume "\<forall>qs. (e', qs) \<in> set (gs @ [(e, ps)]) \<longrightarrow> reach tbl qs = {}"
    then show "\<not> edge_in (bt ?b) i e' j" using off [of e' j] alive(1) by (auto simp: edges)
  next
    fix e' qs assume in': "(e', qs) \<in> set (gs @ [(e, ps)])" "reach tbl qs \<noteq> {}"
    show "\<exists>j. n \<le> j \<and> j < next_id ?b \<and> (\<forall>k. edge_in (bt ?b) i e' k \<longleftrightarrow> k = j) \<and> arrow tbl endp (bt ?b) ?\<nu> qs j"
    proof (cases "e' = e")
      case True
      then have "qs = ps" using in' new by force
      with True arrow_new nm show ?thesis by (intro exI [of _ ?m]) (simp add: edges g(3))
    next
      case False
      with in' obtain j where "n \<le> j" "j < ?m" "\<forall>k. edge_in (bt b) i e' k \<longleftrightarrow> k = j"
        "arrow tbl endp (bt b) \<nu> qs j" using on [of e' qs] by auto
      with False arrow_old show ?thesis by (intro exI [of _ j]) (simp add: edges g(3))
    qed
  next
    fix v x assume in': "(v, x) \<in> set (fresh_arrays ?b)"
    then consider "(v, x) \<in> set (fresh_arrays b)"
      | "v = u" "x = (if reach tbl ps \<subseteq> {endp} then None else Some ?m)" by (auto simp: u(2))
    note cs = this
    show "\<exists>e' qs. (e', qs) \<in> set (gs @ [(e, ps)]) \<and> set v = reach tbl qs \<and> v \<noteq> []"
    proof (cases rule: cs)
      case 1
      then obtain e' qs where "(e', qs) \<in> set gs" "set v = reach tbl qs" "v \<noteq> []" using fresh by blast
      then show ?thesis by (intro exI [of _ e'] exI [of _ qs]) simp
    next
      case 2
      then show ?thesis using u(1) alive(1) by (intro exI [of _ e] exI [of _ ps]) auto
    qed
    show "case x of None \<Rightarrow> set v \<subseteq> {endp} | Some j \<Rightarrow> n \<le> j \<and> j < next_id ?b \<and> ?\<nu> j = v"
    proof (cases rule: cs)
      case 1
      show ?thesis using conjunct2 [OF fresh [OF 1]] by (cases x) (simp_all add: g(3))
    next
      case 2
      then show ?thesis using u(1) nm by (simp add: g(3))
    qed
  next
    fix j assume "n \<le> j" "j < next_id ?b"
    then show "(?\<nu> j, Some j) \<in> set (fresh_arrays ?b) \<or> set (?\<nu> j) \<subseteq> {endp}"
      using queued [of j] u by (cases "j = ?m") (auto simp: g(3))
  next
    have "?m \<notin> set (List.map_filter snd (fresh_arrays b))"
      using fresh unfolding map_filter_snd by fastforce
    then show "distinct (List.map_filter snd (fresh_arrays ?b))"
      using dist by (simp add: u(2) map_filter_snoc)
  qed (use own nm i other late old in \<open>auto simp: g(2,3,5,6) edges\<close>)
  then show ?thesis by blast
qed

lemma progress_start:
  "blank tt n \<Longrightarrow> (\<And>e j. \<not> edge_in tt i e j) \<Longrightarrow>
    progress tbl endp i n tt [] \<lparr>bt = tt, next_id = n, own_id = Some i, fresh_arrays = []\<rparr> \<nu>"
  by (simp add: progress_def blank_def List.map_filter_simps)

lemma progress_all:
  assumes "blank tt n" "\<And>e j. \<not> edge_in tt i e j" "i < n"
    and "distinct (map fst gs)" "\<And>e ps. (e, ps) \<in> set gs \<Longrightarrow> follow_alive tbl ps"
  shows "\<exists>\<nu>'. (\<forall>j<n. \<nu>' j = \<nu> j) \<and> progress tbl endp i n tt gs
    (fold (build_group tbl endp) gs \<lparr>bt = tt, next_id = n, own_id = Some i, fresh_arrays = []\<rparr>) \<nu>'"
  using assms(4,5)
proof (induction gs rule: rev_induct)
  case Nil
  then show ?case using progress_start [OF assms(1,2)] by auto
next
  case (snoc g gs)
  let ?b = "fold (build_group tbl endp) gs \<lparr>bt = tt, next_id = n, own_id = Some i, fresh_arrays = []\<rparr>"
  obtain e ps where g: "g = (e, ps)" by (cases g)
  from snoc obtain \<nu>' where \<nu>': "\<forall>j<n. \<nu>' j = \<nu> j" "progress tbl endp i n tt gs ?b \<nu>'"
    by auto
  show ?case
  proof (cases "reach tbl ps = {}")
    case True
    with \<nu>' progress_dead [OF \<nu>'(2) True, of e] g show ?thesis by auto
  next
    case False
    have "follow_alive tbl ps" "e \<notin> set (map fst gs)" using snoc.prems g by auto
    from progress_alive [OF \<nu>'(2) False this assms(3)] obtain u where
      "progress tbl endp i n tt (gs @ [(e, ps)]) (build_group tbl endp (e, ps) ?b) (\<nu>'(next_id ?b := u))" by blast
    moreover have "n \<le> next_id ?b" using \<nu>'(2) by (simp add: progress_def)
    then have "\<forall>j<n. (\<nu>'(next_id ?b := u)) j = \<nu> j" using \<nu>'(1) by simp
    ultimately show ?thesis using g by (intro exI [of _ "\<nu>'(next_id ?b := u)"]) (simp del: fun_upd_apply)
  qed
qed

section \<open>The worklist\<close>

definition array_ok :: "follow_table \<Rightarrow> position \<Rightarrow> position list \<Rightarrow> bool" where
  "array_ok tbl endp s \<longleftrightarrow>
     (\<forall>p\<in>set s. p = endp \<or> followpos tbl p \<noteq> [] \<and> edge_of p \<noteq> edge_of endp)"

definition table_ok :: "follow_table \<Rightarrow> position \<Rightarrow> bool" where
  "table_ok tbl endp \<longleftrightarrow> followpos tbl endp = [] \<and>
     (\<forall>p. array_ok tbl endp (followpos tbl p) \<and> (\<forall>q\<in>set (followpos tbl p). fst p < fst q \<and> fst q \<le> fst endp))"

lemma follow_alive_at:
  assumes "table_ok tbl endp" "array_ok tbl endp s"
  shows "follow_alive tbl (at_edge s e)"
proof (cases "e = edge_of endp")
  case True
  then have "set (at_edge s e) \<subseteq> {endp}" using assms(2) unfolding array_ok_def at_edge_def by auto
  then have "reach tbl (at_edge s e) = {}" using assms(1) unfolding reach_def table_ok_def by fastforce
  then show ?thesis by (simp add: follow_alive_def)
next
  case False
  then have "\<forall>p\<in>set (at_edge s e). p \<noteq> endp" by (auto simp: at_edge_def)
  then show ?thesis using assms(2) by (auto simp: follow_alive_def array_ok_def at_edge_def)
qed

lemma reach_ok: "table_ok tbl endp \<Longrightarrow> set u = reach tbl ps \<Longrightarrow> array_ok tbl endp u"
  unfolding table_ok_def array_ok_def reach_def by blast

lemma reach_end: "table_ok tbl endp \<Longrightarrow> set s \<subseteq> {endp} \<Longrightarrow> reach tbl (at_edge s e) = {}"
  unfolding table_ok_def reach_def at_edge_def by fastforce

definition pending :: "(position list \<times> nat option) list \<Rightarrow> nat list" where
  "pending q = List.map_filter snd q"

definition loop_inv ::
  "follow_table \<Rightarrow> position \<Rightarrow> (nat \<Rightarrow> position list) \<Rightarrow> (position list \<times> nat option) list \<Rightarrow> nat \<Rightarrow> table \<Rightarrow> bool" where
  "loop_inv tbl endp \<nu> q n tt \<longleftrightarrow>
     blank tt n \<and> distinct (pending q) \<and>
     (\<forall>i<n. i \<notin> set (pending q) \<longrightarrow> complete tbl endp tt \<nu> n i) \<and>
     (\<forall>i\<in>set (pending q). i < n \<and> (\<forall>e j. \<not> edge_in tt i e j)) \<and>
     (\<forall>s x. (s, x) \<in> set q \<longrightarrow> array_ok tbl endp s \<and>
       (case x of None \<Rightarrow> set s \<subseteq> {endp} | Some i \<Rightarrow> \<nu> i = s))"

lemma pending_simps [simp]:
  "pending [] = []" "pending ((s, None) # q) = pending q" "pending ((s, Some i) # q) = i # pending q"
  "pending (q @ q') = pending q @ pending q'"
  by (simp_all add: pending_def List.map_filter_def)

lemma in_pending: "i \<in> set (pending q) \<longleftrightarrow> (\<exists>s. (s, Some i) \<in> set q)"
  by (simp add: pending_def map_filter_snd)

lemma complete_progress:
  assumes ok: "table_ok tbl endp" and i: "i < n" and at: "\<nu>' i = s"
    and P: "progress tbl endp i n tt (group_positions s) b \<nu>'"
  shows "complete tbl endp (bt b) \<nu>' (next_id b) i"
proof -
  have "\<exists>j<next_id b. (\<forall>k. edge_in (bt b) i e k \<longleftrightarrow> k = j) \<and> arrow tbl endp (bt b) \<nu>' (at_edge s e) j"
    if "reach tbl (at_edge s e) \<noteq> {}" for e
  proof -
    from that obtain p where "p \<in> set s" "edge_of p = e" by (auto simp: reach_def at_edge_def)
    then have "(e, at_edge s e) \<in> set (group_positions s)" using group_positions_has by blast
    with that P show ?thesis unfolding progress_def by blast
  qed
  moreover have "\<not> edge_in (bt b) i e j" if "reach tbl (at_edge s e) = {}" for e j
  proof -
    have "\<forall>ps. (e, ps) \<in> set (group_positions s) \<longrightarrow> reach tbl ps = {}"
      using that group_positions_values by blast
    with P show ?thesis unfolding progress_def by blast
  qed
  ultimately show ?thesis by (simp add: complete_def at)
qed

lemma complete_later:
  assumes "complete tbl endp tt \<nu> n k" "\<And>e j. edge_in tt' k e j = edge_in tt k e j" "n \<le> n'" "\<nu>' k = \<nu> k"
    and "\<And>j. j < n \<Longrightarrow> \<nu>' j = \<nu> j \<and> is_accepting tt' j = is_accepting tt j \<and> memos tt' j = memos tt j"
  shows "complete tbl endp tt' \<nu>' n' k"
  unfolding complete_def assms(2,4)
proof
  fix e
  show "if reach tbl (at_edge (\<nu> k) e) = {} then \<forall>j. \<not> edge_in tt k e j
    else \<exists>j<n'. (\<forall>i. edge_in tt k e i \<longleftrightarrow> i = j) \<and> arrow tbl endp tt' \<nu>' (at_edge (\<nu> k) e) j"
  proof (cases "reach tbl (at_edge (\<nu> k) e) = {}")
    case True
    with assms(1) show ?thesis by (simp add: complete_def)
  next
    case False
    with assms(1) obtain j where j: "j < n" "\<forall>i. edge_in tt k e i \<longleftrightarrow> i = j" "arrow tbl endp tt \<nu> (at_edge (\<nu> k) e) j"
      unfolding complete_def by meson
    then have "arrow tbl endp tt' \<nu>' (at_edge (\<nu> k) e) j" using assms(5) by (auto elim: arrow_cong)
    with False j assms(3) show ?thesis by (auto intro: exI [of _ j])
  qed
qed

lemma loop_inv_step:
  assumes ok: "table_ok tbl endp" and I: "loop_inv tbl endp \<nu> ((s, Some i) # q) n tt"
  defines "b \<equiv> build_state tbl endp (s, Some i) n tt"
  shows "\<exists>\<nu>'. (\<forall>j<n. \<nu>' j = \<nu> j \<and> is_accepting (bt b) j = is_accepting tt j) \<and> n \<le> next_id b \<and>
      loop_inv tbl endp \<nu>' (q @ fresh_arrays b) (next_id b) (bt b) \<and>
      (\<forall>(u, x)\<in>set (fresh_arrays b). u \<noteq> [] \<and> (\<forall>q\<in>set u. \<exists>p\<in>set s. q \<in> set (followpos tbl p)))"
proof -
  have i: "i < n" "\<And>e j. \<not> edge_in tt i e j" and blank: "blank tt n" and arr: "array_ok tbl endp s" and at: "\<nu> i = s"
    and dist: "distinct (pending q)" "i \<notin> set (pending q)"
    and old: "\<And>k. k < n \<Longrightarrow> k \<noteq> i \<Longrightarrow> k \<notin> set (pending q) \<Longrightarrow> complete tbl endp tt \<nu> n k"
    and pend: "\<And>k. k \<in> set (pending q) \<Longrightarrow> k < n \<and> (\<forall>e j. \<not> edge_in tt k e j)"
    and arrs: "\<And>s x. (s, x) \<in> set q \<Longrightarrow> array_ok tbl endp s \<and> (case x of None \<Rightarrow> set s \<subseteq> {endp} | Some i \<Rightarrow> \<nu> i = s)"
    using I by (auto simp: loop_inv_def)
  have alive: "follow_alive tbl ps" if "(e, ps) \<in> set (group_positions s)" for e ps
    using follow_alive_at [OF ok arr] group_positions_values [OF that] by simp
  have "\<exists>\<nu>'. (\<forall>j<n. \<nu>' j = \<nu> j) \<and> progress tbl endp i n tt (group_positions s) b \<nu>'"
    unfolding b_def build_state_def fst_conv snd_conv
    by (rule progress_all [OF blank i(2,1) conjunct1 [OF group_positions_keys]]) (rule alive)
  then obtain \<nu>' where \<nu>': "\<forall>j<n. \<nu>' j = \<nu> j" and P: "progress tbl endp i n tt (group_positions s) b \<nu>'"
    by blast
  have nb: "n \<le> next_id b" and blank': "blank (bt b) (next_id b)"
    and other: "\<And>k e j. k \<noteq> i \<Longrightarrow> k < n \<Longrightarrow> edge_in (bt b) k e j = edge_in tt k e j"
    and late: "\<And>k e j. n \<le> k \<Longrightarrow> \<not> edge_in (bt b) k e j"
    and same: "\<And>j. j < n \<Longrightarrow> is_accepting (bt b) j = is_accepting tt j \<and> memos (bt b) j = memos tt j"
    and fresh: "\<And>u x. (u, x) \<in> set (fresh_arrays b) \<Longrightarrow>
       (\<exists>e ps. (e, ps) \<in> set (group_positions s) \<and> set u = reach tbl ps \<and> u \<noteq> []) \<and>
       (case x of None \<Rightarrow> set u \<subseteq> {endp} | Some j \<Rightarrow> n \<le> j \<and> j < next_id b \<and> \<nu>' j = u)"
    and queued: "\<And>j. n \<le> j \<Longrightarrow> j < next_id b \<Longrightarrow> (\<nu>' j, Some j) \<in> set (fresh_arrays b) \<or> set (\<nu>' j) \<subseteq> {endp}"
    and distf: "distinct (pending (fresh_arrays b))"
    using P unfolding progress_def pending_def by blast+
  have from_s: "u \<noteq> [] \<and> (\<forall>q\<in>set u. \<exists>p\<in>set s. q \<in> set (followpos tbl p))" "array_ok tbl endp u"
    if "(u, x) \<in> set (fresh_arrays b)" for u x
  proof -
    from fresh [OF that] obtain e ps where ps: "(e, ps) \<in> set (group_positions s)" "set u = reach tbl ps" "u \<noteq> []" by blast
    then show "array_ok tbl endp u" using reach_ok [OF ok] by blast
    have "set ps \<subseteq> set s" using group_positions_values [OF ps(1)] by (auto simp: at_edge_def)
    then show "u \<noteq> [] \<and> (\<forall>q\<in>set u. \<exists>p\<in>set s. q \<in> set (followpos tbl p))"
      using ps by (auto simp: reach_def)
  qed
  have pf: "n \<le> j \<and> j < next_id b" if "j \<in> set (pending (fresh_arrays b))" for j
    using that fresh unfolding in_pending by fastforce
  have "loop_inv tbl endp \<nu>' (q @ fresh_arrays b) (next_id b) (bt b)"
    unfolding loop_inv_def
  proof (intro conjI allI impI ballI)
    show "blank (bt b) (next_id b)" by (rule blank')
    have "set (pending q) \<inter> set (pending (fresh_arrays b)) = {}" using pf pend by fastforce
    then show "distinct (pending (q @ fresh_arrays b))" using dist distf by simp
  next
    fix k assume k: "k < next_id b" "k \<notin> set (pending (q @ fresh_arrays b))"
    show "complete tbl endp (bt b) \<nu>' (next_id b) k"
    proof (cases "k < n")
      case True
      show ?thesis
      proof (cases "k = i")
        case True
        then show ?thesis using complete_progress [OF ok i(1) _ P] \<nu>' i at by simp
      next
        case False
        with True old k have "complete tbl endp tt \<nu> n k" by simp
        then show ?thesis
        proof (rule complete_later)
          show "edge_in (bt b) k e j = edge_in tt k e j" for e j by (rule other [OF \<open>k \<noteq> i\<close> \<open>k < n\<close>])
          show "\<nu>' j = \<nu> j \<and> is_accepting (bt b) j = is_accepting tt j \<and> memos (bt b) j = memos tt j"
            if "j < n" for j using \<nu>' same [OF that] that by blast
        qed (use nb \<nu>' \<open>k < n\<close> in blast)+
      qed
    next
      case False
      with k queued [of k] have "set (\<nu>' k) \<subseteq> {endp}" by (auto simp: in_pending)
      then show ?thesis using late [of k] False by (simp add: complete_def reach_end [OF ok])
    qed
  next
    fix k assume k: "k \<in> set (pending (q @ fresh_arrays b))"
    then have "k < n \<and> k \<noteq> i \<or> n \<le> k \<and> k < next_id b" using pend pf dist by auto
    then show "k < next_id b" using nb by auto
    fix e j
    from k consider "k \<in> set (pending q)" | "k \<in> set (pending (fresh_arrays b))" by auto
    then show "\<not> edge_in (bt b) k e j"
    proof cases
      case 1
      then have "k \<noteq> i" using dist(2) by blast
      with 1 show ?thesis using pend [OF 1] other by simp
    qed (use pf late in blast)
  next
    fix u x assume "(u, x) \<in> set (q @ fresh_arrays b)"
    then consider "(u, x) \<in> set q" | "(u, x) \<in> set (fresh_arrays b)" by auto
    note cs = this
    show "array_ok tbl endp u" by (rule cs) (use arrs from_s(2) in blast)+
    show "case x of None \<Rightarrow> set u \<subseteq> {endp} | Some i \<Rightarrow> \<nu>' i = u"
    proof (rule cs)
      assume *: "(u, x) \<in> set q"
      then have "k < n" if "x = Some k" for k using that pend unfolding in_pending by blast
      with arrs [OF *] \<nu>' show ?thesis by (cases x) auto
    next
      assume "(u, x) \<in> set (fresh_arrays b)"
      from conjunct2 [OF fresh [OF this]] show ?thesis by (cases x) auto
    qed
  qed
  with \<nu>' same nb from_s(1) show ?thesis by blast
qed

lemma loop_inv_skip:
  assumes ok: "table_ok tbl endp" and I: "loop_inv tbl endp \<nu> ((s, None) # q) n tt"
  shows "build_state tbl endp (s, None) n tt = \<lparr>bt = tt, next_id = n, own_id = None, fresh_arrays = []\<rparr>"
    and "loop_inv tbl endp \<nu> q n tt"
proof -
  have "set s \<subseteq> {endp}" using I by (auto simp: loop_inv_def)
  then have "reach tbl ps = {}" if "(e, ps) \<in> set (group_positions s)" for e ps
    using reach_end [OF ok] group_positions_values [OF that] by simp
  then have "fold (build_group tbl endp) gs b = b" if "set gs \<subseteq> set (group_positions s)" for gs b
    using that by (induction gs) (auto simp: build_group_dead)
  then show "build_state tbl endp (s, None) n tt = \<lparr>bt = tt, next_id = n, own_id = None, fresh_arrays = []\<rparr>"
    by (simp add: build_state_def)
  show "loop_inv tbl endp \<nu> q n tt" using I by (simp add: loop_inv_def)
qed

text \<open>The rank of an array: how far its earliest position is from the end.\<close>

definition rank :: "position \<Rightarrow> position list \<Rightarrow> nat" where
  "rank endp s = Max (insert 0 ((\<lambda>p. Suc (fst endp) - fst p) ` set s))"

lemma rank_follow:
  assumes "table_ok tbl endp" "u \<noteq> []" "\<And>q. q \<in> set u \<Longrightarrow> \<exists>p\<in>set s. q \<in> set (followpos tbl p)"
  shows "rank endp u < rank endp s"
proof -
  let ?d = "\<lambda>p. Suc (fst endp) - fst p :: nat"
  have less: "?d q < rank endp s" if "q \<in> set u" for q
  proof -
    from assms(3) [OF that] obtain p where "p \<in> set s" "q \<in> set (followpos tbl p)" by blast
    then have "fst p < fst q" "fst q \<le> fst endp" using assms(1) unfolding table_ok_def by blast+
    moreover have "?d p \<le> rank endp s" using \<open>p \<in> set s\<close> by (simp add: rank_def)
    ultimately show ?thesis by linarith
  qed
  moreover have "0 < rank endp s" using less [OF hd_in_set [OF assms(2)]] by linarith
  ultimately show ?thesis unfolding rank_def [of endp u] by (subst Max_less_iff) auto
qed

definition load :: "position \<Rightarrow> (position list \<times> nat option) list \<Rightarrow> nat multiset" where
  "load endp q = mset (map (rank endp \<circ> fst) q)"

lemma load_shrinks:
  assumes "\<And>u x. (u, x) \<in> set f \<Longrightarrow> rank endp u < rank endp s"
  shows "(load endp (q @ f), load endp ((s, x) # q)) \<in> mult less_than"
proof -
  have "(load endp q + load endp f, load endp q + {#rank endp s#}) \<in> mult less_than"
    by (rule one_step_implies_mult) (auto simp: load_def assms)
  then show ?thesis by (simp add: load_def)
qed

text \<open>The default expression is kept apart from the others.\<close>

definition no_default :: "table \<Rightarrow> bool" where
  "no_default tt \<longleftrightarrow> (\<forall>i j. (DefaultExp, j) \<notin> set (regs tt i))"

lemma regs_others [simp]:
  "regs (add_accepting s tt) = regs tt" "regs (add_memo s m tt) = regs tt"
  "regs (fold (\<lambda>p. add_memo j (f p)) ps tt) = regs tt"
  by (simp_all add: add_accepting_def add_memo_def) (induction ps arbitrary: tt; simp add: add_memo_def)

lemma no_default_set_edge: "no_default tt \<Longrightarrow> no_default (set_edge from to e tt)"
  by (auto simp: no_default_def set_edge_def split: edge.splits)

lemma no_default_group: "no_default (bt b) \<Longrightarrow> no_default (bt (build_group tbl endp g b))"
  using no_default_set_edge unfolding build_group_def no_default_def
  by (auto simp: Let_def split: prod.splits option.splits)

lemma no_default_state: "no_default tt \<Longrightarrow> no_default (bt (build_state tbl endp s n tt))"
proof -
  have "no_default (bt b) \<Longrightarrow> no_default (bt (fold (build_group tbl endp) gs b))" for gs b
    by (induction gs arbitrary: b) (simp_all add: no_default_group)
  then show "no_default tt \<Longrightarrow> ?thesis" by (simp add: build_state_def)
qed

definition built ::
  "follow_table \<Rightarrow> position \<Rightarrow> nat \<Rightarrow> (nat \<Rightarrow> position list) \<Rightarrow> table \<Rightarrow> table \<Rightarrow> bool" where
  "built tbl endp n \<nu> tt tt' \<longleftrightarrow> (\<exists>\<nu>' n'. n \<le> n' \<and> (\<forall>i<n. \<nu>' i = \<nu> i \<and> is_accepting tt' i = is_accepting tt i) \<and>
     (\<forall>i<n'. complete tbl endp tt' \<nu>' n' i)) \<and> (no_default tt \<longrightarrow> no_default tt')"

lemma build_loop_Nil: "build_loop tbl endp [] n tt = Some tt"
  by (subst build_loop.simps) simp

lemma build_loop_Cons:
  "build_loop tbl endp (s # q) n tt =
    (let b = build_state tbl endp s n tt in build_loop tbl endp (q @ fresh_arrays b) (next_id b) (bt b))"
  by (subst build_loop.simps) simp

lemma loop_ends:
  assumes ok: "table_ok tbl endp"
  shows "loop_inv tbl endp \<nu> q n tt \<Longrightarrow> \<exists>tt'. build_loop tbl endp q n tt = Some tt' \<and> built tbl endp n \<nu> tt tt'"
proof (induction "load endp q" arbitrary: q n tt \<nu> rule: wf_induct_rule [OF wf_mult [OF wf_less_than]])
  case (1 q n tt \<nu>)
  show ?case
  proof (cases q)
    case Nil
    with 1(2) have "built tbl endp n \<nu> tt tt" by (auto simp: built_def loop_inv_def)
    with Nil show ?thesis by (simp add: build_loop_Nil)
  next
    case (Cons sx q')
    obtain s x where sx: "sx = (s, x)" by (cases sx)
    show ?thesis
    proof (cases x)
      case None
      from 1(2) have I: "loop_inv tbl endp \<nu> ((s, None) # q') n tt" by (simp add: Cons sx None)
      note skip = loop_inv_skip [OF ok I]
      have "(load endp (q' @ []), load endp q) \<in> mult less_than"
        unfolding Cons sx by (rule load_shrinks) simp
      from 1(1) [OF this, unfolded append_Nil2, OF skip(2)] show ?thesis
        by (simp add: build_loop_Cons Cons sx None skip(1) Let_def)
    next
      case (Some i)
      let ?b = "build_state tbl endp (s, Some i) n tt"
      from 1(2) have "loop_inv tbl endp \<nu> ((s, Some i) # q') n tt" by (simp add: Cons sx Some)
      from loop_inv_step [OF ok this] obtain \<nu>' where
        old: "\<forall>j<n. \<nu>' j = \<nu> j \<and> is_accepting (bt ?b) j = is_accepting tt j" "n \<le> next_id ?b"
        and I: "loop_inv tbl endp \<nu>' (q' @ fresh_arrays ?b) (next_id ?b) (bt ?b)"
        and new: "\<forall>(u, x)\<in>set (fresh_arrays ?b). u \<noteq> [] \<and> (\<forall>q\<in>set u. \<exists>p\<in>set s. q \<in> set (followpos tbl p))"
        by blast
      have "rank endp u < rank endp s" if "(u, x) \<in> set (fresh_arrays ?b)" for u x
        using bspec [OF new that] by (intro rank_follow [OF ok]) auto
      then have "(load endp (q' @ fresh_arrays ?b), load endp q) \<in> mult less_than"
        unfolding Cons sx by (rule load_shrinks)
      from 1(1) [OF this I] obtain tt' where tt': "build_loop tbl endp (q' @ fresh_arrays ?b) (next_id ?b) (bt ?b) = Some tt'"
        "built tbl endp (next_id ?b) \<nu>' (bt ?b) tt'" by blast
      from tt'(2) obtain \<mu> m where m: "next_id ?b \<le> m"
        "\<forall>i<next_id ?b. \<mu> i = \<nu>' i \<and> is_accepting tt' i = is_accepting (bt ?b) i"
        "\<forall>i<m. complete tbl endp tt' \<mu> m i" "no_default (bt ?b) \<longrightarrow> no_default tt'" unfolding built_def by blast
      have "n \<le> m" "\<forall>i<n. \<mu> i = \<nu> i \<and> is_accepting tt' i = is_accepting tt i"
        using m(1,2) old by simp_all
      with m(3,4) no_default_state have "built tbl endp n \<nu> tt tt'" unfolding built_def by blast
      with tt'(1) show ?thesis by (simp add: build_loop_Cons Cons sx Some Let_def)
    qed
  qed
qed

section \<open>The first array\<close>

text \<open>The first array gets number 0 at its first transition, as if it had been given it before.\<close>

lemma fold_first_number:
  "fold (build_group tbl endp) gs \<lparr>bt = tt, next_id = 0, own_id = None, fresh_arrays = []\<rparr> =
    (if \<forall>(e, ps)\<in>set gs. reach tbl ps = {} then \<lparr>bt = tt, next_id = 0, own_id = None, fresh_arrays = []\<rparr>
     else fold (build_group tbl endp) gs \<lparr>bt = tt, next_id = 1, own_id = Some 0, fresh_arrays = []\<rparr>)"
proof (induction gs)
  case (Cons g gs)
  obtain e ps where g: "g = (e, ps)" by (cases g)
  show ?case
  proof (cases "reach tbl ps = {}")
    case True
    with Cons g show ?thesis by (simp add: build_group_dead)
  next
    case False
    then have "uniq_from [] (concat (map (followpos tbl) ps)) \<noteq> []" by (simp add: targets_Nil)
    then have "build_group tbl endp g \<lparr>bt = tt, next_id = 0, own_id = None, fresh_arrays = []\<rparr> =
      build_group tbl endp g \<lparr>bt = tt, next_id = 1, own_id = Some 0, fresh_arrays = []\<rparr>"
      by (simp add: build_group_def g Let_def)
    with False g show ?thesis by simp
  qed
qed simp

lemma blank_empty: "blank empty_table n" "\<not> edge_in empty_table i e j"
  by (simp_all add: blank_def empty_table_def is_accepting_def edge_in_def split: edge.splits)

lemma table_built:
  assumes ok: "table_ok tbl endp" "array_ok tbl endp s"
  shows "\<exists>tt \<nu> n. build_loop tbl endp [(s, None)] 0 empty_table = Some tt \<and> 0 < n \<and> \<nu> 0 = s \<and>
    \<not> is_accepting tt 0 \<and> no_default tt \<and> (\<forall>i<n. complete tbl endp tt \<nu> n i)"
proof (cases "\<forall>(e, ps)\<in>set (group_positions s). reach tbl ps = {}")
  case True
  then have "build_loop tbl endp [(s, None)] 0 empty_table = Some empty_table"
    by (simp add: build_loop_Cons build_loop_Nil build_state_def fold_first_number Let_def)
  moreover have "reach tbl (at_edge s e) = {}" for e
  proof (rule ccontr)
    assume "reach tbl (at_edge s e) \<noteq> {}"
    then obtain p where "p \<in> set s" "edge_of p = e" by (auto simp: reach_def at_edge_def)
    then have "(e, at_edge s e) \<in> set (group_positions s)" using group_positions_has by blast
    with True \<open>reach tbl (at_edge s e) \<noteq> {}\<close> show False by blast
  qed
  then have "\<forall>i<1. complete tbl endp empty_table (\<lambda>_. s) 1 i" by (simp add: complete_def blank_empty)
  ultimately show ?thesis
    by (intro exI [of _ empty_table] exI [of _ "\<lambda>_. s"] exI [of _ 1])
      (simp add: empty_table_def is_accepting_def no_default_def)
next
  case False
  then have "build_state tbl endp (s, None) 0 empty_table = build_state tbl endp (s, Some 0) 1 empty_table"
    by (simp only: build_state_def fst_conv snd_conv fold_first_number if_False)
  then have eq: "build_loop tbl endp [(s, None)] 0 empty_table = build_loop tbl endp [(s, Some 0)] 1 empty_table"
    by (simp add: build_loop_Cons)
  have "loop_inv tbl endp (\<lambda>_. s) [(s, Some 0)] 1 empty_table"
    using ok(2) by (simp add: loop_inv_def blank_empty)
  from loop_ends [OF ok(1) this] obtain tt where tt: "build_loop tbl endp [(s, Some 0)] 1 empty_table = Some tt"
    "built tbl endp 1 (\<lambda>_. s) empty_table tt" by blast
  from tt(2) obtain \<nu> n where n: "1 \<le> n" "\<forall>i<1. \<nu> i = s \<and> is_accepting tt i = is_accepting empty_table i"
    "\<forall>i<n. complete tbl endp tt \<nu> n i" "no_default empty_table \<longrightarrow> no_default tt" unfolding built_def by blast
  then have "\<nu> 0 = s" "\<not> is_accepting tt 0" "0 < n" by (simp_all add: empty_table_def is_accepting_def)
  moreover have "no_default empty_table" by (simp add: no_default_def empty_table_def)
  ultimately show ?thesis using n(3,4) tt(1) eq by metis
qed

end
