(* ===== verification/Journey_Match.thy ===== *)
theory Journey_Match
  imports Journey_Table
begin

text \<open>
  The simulator against what a route pattern means.

  \<open>consumes en w ts\<close> says that the terminals \<open>w\<close> read the tokens \<open>ts\<close> one after the other: a text reads
  one equal token, a default parameter one token, and any other expression one token or more that it
  accepts when written together. The automaton built from a pattern delivers exactly the memos of the
  last terminals of the expansions that read the path.
\<close>

section \<open>What a terminal reads\<close>

definition edge_reads :: "engine \<Rightarrow> edge \<Rightarrow> string list \<Rightarrow> bool" where
  "edge_reads en e c = (case e of
     Text l \<Rightarrow> c = [l]
   | Rx r \<Rightarrow> (if r = DefaultExp then length c = 1 else c \<noteq> []) \<and> rx_test en r (concat c))"

definition leaf_edge :: "node \<Rightarrow> edge" where
  "leaf_edge n = edge_of (0, n)"

fun consumes :: "engine \<Rightarrow> node list \<Rightarrow> string list \<Rightarrow> bool" where
  "consumes en [] ts = (ts = [])"
| "consumes en (n # ns) ts =
     list_ex (\<lambda>k. edge_reads en (leaf_edge n) (take k ts) \<and> consumes en ns (drop k ts)) [0..<Suc (length ts)]"

lemma edge_of_leaf: "edge_of p = leaf_edge (snd p)"
  by (simp add: edge_of_def leaf_edge_def)

lemma edge_reads_nonempty: "edge_reads en e c \<Longrightarrow> c \<noteq> []"
  by (auto simp: edge_reads_def split: edge.splits if_splits)

lemma consumes_Cons:
  "consumes en (n # ns) ts \<longleftrightarrow> (\<exists>c us. ts = c @ us \<and> edge_reads en (leaf_edge n) c \<and> consumes en ns us)"
proof
  assume "consumes en (n # ns) ts"
  then obtain k where "edge_reads en (leaf_edge n) (take k ts)" "consumes en ns (drop k ts)"
    unfolding consumes.simps list_ex_iff by blast
  then show "\<exists>c us. ts = c @ us \<and> edge_reads en (leaf_edge n) c \<and> consumes en ns us"
    by (metis append_take_drop_id)
next
  assume "\<exists>c us. ts = c @ us \<and> edge_reads en (leaf_edge n) c \<and> consumes en ns us"
  then obtain c us where "ts = c @ us" "edge_reads en (leaf_edge n) c" "consumes en ns us" by blast
  then show "consumes en (n # ns) ts" by (auto simp: list_ex_iff intro!: bexI [of _ "length c"])
qed

declare consumes.simps(2) [simp del]

lemma consumes_snoc:
  "consumes en (ns @ [n]) ts \<longleftrightarrow> (\<exists>us c. ts = us @ c \<and> consumes en ns us \<and> edge_reads en (leaf_edge n) c)"
proof (induction ns arbitrary: ts)
  case Nil
  then show ?case by (simp add: consumes_Cons)
next
  case (Cons m ns)
  show ?case by (simp add: consumes_Cons Cons) (metis append.assoc)
qed

section \<open>Runs of the table\<close>

inductive arrives :: "engine \<Rightarrow> table \<Rightarrow> string list \<Rightarrow> nat \<Rightarrow> bool" for en tt where
  start: "arrives en tt [] 0"
| step: "arrives en tt ts i \<Longrightarrow> edge_in tt i e j \<Longrightarrow> edge_reads en e c \<Longrightarrow> arrives en tt (ts @ c) j"

inductive_cases arrivesE: "arrives en tt ts j"

text \<open>What the simulator holds after the tokens \<open>ts\<close>: the states arrived at, and for every state with
  expressions that was arrived at before, where it was.\<close>

definition config_ok :: "engine \<Rightarrow> table \<Rightarrow> string list \<Rightarrow> gtg_state \<Rightarrow> bool" where
  "config_ok en tt ts st \<longleftrightarrow>
     (\<forall>j. (j, None) \<in> set st \<longleftrightarrow> arrives en tt ts j) \<and>
     (\<forall>j k. (j, Some k) \<in> set st \<longleftrightarrow> regs tt j \<noteq> [] \<and>
       (\<exists>us c. ts = us @ c \<and> c \<noteq> [] \<and> arrives en tt us j \<and> k = length (concat us)))"

lemma arrives_Nil: "arrives en tt [] j \<longleftrightarrow> j = 0"
  by (auto elim: arrivesE intro: arrives.start dest: edge_reads_nonempty)

lemma arrives_snoc:
  "arrives en tt (ts @ [t]) j \<longleftrightarrow>
    (\<exists>us c i e. ts = us @ c \<and> arrives en tt us i \<and> edge_in tt i e j \<and> edge_reads en e (c @ [t]))"
proof
  assume "arrives en tt (ts @ [t]) j"
  then obtain us c i e where "ts @ [t] = us @ c" "arrives en tt us i" "edge_in tt i e j" "edge_reads en e c"
    by (auto elim: arrivesE)
  moreover from this(4) have "c \<noteq> []" by (rule edge_reads_nonempty)
  ultimately show "\<exists>us c i e. ts = us @ c \<and> arrives en tt us i \<and> edge_in tt i e j \<and> edge_reads en e (c @ [t])"
    by (cases c rule: rev_cases) auto
next
  assume "\<exists>us c i e. ts = us @ c \<and> arrives en tt us i \<and> edge_in tt i e j \<and> edge_reads en e (c @ [t])"
  then show "arrives en tt (ts @ [t]) j" using arrives.step by fastforce
qed

lemma slice_concat:
  "slice (concat (us @ c @ vs)) (length (concat us)) (length (concat (us @ c))) = concat c"
  by (simp add: slice_def)

lemma in_some_list: "x \<in> set (case m of Some v \<Rightarrow> [(v, None)] | None \<Rightarrow> []) \<longleftrightarrow> (\<exists>v. m = Some v \<and> x = (v, None))"
  by (cases m) auto

lemma in_regs_list:
  "x \<in> set (map (\<lambda>(r, v). (v, None)) (filter (\<lambda>(r, v). P r) rs)) \<longleftrightarrow> (\<exists>r v. (r, v) \<in> set rs \<and> P r \<and> x = (v, None))"
  by (induction rs) auto

lemma in_if: "x \<in> set (if b then xs else []) \<longleftrightarrow> b \<and> x \<in> set xs"
  by simp

lemma in_move_one:
  "x \<in> set (move_one en tt full i j (s, prev)) \<longleftrightarrow>
    (prev = None \<and> ((rx_test en DefaultExp (slice full i j) \<and> (\<exists>v. stds tt s = Some v \<and> x = (v, None))) \<or>
      (\<exists>v. strs tt s (slice full i j) = Some v \<and> x = (v, None)))) \<or>
    (regs tt s \<noteq> [] \<and> (let k = (case prev of Some k \<Rightarrow> k | None \<Rightarrow> i) in
      (\<exists>r v. (r, v) \<in> set (regs tt s) \<and> rx_test en r (slice full k j) \<and> x = (v, None)) \<or> x = (s, Some k)))"
  unfolding move_one_def split_conv Let_def set_append Un_iff in_if in_some_list in_regs_list list.set
    insert_iff empty_iff by blast

lemma in_move_one_None:
  "(v, None) \<in> set (move_one en tt full i j (s, prev)) \<longleftrightarrow>
    prev = None \<and> rx_test en DefaultExp (slice full i j) \<and> stds tt s = Some v \<or>
    prev = None \<and> strs tt s (slice full i j) = Some v \<or>
    (\<exists>r. (r, v) \<in> set (regs tt s) \<and> rx_test en r (slice full (case prev of Some k \<Rightarrow> k | None \<Rightarrow> i) j))"
  unfolding in_move_one Let_def prod.inject by (metis empty_iff list.set(1) option.distinct(1))

lemma in_move_one_Some:
  "(v, Some k) \<in> set (move_one en tt full i j (s, prev)) \<longleftrightarrow>
    v = s \<and> regs tt s \<noteq> [] \<and> k = (case prev of Some k \<Rightarrow> k | None \<Rightarrow> i)"
  unfolding in_move_one Let_def prod.inject by (metis option.distinct(1) option.inject)

lemma in_move: "x \<in> set (move en tt st full i j) \<longleftrightarrow> (\<exists>c\<in>set st. x \<in> set (move_one en tt full i j c))"
  by (auto simp: move_def)

section \<open>The simulator runs the table\<close>

lemma move_arrives:
  assumes nd: "no_default tt" and C: "config_ok en tt ts st"
    and full: "full = concat (ts @ t # vs)"
  shows "(v, None) \<in> set (move en tt st full (length (concat ts)) (length (concat ts) + length t)) \<longleftrightarrow>
    arrives en tt (ts @ [t]) v"
proof -
  let ?i = "length (concat ts)" and ?j = "length (concat ts) + length t"
  have here: "slice full ?i ?j = t" using slice_concat [of ts "[t]" vs] by (simp add: full)
  have behind: "slice full (length (concat us)) ?j = concat (c @ [t])" if "ts = us @ c" for us c
    using slice_concat [of us "c @ [t]" vs] by (simp add: full that add.assoc)
  have now: "(s, None) \<in> set st \<longleftrightarrow> arrives en tt ts s" for s using C by (simp add: config_ok_def)
  have was: "(s, Some k) \<in> set st \<longleftrightarrow> regs tt s \<noteq> [] \<and>
      (\<exists>us c. ts = us @ c \<and> c \<noteq> [] \<and> arrives en tt us s \<and> k = length (concat us))" for s k
    using C by (simp add: config_ok_def)
  have nd': "(r, v) \<in> set (regs tt s) \<Longrightarrow> r \<noteq> DefaultExp" for r s v using nd by (auto simp: no_default_def)
  show ?thesis
  proof
    assume "(v, None) \<in> set (move en tt st full ?i ?j)"
    then obtain s prev where m: "(s, prev) \<in> set st" "(v, None) \<in> set (move_one en tt full ?i ?j (s, prev))"
      by (auto simp: in_move)
    from m(2) [unfolded in_move_one_None here] consider
        (std) "prev = None" "rx_test en DefaultExp t" "stds tt s = Some v"
      | (str) "prev = None" "strs tt s t = Some v"
      | (reg) r where "(r, v) \<in> set (regs tt s)"
          "rx_test en r (slice full (case prev of Some k \<Rightarrow> k | None \<Rightarrow> ?i) ?j)" by blast
    then have "\<exists>us c e. ts = us @ c \<and> arrives en tt us s \<and> edge_in tt s e v \<and> edge_reads en e (c @ [t])"
    proof cases
      case std
      with m now show ?thesis
        by (intro exI [of _ ts] exI [of _ "[]"] exI [of _ "Rx DefaultExp"]) (simp add: edge_in_def edge_reads_def)
    next
      case str
      with m now show ?thesis
        by (intro exI [of _ ts] exI [of _ "[]"] exI [of _ "Text t"]) (simp add: edge_in_def edge_reads_def)
    next
      case reg
      show ?thesis
      proof (cases prev)
        case None
        with m now reg nd' [OF reg(1)] here show ?thesis
          by (intro exI [of _ ts] exI [of _ "[]"] exI [of _ "Rx r"]) (simp add: edge_in_def edge_reads_def)
      next
        case (Some k)
        with m was obtain us c where uc: "ts = us @ c" "arrives en tt us s" "k = length (concat us)" by blast
        with Some reg nd' [OF reg(1)] behind [OF uc(1)] show ?thesis
          by (intro exI [of _ us] exI [of _ c] exI [of _ "Rx r"]) (simp add: edge_in_def edge_reads_def)
      qed
    qed
    then show "arrives en tt (ts @ [t]) v" unfolding arrives_snoc by blast
  next
    assume "arrives en tt (ts @ [t]) v"
    then obtain us c i e where uc: "ts = us @ c" "arrives en tt us i" "edge_in tt i e v" "edge_reads en e (c @ [t])"
      unfolding arrives_snoc by blast
    have "\<exists>prev. (i, prev) \<in> set st \<and> (v, None) \<in> set (move_one en tt full ?i ?j (i, prev))"
    proof (cases "c = []")
      case True
      with uc now have st: "(i, None) \<in> set st" by simp
      moreover have "(v, None) \<in> set (move_one en tt full ?i ?j (i, None))"
        using uc(3,4) True unfolding in_move_one_None here
        by (auto simp: edge_in_def edge_reads_def here split: edge.splits if_splits)
      ultimately show ?thesis by blast
    next
      case False
      with uc(3,4) obtain r where r: "e = Rx r" "(r, v) \<in> set (regs tt i)" "rx_test en r (concat (c @ [t]))"
        by (auto simp: edge_in_def edge_reads_def split: edge.splits if_splits)
      then have "regs tt i \<noteq> []" by auto
      with was uc(1,2) False have "(i, Some (length (concat us))) \<in> set st" by blast
      moreover have "(v, None) \<in> set (move_one en tt full ?i ?j (i, Some (length (concat us))))"
        using r(2,3) behind [OF uc(1)] unfolding in_move_one_None option.case by metis
      ultimately show ?thesis by blast
    qed
    then show "(v, None) \<in> set (move en tt st full ?i ?j)" by (auto simp: in_move)
  qed
qed

lemma move_waits:
  assumes C: "config_ok en tt ts st"
  shows "(v, Some k) \<in> set (move en tt st full (length (concat ts)) j) \<longleftrightarrow> regs tt v \<noteq> [] \<and>
    (\<exists>us c. ts @ [t] = us @ c \<and> c \<noteq> [] \<and> arrives en tt us v \<and> k = length (concat us))"
proof -
  have "(v, Some k) \<in> set (move en tt st full (length (concat ts)) j) \<longleftrightarrow> regs tt v \<noteq> [] \<and>
      ((v, None) \<in> set st \<and> k = length (concat ts) \<or> (v, Some k) \<in> set st)"
    unfolding in_move by (force simp: in_move_one_Some split: option.splits)
  also have "\<dots> \<longleftrightarrow> regs tt v \<noteq> [] \<and> (arrives en tt ts v \<and> k = length (concat ts) \<or>
      (\<exists>us c. ts = us @ c \<and> c \<noteq> [] \<and> arrives en tt us v \<and> k = length (concat us)))"
    using C unfolding config_ok_def by blast
  also have "(arrives en tt ts v \<and> k = length (concat ts) \<or>
      (\<exists>us c. ts = us @ c \<and> c \<noteq> [] \<and> arrives en tt us v \<and> k = length (concat us))) \<longleftrightarrow>
      (\<exists>us c. ts @ [t] = us @ c \<and> c \<noteq> [] \<and> arrives en tt us v \<and> k = length (concat us))" (is "?l \<longleftrightarrow> ?r")
  proof
    assume ?l
    then show ?r by (metis append.assoc append_is_Nil_conv not_Cons_self2)
  next
    assume ?r
    then obtain us c where uc: "ts @ [t] = us @ c" "c \<noteq> []" "arrives en tt us v" "k = length (concat us)" by blast
    from uc(2) obtain c' x where "c = c' @ [x]" by (cases c rule: rev_cases) auto
    with uc have "ts = us @ c'" by simp
    with uc(3,4) show ?l by (cases "c' = []") auto
  qed
  finally show ?thesis .
qed

lemma simulate_ok:
  assumes nd: "no_default tt" and full: "full = concat (us @ ts)" and C: "config_ok en tt us st"
  shows "config_ok en tt (us @ ts) (simulate en tt full (length (concat us)) ts st)"
  using full C
proof (induction ts arbitrary: us st)
  case (Cons t ts)
  let ?st = "move en tt st full (length (concat us)) (length (concat us) + length t)"
  have "config_ok en tt (us @ [t]) ?st"
    unfolding config_ok_def using move_arrives [OF nd Cons.prems(2,1)] move_waits [OF Cons.prems(2)] by blast
  from Cons.IH [OF _ this] Cons.prems(1) show ?case by simp
qed simp

section \<open>Runs of the table are paths of positions\<close>

definition followed :: "follow_table \<Rightarrow> position list \<Rightarrow> bool" where
  "followed tbl w \<longleftrightarrow> successively (\<lambda>p q. q \<in> set (followpos tbl p)) w"

definition run :: "engine \<Rightarrow> follow_table \<Rightarrow> position list \<Rightarrow> position list \<Rightarrow> string list \<Rightarrow> bool" where
  "run en tbl s w ts \<longleftrightarrow> (w \<noteq> [] \<longrightarrow> hd w \<in> set s) \<and> followed tbl w \<and> consumes en (map snd w) ts"

lemma run_Nil [simp]: "run en tbl s [] ts \<longleftrightarrow> ts = []"
  by (simp add: run_def followed_def)

lemma consumes_one: "consumes en [n] ts \<longleftrightarrow> edge_reads en (leaf_edge n) ts"
  by (simp add: consumes_Cons)

lemma run_snoc:
  "run en tbl s (w @ [p]) ts \<longleftrightarrow> (\<exists>us c. ts = us @ c \<and> run en tbl s w us \<and> edge_reads en (edge_of p) c) \<and>
    (if w = [] then p \<in> set s else p \<in> set (followpos tbl (last w)))"
  by (cases "w = []")
    (auto simp: run_def followed_def successively_append_iff consumes_snoc consumes_one edge_of_leaf)

lemma in_reach_at: "q \<in> reach tbl (at_edge s e) \<longleftrightarrow> (\<exists>p\<in>set s. edge_of p = e \<and> q \<in> set (followpos tbl p))"
  by (auto simp: reach_def at_edge_def)

lemma complete_edge:
  assumes "complete tbl endp tt \<nu> n i" "edge_in tt i e j"
  shows "j < n \<and> arrow tbl endp tt \<nu> (at_edge (\<nu> i) e) j"
  using assms unfolding complete_def by metis

lemma complete_arrow:
  assumes "complete tbl endp tt \<nu> n i" "reach tbl (at_edge (\<nu> i) e) \<noteq> {}"
  shows "\<exists>j. edge_in tt i e j \<and> arrow tbl endp tt \<nu> (at_edge (\<nu> i) e) j"
  using spec [OF assms(1) [unfolded complete_def], of e] assms(2) by auto

lemma arrives_bounded:
  assumes "arrives en tt ts j" "\<forall>i<n. complete tbl endp tt \<nu> n i" "0 < n"
  shows "j < n"
  using assms by (induction rule: arrives.induct) (auto dest: complete_edge)

lemma arrives_run:
  assumes "arrives en tt ts j" "\<forall>i<n. complete tbl endp tt \<nu> n i" "0 < n" "\<nu> 0 = s" "q \<in> set (\<nu> j)"
  shows "\<exists>w. run en tbl s w ts \<and> (if w = [] then q \<in> set s else q \<in> set (followpos tbl (last w)))"
  using assms(1,5)
proof (induction arbitrary: q rule: arrives.induct)
  case start
  then show ?case using assms(4) by (intro exI [of _ "[]"]) simp
next
  case (step ts i e j c)
  from complete_edge [OF _ step.hyps(2)] arrives_bounded [OF step.hyps(1) assms(2,3)] assms(2)
  have "arrow tbl endp tt \<nu> (at_edge (\<nu> i) e) j" by blast
  with step.prems obtain p where p: "p \<in> set (\<nu> i)" "edge_of p = e" "q \<in> set (followpos tbl p)"
    by (auto simp: arrow_def in_reach_at)
  from step.IH [OF p(1)] obtain w where "run en tbl s w ts"
    "if w = [] then p \<in> set s else p \<in> set (followpos tbl (last w))" by blast
  then have "run en tbl s (w @ [p]) (ts @ c)" using p(2) step.hyps(3) by (auto simp: run_snoc)
  then show ?case using p(3) by (intro exI [of _ "w @ [p]"]) simp
qed

lemma run_arrives:
  assumes "run en tbl s w ts" "w \<noteq> []" "followpos tbl (last w) \<noteq> []"
    and C: "\<forall>i<n. complete tbl endp tt \<nu> n i" and n: "0 < n" "\<nu> 0 = s"
    and alive: "\<And>p q. q \<in> set (followpos tbl p) \<Longrightarrow> followpos tbl p \<noteq> []"
  shows "\<exists>i j. arrives en tt ts j \<and> last w \<in> set (\<nu> i) \<and> arrow tbl endp tt \<nu> (at_edge (\<nu> i) (edge_of (last w))) j"
  using assms(1-3)
proof (induction w arbitrary: ts rule: rev_induct)
  case (snoc p w)
  then obtain us c where us: "ts = us @ c" "run en tbl s w us" "edge_reads en (edge_of p) c"
    and p: "if w = [] then p \<in> set s else p \<in> set (followpos tbl (last w))"
    by (auto simp: run_snoc)
  have "\<exists>i. arrives en tt us i \<and> p \<in> set (\<nu> i)"
  proof (cases "w = []")
    case True
    with us(2) p n(2) show ?thesis using arrives.start by fastforce
  next
    case False
    with p have "p \<in> set (followpos tbl (last w))" by simp
    with snoc.IH [OF us(2) False] obtain i j where "arrives en tt us j" "last w \<in> set (\<nu> i)"
      "arrow tbl endp tt \<nu> (at_edge (\<nu> i) (edge_of (last w))) j" by force
    moreover from this(3) \<open>p \<in> set (followpos tbl (last w))\<close> this(2) have "p \<in> set (\<nu> j)"
      by (auto simp: arrow_def in_reach_at)
    ultimately show ?thesis by blast
  qed
  then obtain i where i: "arrives en tt us i" "p \<in> set (\<nu> i)" by blast
  let ?ps = "at_edge (\<nu> i) (edge_of p)"
  from snoc.prems(3) obtain q where "q \<in> set (followpos tbl p)" by (metis last_in_set last_snoc)
  with i(2) have "q \<in> reach tbl ?ps" unfolding in_reach_at by blast
  then have "reach tbl ?ps \<noteq> {}" by blast
  with C arrives_bounded [OF i(1) C n(1)] obtain j where "edge_in tt i (edge_of p) j" "arrow tbl endp tt \<nu> ?ps j"
    using complete_arrow by blast
  with arrives.step [OF i(1) _ us(3)] i us(1) show ?case by (intro exI [of _ i] exI [of _ j]) auto
qed simp

section \<open>Proper patterns\<close>

text \<open>What the parser builds: a star is over one nonempty terminal, an alternative has branches, and
  no text is that of the end marker.\<close>

fun proper :: "node \<Rightarrow> bool" where
  "proper (Group n) = proper n"
| "proper (Star n r) = (proper n \<and> is_terminal n \<and> left_text n \<noteq> Some [])"
| "proper (Cat a b) = (proper a \<and> proper b)"
| "proper (Or ns) = (ns \<noteq> [] \<and> list_all proper ns)"
| "proper (Symbol l r m) = True"
| "proper n = (left_text n \<noteq> left_text end_node)"

lemma number_list_set: "t \<in> set (number_list i ns) \<Longrightarrow> \<exists>n\<in>set ns. \<exists>k. t = number k n"
  by (induction ns arbitrary: i) auto

lemma proper_starts: "proper n \<Longrightarrow> firstpos en (number i n) \<noteq> [] \<or> nullable en (number i n)"
proof (induction n arbitrary: i)
  case (Star n r)
  then have "is_terminal n" "left_text n \<noteq> Some []" by simp_all
  then have "firstpos en (number i n) \<noteq> []" by (cases n) (simp_all add: is_terminal_def)
  then show ?case by simp
next
  case (Cat a b)
  have "set (firstpos en (number i a)) \<noteq> {} \<or> nullable en (number i a)"
    "set (firstpos en (number (i + leaves a) b)) \<noteq> {} \<or> nullable en (number (i + leaves a) b)"
    using Cat by auto
  then have "set (firstpos en (number i (Cat a b))) \<noteq> {} \<or> nullable en (number i (Cat a b))"
    unfolding number.simps nullable.simps by (metis (no_types, lifting) all_not_in_conv in_firstpos_cat)
  then show ?case by auto
next
  case (Or ns)
  then obtain n ns' where ns: "ns = n # ns'" by (cases ns) auto
  with Or.prems have "proper n" by simp
  with Or.IH [of n i] ns have "set (firstpos en (number i n)) \<noteq> {} \<or> nullable en (number i n)" by simp
  moreover have "set (firstpos en (number i n)) \<subseteq> set (firstpos en (number i (Or ns)))"
    by (auto simp: ns uniq_from_set)
  ultimately show ?case by (auto simp: ns)
qed simp_all

lemma proper_goes_on:
  "proper n \<Longrightarrow> p \<in> positions (number i n) \<Longrightarrow> left_text (snd p) \<noteq> Some [] \<Longrightarrow>
    p \<in> set (lastpos en (number i n)) \<or> (\<exists>q. follows en (number i n) p q)"
proof (induction n arbitrary: i)
  case (Cat a b)
  from Cat.prems(2) consider "p \<in> positions (number i a)" | "p \<in> positions (number (i + leaves a) b)" by auto
  then show ?case
  proof cases
    case 1
    from Cat.prems(1) have "proper a" by simp
    from Cat.IH(1) [OF this 1 Cat.prems(3)]
    consider "p \<in> set (lastpos en (number i a))" | q where "follows en (number i a) p q" by blast
    then show ?thesis
    proof cases
      case last: 1
      from proper_starts [of b en "i + leaves a"] Cat.prems(1)
      consider q where "q \<in> set (firstpos en (number (i + leaves a) b))" | "nullable en (number (i + leaves a) b)"
        by (metis last_in_set proper.simps(3))
      then show ?thesis
        using last unfolding number.simps in_lastpos_cat follows_simps by cases blast+
    qed (auto simp: follows_simps)
  next
    case 2
    from Cat.prems(1) have "proper b" by simp
    from Cat.IH(2) [OF this 2 Cat.prems(3)]
    consider "p \<in> set (lastpos en (number (i + leaves a) b))" | q where "follows en (number (i + leaves a) b) p q"
      by blast
    then show ?thesis unfolding number.simps in_lastpos_cat follows_simps by cases blast+
  qed
next
  case (Or ns)
  then obtain t where t: "t \<in> set (number_list i ns)" "p \<in> positions t" by auto
  from number_list_set [OF t(1)] obtain n k where n: "n \<in> set ns" "t = number k n" by blast
  with Or t have "p \<in> set (lastpos en t) \<or> (\<exists>q. follows en t p q)" by (auto simp: list_all_iff)
  with t(1) show ?case by (auto simp: uniq_from_set follows_simps)
qed (auto simp: follows_simps)

lemma proper_edges: "proper n \<Longrightarrow> p \<in> positions (number i n) \<Longrightarrow> edge_of p \<noteq> edge_of (k, end_node)"
proof (induction n arbitrary: i)
  case (Or ns)
  then obtain t where t: "t \<in> set (number_list i ns)" "p \<in> positions t" by auto
  from number_list_set [OF t(1)] obtain n k' where "n \<in> set ns" "t = number k' n" by blast
  with Or t show ?case by (auto simp: list_all_iff)
qed (auto simp: edge_of_def end_node_def)

lemma firstpos_text: "q \<in> set (firstpos en t) \<Longrightarrow> left_text (snd q) \<noteq> Some []"
  by (induction t) (auto simp: uniq_concat_def uniq_from_set split: if_splits)

lemma follows_text: "follows en t p q \<Longrightarrow> left_text (snd q) \<noteq> Some []"
  by (auto simp: follows_def dest: firstpos_text)

section \<open>The table of a pattern\<close>

abbreviation end_of :: "node \<Rightarrow> position" where
  "end_of root \<equiv> (leaves root, end_node)"

abbreviation table_of :: "engine \<Rightarrow> node \<Rightarrow> follow_table" where
  "table_of en root \<equiv> build_followpos en (with_end root)"

lemma follows_with_end:
  "follows en (with_end root) p q \<longleftrightarrow>
    p \<in> set (lastpos en (number 0 root)) \<and> q = end_of root \<or> follows en (number 0 root) p q"
  by (auto simp: with_end_def follows_simps end_node_def)

lemma end_not_in: "end_of root \<notin> positions (number 0 root)"
  using positions_number(1) [of "end_of root" 0 root] by auto

lemma end_follows: "end_of root \<in> set (followpos (table_of en root) p) \<longleftrightarrow> p \<in> set (lastpos en (number 0 root))"
  unfolding followpos_follows follows_with_end using end_not_in follows_positions by blast

lemma pattern_array_ok:
  assumes "proper root" "\<And>q. q \<in> set s \<Longrightarrow> q = end_of root \<or> q \<in> positions (number 0 root) \<and> left_text (snd q) \<noteq> Some []"
  shows "array_ok (table_of en root) (end_of root) s"
  unfolding array_ok_def
proof
  fix q assume "q \<in> set s"
  then consider "q = end_of root" | "q \<in> positions (number 0 root)" "left_text (snd q) \<noteq> Some []"
    using assms(2) by blast
  then show "q = end_of root \<or> followpos (table_of en root) q \<noteq> [] \<and> edge_of q \<noteq> edge_of (end_of root)"
  proof cases
    case 2
    from proper_goes_on [OF assms(1) this, of en] obtain r where "follows en (with_end root) q r"
      unfolding follows_with_end by blast
    then have "r \<in> set (followpos (table_of en root) q)" unfolding followpos_follows .
    then have "followpos (table_of en root) q \<noteq> []" by auto
    with proper_edges [OF assms(1) 2(1)] show ?thesis by simp
  qed simp
qed

lemma pattern_table_ok:
  assumes "proper root"
  shows "table_ok (table_of en root) (end_of root)"
proof -
  have "set (followpos (table_of en root) (end_of root)) = {}"
    unfolding set_eq_iff followpos_follows follows_with_end
    using end_not_in lastpos_positions follows_positions by blast
  then have "followpos (table_of en root) (end_of root) = []" by simp
  moreover have "array_ok (table_of en root) (end_of root) (followpos (table_of en root) p)" for p
  proof (rule pattern_array_ok [OF assms])
    fix q assume "q \<in> set (followpos (table_of en root) p)"
    then show "q = end_of root \<or> q \<in> positions (number 0 root) \<and> left_text (snd q) \<noteq> Some []"
      unfolding followpos_follows follows_with_end using follows_positions follows_text by blast
  qed
  moreover have "fst p < fst q \<and> fst q \<le> fst (end_of root)" if q: "q \<in> set (followpos (table_of en root) p)" for p q
  proof -
    from q consider "p \<in> positions (number 0 root)" "q = end_of root" | "follows en (number 0 root) p q"
      unfolding followpos_follows follows_with_end using lastpos_positions by blast
    then show ?thesis
    proof cases
      case 1
      with positions_number(1) [OF 1(1)] show ?thesis by simp
    next
      case 2
      with follows_ascends [OF 2 apart_number(1)] follows_positions [OF 2] positions_number(1) [of q 0 root]
      show ?thesis by simp
    qed
  qed
  ultimately show ?thesis unfolding table_ok_def by blast
qed

lemma pattern_start_ok: "proper root \<Longrightarrow> array_ok (table_of en root) (end_of root) (firstpos en (number 0 root))"
  by (rule pattern_array_ok) (use firstpos_positions firstpos_text in blast)+

lemma followed_inside:
  assumes "followed (table_of en root) w" "w \<noteq> []" "last w \<noteq> end_of root" "proper root"
  shows "successively (follows en (number 0 root)) w"
  using assms(1-3)
proof (induction w rule: induct_list012)
  case (3 p q w)
  have "q \<noteq> end_of root"
  proof
    assume q: "q = end_of root"
    with 3 obtain r w' where "w = r # w'" by (cases w) auto
    with 3(3) q have "r \<in> set (followpos (table_of en root) (end_of root))" by (simp add: followed_def)
    with pattern_table_ok [OF assms(4), of en] show False by (simp add: table_ok_def)
  qed
  moreover have "follows en (with_end root) p q" using 3(3) by (simp add: followed_def followpos_follows)
  ultimately have "follows en (number 0 root) p q" unfolding follows_with_end by blast
  with 3 show ?case by (simp add: followed_def)
qed simp_all

lemma run_is_path:
  assumes "proper root" "w \<noteq> []"
  shows "run en (table_of en root) (firstpos en (number 0 root)) w ts \<and>
      end_of root \<in> set (followpos (table_of en root) (last w)) \<longleftrightarrow>
    path en (number 0 root) w \<and> consumes en (map snd w) ts" (is "?l \<longleftrightarrow> ?r")
proof
  assume l: ?l
  then have "last w \<in> set (lastpos en (number 0 root))" unfolding end_follows by blast
  moreover from this have "last w \<noteq> end_of root" using subsetD [OF lastpos_positions] end_not_in by metis
  with l assms have "successively (follows en (number 0 root)) w"
    by (intro followed_inside) (simp_all add: run_def)
  ultimately show ?r using l assms(2) by (simp add: path_def run_def)
next
  assume r: ?r
  then have "successively (\<lambda>p q. q \<in> set (followpos (table_of en root) p)) w"
    unfolding path_def followpos_follows follows_with_end by (auto elim!: successively_weaken)
  with r show ?l by (simp add: path_def run_def followed_def end_follows)
qed

lemma expansion_is_path:
  "w \<in> set (expansions en root) \<and> w \<noteq> [] \<longleftrightarrow> (\<exists>v. path en (number 0 root) v \<and> map snd v = w)"
proof -
  have "w \<in> set (expansions en root) \<longleftrightarrow> (\<exists>v\<in>words en (number 0 root). map snd v = w)"
    unfolding words_number(1) [of en 0 root, symmetric] by blast
  moreover have "path en t v \<Longrightarrow> v \<noteq> []" for t v by (simp add: path_def)
  ultimately show ?thesis
    using expansion_iff_path [OF apart_number(1) [of 0 root]] by (metis list.map_disc_iff)
qed

section \<open>Tokens\<close>

lemma concat_tokens: "concat (tokens s) = s"
  by (induction s rule: tokens.induct) auto

section \<open>Matching\<close>

definition memos_reading :: "engine \<Rightarrow> node \<Rightarrow> string list \<Rightarrow> nat option set" where
  "memos_reading en root ts =
     {memo_of (last w) | w. w \<in> set (expansions en root) \<and> w \<noteq> [] \<and> consumes en w ts}"

lemma in_simulator_memos:
  assumes nd: "no_default tt"
  shows "m \<in> set (simulator_memos en tt s) \<longleftrightarrow>
    (\<exists>j. arrives en tt (tokens s) j \<and> is_accepting tt j \<and> m \<in> set (memos tt j))"
proof -
  have "config_ok en tt [] [(0, None)]" by (simp add: config_ok_def arrives_Nil)
  from simulate_ok [OF nd _ this, of s "tokens s"]
  have "config_ok en tt (tokens s) (simulate en tt s 0 (tokens s) [(0, None)])" by (simp add: concat_tokens)
  then have "(j, None) \<in> set (simulate en tt s 0 (tokens s) [(0, None)]) \<longleftrightarrow> arrives en tt (tokens s) j" for j
    by (simp add: config_ok_def)
  then show ?thesis by (force simp: simulator_memos_def split: if_splits)
qed

lemma table_memos:
  assumes proper: "proper root" and C: "\<forall>i<n. complete (table_of en root) (end_of root) tt \<nu> n i"
    and n: "0 < n" "\<nu> 0 = firstpos en (number 0 root)" "\<not> is_accepting tt 0"
  shows "(\<exists>j. arrives en tt ts j \<and> is_accepting tt j \<and> m \<in> set (memos tt j)) \<longleftrightarrow> m \<in> memos_reading en root ts"
    (is "?l \<longleftrightarrow> ?r")
proof
  assume ?l
  then obtain j where j: "arrives en tt ts j" "is_accepting tt j" "m \<in> set (memos tt j)" by blast
  then obtain us i e c where step: "ts = us @ c" "arrives en tt us i" "edge_in tt i e j" "edge_reads en e c"
    using n(3) by (auto elim: arrivesE)
  have "arrow (table_of en root) (end_of root) tt \<nu> (at_edge (\<nu> i) e) j"
    using complete_edge [OF _ step(3)] arrives_bounded [OF step(2) C n(1)] C by blast
  with j(3) obtain p where p: "p \<in> set (\<nu> i)" "edge_of p = e" "m = memo_of (snd p)"
    "end_of root \<in> set (followpos (table_of en root) p)"
    by (auto simp: arrow_def final_memos_def at_edge_def)
  from arrives_run [OF step(2) C n(1,2) p(1)] obtain w where
    w: "run en (table_of en root) (firstpos en (number 0 root)) w us"
      "if w = [] then p \<in> set (firstpos en (number 0 root)) else p \<in> set (followpos (table_of en root) (last w))"
    by blast
  then have "run en (table_of en root) (firstpos en (number 0 root)) (w @ [p]) ts"
    using p(2) step(1,4) by (auto simp: run_snoc)
  with run_is_path [OF proper, of "w @ [p]" en ts] p(4)
  have "path en (number 0 root) (w @ [p])" "consumes en (map snd (w @ [p])) ts" by auto
  then have "map snd (w @ [p]) \<in> set (expansions en root)" using expansion_is_path by blast
  with \<open>consumes en (map snd (w @ [p])) ts\<close> p(3) show ?r
    unfolding memos_reading_def mem_Collect_eq by (intro exI [of _ "map snd (w @ [p])"]) simp
next
  assume ?r
  then obtain w where w: "m = memo_of (last w)" "w \<in> set (expansions en root)" "w \<noteq> []" "consumes en w ts"
    unfolding memos_reading_def by blast
  with expansion_is_path [of w en root] obtain v where v: "path en (number 0 root) v" "map snd v = w" by blast
  then have ne: "v \<noteq> []" by (simp add: path_def)
  from v w(4) have "path en (number 0 root) v \<and> consumes en (map snd v) ts" by simp
  then have run: "run en (table_of en root) (firstpos en (number 0 root)) v ts"
    and fin: "end_of root \<in> set (followpos (table_of en root) (last v))"
    unfolding run_is_path [OF proper ne, symmetric] by blast+
  then have "followpos (table_of en root) (last v) \<noteq> []" by auto
  from run_arrives [OF run ne this C n(1,2)] obtain i j where ij: "arrives en tt ts j" "last v \<in> set (\<nu> i)"
    "arrow (table_of en root) (end_of root) tt \<nu> (at_edge (\<nu> i) (edge_of (last v))) j" by force
  have "end_of root \<in> reach (table_of en root) (at_edge (\<nu> i) (edge_of (last v)))"
    using ij(2) fin unfolding in_reach_at by blast
  moreover have "m \<in> final_memos (table_of en root) (end_of root) (at_edge (\<nu> i) (edge_of (last v)))"
    unfolding final_memos_def at_edge_def w(1) v(2) [symmetric] last_map [OF ne] using ij(2) fin by simp
  ultimately show ?l using ij(1,3) unfolding arrow_def by blast
qed

lemma automaton_ends_and_reads:
  assumes "proper root"
  shows "\<exists>tt. transition_table en root = Some tt \<and>
    (\<forall>s. set (simulator_memos en tt s) = memos_reading en root (tokens s))"
proof -
  from table_built [OF pattern_table_ok [OF assms] pattern_start_ok [OF assms], of en] obtain tt \<nu> n where
    T: "transition_table en root = Some tt" "0 < n" "\<nu> 0 = firstpos en (number 0 root)" "\<not> is_accepting tt 0"
      "no_default tt" "\<forall>i<n. complete (table_of en root) (end_of root) tt \<nu> n i"
    unfolding transition_table_def by blast
  have "m \<in> set (simulator_memos en tt s) \<longleftrightarrow> m \<in> memos_reading en root (tokens s)" for m s
    unfolding in_simulator_memos [OF T(5)] by (rule table_memos [OF assms T(6,2-4)])
  with T(1) show ?thesis by blast
qed

text \<open>
  C27. For every pattern the parser can build, the worklist of the builder ends with a table, and what
  the simulator collects with it from a path are exactly the memos of the last terminals of those
  expansions of the pattern that read the tokens of the path.
\<close>

theorem automaton_matches_expansions:
  assumes "proper root"
  shows "\<exists>tt. transition_table en root = Some tt \<and>
    (\<forall>s. set (simulator_memos en tt s) = memos_reading en root (tokens s))"
  using assms by (rule automaton_ends_and_reads)

lemma automaton_matches_expansions_example:
  "\<exists>tt. transition_table \<lparr>accepts = (\<lambda>n s. s = ''7''), finds_empty = (\<lambda>n. False)\<rparr>
      (Or [Cat (Slash ''/'' (Some 0)) (Symbol '':id'' (UserExp 0) (Some 0)),
        Cat (Slash ''/'' (Some 1)) (Cat (Symbol '':a'' DefaultExp (Some 1))
          (Group (Cat (Dot ''.'' (Some 1)) (Symbol '':format'' DefaultExp (Some 1)))))]) = Some tt \<and>
    (\<forall>s. set (simulator_memos \<lparr>accepts = (\<lambda>n s. s = ''7''), finds_empty = (\<lambda>n. False)\<rparr> tt s) =
      memos_reading \<lparr>accepts = (\<lambda>n s. s = ''7''), finds_empty = (\<lambda>n. False)\<rparr>
        (Or [Cat (Slash ''/'' (Some 0)) (Symbol '':id'' (UserExp 0) (Some 0)),
          Cat (Slash ''/'' (Some 1)) (Cat (Symbol '':a'' DefaultExp (Some 1))
            (Group (Cat (Dot ''.'' (Some 1)) (Symbol '':format'' DefaultExp (Some 1)))))]) (tokens s))"
  by (rule automaton_matches_expansions) (simp add: end_node_def)

end
