(* ===== verification/Journey_Proper.thy ===== *)
theory Journey_Proper
  imports Journey_Match
begin

text \<open>
  Every pattern the parser builds is one the automaton is right for (\<open>parsed_proper\<close>), so the theorem
  about the automaton holds of every route set made from parsed patterns.
\<close>

section \<open>Parsed patterns are proper\<close>

definition token_ok :: "parser \<Rightarrow> bool" where
  "token_ok p \<longleftrightarrow> (ahead p = Some STAR \<longrightarrow> last_string (scn p) \<noteq> []) \<and>
     (ahead p = Some LITERAL \<longrightarrow> CHR ''<'' \<notin> set (last_string (scn p)) \<or> length (last_string (scn p)) \<le> 1)"

lemma literal_run_chars: "CHR ''<'' \<notin> set (take (literal_run cs) cs)"
proof (induction cs rule: literal_run.induct)
  case (2 c cs)
  have lt: "\<not> literal_char (CHR ''<'')" by code_simp
  show ?case
  proof (cases "literal_char c")
    case True
    with 2(1) lt show ?thesis by auto
  next
    case False
    show ?thesis
    proof (cases cs)
      case (Cons d ds)
      with False 2(2) show ?thesis by (cases "c = CHR 0x5C \<and> d \<in> set '':()''") auto
    qed (simp add: False)
  qed
qed simp

lemma static_not_literal: "static_token c \<noteq> Some LITERAL"
  by (simp add: static_token_def)

lemma advance_token_ok: "advance_token p = (r, p') \<Longrightarrow> token_ok p'"
proof (cases "pos (scn p) < length (str (scn p))")
  case False
  then show "advance_token p = (r, p') \<Longrightarrow> token_ok p'"
    by (auto simp: advance_token_def modify_def next_token_def token_ok_def)
next
  case True
  assume run: "advance_token p = (r, p')"
  obtain t sc where t: "scan (scn p) = (t, sc)" by fastforce
  with run True have p': "p' = \<lparr>scn = sc, ahead = Some t\<rparr>"
    by (simp add: advance_token_def modify_def next_token_def)
  let ?cs = "drop (pos (scn p)) (str (scn p))"
  let ?n = "literal_run ?cs"
  have star: "last_string sc \<noteq> []" if "t = STAR"
    using t that True
    by (auto simp: scan_def last_string_def Let_def split: option.splits if_splits)
  have lit: "CHR ''<'' \<notin> set (last_string sc) \<or> length (last_string sc) \<le> 1" if "t = LITERAL"
    using t that literal_run_chars [of ?cs] static_not_literal
    by (auto simp: scan_def last_string_def Let_def split: option.splits if_splits)
  show "token_ok p'" using star lit by (simp add: p' token_ok_def)
qed

definition yields_proper :: "node parse \<Rightarrow> bool" where
  "yields_proper m \<longleftrightarrow> (\<forall>p n p'. token_ok p \<longrightarrow> m p = (Inr n, p') \<longrightarrow> proper n \<and> token_ok p')"

lemma yields_bind:
  assumes "yields_proper m" and "\<And>n. proper n \<Longrightarrow> yields_proper (f n)"
  shows "yields_proper (bind m f)"
  unfolding yields_proper_def
proof (intro allI impI)
  fix p n p' assume p: "token_ok p" "bind m f p = (Inr n, p')"
  from bind_returns [OF p(2)] obtain y u where "m p = (Inr y, u)" "f y u = (Inr n, p')" .
  with p(1) assms show "proper n \<and> token_ok p'" unfolding yields_proper_def by blast
qed

lemma yields_advance: "yields_proper m \<Longrightarrow> yields_proper (andthen advance_token m)"
  unfolding yields_proper_def by (metis advance_token_ok andthen_returns)

lemma yields_ret: "proper n \<Longrightarrow> yields_proper (ret n)"
  by (simp add: yields_proper_def ret_def)

lemma yields_throw: "yields_proper (throw e)"
  by (simp add: yields_proper_def throw_def)

lemma yields_ahead:
  assumes "\<And>t. yields_proper (f t)" shows "yields_proper (bind (gets ahead) f)"
  using assms by (simp add: yields_proper_def bind_gets)

lemma yields_star: "yields_proper (\<lambda>p. if ahead p = Some STAR then parse_star p else (Inl e, p))"
proof -
  have "proper n \<and> token_ok p'" if "token_ok p" "ahead p = Some STAR" "parse_star p = (Inr n, p')" for p n p'
  proof -
    let ?n = "Star (Symbol (last_string (scn p)) GreedyExp None) StarExp"
    have "andthen advance_token (ret ?n) p = (Inr n, p')" using that(3) by (simp add: parse_star_def bind_gets)
    moreover have "proper ?n" using that(1,2) by (simp add: token_ok_def is_terminal_def)
    ultimately show ?thesis using yields_advance [OF yields_ret] that(1) unfolding yields_proper_def by blast
  qed
  then show ?thesis by (auto simp: yields_proper_def split: if_splits)
qed

lemma literal_not_end: "token_ok p \<Longrightarrow> ahead p = Some LITERAL \<Longrightarrow> last_literal (scn p) \<noteq> ''<end>''"
proof
  assume p: "token_ok p" "ahead p = Some LITERAL" and eq: "last_literal (scn p) = ''<end>''"
  have "set (last_literal (scn p)) \<subseteq> set (last_string (scn p))" "length (last_literal (scn p)) \<le> length (last_string (scn p))"
    by (auto simp: last_literal_def)
  with p eq show False by (auto simp: token_ok_def)
qed

lemma yields_terminal: "yields_proper parse_terminal"
  unfolding yields_proper_def
proof (intro allI impI)
  fix p n p' assume p: "token_ok p" "parse_terminal p = (Inr n, p')"
  have ret: "proper n \<and> token_ok p'" if "andthen advance_token (ret m) p = (Inr n, p')" "proper m" for m
    using that yields_advance [OF yields_ret [OF that(2)]] p(1) unfolding yields_proper_def by blast
  show "proper n \<and> token_ok p'"
  proof (cases "ahead p")
    case None
    then show ?thesis using p(2) by (simp add: parse_terminal_def bind_def gets_def throw_def)
  next
    case (Some t)
    show ?thesis
    proof (cases t)
      case SYMBOL
      with Some p(2) show ?thesis
        by (intro ret [of "Symbol (last_string (scn p)) DefaultExp None"])
          (simp_all add: parse_terminal_def bind_def gets_def ret_def)
    next
      case LITERAL
      with Some p(2) literal_not_end [OF p(1)] show ?thesis
        by (intro ret [of "Literal (last_literal (scn p)) None"])
          (simp_all add: parse_terminal_def bind_def gets_def ret_def end_node_def)
    next
      case SLASH
      with Some p(2) show ?thesis
        by (intro ret [of "Slash ''/'' None"])
          (simp_all add: parse_terminal_def bind_def gets_def ret_def end_node_def)
    next
      case DOT
      with Some p(2) show ?thesis
        by (intro ret [of "Dot ''.'' None"])
          (simp_all add: parse_terminal_def bind_def gets_def ret_def end_node_def)
    qed (use Some p(2) in \<open>simp_all add: parse_terminal_def bind_def gets_def throw_def\<close>)
  qed
qed

lemma yields_if: "(b \<Longrightarrow> yields_proper m) \<Longrightarrow> (\<not> b \<Longrightarrow> yields_proper m') \<Longrightarrow> yields_proper (if b then m else m')"
  by simp

lemma yields_all:
  "yields_proper (parse_expressions n) \<and> (\<forall>l. proper l \<longrightarrow> yields_proper (parse_rest n l)) \<and>
    (\<forall>l. proper l \<longrightarrow> yields_proper (parse_or n l)) \<and> yields_proper (parse_expression n) \<and>
    yields_proper (parse_group n)"
proof (induction n)
  case 0
  then show ?case by (simp add: yields_throw)
next
  case (Suc n)
  then have exprs: "yields_proper (parse_expressions n)" and rest: "\<And>l. proper l \<Longrightarrow> yields_proper (parse_rest n l)"
    and or: "\<And>l. proper l \<Longrightarrow> yields_proper (parse_or n l)" and expr: "yields_proper (parse_expression n)"
    and group: "yields_proper (parse_group n)" by blast+
  have "yields_proper (parse_expressions (Suc n))"
    unfolding parse_expressions.simps by (rule yields_bind [OF expr rest])
  moreover have "yields_proper (parse_rest (Suc n) l)" if "proper l" for l
    unfolding parse_rest.simps
    by (intro yields_ahead yields_if yields_ret yields_bind [OF or rest] yields_bind [OF exprs rest])
      (simp_all add: that)
  moreover have "yields_proper (parse_or (Suc n) l)" if "proper l" for l
    unfolding parse_or.simps
    by (intro yields_advance yields_bind [OF expr] yields_ret) (simp add: that)
  moreover have "yields_proper (parse_expression (Suc n))"
    unfolding yields_proper_def
  proof (intro allI impI)
    fix p m p' assume p: "token_ok p" "parse_expression (Suc n) p = (Inr m, p')"
    consider "ahead p = Some STAR" "parse_star p = (Inr m, p')" | "parse_group n p = (Inr m, p')"
      | "parse_terminal p = (Inr m, p')"
      using p(2) by (simp add: bind_gets split: if_splits)
    then show "proper m \<and> token_ok p'"
    proof cases
      case 1
      with p(1) yields_star show ?thesis unfolding yields_proper_def by fastforce
    next
      case 2
      with p(1) group show ?thesis unfolding yields_proper_def by blast
    next
      case 3
      with p(1) yields_terminal show ?thesis unfolding yields_proper_def by blast
    qed
  qed
  moreover have "yields_proper (parse_group (Suc n))"
    unfolding parse_group.simps
    by (intro yields_advance yields_bind [OF exprs] yields_ahead yields_if yields_throw yields_ret) simp
  ultimately show ?case by blast
qed

lemma parsed_proper: "parse s = (Inr n, p) \<Longrightarrow> proper n"
proof -
  assume "parse s = (Inr n, p)"
  then have "andthen advance_token (parse_expressions (parser_fuel s)) \<lparr>scn = scan_setup s, ahead = None\<rparr> = (Inr n, p)"
    by (simp only: parse_def)
  moreover have "yields_proper (andthen advance_token (parse_expressions (parser_fuel s)))"
    using yields_all by (blast intro: yields_advance)
  moreover have "token_ok \<lparr>scn = scan_setup s, ahead = None\<rparr>" by (simp add: token_ok_def)
  ultimately show "proper n" unfolding yields_proper_def by blast
qed

lemma left_text_set_route [simp]: "left_text (set_route v n) = left_text n"
  by (cases n) simp_all

lemma proper_set_route [simp]: "proper (set_route v n) = proper n"
  by (induction n) (auto simp: list_all_iff is_terminal_def)

end
