(* ===== verification/Journey_Routes.thy ===== *)
theory Journey_Routes
  imports Journey_Proper
begin

text \<open>
  Routes and route sets: \<^verbatim>\<open>journey/route.ts\<close> (the matching of verbs and constraints),
  \<^verbatim>\<open>journey/routes.ts\<close> (the set, its partition and its cached tree and simulator) and the
  anchoring test of \<^verbatim>\<open>journey/path/pattern.ts\<close>.

  A route is known by its \<open>number\<close>, the index \<open>addRoute\<close> hands to \<open>makeRoute\<close>, which is also the
  memo of the terminals of its tree. A request's own fields are a function from names to values;
  \<open>text\<close> is what \<open>String\<close> makes of a value, and the test of a constraint that is a regular
  expression is given by the strings it finds something in (an expression without state, so without
  the flags \<open>g\<close> and \<open>y\<close>). Verbs are upcased as ASCII text. The engine of the path expressions is
  the record \<open>engine\<close> of the automaton; a call that does not return is \<open>None\<close>.
\<close>

section \<open>Verbs\<close>

datatype verb_matcher = AllVerbs | Verb string

definition known_verbs :: "string list" where
  "known_verbs = [''DELETE'', ''GET'', ''HEAD'', ''OPTIONS'', ''LINK'', ''PATCH'', ''POST'', ''PUT'',
     ''TRACE'', ''UNLINK'']"

definition up :: "char \<Rightarrow> char" where
  "up c = (if of_char c \<in> {97..<123::nat} then char_of (of_char c - 32 :: nat) else c)"

definition down :: "char \<Rightarrow> char" where
  "down c = (if of_char c \<in> {65..<91::nat} then char_of (of_char c + 32 :: nat) else c)"

definition verb_table :: "(string \<times> verb_matcher) list" where
  "verb_table = concat (map (\<lambda>v. [(v, Verb v), (map down v, Verb v)]) known_verbs) @ [(''all'', AllVerbs)]"

definition verb_for :: "string \<Rightarrow> verb_matcher" where
  "verb_for v = (case map_of verb_table v of Some m \<Rightarrow> m
     | None \<Rightarrow> Verb (map (\<lambda>c. up (if c = CHR ''_'' then CHR ''-'' else c)) v))"

definition verb_call :: "verb_matcher \<Rightarrow> string \<Rightarrow> bool" where
  "verb_call m verb = (case m of AllVerbs \<Rightarrow> True | Verb v \<Rightarrow> v = verb)"

section \<open>Routes\<close>

datatype 'v field = FUndefined | FNull | FBool bool | FStr string | FOther 'v

datatype 'v constraint = Pattern_of "string \<Rightarrow> bool" | Equals string | One_of "'v field list" | Present
  | Missing | Exactly "'v field"

record ('v, 'app) route =
  number :: nat
  precedence :: nat
  anchored :: bool
  tree_of :: node
  array_requirements :: "string list"
  verbs :: "verb_matcher list"
  constraints :: "(string \<times> 'v constraint) list"
  defaults :: "(string \<times> 'v) list"
  app :: "'app option"

record 'v request =
  path_info :: string
  script_name :: string
  request_method :: string
  head :: bool
  own_fields :: "string \<Rightarrow> 'v field"
  path_parameters :: "(string \<times> 'v) list"
  uri_pattern :: "string option"

definition blank_field :: "'v field \<Rightarrow> bool" where
  "blank_field x \<longleftrightarrow> x \<in> {FNull, FUndefined, FStr [], FBool False}"

definition field_text :: "('v \<Rightarrow> string) \<Rightarrow> 'v field \<Rightarrow> string" where
  "field_text show_value x = (case x of FUndefined \<Rightarrow> [] | FNull \<Rightarrow> [] | FBool b \<Rightarrow> if b then ''true'' else ''false''
     | FStr s \<Rightarrow> s | FOther v \<Rightarrow> show_value v)"

definition constraint_ok :: "('v \<Rightarrow> string) \<Rightarrow> 'v constraint \<Rightarrow> 'v field \<Rightarrow> bool" where
  "constraint_ok show_value c actual = (case c of
       Pattern_of finds \<Rightarrow> finds (field_text show_value actual)
     | Equals s \<Rightarrow> s = field_text show_value actual
     | One_of vs \<Rightarrow> actual \<in> set vs
     | Present \<Rightarrow> \<not> blank_field actual
     | Missing \<Rightarrow> blank_field actual
     | Exactly v \<Rightarrow> v = actual)"

text \<open>The fields the router itself writes are read from the request, the others are its own.\<close>

definition field_of :: "'v request \<Rightarrow> string \<Rightarrow> 'v field" where
  "field_of req n = (if n = ''requestMethod'' then FStr (request_method req)
     else if n = ''pathInfo'' then FStr (path_info req)
     else if n = ''scriptName'' then FStr (script_name req) else own_fields req n)"

definition match_verb :: "('v, 'app) route \<Rightarrow> string \<Rightarrow> bool" where
  "match_verb r verb \<longleftrightarrow> list_ex (\<lambda>m. verb_call m verb) (verbs r)"

definition route_matches :: "('v \<Rightarrow> string) \<Rightarrow> ('v, 'app) route \<Rightarrow> 'v request \<Rightarrow> bool" where
  "route_matches show_value r req \<longleftrightarrow> match_verb r (request_method req) \<and>
     list_all (\<lambda>(n, c). constraint_ok show_value c (field_of req n)) (constraints r)"

definition requires_matching_verb :: "('v, 'app) route \<Rightarrow> bool" where
  "requires_matching_verb r \<longleftrightarrow> \<not> list_all (\<lambda>m. m = AllVerbs) (verbs r)"

text \<open>\<open>isRequirementsAnchored\<close>: the loop over the terminals from the second on.\<close>

fun anchored_from :: "string list \<Rightarrow> node \<Rightarrow> node list \<Rightarrow> bool" where
  "anchored_from arrays back [] \<longleftrightarrow> True"
| "anchored_from arrays back (s # ss) \<longleftrightarrow>
     (case s of Dot _ _ \<Rightarrow> True | Slash _ _ \<Rightarrow> True
      | _ \<Rightarrow> \<not> (is_symbol s \<and> (\<exists>n \<in> set arrays. node_name s = Some n)) \<and> \<not> is_literal back \<and>
             (case ss of [] \<Rightarrow> True | fwd # _ \<Rightarrow> \<not> is_literal fwd)) \<and>
     anchored_from arrays s ss"

definition requirements_anchored :: "('v, 'app) route \<Rightarrow> bool" where
  "requirements_anchored r = (case terminals (new_ast (tree_of r) True) of [] \<Rightarrow> True
     | t # ts \<Rightarrow> anchored_from (array_requirements r) t ts)"

section \<open>Route sets\<close>

record ('v, 'app) route_set =
  all_routes :: "('v, 'app) route list"
  custom_routes :: "('v, 'app) route list"
  anchored_routes :: "('v, 'app) route list"
  cached_ast :: "node option"
  cached_simulator :: "table option"

definition no_routes :: "('v, 'app) route_set" where
  "no_routes = \<lparr>all_routes = [], custom_routes = [], anchored_routes = [], cached_ast = None, cached_simulator = None\<rparr>"

definition clear_cache :: "('v, 'app) route_set \<Rightarrow> ('v, 'app) route_set" where
  "clear_cache rs = rs\<lparr>cached_ast := None, cached_simulator := None\<rparr>"

definition clear_routes :: "('v, 'app) route_set \<Rightarrow> ('v, 'app) route_set" where
  "clear_routes rs = clear_cache (rs\<lparr>all_routes := [], anchored_routes := [], custom_routes := []\<rparr>)"

definition partition_route :: "('v, 'app) route \<Rightarrow> ('v, 'app) route_set \<Rightarrow> ('v, 'app) route_set" where
  "partition_route r rs = (if anchored r \<and> requirements_anchored r
     then rs\<lparr>anchored_routes := anchored_routes rs @ [r]\<rparr>
     else rs\<lparr>custom_routes := custom_routes rs @ [r]\<rparr>)"

text \<open>\<open>mk\<close> is the mapping's \<open>makeRoute\<close>; the constructor of the route marks its tree.\<close>

definition new_route :: "nat \<Rightarrow> ('v, 'app) route \<Rightarrow> ('v, 'app) route" where
  "new_route i r = r\<lparr>number := i, tree_of := set_route (Some i) (tree_of r)\<rparr>"

definition add_route :: "(nat \<Rightarrow> ('v, 'app) route) \<Rightarrow> ('v, 'app) route_set \<Rightarrow> ('v, 'app) route \<times> ('v, 'app) route_set" where
  "add_route mk rs = (let i = length (all_routes rs); r = new_route i (mk i)
     in (r, clear_cache (partition_route r (rs\<lparr>all_routes := all_routes rs @ [r]\<rparr>))))"

definition routes_ast :: "('v, 'app) route_set \<Rightarrow> node \<times> ('v, 'app) route_set" where
  "routes_ast rs = (case cached_ast rs of Some n \<Rightarrow> (n, rs)
     | None \<Rightarrow> (let n = Or (map tree_of (anchored_routes rs)) in (n, rs\<lparr>cached_ast := Some n\<rparr>)))"

definition routes_simulator :: "engine \<Rightarrow> ('v, 'app) route_set \<Rightarrow> (table \<times> ('v, 'app) route_set) option" where
  "routes_simulator en rs = (case cached_simulator rs of Some t \<Rightarrow> Some (t, rs)
     | None \<Rightarrow> (case routes_ast rs of (n, rs') \<Rightarrow> (case transition_table en n of
         None \<Rightarrow> None
       | Some t \<Rightarrow> Some (t, rs'\<lparr>cached_simulator := Some t\<rparr>))))"

end
