(* ===== verification/Journey_Serve.thy ===== *)
theory Journey_Serve
  imports Journey_Routes "HOL-Library.AList"
begin

text \<open>
  The router, \<^verbatim>\<open>packages/actionpack/src/action-dispatch/journey/router.ts\<close>: which routes a request
  finds and how it is served by the first that does not pass it on.

  The generator \<open>findRoutes\<close> reads the request before it yields for the first time, so it is the list
  of what it yields. Parameters, the record \<open>world\<close>: \<open>path_match\<close> is the match of a route's own
  regular expression with a path, \<open>unescape\<close> the percent decoding of captured text, \<open>call_app\<close> what
  an application answers, or throws, and the request it leaves behind.
\<close>

record path_match =
  captured :: "(string \<times> string option) list"
  matched :: string
  post_match :: string

record 'b response =
  status :: nat
  headers_of :: "(string \<times> string) list option"
  body :: 'b

record ('v, 'app, 'e, 'b) world =
  engine_of :: engine
  show_field :: "'v \<Rightarrow> string"
  path_match :: "('v, 'app) route \<Rightarrow> string \<Rightarrow> path_match option"
  param_value :: "string \<Rightarrow> 'v"
  unescape :: "string \<Rightarrow> string"
  call_app :: "'app \<Rightarrow> 'v request \<Rightarrow> ('e + 'b response) \<times> 'v request"
  not_found :: 'b

type_synonym ('v, 'app) found = "path_match \<times> (string \<times> 'v) list \<times> ('v, 'app) route"

section \<open>Finding routes\<close>

definition filter_routes :: "engine \<Rightarrow> string \<Rightarrow> ('v, 'app) route_set \<Rightarrow>
    (('v, 'app) route list \<times> ('v, 'app) route_set) option" where
  "filter_routes en pathname rs = (case routes_simulator en (snd (routes_ast rs)) of
       None \<Rightarrow> None
     | Some (t, rs') \<Rightarrow> Some (List.map_filter (\<lambda>m. case m of
           Some i \<Rightarrow> if i < length (all_routes rs') then Some (all_routes rs' ! i) else None
         | None \<Rightarrow> None) (simulator_memos en t pathname), rs'))"

definition match_head_routes :: "('v \<Rightarrow> string) \<Rightarrow> ('v, 'app) route list \<Rightarrow> 'v request \<Rightarrow> ('v, 'app) route list" where
  "match_head_routes sv routes req =
     (let hs = filter (\<lambda>r. requires_matching_verb r \<and> route_matches sv r req) routes
      in if hs \<noteq> [] then hs else filter (\<lambda>r. route_matches sv r (req\<lparr>request_method := ''GET''\<rparr>)) routes)"

definition applicable :: "('v \<Rightarrow> string) \<Rightarrow> ('v, 'app) route list \<Rightarrow> 'v request \<Rightarrow> ('v, 'app) route list" where
  "applicable sv routes req = (if head req \<or> request_method req = ''HEAD'' then match_head_routes sv routes req
     else filter (\<lambda>r. route_matches sv r req) routes)"

fun put_all :: "(string \<times> 'v) list \<Rightarrow> (string \<times> 'v) list \<Rightarrow> (string \<times> 'v) list" where
  "put_all [] m = m"
| "put_all ((k, v) # kvs) m = put_all kvs (AList.update k v m)"

definition path_params_of :: "('v, 'app, 'e, 'b) world \<Rightarrow> path_match \<Rightarrow> (string \<times> 'v) list" where
  "path_params_of w m = put_all (List.map_filter (\<lambda>(n, v). map_option (\<lambda>s. (n, param_value w (unescape w s))) v)
     (captured m)) []"

definition find_routes :: "('v, 'app, 'e, 'b) world \<Rightarrow> ('v, 'app) route_set \<Rightarrow> 'v request \<Rightarrow>
    (('v, 'app) found list \<times> ('v, 'app) route_set) option" where
  "find_routes w rs req = (case filter_routes (engine_of w) (path_info req) rs of
       None \<Rightarrow> None
     | Some (simulated, rs') \<Rightarrow>
         (let routes = simulated @ filter (\<lambda>r. path_match w r (path_info req) \<noteq> None) (custom_routes rs');
              sorted = sort_key precedence (applicable (show_field w) routes req)
          in Some (List.map_filter (\<lambda>r. map_option (\<lambda>m. (m, path_params_of w m, r))
               (path_match w r (path_info req))) sorted, rs')))"

section \<open>Serving\<close>

definition drop_slash :: "string \<Rightarrow> string" where
  "drop_slash s = (if s \<noteq> [] \<and> last s = CHR ''/'' then butlast s else s)"

definition with_slash :: "string \<Rightarrow> string" where
  "with_slash s = (case s of c # _ \<Rightarrow> if c = CHR ''/'' then s else CHR ''/'' # s | [] \<Rightarrow> ''/'')"

definition mount :: "path_match \<Rightarrow> ('v, 'app) route \<Rightarrow> 'v request \<Rightarrow> 'v request" where
  "mount m r req = (if anchored r then req
     else req\<lparr>script_name := drop_slash (script_name req @ matched m), path_info := with_slash (post_match m)\<rparr>)"

definition prepare :: "('v, 'app) found \<Rightarrow> 'v request \<Rightarrow> 'v request" where
  "prepare f req = (case f of (m, ps, r) \<Rightarrow>
     (mount m r req)\<lparr>path_parameters := put_all ps (put_all (defaults r) (path_parameters req)),
        uri_pattern := Some (to_string (tree_of r))\<rparr>)"

definition passes_on :: "'b response \<Rightarrow> bool" where
  "passes_on resp \<longleftrightarrow> map_of (case headers_of resp of Some h \<Rightarrow> h | None \<Rightarrow> []) ''x-cascade'' = Some ''pass''"

definition restored :: "'v request \<Rightarrow> 'v request \<Rightarrow> 'v request" where
  "restored req q = q\<lparr>script_name := script_name req, path_info := path_info req,
     path_parameters := path_parameters req\<rparr>"

definition miss :: "('v, 'app, 'e, 'b) world \<Rightarrow> 'b response" where
  "miss w = \<lparr>status = 404, headers_of = Some [(''x-cascade'', ''pass'')], body = not_found w\<rparr>"

fun serve_from :: "('v, 'app, 'e, 'b) world \<Rightarrow> ('v, 'app) found list \<Rightarrow> 'v request \<Rightarrow>
    ('e + 'b response) \<times> 'v request" where
  "serve_from w [] req = (Inr (miss w), req)"
| "serve_from w (f # fs) req = (case app (snd (snd f)) of
     None \<Rightarrow> serve_from w fs (prepare f req)
   | Some a \<Rightarrow> (case call_app w a (prepare f req) of
       (Inl e, q) \<Rightarrow> (Inl e, q)
     | (Inr resp, q) \<Rightarrow> if passes_on resp then serve_from w fs (restored req q) else (Inr resp, q)))"

definition serve :: "('v, 'app, 'e, 'b) world \<Rightarrow> ('v, 'app) route_set \<Rightarrow> 'v request \<Rightarrow>
    (('e + 'b response) \<times> 'v request \<times> ('v, 'app) route_set) option" where
  "serve w rs req = (case find_routes w rs req of None \<Rightarrow> None
     | Some (fs, rs') \<Rightarrow> (case serve_from w fs req of (r, q) \<Rightarrow> Some (r, q, rs')))"

text \<open>\<open>block\<close> answers whether it is satisfied with a route.\<close>

fun recognize_from :: "(('v, 'app) route \<Rightarrow> (string \<times> 'v) list \<Rightarrow> 'v request \<Rightarrow> bool) \<Rightarrow> ('v, 'app) found list
    \<Rightarrow> 'v request \<Rightarrow> ('v, 'app) route list \<times> 'v request" where
  "recognize_from block [] req = ([], req)"
| "recognize_from block ((m, ps, r) # fs) req =
     (let q = (if anchored r then req else req\<lparr>script_name := matched m, path_info := with_slash (post_match m)\<rparr>)
      in if block r (put_all ps (defaults r)) q then ([r], q)
         else (case recognize_from block fs q of (rs, q') \<Rightarrow> (r # rs, q')))"

end
