(* ===== verification/Journey_Found.thy ===== *)
theory Journey_Found
  imports Journey_Serve
begin

text \<open>
  What the router promises: the route set keeps its partition and its caches right, a request finds
  exactly the routes whose pattern, verb and constraints accept it, in order of precedence, and it
  is served by the first of them whose application does not pass it on, as if the ones before had
  not been asked.
\<close>

section \<open>Well-formed route sets\<close>

definition in_tree :: "('v, 'app) route \<Rightarrow> bool" where
  "in_tree r \<longleftrightarrow> anchored r \<and> requirements_anchored r"

definition route_ok :: "nat \<Rightarrow> ('v, 'app) route \<Rightarrow> bool" where
  "route_ok i r \<longleftrightarrow> number r = i \<and> proper (tree_of r) \<and> set_route (Some i) (tree_of r) = tree_of r"

definition routes_ok :: "engine \<Rightarrow> ('v, 'app) route_set \<Rightarrow> bool" where
  "routes_ok en rs \<longleftrightarrow>
     (\<forall>i < length (all_routes rs). route_ok i (all_routes rs ! i)) \<and>
     anchored_routes rs = filter in_tree (all_routes rs) \<and>
     custom_routes rs = filter (\<lambda>r. \<not> in_tree r) (all_routes rs) \<and>
     (\<forall>n. cached_ast rs = Some n \<longrightarrow> n = Or (map tree_of (anchored_routes rs))) \<and>
     (\<forall>t. cached_simulator rs = Some t \<longrightarrow> transition_table en (Or (map tree_of (anchored_routes rs))) = Some t)"

lemma set_route_twice: "set_route v (set_route u n) = set_route v n"
  by (induction n) simp_all

text \<open>What happens to a route set. \<open>made\<close> is a route whose pattern is proper, as parsed ones are.\<close>

inductive set_step :: "engine \<Rightarrow> ('v, 'app) route_set \<Rightarrow> ('v, 'app) route_set \<Rightarrow> bool" for en where
  adding: "(\<And>i. proper (tree_of (mk i))) \<Longrightarrow> set_step en rs (snd (add_route mk rs))"
| clearing: "set_step en rs (clear_routes rs)"
| asking_ast: "set_step en rs (snd (routes_ast rs))"
| asking_simulator: "routes_simulator en rs = Some (t, rs') \<Longrightarrow> set_step en rs rs'"

lemma add_keeps:
  assumes "routes_ok en rs" "\<And>i. proper (tree_of (mk i))"
  shows "routes_ok en (snd (add_route mk rs))"
proof -
  let ?r = "new_route (length (all_routes rs)) (mk (length (all_routes rs)))"
  have r: "route_ok (length (all_routes rs)) ?r"
    using assms(2) by (simp add: route_ok_def new_route_def set_route_twice)
  have "all_routes (snd (add_route mk rs)) = all_routes rs @ [?r]"
    "anchored_routes (snd (add_route mk rs)) = anchored_routes rs @ (if in_tree ?r then [?r] else [])"
    "custom_routes (snd (add_route mk rs)) = custom_routes rs @ (if in_tree ?r then [] else [?r])"
    "cached_ast (snd (add_route mk rs)) = None" "cached_simulator (snd (add_route mk rs)) = None"
    by (simp_all add: add_route_def Let_def clear_cache_def partition_route_def in_tree_def)
  then show ?thesis using assms(1) r by (auto simp: routes_ok_def nth_append less_Suc_eq)
qed

lemma ast_run:
  assumes "routes_ok en rs"
  shows "fst (routes_ast rs) = Or (map tree_of (anchored_routes rs))" "routes_ok en (snd (routes_ast rs))"
    "all_routes (snd (routes_ast rs)) = all_routes rs" "anchored_routes (snd (routes_ast rs)) = anchored_routes rs"
    "custom_routes (snd (routes_ast rs)) = custom_routes rs" "cached_simulator (snd (routes_ast rs)) = cached_simulator rs"
  using assms by (auto simp: routes_ast_def routes_ok_def Let_def split: option.splits)

lemma simulator_run:
  assumes "routes_ok en rs" "routes_simulator en rs = Some (t, rs')"
  shows "transition_table en (Or (map tree_of (anchored_routes rs))) = Some t" "routes_ok en rs'"
    "all_routes rs' = all_routes rs" "custom_routes rs' = custom_routes rs"
proof -
  have "transition_table en (Or (map tree_of (anchored_routes rs))) = Some t \<and> routes_ok en rs' \<and>
    all_routes rs' = all_routes rs \<and> custom_routes rs' = custom_routes rs"
  proof (cases "cached_simulator rs")
    case (Some u)
    then show ?thesis using assms by (auto simp: routes_simulator_def routes_ok_def)
  next
    case None
    obtain n rs1 where a: "routes_ast rs = (n, rs1)" by (cases "routes_ast rs")
    have n: "n = Or (map tree_of (anchored_routes rs))" "routes_ok en rs1" "all_routes rs1 = all_routes rs"
      "anchored_routes rs1 = anchored_routes rs" "custom_routes rs1 = custom_routes rs"
      using ast_run [OF assms(1)] a by simp_all
    have t: "transition_table en n = Some t" "rs' = rs1\<lparr>cached_simulator := Some t\<rparr>"
      using assms(2) None a by (auto simp: routes_simulator_def split: option.splits)
    then show ?thesis using n by (auto simp: routes_ok_def)
  qed
  then show "transition_table en (Or (map tree_of (anchored_routes rs))) = Some t" "routes_ok en rs'"
    "all_routes rs' = all_routes rs" "custom_routes rs' = custom_routes rs" by blast+
qed

text \<open>
  C30. Whatever is added to a route set, cleared and asked, its routes stay numbered in order and
  partitioned in order, and the cached tree and simulator are those of its anchored routes.
\<close>
theorem route_set_stays_right:
  assumes "(set_step en)\<^sup>*\<^sup>* no_routes rs"
  shows "routes_ok en rs"
  using assms
proof (induction rule: rtranclp_induct)
  case base
  then show ?case by (simp add: routes_ok_def no_routes_def)
next
  case (step rs rs')
  from step(2) show ?case
  proof (cases rule: set_step.cases)
    case (adding mk)
    then show ?thesis using add_keeps [OF step(3)] by blast
  next
    case clearing
    then show ?thesis by (simp add: routes_ok_def clear_routes_def clear_cache_def)
  next
    case asking_ast
    then show ?thesis using ast_run [OF step(3)] by simp
  next
    case (asking_simulator t)
    then show ?thesis using simulator_run [OF step(3)] by blast
  qed
qed

section \<open>The routes of the tree\<close>

definition reads_path :: "engine \<Rightarrow> node \<Rightarrow> string list \<Rightarrow> bool" where
  "reads_path en n ts \<longleftrightarrow> (\<exists>w \<in> set (expansions en n). w \<noteq> [] \<and> consumes en w ts)"

lemma expansion_memo:
  "w \<in> set (expansions en n) \<Longrightarrow> set_route v n = n \<Longrightarrow> x \<in> set w \<Longrightarrow> memo_of x = v"
proof (induction n arbitrary: w x)
  case (Or ns)
  then obtain n where n: "n \<in> set ns" "w \<in> set (expansions en n)" by auto
  have "map (set_route v) ns = ns" using Or.prems(2) by simp
  then have "set_route v n = n" using n(1) by (metis in_set_conv_nth length_map nth_map)
  then show ?case using Or.IH n Or.prems(3) by blast
next
  case (Cat a b)
  then show ?case by auto
qed (auto split: if_splits)

lemma memos_of_set:
  assumes "\<And>r. r \<in> set rs \<Longrightarrow> set_route (Some (number r)) (tree_of r) = tree_of r"
  shows "memos_reading en (Or (map tree_of rs)) ts = {Some (number r) | r. r \<in> set rs \<and> reads_path en (tree_of r) ts}"
proof (intro set_eqI iffI)
  fix m assume "m \<in> memos_reading en (Or (map tree_of rs)) ts"
  then obtain w r where w: "m = memo_of (last w)" "r \<in> set rs" "w \<in> set (expansions en (tree_of r))" "w \<noteq> []"
    "consumes en w ts" by (auto simp: memos_reading_def)
  then have "m = Some (number r)" using expansion_memo [OF w(3) assms [OF w(2)]] last_in_set by blast
  then show "m \<in> {Some (number r) | r. r \<in> set rs \<and> reads_path en (tree_of r) ts}"
    using w by (auto simp: reads_path_def)
next
  fix m assume "m \<in> {Some (number r) | r. r \<in> set rs \<and> reads_path en (tree_of r) ts}"
  then obtain r w where w: "m = Some (number r)" "r \<in> set rs" "w \<in> set (expansions en (tree_of r))" "w \<noteq> []"
    "consumes en w ts" by (auto simp: reads_path_def)
  then have "m = memo_of (last w)" using expansion_memo [OF w(3) assms [OF w(2)]] last_in_set by metis
  then show "m \<in> memos_reading en (Or (map tree_of rs)) ts" using w unfolding memos_reading_def by auto
qed

lemma empty_tree_table:
  "\<exists>t. transition_table en (Or []) = Some t \<and> (\<forall>s. simulator_memos en t s = [])"
proof -
  have "transition_table en (Or []) = Some empty_table"
    by (simp add: transition_table_def build_loop.simps build_state_def group_positions_def Let_def)
  moreover have "simulator_memos en empty_table s = []" for s
    by (simp add: simulator_memos_def is_accepting_def empty_table_def)
  ultimately show ?thesis by blast
qed

lemma tree_table:
  assumes "routes_ok en rs"
  shows "\<exists>t. transition_table en (Or (map tree_of (anchored_routes rs))) = Some t \<and>
    (\<forall>s. set (simulator_memos en t s) = {Some (number r) | r. r \<in> set (anchored_routes rs) \<and>
       reads_path en (tree_of r) (tokens s)})"
proof (cases "anchored_routes rs = []")
  case True
  then show ?thesis using empty_tree_table [of en] by auto
next
  case False
  have ok: "proper (tree_of r) \<and> set_route (Some (number r)) (tree_of r) = tree_of r"
    if "r \<in> set (anchored_routes rs)" for r
  proof -
    have "r \<in> set (all_routes rs)" using that assms by (auto simp: routes_ok_def)
    then obtain i where "i < length (all_routes rs)" "all_routes rs ! i = r" by (auto simp: in_set_conv_nth)
    then show ?thesis using assms by (auto simp: routes_ok_def route_ok_def)
  qed
  then have "proper (Or (map tree_of (anchored_routes rs)))" using False by (auto simp: list_all_iff)
  then obtain t where "transition_table en (Or (map tree_of (anchored_routes rs))) = Some t"
    "\<And>s. set (simulator_memos en t s) = memos_reading en (Or (map tree_of (anchored_routes rs))) (tokens s)"
    using automaton_ends_and_reads by blast
  then show ?thesis using memos_of_set [of "anchored_routes rs" en] ok by auto
qed

lemma in_map_filter: "y \<in> set (List.map_filter f xs) \<longleftrightarrow> (\<exists>x \<in> set xs. f x = Some y)"
proof (induction xs)
  case (Cons x xs)
  then show ?case by (cases "f x") (auto simp: List.map_filter_simps)
qed (simp add: List.map_filter_simps)

lemma filter_routes_run:
  assumes "routes_ok en rs"
  shows "\<exists>l rs'. filter_routes en s rs = Some (l, rs') \<and> routes_ok en rs' \<and> all_routes rs' = all_routes rs \<and>
    custom_routes rs' = custom_routes rs \<and>
    set l = {r \<in> set (anchored_routes rs). reads_path en (tree_of r) (tokens s)}"
proof -
  obtain t where t: "transition_table en (Or (map tree_of (anchored_routes rs))) = Some t"
    "\<And>s. set (simulator_memos en t s) = {Some (number r) | r. r \<in> set (anchored_routes rs) \<and>
       reads_path en (tree_of r) (tokens s)}"
    using tree_table [OF assms] by blast
  let ?rs0 = "snd (routes_ast rs)"
  note ast = ast_run [OF assms]
  have "\<exists>t' rs'. routes_simulator en ?rs0 = Some (t', rs')"
  proof (cases "cached_simulator ?rs0")
    case None
    then show ?thesis using t(1) ast_run(1) [OF ast(2)] ast(4)
      by (cases "routes_ast ?rs0") (simp add: routes_simulator_def)
  qed (simp add: routes_simulator_def)
  then obtain t' rs' where run: "routes_simulator en ?rs0 = Some (t', rs')" by blast
  then have t': "t' = t" and rs': "routes_ok en rs'" "all_routes rs' = all_routes rs" "custom_routes rs' = custom_routes rs"
    using simulator_run [OF ast(2) run] t(1) ast by simp_all
  let ?pick = "\<lambda>m. case m of Some i \<Rightarrow> if i < length (all_routes rs') then Some (all_routes rs' ! i) else None | None \<Rightarrow> None"
  have numbered: "number r < length (all_routes rs) \<and> all_routes rs ! number r = r" if "r \<in> set (anchored_routes rs)" for r
  proof -
    have "r \<in> set (all_routes rs)" using that assms by (auto simp: routes_ok_def)
    then obtain i where "i < length (all_routes rs)" "all_routes rs ! i = r" by (auto simp: in_set_conv_nth)
    then show ?thesis using assms by (auto simp: routes_ok_def route_ok_def)
  qed
  have "set (List.map_filter ?pick (simulator_memos en t s)) =
    {r \<in> set (anchored_routes rs). reads_path en (tree_of r) (tokens s)}"
  proof (intro set_eqI iffI)
    fix r assume "r \<in> set (List.map_filter ?pick (simulator_memos en t s))"
    then obtain i where i: "Some i \<in> set (simulator_memos en t s)" "i < length (all_routes rs)" "all_routes rs ! i = r"
      by (auto simp: in_map_filter rs'(2) split: option.splits if_splits)
    from i(1) obtain r' where "r' \<in> set (anchored_routes rs)" "reads_path en (tree_of r') (tokens s)" "i = number r'"
      unfolding t(2) by blast
    then show "r \<in> {r \<in> set (anchored_routes rs). reads_path en (tree_of r) (tokens s)}"
      using numbered i(3) by auto
  next
    fix r assume r: "r \<in> {r \<in> set (anchored_routes rs). reads_path en (tree_of r) (tokens s)}"
    then have "Some (number r) \<in> set (simulator_memos en t s)" unfolding t(2) by blast
    moreover have "?pick (Some (number r)) = Some r" using numbered r rs'(2) by auto
    ultimately show "r \<in> set (List.map_filter ?pick (simulator_memos en t s))" unfolding in_map_filter by blast
  qed
  moreover have "filter_routes en s rs = Some (List.map_filter ?pick (simulator_memos en t s), rs')"
    by (simp add: filter_routes_def run t')
  ultimately show ?thesis using rs' by blast
qed

section \<open>The routes of a request\<close>

text \<open>The routes whose pattern is taken to accept the path: by the tree, or by their own expression.\<close>

definition candidates :: "('v, 'app, 'e, 'b) world \<Rightarrow> ('v, 'app) route_set \<Rightarrow> string \<Rightarrow> ('v, 'app) route set" where
  "candidates w rs s = {r \<in> set (all_routes rs).
     if in_tree r then reads_path (engine_of w) (tree_of r) (tokens s) else path_match w r s \<noteq> None}"

lemma candidates_split:
  "candidates w rs s = {r \<in> {r \<in> set (all_routes rs). in_tree r}. reads_path (engine_of w) (tree_of r) (tokens s)} \<union>
   {r \<in> {r \<in> set (all_routes rs). \<not> in_tree r}. path_match w r s \<noteq> None}"
proof (rule set_eqI)
  fix r
  show "r \<in> candidates w rs s \<longleftrightarrow>
    r \<in> {r \<in> {r \<in> set (all_routes rs). in_tree r}. reads_path (engine_of w) (tree_of r) (tokens s)} \<union>
      {r \<in> {r \<in> set (all_routes rs). \<not> in_tree r}. path_match w r s \<noteq> None}"
    unfolding candidates_def Un_iff mem_Collect_eq by (cases "in_tree r") (simp_all only: if_True if_False simp_thms)
qed

text \<open>The routes that apply to a request: a HEAD request is for the routes that ask for a verb and
  match it, and for what a GET request would find when there is none.\<close>

definition applies :: "('v, 'app, 'e, 'b) world \<Rightarrow> ('v, 'app) route_set \<Rightarrow> 'v request \<Rightarrow> ('v, 'app) route \<Rightarrow> bool" where
  "applies w rs req r \<longleftrightarrow>
     (let fits = route_matches (show_field w); asks = (\<lambda>r. requires_matching_verb r \<and> fits r req)
      in if head req \<or> request_method req = ''HEAD''
         then (if \<exists>r' \<in> candidates w rs (path_info req). asks r' then asks r
               else fits r (req\<lparr>request_method := ''GET''\<rparr>))
         else fits r req)"

lemma applicable_set:
  assumes "set l = candidates w rs (path_info req)"
  shows "set (applicable (show_field w) l req) = {r \<in> candidates w rs (path_info req). applies w rs req r}"
  using assms by (auto simp: applicable_def match_head_routes_def applies_def Let_def filter_empty_conv)

lemma map_filter_sorted:
  assumes "sorted (map g xs)" and fk: "\<And>x y. f x = Some y \<Longrightarrow> k y = g x"
  shows "sorted (map k (List.map_filter f xs))"
  using assms(1)
proof (induction xs)
  case (Cons x xs)
  have le: "g x \<le> k y" if y: "y \<in> set (List.map_filter f xs)" for y
  proof -
    obtain x' where "x' \<in> set xs" "f x' = Some y" using y unfolding in_map_filter by blast
    then show ?thesis using Cons.prems fk by simp
  qed
  have "sorted (map k (List.map_filter f xs))" using Cons by simp
  then show ?case using le fk by (cases "f x") (auto simp: List.map_filter_simps)
qed (simp add: List.map_filter_simps)

text \<open>
  C28. A request finds exactly the routes whose pattern accepts its path and that apply to its verb
  and fields, each with the match of its own expression and the decoded parameters, in order of
  precedence.
\<close>
theorem requests_find_their_routes:
  assumes "routes_ok (engine_of w) rs"
  shows "\<exists>fs rs'. find_routes w rs req = Some (fs, rs') \<and> routes_ok (engine_of w) rs' \<and>
     sorted (map (\<lambda>(m, ps, r). precedence r) fs) \<and>
     set fs = {(m, path_params_of w m, r) | m r. r \<in> candidates w rs (path_info req) \<and> applies w rs req r \<and>
        path_match w r (path_info req) = Some m}"
proof -
  obtain l rs' where l: "filter_routes (engine_of w) (path_info req) rs = Some (l, rs')" "routes_ok (engine_of w) rs'"
    "all_routes rs' = all_routes rs" "custom_routes rs' = custom_routes rs"
    "set l = {r \<in> set (anchored_routes rs). reads_path (engine_of w) (tree_of r) (tokens (path_info req))}"
    using filter_routes_run [OF assms] by blast
  let ?m = "\<lambda>r. path_match w r (path_info req)"
  let ?routes = "l @ filter (\<lambda>r. ?m r \<noteq> None) (custom_routes rs')"
  let ?sorted = "sort_key precedence (applicable (show_field w) ?routes req)"
  let ?f = "\<lambda>r. map_option (\<lambda>m. (m, path_params_of w m, r)) (?m r)"
  have parts: "set (anchored_routes rs) = {r \<in> set (all_routes rs). in_tree r}"
    "set (custom_routes rs) = {r \<in> set (all_routes rs). \<not> in_tree r}"
    using assms by (simp_all add: routes_ok_def)
  have "set ?routes = set l \<union> {r \<in> set (custom_routes rs). ?m r \<noteq> None}" by (simp only: set_append set_filter l(4))
  also have "\<dots> = candidates w rs (path_info req)" unfolding l(5) parts candidates_split ..
  finally have "set ?routes = candidates w rs (path_info req)" .
  then have s: "set ?sorted = {r \<in> candidates w rs (path_info req). applies w rs req r}"
    unfolding set_sort by (rule applicable_set)
  have run: "find_routes w rs req = Some (List.map_filter ?f ?sorted, rs')"
    using l(1) by (simp add: find_routes_def Let_def)
  have "sorted (map (\<lambda>(m, ps, r). precedence r) (List.map_filter ?f ?sorted))"
    by (rule map_filter_sorted [of precedence]) auto
  moreover have "set (List.map_filter ?f ?sorted) =
     {(m, path_params_of w m, r) | m r. r \<in> candidates w rs (path_info req) \<and> applies w rs req r \<and> ?m r = Some m}"
  proof (intro set_eqI iffI)
    fix x assume "x \<in> set (List.map_filter ?f ?sorted)"
    then obtain r where r: "r \<in> set ?sorted" "?f r = Some x" unfolding in_map_filter by blast
    then obtain m where "?m r = Some m" "x = (m, path_params_of w m, r)" by auto
    then show "x \<in> {(m, path_params_of w m, r) | m r. r \<in> candidates w rs (path_info req) \<and>
        applies w rs req r \<and> ?m r = Some m}" using r(1) unfolding s by blast
  next
    fix x assume "x \<in> {(m, path_params_of w m, r) | m r. r \<in> candidates w rs (path_info req) \<and>
        applies w rs req r \<and> ?m r = Some m}"
    then obtain m r where x: "x = (m, path_params_of w m, r)" "?m r = Some m" "r \<in> set ?sorted" unfolding s by blast
    then have "?f r = Some x" by simp
    with x(3) show "x \<in> set (List.map_filter ?f ?sorted)" unfolding in_map_filter by blast
  qed
  ultimately show ?thesis using run l(2) by blast
qed

section \<open>Serving\<close>

text \<open>What an application must not touch of the request it is handed, for the others to see it.\<close>

definition core :: "'v request \<Rightarrow> string \<times> bool \<times> (string \<Rightarrow> 'v field)" where
  "core req = (request_method req, head req, own_fields req)"

definition considerate :: "('v, 'app, 'e, 'b) world \<Rightarrow> bool" where
  "considerate w \<longleftrightarrow> (\<forall>a q. core (snd (call_app w a q)) = core q)"

definition answer :: "('v, 'app, 'e, 'b) world \<Rightarrow> 'v request \<Rightarrow> ('v, 'app) found \<Rightarrow> ('e + 'b response) \<times> 'v request" where
  "answer w req f = call_app w (the (app (snd (snd f)))) (prepare f req)"

definition takes :: "('v, 'app, 'e, 'b) world \<Rightarrow> 'v request \<Rightarrow> ('v, 'app) found \<Rightarrow> bool" where
  "takes w req f \<longleftrightarrow> (case fst (answer w req f) of Inl e \<Rightarrow> True | Inr resp \<Rightarrow> \<not> passes_on resp)"

definition same_but_pattern :: "'v request \<Rightarrow> 'v request \<Rightarrow> bool" where
  "same_but_pattern q req \<longleftrightarrow> q\<lparr>uri_pattern := None\<rparr> = req\<lparr>uri_pattern := None\<rparr>"

lemma prepare_same: "same_but_pattern q req \<Longrightarrow> prepare f q = prepare f req"
  by (cases f; cases q; cases req) (simp add: same_but_pattern_def prepare_def mount_def)

lemma prepare_core: "core (prepare f req) = core req"
  by (cases f) (simp add: prepare_def mount_def core_def)

lemma restored_same: "core q = core req \<Longrightarrow> same_but_pattern (restored req q) req"
  by (cases q; cases req) (simp add: core_def same_but_pattern_def restored_def)

text \<open>
  C29. When every found route has an application and no application changes the verb or the fields of
  a request it passes on, a request is served by the first application that takes it, on the request
  prepared from the original one; when none does, the answer is 404 and the request is left as it
  was but for the recorded pattern. (A found route without an application is the exception stated below.)
\<close>
theorem first_taker_serves:
  assumes "considerate w" and "\<And>f. f \<in> set fs \<Longrightarrow> app (snd (snd f)) \<noteq> None"
  shows "case List.find (takes w req) fs of
     Some f \<Rightarrow> serve_from w fs req = answer w req f
   | None \<Rightarrow> fst (serve_from w fs req) = Inr (miss w) \<and> same_but_pattern (snd (serve_from w fs req)) req"
proof -
  have "case List.find (takes w req) fs of
     Some f \<Rightarrow> serve_from w fs q = answer w req f
   | None \<Rightarrow> fst (serve_from w fs q) = Inr (miss w) \<and> same_but_pattern (snd (serve_from w fs q)) req"
    if "same_but_pattern q req" for q
    using assms(2) that
  proof (induction fs arbitrary: q)
    case Nil
    then show ?case by simp
  next
    case (Cons f fs)
    obtain a where a: "app (snd (snd f)) = Some a" using Cons.prems(1) [of f] by auto
    have p: "prepare f q = prepare f req" by (rule prepare_same [OF Cons.prems(2)])
    obtain r u where call: "call_app w a (prepare f req) = (r, u)" by fastforce
    then have ans: "answer w req f = (r, u)" using a by (simp add: answer_def)
    have "core u = core req" using assms(1) call prepare_core by (metis considerate_def snd_conv)
    moreover have "restored q u = restored req u"
      using Cons.prems(2) by (cases q; cases req) (simp add: restored_def same_but_pattern_def)
    ultimately have next': "same_but_pattern (restored q u) req" using restored_same by metis
    show ?case
    proof (cases "takes w req f")
      case True
      then show ?thesis using a p call ans by (auto simp: takes_def split: sum.splits)
    next
      case False
      then obtain resp where "r = Inr resp" "passes_on resp" using ans by (auto simp: takes_def split: sum.splits)
      then have step: "serve_from w (f # fs) q = serve_from w fs (restored q u)" using a p call by simp
      have find: "List.find (takes w req) (f # fs) = List.find (takes w req) fs" using False by simp
      show ?thesis unfolding step find by (rule Cons.IH [OF _ next']) (rule Cons.prems(1), simp)
    qed
  qed
  then show ?thesis by (simp add: same_but_pattern_def)
qed

text \<open>
  A route without an application is skipped with the request still prepared for it: what comes after
  it, down to the 404 answer, sees its script name, its path and its parameters.
\<close>
lemma skipped_route_leaves_its_mark:
  assumes "app r = None"
  shows "serve_from w ((m, ps, r) # fs) req = serve_from w fs (prepare (m, ps, r) req)"
    "serve_from w [(m, ps, r)] req = (Inr (miss w), prepare (m, ps, r) req)"
  using assms by simp_all

section \<open>An example\<close>

text \<open>Two applications under \<open>/a\<close>: the first passes every request on, the second answers.\<close>

definition sample_route :: "nat \<Rightarrow> (nat, nat) route" where
  "sample_route i = \<lparr>number = i, precedence = i, anchored = True,
     tree_of = Cat (Slash ''/'' (Some i)) (Literal ''a'' (Some i)), array_requirements = [],
     verbs = [Verb ''GET''], constraints = [(''xhr'', Missing)], defaults = [(''n'', i)], app = Some i\<rparr>"

definition sample_routes :: "(nat, nat) route_set" where
  "sample_routes = snd (add_route sample_route (snd (add_route sample_route no_routes)))"

definition sample_world :: "(nat, nat, unit, unit) world" where
  "sample_world = \<lparr>engine_of = \<lparr>accepts = (\<lambda>n s. False), finds_empty = (\<lambda>n. False)\<rparr>, show_field = (\<lambda>v. []),
     path_match = (\<lambda>r s. if s = ''/a'' then Some \<lparr>captured = [], matched = s, post_match = []\<rparr> else None),
     param_value = length, unescape = id,
     call_app = (\<lambda>a q. (Inr \<lparr>status = 200, headers_of = (if a = 0 then Some [(''x-cascade'', ''pass'')] else None),
       body = ()\<rparr>, q\<lparr>path_parameters := []\<rparr>)), not_found = ()\<rparr>"

definition sample_request :: "nat request" where
  "sample_request = \<lparr>path_info = ''/a'', script_name = [], request_method = ''GET'', head = False,
     own_fields = (\<lambda>n. FUndefined), path_parameters = [(''locale'', 9)], uri_pattern = None\<rparr>"

lemma sample_steps: "(set_step en)\<^sup>*\<^sup>* no_routes sample_routes"
proof -
  have "set_step en no_routes (snd (add_route sample_route no_routes))"
    by (rule adding) (simp add: sample_route_def end_node_def)
  moreover have "set_step en (snd (add_route sample_route no_routes)) sample_routes"
    unfolding sample_routes_def by (rule adding) (simp add: sample_route_def end_node_def)
  ultimately show ?thesis by (meson rtranclp.intros)
qed

lemma sample_routes_ok: "routes_ok en sample_routes"
proof -
  have "routes_ok en no_routes" by (simp add: routes_ok_def no_routes_def)
  then show ?thesis unfolding sample_routes_def
    by (intro add_keeps) (simp_all add: sample_route_def end_node_def)
qed

lemma route_set_stays_right_example: "routes_ok (engine_of sample_world) sample_routes"
  by (rule route_set_stays_right [OF sample_steps])

lemma requests_find_their_routes_example:
  "\<exists>fs rs'. find_routes sample_world sample_routes sample_request = Some (fs, rs') \<and>
     routes_ok (engine_of sample_world) rs' \<and> sorted (map (\<lambda>(m, ps, r). precedence r) fs) \<and>
     set fs = {(m, path_params_of sample_world m, r) | m r.
        r \<in> candidates sample_world sample_routes (path_info sample_request) \<and>
        applies sample_world sample_routes sample_request r \<and>
        path_match sample_world r (path_info sample_request) = Some m}"
  by (rule requests_find_their_routes [OF sample_routes_ok])

definition sample_found :: "nat \<Rightarrow> (nat, nat) found" where
  "sample_found i = (\<lparr>captured = [], matched = ''/a'', post_match = []\<rparr>, [], sample_route i)"

lemma first_taker_serves_example:
  "serve_from sample_world [sample_found 0, sample_found 1] sample_request =
     answer sample_world sample_request (sample_found 1)"
proof -
  have "considerate sample_world" by (simp add: considerate_def sample_world_def core_def)
  moreover have "app (snd (snd f)) \<noteq> None" if "f \<in> set [sample_found 0, sample_found 1]" for f
    using that by (auto simp: sample_found_def sample_route_def)
  moreover have "\<not> takes sample_world sample_request (sample_found 0)" "takes sample_world sample_request (sample_found 1)"
    by (simp_all add: takes_def answer_def sample_world_def sample_found_def sample_route_def passes_on_def)
  ultimately show ?thesis
    using first_taker_serves [of sample_world "[sample_found 0, sample_found 1]" sample_request] by simp
qed

end
