(* ===== verification/Journey_Uri.thy ===== *)
theory Journey_Uri
  imports Prelude
begin

text \<open>
  The text of paths, \<^verbatim>\<open>packages/actionpack/src/action-dispatch/journey/router/utils.ts\<close>: escaping,
  unescaping and normalizing.

  A string is the list of its code points, a lone surrogate being one of its own, as the regular
  expressions with the flag \<open>u\<close> and the iterator of a string see it. \<open>utf8\<close> is the \<open>TextEncoder\<close>,
  \<open>text_decode\<close> the \<open>TextDecoder\<close> of the standard, which replaces what is not well-formed and drops
  a leading byte order mark.
\<close>

type_synonym codes = "nat list"

definition codes_of :: "string \<Rightarrow> codes" where
  "codes_of s = map of_char s"

section \<open>UTF-8\<close>

definition surrogate :: "nat \<Rightarrow> bool" where
  "surrogate c \<longleftrightarrow> 0xD800 \<le> c \<and> c < 0xE000"

definition scalar :: "nat \<Rightarrow> bool" where
  "scalar c \<longleftrightarrow> c < 0x110000 \<and> \<not> surrogate c"

definition utf8 :: "nat \<Rightarrow> nat list" where
  "utf8 c = (if surrogate c then [0xEF, 0xBF, 0xBD]
     else if c < 0x80 then [c]
     else if c < 0x800 then [0xC0 + c div 64, 0x80 + c mod 64]
     else if c < 0x10000 then [0xE0 + c div 64 div 64, 0x80 + c div 64 mod 64, 0x80 + c mod 64]
     else [0xF0 + c div 64 div 64 div 64, 0x80 + c div 64 div 64 mod 64, 0x80 + c div 64 mod 64, 0x80 + c mod 64])"

text \<open>The decoder's state: how many bytes are still needed, the bits so far and the range of the next.\<close>

function decode :: "(nat \<times> nat \<times> nat \<times> nat) option \<Rightarrow> nat list \<Rightarrow> codes" where
  "decode None [] = []"
| "decode (Some st) [] = [0xFFFD]"
| "decode None (b # bs) =
     (if b < 0x80 then b # decode None bs
      else if 0xC2 \<le> b \<and> b \<le> 0xDF then decode (Some (1, b - 0xC0, 0x80, 0xBF)) bs
      else if 0xE0 \<le> b \<and> b \<le> 0xEF then
        decode (Some (2, b - 0xE0, if b = 0xE0 then 0xA0 else 0x80, if b = 0xED then 0x9F else 0xBF)) bs
      else if 0xF0 \<le> b \<and> b \<le> 0xF4 then
        decode (Some (3, b - 0xF0, if b = 0xF0 then 0x90 else 0x80, if b = 0xF4 then 0x8F else 0xBF)) bs
      else 0xFFFD # decode None bs)"
| "decode (Some (k, cp, lo, hi)) (b # bs) =
     (if b < lo \<or> hi < b then 0xFFFD # decode None (b # bs)
      else if k = 1 then (cp * 64 + (b - 0x80)) # decode None bs
      else decode (Some (k - 1, cp * 64 + (b - 0x80), 0x80, 0xBF)) bs)"
  by pat_completeness auto
termination
  by (relation "measure (\<lambda>(st, bs). 2 * length bs + (if st = None then 0 else 1))") auto

definition text_decode :: "nat list \<Rightarrow> codes" where
  "text_decode bs = decode None (if take 3 bs = [0xEF, 0xBB, 0xBF] then drop 3 bs else bs)"

section \<open>Escaping\<close>

definition alnum :: "nat \<Rightarrow> bool" where
  "alnum c \<longleftrightarrow> 97 \<le> c \<and> c \<le> 122 \<or> 65 \<le> c \<and> c \<le> 90 \<or> 48 \<le> c \<and> c \<le> 57"

definition safe_segment :: "nat \<Rightarrow> bool" where
  "safe_segment c \<longleftrightarrow> alnum c \<or> c \<in> set (codes_of ''-._~!$&()*+,;=:@'') \<or> c = 39"

definition safe_path :: "nat \<Rightarrow> bool" where
  "safe_path c \<longleftrightarrow> safe_segment c \<or> c = 47"

definition safe_fragment :: "nat \<Rightarrow> bool" where
  "safe_fragment c \<longleftrightarrow> safe_path c \<or> c = 63"

definition hex_digit :: "nat \<Rightarrow> nat" where
  "hex_digit n = (if n < 10 then 48 + n else 55 + n)"

definition pct_encode_byte :: "nat \<Rightarrow> codes" where
  "pct_encode_byte b = [37, hex_digit (b div 16), hex_digit (b mod 16)]"

definition pct_encode :: "nat \<Rightarrow> codes" where
  "pct_encode c = concat (map pct_encode_byte (utf8 c))"

definition escape_with :: "(nat \<Rightarrow> bool) \<Rightarrow> codes \<Rightarrow> codes" where
  "escape_with safe s = concat (map (\<lambda>c. if safe c then [c] else pct_encode c) s)"

definition escape_path :: "codes \<Rightarrow> codes" where "escape_path = escape_with safe_path"
definition escape_segment :: "codes \<Rightarrow> codes" where "escape_segment = escape_with safe_segment"
definition escape_fragment :: "codes \<Rightarrow> codes" where "escape_fragment = escape_with safe_fragment"

text \<open>\<open>encodeURIComponent\<close> throws for a lone surrogate; \<open>!'()~\<close>, which it leaves alone, are escaped
  after it and an escaped space becomes a plus sign.\<close>

definition kept_by_rack :: "nat \<Rightarrow> bool" where
  "kept_by_rack c \<longleftrightarrow> alnum c \<or> c \<in> set (codes_of ''-_.*'')"

definition rack_escape :: "codes \<Rightarrow> codes option" where
  "rack_escape s = (if list_ex surrogate s then None
     else Some (concat (map (\<lambda>c. if kept_by_rack c then [c] else if c = 32 then [43] else pct_encode c) s)))"

section \<open>Unescaping\<close>

definition hex_value :: "nat \<Rightarrow> nat option" where
  "hex_value c = (if 48 \<le> c \<and> c \<le> 57 then Some (c - 48)
     else if 97 \<le> c \<and> c \<le> 102 then Some (c - 87)
     else if 65 \<le> c \<and> c \<le> 70 then Some (c - 55) else None)"

fun unescape_bytes :: "codes \<Rightarrow> nat list" where
  "unescape_bytes (c # a # b # cs) =
     (if c = 37 \<and> hex_value a \<noteq> None \<and> hex_value b \<noteq> None
      then (16 * the (hex_value a) + the (hex_value b)) # unescape_bytes cs
      else utf8 c @ unescape_bytes (a # b # cs))"
| "unescape_bytes (c # cs) = utf8 c @ unescape_bytes cs"
| "unescape_bytes [] = []"

definition unescape_uri :: "codes \<Rightarrow> codes" where
  "unescape_uri s = text_decode (unescape_bytes s)"

section \<open>Normalizing\<close>

fun squeeze :: "codes \<Rightarrow> codes" where
  "squeeze (c # d # cs) = (if c = 47 \<and> d = 47 then squeeze (d # cs) else c # squeeze (d # cs))"
| "squeeze cs = cs"

definition lower_hex :: "nat \<Rightarrow> bool" where
  "lower_hex c \<longleftrightarrow> 97 \<le> c \<and> c \<le> 102 \<or> 48 \<le> c \<and> c \<le> 57"

definition up_hex :: "nat \<Rightarrow> nat" where
  "up_hex c = (if 97 \<le> c \<and> c \<le> 122 then c - 32 else c)"

fun upcase_escapes :: "codes \<Rightarrow> codes" where
  "upcase_escapes (c # a # b # cs) =
     (if c = 37 \<and> lower_hex a \<and> lower_hex b then c # up_hex a # up_hex b # upcase_escapes cs
      else c # upcase_escapes (a # b # cs))"
| "upcase_escapes cs = cs"

definition normalize_path :: "codes option \<Rightarrow> codes" where
  "normalize_path path = (let p = squeeze (47 # (case path of Some s \<Rightarrow> s | None \<Rightarrow> []))
     in if p = [47] then p
        else upcase_escapes (if last p = 47 then butlast p else p))"

section \<open>Encoding and decoding\<close>

lemma decode_utf8:
  assumes "scalar c"
  shows "decode None (utf8 c @ bs) = c # decode None bs"
proof -
  have c: "c < 1114112" "\<not> (55296 \<le> c \<and> c < 57344)" using assms by (simp_all add: scalar_def surrogate_def)
  have s: "\<not> surrogate c" using assms by (simp add: scalar_def)
  consider "c < 128" | "128 \<le> c" "c < 2048" | "2048 \<le> c" "c < 65536" | "65536 \<le> c" by linarith
  then show ?thesis
  proof cases
    case 1
    then show ?thesis using s by (simp add: utf8_def)
  next
    case 2
    define a where "a = c div 64"
    define l where "l = c mod 64"
    have eq: "c = a * 64 + l" by (simp add: a_def l_def)
    have l: "l < 64" by (simp add: l_def)
    have a: "2 \<le> a" "a < 32" using 2 eq l by linarith+
    have "utf8 c = [192 + a, 128 + l]" using 2 s by (simp add: utf8_def a_def l_def)
    then show ?thesis using a l by (simp add: eq)
  next
    case 3
    define a where "a = c div 64 div 64"
    define m where "m = c div 64 mod 64"
    define l where "l = c mod 64"
    have eq: "c = (a * 64 + m) * 64 + l" by (simp add: a_def m_def l_def)
    have lin: "c = 4096 * a + 64 * m + l" using eq by simp
    have m: "m < 64" and l: "l < 64" by (simp_all add: m_def l_def)
    have a: "a < 16" using 3 lin by linarith
    have lo: "a = 0 \<longrightarrow> \<not> m < 32" using 3 lin l by linarith
    have hi: "a = 13 \<longrightarrow> \<not> 31 < m" using c(2) 3 lin l m by linarith
    have "utf8 c = [224 + a, 128 + m, 128 + l]" using 3 s by (simp add: utf8_def a_def m_def l_def)
    then show ?thesis using a lo hi m l by (simp add: eq)
  next
    case 4
    define a where "a = c div 64 div 64 div 64"
    define b where "b = c div 64 div 64 mod 64"
    define m where "m = c div 64 mod 64"
    define l where "l = c mod 64"
    have eq: "c = ((a * 64 + b) * 64 + m) * 64 + l" by (simp add: a_def b_def m_def l_def)
    have b: "b < 64" and m: "m < 64" and l: "l < 64" by (simp_all add: b_def m_def l_def)
    have lin: "c = 262144 * a + 4096 * b + 64 * m + l" using eq by simp
    have a: "a \<le> 4" using c(1) lin by linarith
    have lo: "a = 0 \<longrightarrow> \<not> b < 16" using 4 lin l m by linarith
    have hi: "a = 4 \<longrightarrow> \<not> 15 < b" using c(1) lin by linarith
    have "utf8 c = [240 + a, 128 + b, 128 + m, 128 + l]" using 4 s by (simp add: utf8_def a_def b_def m_def l_def)
    then show ?thesis using a lo hi b m l by (simp add: eq)
  qed
qed

lemma decode_all: "list_all scalar s \<Longrightarrow> decode None (concat (map utf8 s)) = s"
  by (induction s) (simp_all add: decode_utf8)

lemma text_decode_all:
  assumes "list_all scalar s"
  shows "text_decode (concat (map utf8 s)) = (if take 1 s = [0xFEFF] then tl s else s)"
proof -
  let ?bs = "concat (map utf8 s)"
  have s: "decode None ?bs = s" by (rule decode_all [OF assms])
  show ?thesis
  proof (cases "take 3 ?bs = [239, 187, 191]")
    case True
    then have bs: "?bs = [239, 187, 191] @ drop 3 ?bs" by (metis append_take_drop_id)
    have "s = decode None ([239, 187, 191] @ drop 3 ?bs)" using s bs by simp
    then have "s = 65279 # decode None (drop 3 ?bs)" by simp
    then show ?thesis using True by (simp add: text_decode_def) (metis list.sel(3) take_Suc_Cons take0 take_0)
  next
    case False
    have "take 1 s \<noteq> [65279]"
    proof
      assume "take 1 s = [65279]"
      then obtain t where "s = 65279 # t" by (cases s) simp_all
      then show False using False by (simp add: utf8_def surrogate_def)
    qed
    then show ?thesis using False s by (simp add: text_decode_def)
  qed
qed

lemma hex_value_digit: "n < 16 \<Longrightarrow> hex_value (hex_digit n) = Some n"
  by (simp add: hex_value_def hex_digit_def)

lemma unescape_plain: "c \<noteq> 37 \<Longrightarrow> unescape_bytes (c # cs) = utf8 c @ unescape_bytes cs"
proof (cases cs)
  case (Cons a ds)
  then show "c \<noteq> 37 \<Longrightarrow> unescape_bytes (c # cs) = utf8 c @ unescape_bytes cs" by (cases ds) simp_all
qed simp

lemma unescape_byte: "b < 256 \<Longrightarrow> unescape_bytes (pct_encode_byte b @ cs) = b # unescape_bytes cs"
  by (simp add: pct_encode_byte_def hex_value_digit less_mult_imp_div_less)

lemma utf8_bytes: "c < 0x110000 \<Longrightarrow> b \<in> set (utf8 c) \<Longrightarrow> b < 256"
proof -
  assume c: "c < 1114112" and b: "b \<in> set (utf8 c)"
  have "x mod 64 < 64" for x :: nat by simp
  moreover have "c < 2048 \<Longrightarrow> c div 64 < 32" "c < 65536 \<Longrightarrow> c div 64 div 64 < 16" "c div 64 div 64 div 64 < 5"
    using c by simp_all
  ultimately show "b < 256" using b by (auto simp: utf8_def trans_less_add1 less_imp_le split: if_splits)
qed

lemma unescape_pct: "c < 0x110000 \<Longrightarrow> unescape_bytes (pct_encode c @ cs) = utf8 c @ unescape_bytes cs"
proof -
  assume "c < 1114112"
  then have "\<forall>b \<in> set (utf8 c). b < 256" using utf8_bytes by blast
  then have "unescape_bytes (concat (map pct_encode_byte bs) @ cs) = bs @ unescape_bytes cs" if "set bs \<subseteq> set (utf8 c)" for bs
    using that by (induction bs) (simp_all add: unescape_byte)
  then show "unescape_bytes (pct_encode c @ cs) = utf8 c @ unescape_bytes cs" by (simp add: pct_encode_def)
qed

lemma unescape_escape_bytes:
  assumes "\<not> safe 37" "list_all (\<lambda>c. c < 0x110000) s"
  shows "unescape_bytes (escape_with safe s) = concat (map utf8 s)"
  using assms(2)
proof (induction s)
  case (Cons c s)
  then show ?case using assms(1) by (cases "c = 37") (simp_all add: escape_with_def unescape_pct unescape_plain)
qed (simp add: escape_with_def)

lemma unescape_escape:
  assumes "\<not> safe 37" "list_all scalar s"
  shows "unescape_uri (escape_with safe s) = (if take 1 s = [0xFEFF] then tl s else s)"
proof -
  have "list_all (\<lambda>c. c < 0x110000) s" using assms(2) by (simp add: list_all_iff scalar_def)
  then show ?thesis using assms by (simp add: unescape_uri_def unescape_escape_bytes text_decode_all)
qed

lemma percent_unsafe: "\<not> safe_segment 37" "\<not> safe_path 37" "\<not> safe_fragment 37"
  by (simp_all add: safe_segment_def safe_path_def safe_fragment_def alnum_def codes_of_def)

text \<open>
  C34. What is escaped for a path, a segment or a fragment is unescaped to the text it was, up to a
  leading byte order mark, which the decoder drops.
\<close>
theorem escaped_text_reads_back:
  assumes "list_all scalar s" "escape \<in> {escape_path, escape_segment, escape_fragment}"
  shows "unescape_uri (escape s) = (if take 1 s = [0xFEFF] then tl s else s)"
  using assms percent_unsafe by (auto simp: escape_path_def escape_segment_def escape_fragment_def unescape_escape)

lemma escaped_text_reads_back_example:
  "unescape_uri (escape_segment [47, 0xE9, 0x20AC, 0x1F600, 37]) = [47, 0xE9, 0x20AC, 0x1F600, 37] \<and>
   unescape_uri (escape_path [0xFEFF, 97]) = [97]"
  using escaped_text_reads_back [of "[47, 0xE9, 0x20AC, 0x1F600, 37]" escape_segment]
    escaped_text_reads_back [of "[0xFEFF, 97]" escape_path]
  by (simp add: scalar_def surrogate_def)

section \<open>What escaped text consists of\<close>

lemma hex_digit_ascii: "n < 16 \<Longrightarrow> alnum (hex_digit n)"
  by (simp add: hex_digit_def alnum_def)

lemma pct_encode_chars: "c < 0x110000 \<Longrightarrow> d \<in> set (pct_encode c) \<Longrightarrow> d = 37 \<or> alnum d"
proof -
  assume c: "c < 1114112" and d: "d \<in> set (pct_encode c)"
  then obtain b where b: "b \<in> set (utf8 c)" "d \<in> set (pct_encode_byte b)" by (auto simp: pct_encode_def)
  then have "b < 256" using utf8_bytes c by blast
  then show "d = 37 \<or> alnum d" using b(2)
    by (auto simp: pct_encode_byte_def intro!: hex_digit_ascii)
qed

lemma escaped_chars:
  assumes "list_all (\<lambda>c. c < 0x110000) s" "d \<in> set (escape_with safe s)"
  shows "d = 37 \<or> alnum d \<or> safe d"
  using assms by (auto simp: escape_with_def list_all_iff split: if_splits dest: pct_encode_chars)

section \<open>Normal paths\<close>

lemma squeeze_head: "squeeze (c # cs) \<noteq> [] \<and> hd (squeeze (c # cs)) = c"
  by (induction "c # cs" arbitrary: c cs rule: squeeze.induct) auto

definition single_slashes :: "codes \<Rightarrow> bool" where
  "single_slashes cs \<longleftrightarrow> (\<forall>i. Suc i < length cs \<longrightarrow> \<not> (cs ! i = 47 \<and> cs ! Suc i = 47))"

lemma single_slashes_Cons:
  "single_slashes (c # cs) \<longleftrightarrow> \<not> (c = 47 \<and> take 1 cs = [47]) \<and> single_slashes cs"
proof
  assume a: "single_slashes (c # cs)"
  have "\<not> (c = 47 \<and> take 1 cs = [47])" using a [unfolded single_slashes_def, rule_format, of 0] by (cases cs) auto
  moreover have "single_slashes cs" using a unfolding single_slashes_def
    by (metis Suc_less_eq length_Cons nth_Cons_Suc)
  ultimately show "\<not> (c = 47 \<and> take 1 cs = [47]) \<and> single_slashes cs" by blast
next
  assume a: "\<not> (c = 47 \<and> take 1 cs = [47]) \<and> single_slashes cs"
  show "single_slashes (c # cs)" unfolding single_slashes_def
  proof (intro allI impI)
    fix i assume i: "Suc i < length (c # cs)"
    show "\<not> ((c # cs) ! i = 47 \<and> (c # cs) ! Suc i = 47)"
    proof (cases i)
      case 0
      then show ?thesis using a i by (cases cs) auto
    next
      case (Suc j)
      then show ?thesis using a i by (simp add: single_slashes_def)
    qed
  qed
qed

lemma squeeze_single: "single_slashes (squeeze cs)"
proof (induction cs rule: squeeze.induct)
  case (1 c d cs)
  show ?case
  proof (cases "c = 47 \<and> d = 47")
    case False
    have "take 1 (squeeze (d # cs)) = [d]"
      using squeeze_head [of d cs] by (cases "squeeze (d # cs)") auto
    then show ?thesis using 1(2) [OF False] False by (auto simp: single_slashes_Cons)
  qed (use 1(1) in auto)
qed (simp_all add: single_slashes_def)

lemma squeeze_id: "single_slashes cs \<Longrightarrow> squeeze cs = cs"
  by (induction cs rule: squeeze.induct) (auto simp: single_slashes_Cons)

lemma up_hex_slash: "up_hex c = 47 \<longleftrightarrow> c = 47"
  by (auto simp: up_hex_def)

lemma upcase_length: "length (upcase_escapes cs) = length cs"
  by (induction cs rule: upcase_escapes.induct) simp_all

lemma upcase_slash: "i < length cs \<Longrightarrow> upcase_escapes cs ! i = 47 \<longleftrightarrow> cs ! i = 47"
proof (induction cs arbitrary: i rule: upcase_escapes.induct)
  case (1 c a b cs)
  show ?case
  proof (cases "c = 37 \<and> lower_hex a \<and> lower_hex b")
    case True
    consider "i = 0" | "i = 1" | "i = 2" | j where "i = Suc (Suc (Suc j))"
      by (metis One_nat_def Suc_1 not0_implies_Suc)
    then show ?thesis
    proof cases
      case 4
      then show ?thesis using 1 True by simp
    qed (use True in \<open>simp_all add: up_hex_slash numeral_2_eq_2\<close>)
  next
    case False
    then show ?thesis using 1 by (cases i) auto
  qed
qed simp_all

lemma upcase_head: "take 1 (upcase_escapes cs) = take 1 cs"
  by (cases cs rule: upcase_escapes.cases) simp_all

lemma upcase_twice: "upcase_escapes (upcase_escapes cs) = upcase_escapes cs"
proof (induction cs rule: upcase_escapes.induct)
  case (1 c a b cs)
  have plain: "upcase_escapes (x # ds) = x # upcase_escapes ds" if "x \<noteq> 37" for x ds
    using that by (cases ds; cases "tl ds") simp_all
  show ?case
  proof (cases "c = 37 \<and> lower_hex a \<and> lower_hex b")
    case True
    have "up_hex a \<noteq> 37" "up_hex b \<noteq> 37" using True by (auto simp: up_hex_def lower_hex_def)
    moreover have "up_hex (up_hex x) = up_hex x" for x by (auto simp: up_hex_def)
    ultimately show ?thesis using 1(1) [OF True] True by (simp add: plain)
  next
    case False
    have IH: "upcase_escapes (upcase_escapes (a # b # cs)) = upcase_escapes (a # b # cs)" by (rule 1(2) [OF False])
    obtain x y zs where u: "upcase_escapes (a # b # cs) = x # y # zs"
      using upcase_length [of "a # b # cs"] by (metis length_Suc_conv)
    have "x = a" using upcase_head [of "a # b # cs"] u by simp
    moreover have "y = b" if "a \<noteq> 37"
      using plain [OF that, of "b # cs"] upcase_head [of "b # cs"] u by (metis list.inject take_Suc_Cons take0 One_nat_def)
    ultimately have "\<not> (c = 37 \<and> lower_hex x \<and> lower_hex y)" using False by (auto simp: lower_hex_def)
    then show ?thesis using IH False u by auto
  qed
qed simp_all


lemma normal_body:
  assumes "p \<noteq> []" "hd p = 47" "single_slashes p" "p \<noteq> [47]"
  shows "hd (if last p = 47 then butlast p else p) = 47" "(if last p = 47 then butlast p else p) \<noteq> []"
    "single_slashes (if last p = 47 then butlast p else p)" "last (if last p = 47 then butlast p else p) \<noteq> 47"
proof -
  obtain q where p: "p = 47 # q" "q \<noteq> []" using assms by (cases p) auto
  have b: "single_slashes (butlast p)" using assms(3) by (auto simp: single_slashes_def nth_butlast)
  have "last (butlast p) \<noteq> 47" if "last p = 47"
  proof -
    obtain n where n: "length p = Suc (Suc n)" using p by (cases q) auto
    have "p ! n = last (butlast p)" "p ! Suc n = last p"
      using n by (simp_all add: last_conv_nth nth_butlast p flip: length_0_conv)
    then show ?thesis using assms(3) n that by (auto simp: single_slashes_def)
  qed
  then show "hd (if last p = 47 then butlast p else p) = 47" "(if last p = 47 then butlast p else p) \<noteq> []"
    "single_slashes (if last p = 47 then butlast p else p)" "last (if last p = 47 then butlast p else p) \<noteq> 47"
    using b assms p by auto
qed

lemma normalized:
  "hd (normalize_path path) = 47 \<and> normalize_path path \<noteq> [] \<and> single_slashes (normalize_path path) \<and>
   (normalize_path path = [47] \<or> last (normalize_path path) \<noteq> 47) \<and>
   upcase_escapes (normalize_path path) = normalize_path path"
proof -
  define p where "p = squeeze (47 # (case path of Some s \<Rightarrow> s | None \<Rightarrow> []))"
  have p: "p \<noteq> []" "hd p = 47" "single_slashes p"
    unfolding p_def using squeeze_head squeeze_single by blast+
  show ?thesis
  proof (cases "p = [47]")
    case True
    then have "normalize_path path = [47]" by (simp add: normalize_path_def p_def Let_def)
    then show ?thesis by (simp add: single_slashes_def)
  next
    case False
    define b where "b = (if last p = 47 then butlast p else p)"
    have b: "hd b = 47" "b \<noteq> []" "single_slashes b" "last b \<noteq> 47"
      unfolding b_def by (rule normal_body [OF p False])+
    have n: "normalize_path path = upcase_escapes b" using False by (simp add: normalize_path_def p_def b_def Let_def)
    have len: "length (upcase_escapes b) = length b" by (rule upcase_length)
    then have "upcase_escapes b \<noteq> []" using b(2) by auto
    moreover have "hd (upcase_escapes b) = 47"
      using b(1,2) \<open>upcase_escapes b \<noteq> []\<close> upcase_slash [of 0 b] by (simp add: hd_conv_nth)
    moreover have "last (upcase_escapes b) \<noteq> 47"
      using b(2,4) \<open>upcase_escapes b \<noteq> []\<close> upcase_slash [of "length b - 1" b] len by (simp add: last_conv_nth)
    moreover have "single_slashes (upcase_escapes b)"
      using b(3) unfolding single_slashes_def len by (metis Suc_lessD upcase_slash)
    ultimately show ?thesis using n upcase_twice by simp
  qed
qed

text \<open>
  A normalized path starts with a slash, has no two in a row and none at the end, unless it is
  the slash alone, has its lower case escapes in upper case, and normalizes to itself.
\<close>
theorem paths_normalize_once:
  "normalize_path (Some (normalize_path path)) = normalize_path path \<and>
   take 1 (normalize_path path) = [47] \<and> single_slashes (normalize_path path) \<and>
   (normalize_path path = [47] \<or> last (normalize_path path) \<noteq> 47)"
proof -
  let ?n = "normalize_path path"
  obtain q where q: "?n = 47 # q" using normalized [of path] by (metis list.exhaust_sel)
  have "squeeze (47 # ?n) = squeeze ?n" by (simp add: q)
  then have "squeeze (47 # ?n) = ?n" using normalized [of path] squeeze_id by simp
  then have "normalize_path (Some ?n) = ?n"
    using normalized [of path] by (auto simp: normalize_path_def Let_def)
  then show ?thesis using normalized [of path] q by simp
qed

end
