(* ===== verification/Journey_Format.thy ===== *)
theory Journey_Format
  imports Journey_Found Journey_Uri
begin

text \<open>
  Writing the path of a route: the \<open>FormatBuilder\<close> and the \<open>Format\<close> of \<^verbatim>\<open>journey/visitors.ts\<close>, the
  names of a pattern in \<^verbatim>\<open>journey/path/pattern.ts\<close>, and that the tree of the route reads what its
  format writes.

  The parameters a format is evaluated on are a map from names to the text \<open>String\<close> makes of their
  values, \<open>None\<close> for a name that is not an own property or is \<open>null\<close>. Escaped text is ASCII.
\<close>

section \<open>Formats\<close>

datatype fpart = Fixed string | Param string bool | Sub "fpart list"

definition escape_param :: "bool \<Rightarrow> codes \<Rightarrow> string" where
  "escape_param whole v = map char_of (if whole then escape_path v else escape_segment v)"

fun missing_part :: "(string \<rightharpoonup> codes) \<Rightarrow> fpart \<Rightarrow> bool" where
  "missing_part h (Param n whole) \<longleftrightarrow> h n = None"
| "missing_part h p \<longleftrightarrow> False"

fun eval_part :: "(string \<rightharpoonup> codes) \<Rightarrow> fpart \<Rightarrow> string" where
  "eval_part h (Fixed s) = s"
| "eval_part h (Param n whole) = escape_param whole (case h n of Some v \<Rightarrow> v | None \<Rightarrow> [])"
| "eval_part h (Sub ps) = (if list_ex (missing_part h) ps then [] else concat (map (eval_part h) ps))"

definition evaluate :: "(string \<rightharpoonup> codes) \<Rightarrow> fpart list \<Rightarrow> string" where
  "evaluate h ps = (if list_ex (missing_part h) ps then [] else concat (map (eval_part h) ps))"

text \<open>\<open>None\<close> is a thrown error: an alternative, or a star over a node without a name.\<close>

fun build_format :: "node \<Rightarrow> fpart list option" where
  "build_format (Cat a b) = (case build_format a of None \<Rightarrow> None
     | Some ps \<Rightarrow> map_option (\<lambda>qs. ps @ qs) (build_format b))"
| "build_format (Group n) = map_option (\<lambda>ps. [Sub ps]) (build_format n)"
| "build_format (Star n r) = map_option (\<lambda>k. [Param k True]) (node_name n)"
| "build_format (Symbol l r m) = Some [Param (strip_marks l) (strip_marks l = ''controller'')]"
| "build_format (Or ns) = None"
| "build_format (Literal l m) = Some [Fixed l]"
| "build_format (Slash l m) = Some [Fixed l]"
| "build_format (Dot l m) = Some [Fixed l]"

section \<open>The names of a pattern\<close>

definition pattern_names :: "node \<Rightarrow> string list" where
  "pattern_names spec = path_params (new_ast spec True)"

fun below_group :: "node \<Rightarrow> node list" where
  "below_group (Group n) = nodes_of n"
| "below_group n = []"

definition optional_names :: "node \<Rightarrow> string list" where
  "optional_names spec = uniq_from [] (List.map_filter (\<lambda>n. if is_symbol n then node_name n else None)
     (concat (map below_group (nodes_of spec))))"

definition required_names :: "node \<Rightarrow> string list" where
  "required_names spec = filter (\<lambda>n. n \<notin> set (optional_names spec)) (pattern_names spec)"

fun flatten_cat :: "node \<Rightarrow> node list" where
  "flatten_cat (Cat a b) = flatten_cat a @ flatten_cat b"
| "flatten_cat n = [n]"

fun cat_on :: "node \<Rightarrow> node list \<Rightarrow> node" where
  "cat_on acc [] = acc"
| "cat_on acc (n # ns) = cat_on (Cat acc n) ns"

definition build_cat :: "node list \<Rightarrow> node" where
  "build_cat ns = cat_on (hd ns) (tl ns)"

definition is_slash :: "node \<Rightarrow> bool" where
  "is_slash n \<longleftrightarrow> (case n of Slash _ _ \<Rightarrow> True | _ \<Rightarrow> False)"

fun below :: "node \<Rightarrow> node" where
  "below (Group n) = n"
| "below n = n"

definition normalize_leading :: "node \<Rightarrow> node" where
  "normalize_leading spec = (case flatten_cat spec of
     p # g # ps \<Rightarrow>
       (if is_slash p \<and> is_group g then
          (case flatten_cat (below g) of
             s # i # is \<Rightarrow>
               (if is_slash s then build_cat (if list_all is_group (g # ps)
                    then p # Group (build_cat (i # is)) # ps else g # ps)
                else spec)
           | _ \<Rightarrow> spec)
        else spec)
   | _ \<Rightarrow> spec)"

section \<open>What a format writes\<close>

text \<open>The leaves of a tree that are written, each with its text; \<open>None\<close> when a parameter outside
  every group is missing.\<close>

fun chosen :: "(string \<rightharpoonup> codes) \<Rightarrow> bool \<Rightarrow> node \<Rightarrow> (node \<times> string) list option" where
  "chosen h star (Cat a b) = (case chosen h star a of None \<Rightarrow> None
     | Some u \<Rightarrow> map_option (\<lambda>v. u @ v) (chosen h star b))"
| "chosen h star (Group n) = Some (case chosen h star n of None \<Rightarrow> [] | Some u \<Rightarrow> u)"
| "chosen h star (Star n r) = chosen h True n"
| "chosen h star (Symbol l r m) = map_option (\<lambda>v. [(Symbol l r m, escape_param (star \<or> strip_marks l = ''controller'') v)])
     (h (strip_marks l))"
| "chosen h star (Or ns) = None"
| "chosen h star (Literal l m) = Some [(Literal l m, l)]"
| "chosen h star (Slash l m) = Some [(Slash l m, l)]"
| "chosen h star (Dot l m) = Some [(Dot l m, l)]"

text \<open>What the parser builds: a star is over a symbol, no leaf is empty, a separator is alone in its leaf.\<close>

fun well_made :: "node \<Rightarrow> bool" where
  "well_made (Cat a b) \<longleftrightarrow> well_made a \<and> well_made b"
| "well_made (Group n) \<longleftrightarrow> well_made n"
| "well_made (Star n r) \<longleftrightarrow> is_symbol n \<and> well_made n"
| "well_made (Or ns) \<longleftrightarrow> False"
| "well_made (Symbol l r m) \<longleftrightarrow> l \<noteq> []"
| "well_made (Literal l m) \<longleftrightarrow> l \<noteq> [] \<and> \<not> list_ex separator l"
| "well_made (Slash l m) \<longleftrightarrow> l = ''/''"
| "well_made (Dot l m) \<longleftrightarrow> l = ''.''"

lemma node_name_symbol: "is_symbol n \<Longrightarrow> \<exists>l r m. n = Symbol l r m"
  by (cases n) (simp_all add: is_symbol_def)

lemma writes_chosen:
  assumes "well_made n" "build_format n = Some ps"
  shows "(list_ex (missing_part h) ps \<longleftrightarrow> chosen h False n = None) \<and>
    (\<forall>w. chosen h False n = Some w \<longrightarrow> concat (map (eval_part h) ps) = concat (map snd w))"
  using assms
proof (induction n arbitrary: ps)
  case (Cat a b)
  then obtain qa qb where "build_format a = Some qa" "build_format b = Some qb" "ps = qa @ qb"
    by (auto split: option.splits)
  with Cat.IH(1) [of qa] Cat.IH(2) [of qb] Cat.prems(1) show ?case by (auto split: option.splits)
next
  case (Group n)
  then obtain q where "build_format n = Some q" "ps = [Sub q]" by auto
  with Group.IH [of q] Group.prems(1) show ?case by (auto split: option.splits)
next
  case (Star n r)
  then have "is_symbol n" by simp
  then obtain l x m where "n = Symbol l x m" using node_name_symbol by blast
  with Star.prems show ?case by (auto split: option.splits)
qed (auto split: option.splits)

lemma evaluate_chosen:
  assumes "well_made n" "build_format n = Some ps"
  shows "evaluate h ps = (case chosen h False n of None \<Rightarrow> [] | Some w \<Rightarrow> concat (map snd w))"
  using writes_chosen [OF assms, of h] by (auto simp: evaluate_def split: option.splits)

lemma chosen_expansion:
  "well_made n \<Longrightarrow> chosen h star n = Some w \<Longrightarrow> map fst w \<in> set (expansions en n)"
proof (induction n arbitrary: w star)
  case (Cat a b)
  then obtain u v where "chosen h star a = Some u" "chosen h star b = Some v" "w = u @ v"
    by (auto split: option.splits)
  with Cat show ?case by (auto intro!: bexI [of _ "map fst u"])
next
  case (Group n)
  then show ?case by (auto split: option.splits)
next
  case (Star n r)
  then have "is_symbol n" by simp
  then obtain l x m where n: "n = Symbol l x m" using node_name_symbol by blast
  with Star.prems show ?case by auto
qed auto

section \<open>Reading it back\<close>

lemma tokens_plain: "x \<noteq> [] \<Longrightarrow> \<not> list_ex separator x \<Longrightarrow> tokens x = [x]"
proof (cases x)
  case (Cons c cs)
  assume "\<not> list_ex separator x"
  then have c: "\<forall>d \<in> set cs. \<not> separator d" "\<not> separator c" using Cons by (auto simp: list_ex_iff)
  then have all: "takeWhile (\<lambda>d. \<not> separator d) cs = cs" "dropWhile (\<lambda>d. \<not> separator d) cs = []"
    by (simp_all add: takeWhile_eq_all_conv dropWhile_eq_Nil_conv)
  show "tokens x = [x]" unfolding Cons tokens.simps all using c(2) by (simp only: if_False)
qed simp

definition apart :: "string \<Rightarrow> string \<Rightarrow> bool" where
  "apart x y \<longleftrightarrow> x = [] \<or> y = [] \<or> separator (last x) \<or> separator (hd y)"

lemma last_drop_while: "dropWhile p xs \<noteq> [] \<Longrightarrow> last (dropWhile p xs) = last xs"
  by (metis last_appendR takeWhile_dropWhile_id)

lemma tokens_append: "apart x y \<Longrightarrow> tokens (x @ y) = tokens x @ tokens y"
proof (induction x rule: tokens.induct)
  case (2 c cs)
  show ?case
  proof (cases "separator c")
    case True
    have "apart cs y" using 2(3) by (cases "cs = []") (auto simp: apart_def)
    then show ?thesis using 2(1) True by simp
  next
    case False
    let ?p = "\<lambda>d. \<not> separator d"
    show ?thesis
    proof (cases "list_all ?p cs")
      case True
      have "y = [] \<or> separator (hd y)" using 2(3) True False by (cases "cs = []") (auto simp: apart_def list_all_iff)
      then have y: "takeWhile ?p y = []" "dropWhile ?p y = y" by (cases y; simp)+
      have cs: "takeWhile ?p cs = cs" "dropWhile ?p cs = []"
        using True by (simp_all add: takeWhile_eq_all_conv dropWhile_eq_Nil_conv list_all_iff)
      have all: "takeWhile ?p (cs @ y) = cs" "dropWhile ?p (cs @ y) = y"
        using True y by (auto simp: takeWhile_append dropWhile_append list_all_iff)
      show ?thesis unfolding append_Cons tokens.simps cs all using False by (simp only: if_False append_Cons append_Nil)
    next
      case sep: False
      then obtain d where d: "d \<in> set cs" "separator d" by (auto simp: list_all_iff)
      have "dropWhile ?p cs \<noteq> []" using d by (auto simp: dropWhile_eq_Nil_conv)
      then have "last (dropWhile ?p cs) = last cs" by (rule last_drop_while)
      moreover have "last (c # cs) = last cs" using d(1) by (cases cs) simp_all
      ultimately have "apart (dropWhile ?p cs) y" using 2(3) by (simp add: apart_def)
      then have "tokens (dropWhile ?p cs @ y) = tokens (dropWhile ?p cs) @ tokens y" using 2(2) False by simp
      then show ?thesis using False d by (simp add: takeWhile_append1 dropWhile_append1)
    qed
  qed
qed simp

definition separates :: "node \<Rightarrow> bool" where
  "separates n \<longleftrightarrow> (case n of Slash _ _ \<Rightarrow> True | Dot _ _ \<Rightarrow> True | _ \<Rightarrow> False)"

definition spaced :: "node list \<Rightarrow> bool" where
  "spaced w \<longleftrightarrow> successively (\<lambda>a b. separates a \<or> separates b) w"

text \<open>No two leaves that are written next to each other run together.\<close>

definition well_spaced :: "engine \<Rightarrow> node \<Rightarrow> bool" where
  "well_spaced en n \<longleftrightarrow> list_all spaced (expansions en n)"

definition leaf_text :: "node \<Rightarrow> string \<Rightarrow> bool" where
  "leaf_text n s \<longleftrightarrow> (case n of Symbol l r m \<Rightarrow> True
     | Literal l m \<Rightarrow> s = l \<and> l \<noteq> [] \<and> \<not> list_ex separator l
     | Slash l m \<Rightarrow> s = l \<and> l = ''/'' | Dot l m \<Rightarrow> s = l \<and> l = ''.'' | _ \<Rightarrow> False)"

text \<open>The text of a parameter is not empty and its own expression accepts it.\<close>

definition text_fits :: "engine \<Rightarrow> node \<times> string \<Rightarrow> bool" where
  "text_fits en p \<longleftrightarrow> (case fst p of Symbol l r m \<Rightarrow> snd p \<noteq> [] \<and> rx_test en r (snd p) | _ \<Rightarrow> True)"

definition params_fit :: "engine \<Rightarrow> (string \<rightharpoonup> codes) \<Rightarrow> node \<Rightarrow> bool" where
  "params_fit en h n \<longleftrightarrow> (case chosen h False n of None \<Rightarrow> False | Some w \<Rightarrow> list_all (text_fits en) w)"

lemma chosen_leaf: "well_made n \<Longrightarrow> chosen h star n = Some w \<Longrightarrow> (m, s) \<in> set w \<Longrightarrow> leaf_text m s"
proof (induction n arbitrary: w star)
  case (Cat a b)
  then obtain u v where "chosen h star a = Some u" "chosen h star b = Some v" "w = u @ v"
    by (auto split: option.splits)
  with Cat show ?case by auto
next
  case (Group n)
  then show ?case by (auto split: option.splits)
qed (auto simp: leaf_text_def)

lemma tokens_concat: "concat (tokens s) = s"
  by (induction s rule: tokens.induct) simp_all

lemma tokens_Nil: "tokens s = [] \<longleftrightarrow> s = []"
  by (cases s) simp_all

lemma leaf_reads:
  assumes "leaf_text n s" "text_fits en (n, s)"
  shows "edge_reads en (leaf_edge n) (tokens s)" "s \<noteq> []" "separates n \<Longrightarrow> separator (hd s) \<and> separator (last s)"
proof -
  have "edge_reads en (leaf_edge n) (tokens s) \<and> s \<noteq> [] \<and> (separates n \<longrightarrow> separator (hd s) \<and> separator (last s))"
  proof (cases n)
    case (Symbol l r m)
    then have s: "s \<noteq> []" "rx_test en r s" using assms(2) by (simp_all add: text_fits_def)
    have "length (tokens s) = 1" if "r = DefaultExp"
    proof -
      have "\<not> list_ex separator s" using s(2) that
        by (auto simp: rx_test_def separator_def list_all_iff list_ex_iff)
      then show ?thesis using tokens_plain [OF s(1)] by simp
    qed
    then show ?thesis using s Symbol
      by (simp add: edge_reads_def leaf_edge_def edge_of_def tokens_concat tokens_Nil separates_def)
  next
    case (Literal l m)
    then show ?thesis using assms(1) tokens_plain [of l]
      by (simp add: leaf_text_def edge_reads_def leaf_edge_def edge_of_def separates_def)
  qed (use assms(1) in \<open>simp_all add: leaf_text_def edge_reads_def leaf_edge_def edge_of_def separates_def separator_def\<close>)
  then show "edge_reads en (leaf_edge n) (tokens s)" "s \<noteq> []" "separates n \<Longrightarrow> separator (hd s) \<and> separator (last s)"
    by blast+
qed

lemma leaves_read:
  assumes "\<And>n s. (n, s) \<in> set w \<Longrightarrow> leaf_text n s" "list_all (text_fits en) w" "spaced (map fst w)"
  shows "consumes en (map fst w) (tokens (concat (map snd w)))"
  using assms
proof (induction w)
  case (Cons p w)
  obtain n s where p: "p = (n, s)" by fastforce
  have l: "leaf_text n s" "text_fits en (n, s)" using Cons.prems p by simp_all
  have "apart s (concat (map snd w))"
  proof (cases w)
    case (Cons q v)
    obtain n' s' where q: "q = (n', s')" by fastforce
    have l': "leaf_text n' s'" "text_fits en (n', s')" using Cons.prems(1,2) Cons q by simp_all
    have "separates n \<or> separates n'" using Cons.prems(3) Cons p q by (simp add: spaced_def)
    then show ?thesis using leaf_reads [OF l] leaf_reads [OF l'] Cons q by (auto simp: apart_def)
  qed (simp add: apart_def)
  then have t: "tokens (concat (map snd (p # w))) = tokens s @ tokens (concat (map snd w))"
    using p by (simp add: tokens_append)
  have "spaced (map fst w)" using Cons.prems(3) by (cases w) (simp_all add: spaced_def)
  then have "consumes en (map fst w) (tokens (concat (map snd w)))" using Cons by simp
  then show ?case unfolding t using leaf_reads(1) [OF l] p by (auto simp: consumes_Cons)
qed simp

lemma written_read:
  assumes "well_made n" "well_spaced en n" "build_format n = Some ps" "params_fit en h n" "evaluate h ps \<noteq> []"
  shows "reads_path en n (tokens (evaluate h ps))"
proof -
  obtain w where w: "chosen h False n = Some w" "list_all (text_fits en) w"
    using assms(4) by (auto simp: params_fit_def split: option.splits)
  have e: "evaluate h ps = concat (map snd w)" using evaluate_chosen [OF assms(1,3)] w(1) by simp
  have x: "map fst w \<in> set (expansions en n)" by (rule chosen_expansion [OF assms(1) w(1)])
  then have "spaced (map fst w)" using assms(2) by (auto simp: well_spaced_def list_all_iff)
  then have "consumes en (map fst w) (tokens (concat (map snd w)))"
    using leaves_read [of w en] chosen_leaf [OF assms(1) w(1)] w(2) by blast
  moreover have "map fst w \<noteq> []" using e assms(5) by (cases w) auto
  ultimately show ?thesis using x e unfolding reads_path_def by auto
qed


text \<open>For the expression of a plain symbol, a text fits when it is not empty and has no dot.\<close>

lemma safe_codes: "safe_path c \<Longrightarrow> c < 128" "safe_segment c \<Longrightarrow> c < 128" "alnum c \<Longrightarrow> c < 128"
  by (auto simp: safe_path_def safe_segment_def alnum_def codes_of_def)

lemma plain_values_fit:
  assumes "list_all (\<lambda>c. c < 0x110000) v" "v \<noteq> []" "46 \<notin> set v"
  shows "rx_test en DefaultExp (escape_param False v)"
proof -
  have "d \<noteq> 46 \<and> d \<noteq> 47 \<and> d \<noteq> 63 \<and> d < 128" if d: "d \<in> set (escape_segment v)" for d
  proof -
    obtain c where c: "c \<in> set v" "d \<in> set (if safe_segment c then [c] else pct_encode c)"
      using d unfolding escape_segment_def escape_with_def set_concat set_map by blast
    show ?thesis
    proof (cases "safe_segment c")
      case True
      then have "d = c" using c by simp
      moreover have "\<not> safe_segment 47" "\<not> safe_segment 63" by (simp_all add: safe_segment_def alnum_def codes_of_def)
      ultimately show ?thesis using True safe_codes(2) c(1) assms(3) by metis
    next
      case False
      have "c < 1114112" using assms(1) c(1) by (simp add: list_all_iff)
      then have "d = 37 \<or> alnum d" using False c(2) by (simp add: pct_encode_chars)
      then show ?thesis by (auto simp: alnum_def)
    qed
  qed
  note plain = this
  have "x \<noteq> CHR ''.'' \<and> x \<noteq> CHR ''/'' \<and> x \<noteq> CHR ''?''" if x: "x \<in> set (escape_param False v)" for x
  proof -
    obtain d where d: "d \<in> set (escape_segment v)" "x = char_of d" using x by (auto simp: escape_param_def)
    have "of_char x = d" using plain [OF d(1)] d(2) by (simp add: of_char_of)
    moreover have "of_char CHR ''.'' = (46 :: nat)" "of_char CHR ''/'' = (47 :: nat)" "of_char CHR ''?'' = (63 :: nat)"
      by simp_all
    ultimately show ?thesis using plain [OF d(1)] by metis
  qed
  moreover have "escape_param False v \<noteq> []"
  proof -
    obtain c u where "v = c # u" using assms(2) by (cases v) auto
    moreover have "pct_encode c \<noteq> []" by (simp add: pct_encode_def utf8_def pct_encode_byte_def)
    ultimately show ?thesis by (simp add: escape_param_def escape_segment_def escape_with_def)
  qed
  ultimately show ?thesis by (auto simp: rx_test_def list_all_iff)
qed


definition format_route :: "nat \<Rightarrow> (nat, nat) route" where
  "format_route i = (sample_route i)\<lparr>tree_of := Cat (Slash ''/'' (Some i)) (Cat (Symbol '':id'' DefaultExp (Some i))
     (Group (Cat (Dot ''.'' (Some i)) (Symbol '':format'' DefaultExp (Some i)))))\<rparr>"


end
