(* ===== verification/Journey_Generate.thy ===== *)
theory Journey_Generate
  imports Journey_Format "HOL-Library.Multiset" "HOL-Library.List_Lexorder" "HOL-Library.Char_ord"
begin

text \<open>
  Writing URLs: the \<open>Formatter\<close> of \<^verbatim>\<open>packages/actionpack/src/action-dispatch/journey/formatter.ts\<close>
  and what it reads of a route (\<^verbatim>\<open>journey/route.ts\<close>).

  An object is the list of its own properties. What the code calls on values that are neither null,
  nor booleans nor strings is the record \<open>forms\<close>: \<open>String\<close>, \<open>toParam\<close>, \<open>isBlank\<close>, \<open>rubyInspect\<close>
  and the test for a plain object; \<open>json\<close> is the text of a value inside a JSON array, and
  \<open>inherited\<close> what the prototype of an object literal answers for a name.
\<close>

type_synonym 'v hash = "(string \<times> 'v field) list"

record ('v, 'app) target = "('v field, 'app) route" +
  scope_options :: "'v hash"
  required_default_names :: "string list"
  dispatches :: bool
  key_tests :: "(string \<times> (string \<Rightarrow> bool)) list"

record 'v forms =
  show_value :: "'v \<Rightarrow> string"
  param_of :: "'v \<Rightarrow> 'v field"
  blank_value :: "'v \<Rightarrow> bool"
  inspect_of :: "'v \<Rightarrow> string"
  json :: "'v field \<Rightarrow> string"
  as_hash :: "'v \<Rightarrow> 'v hash option"
  inherited :: "string \<Rightarrow> 'v field"

definition nullish :: "'v field \<Rightarrow> bool" where
  "nullish x \<longleftrightarrow> x = FUndefined \<or> x = FNull"

definition own_key :: "(string \<times> 'a) list \<Rightarrow> string \<Rightarrow> bool" where
  "own_key m k \<longleftrightarrow> map_of m k \<noteq> None"

definition read_key :: "'v forms \<Rightarrow> 'v hash \<Rightarrow> string \<Rightarrow> 'v field" where
  "read_key w m k = (case map_of m k of Some v \<Rightarrow> v | None \<Rightarrow> inherited w k)"

definition to_s :: "'v forms \<Rightarrow> 'v field \<Rightarrow> string" where
  "to_s w x = field_text (show_value w) x"

definition to_param :: "'v forms \<Rightarrow> 'v field \<Rightarrow> 'v field" where
  "to_param w x = (case x of FUndefined \<Rightarrow> FNull | FNull \<Rightarrow> FNull | FBool b \<Rightarrow> FBool b | FStr s \<Rightarrow> FStr s
     | FOther v \<Rightarrow> param_of w v)"

definition white :: "char \<Rightarrow> bool" where
  "white c \<longleftrightarrow> of_char c \<in> {9 :: nat, 10, 11, 12, 13, 32, 160}"

definition is_present :: "'v forms \<Rightarrow> 'v field \<Rightarrow> bool" where
  "is_present w x \<longleftrightarrow> (case x of FUndefined \<Rightarrow> False | FNull \<Rightarrow> False | FBool b \<Rightarrow> b
     | FStr s \<Rightarrow> \<not> list_all white s | FOther v \<Rightarrow> \<not> blank_value w v)"

section \<open>What a route says of its parts\<close>

definition parts :: "('v, 'app) target \<Rightarrow> string list" where
  "parts r = pattern_names (tree_of r)"

definition required_parts :: "('v, 'app) target \<Rightarrow> string list" where
  "required_parts r = required_names (tree_of r)"

definition required_defaults :: "('v, 'app) target \<Rightarrow> 'v hash" where
  "required_defaults r = filter (\<lambda>(k, v). \<not> (k \<in> set (parts r) \<or> k \<notin> set (required_default_names r))) (defaults r)"

definition required_keys :: "('v, 'app) target \<Rightarrow> string list" where
  "required_keys r = required_parts r @ map fst (required_defaults r)"

definition score :: "('v, 'app) target \<Rightarrow> string set \<Rightarrow> int" where
  "score r supplied = (if list_ex (\<lambda>k. k \<notin> supplied) (required_parts r) then -1
     else int (length (required_defaults r)) * 2 + int (length (filter (\<lambda>k. k \<in> supplied) (parts r))))"

section \<open>The cache of required defaults\<close>

datatype ('k, 'a) cache = Cache "('k \<times> ('k, 'a) cache) list" "'a list"

type_synonym pair = "string \<times> string"

definition pair_key :: "'v forms \<Rightarrow> string \<times> 'v field \<Rightarrow> pair" where
  "pair_key w p = (fst p, json w (if nullish (snd p) then FNull else snd p))"

fun cache_insert :: "'k list \<Rightarrow> 'a \<Rightarrow> ('k, 'a) cache \<Rightarrow> ('k, 'a) cache" where
  "cache_insert [] x (Cache cs xs) = Cache cs (xs @ [x])"
| "cache_insert (k # ks) x (Cache cs xs) = Cache (AList.update k
     (cache_insert ks x (case map_of cs k of Some c \<Rightarrow> c | None \<Rightarrow> Cache [] [])) cs) xs"

definition build_cache :: "'v forms \<Rightarrow> ('v, 'app) target list \<Rightarrow> (pair, nat \<times> ('v, 'app) target) cache" where
  "build_cache w rs = fold (\<lambda>(i, r). cache_insert (map (pair_key w) (required_defaults r)) (i, r))
     (enumerate 0 rs) (Cache [] [])"

lemma child_smaller: "map_of cs k = Some c \<Longrightarrow> size c < size (Cache cs xs)"
  by (induction cs) (auto split: if_splits)

lemma children_smaller:
  "(mset (q @ List.map_filter (map_of cs) ks), mset (Cache cs xs # q)) \<in> mult (measure size)"
proof -
  have "\<forall>c \<in># mset (List.map_filter (map_of cs) ks). \<exists>d \<in># {#Cache cs xs#}. (c, d) \<in> measure size"
    using child_smaller by (fastforce simp: in_map_filter)
  then have "(mset q + mset (List.map_filter (map_of cs) ks), mset q + {#Cache cs xs#}) \<in> mult (measure size)"
    by (intro one_step_implies_mult) simp_all
  then show ?thesis by simp
qed

function non_recursive :: "'k list \<Rightarrow> ('k, 'a) cache list \<Rightarrow> 'a list" where
  "non_recursive ks [] = []"
| "non_recursive ks (Cache cs xs # q) = xs @ non_recursive ks (q @ List.map_filter (map_of cs) ks)"
  by pat_completeness auto
termination
  by (relation "inv_image (mult (measure size)) (\<lambda>(ks, q). mset q)")
    (blast intro: wf_inv_image wf_mult wf_measure, simp only: in_inv_image case_prod_conv, rule children_smaller)

function possibles :: "'k list \<Rightarrow> ('k, 'a) cache \<Rightarrow> 'a list" where
  "possibles ks (Cache cs xs) = xs @ concat (map (\<lambda>k. case map_of cs k of Some c \<Rightarrow> possibles ks c | None \<Rightarrow> []) ks)"
  by pat_completeness auto
termination by (relation "measure (\<lambda>(ks, c). size c)") (auto dest: child_smaller)

section \<open>Finding the route to write\<close>

definition supplied_keys :: "'v hash \<Rightarrow> string set" where
  "supplied_keys options = fst ` set (filter (\<lambda>(k, v). \<not> nullish v \<and> v \<noteq> FBool False) options)"

text \<open>The buckets by score, the best first, down to the first negative one; each by index.\<close>

definition by_score :: "(('v, 'app) target \<Rightarrow> int) \<Rightarrow> (nat \<times> ('v, 'app) target) list \<Rightarrow> ('v, 'app) target list" where
  "by_score sc entries = concat (map (\<lambda>s. map snd (sort_key fst (filter (\<lambda>(i, r). sc r = s) entries)))
     (takeWhile (\<lambda>s. 0 \<le> s) (rev (sort (remdups (map (\<lambda>(i, r). sc r) entries))))))"

definition match_route :: "'v forms \<Rightarrow> (string \<rightharpoonup> ('v, 'app) target) \<Rightarrow> ('v, 'app) target list \<Rightarrow> string option
    \<Rightarrow> 'v hash \<Rightarrow> ('v, 'app) target list" where
  "match_route w named rs name options = (case Option.bind name named of
       Some r \<Rightarrow> [r]
     | None \<Rightarrow> by_score (\<lambda>r. score r (supplied_keys options))
         (non_recursive (map (pair_key w) options) [build_cache w rs]))"

section \<open>Writing a route\<close>

definition extract_parts :: "'v forms \<Rightarrow> ('v, 'app) target \<Rightarrow> 'v hash \<Rightarrow> 'v hash \<Rightarrow> 'v hash" where
  "extract_parts w r options recall =
     (let supplied = (\<lambda>p. own_key options p \<or> own_key (scope_options r) p);
          given = (\<lambda>p. \<not> nullish (read_key w options p) \<or> \<not> nullish (read_key w recall p));
          keep = set (dropWhile (\<lambda>p. \<not> (supplied p \<and> given p)) (rev (parts r))) \<union> set (required_parts r);
          kept = filter (\<lambda>(k, v). k \<in> keep) (put_all options recall)
      in filter (\<lambda>(k, v). \<not> nullish v)
           (map (\<lambda>(k, v). (k, if k = ''controller'' then v else to_param w v)) kept))"

definition missing_keys :: "'v forms \<Rightarrow> ('v, 'app) target \<Rightarrow> 'v hash \<Rightarrow> string list" where
  "missing_keys w r pp = filter (\<lambda>key. let v = read_key w pp key in
     (case map_of (key_tests r) key of None \<Rightarrow> nullish v \<or> v = FBool False
      | Some test \<Rightarrow> \<not> test (to_s w v))) (required_parts r)"

fun trim_parts :: "'v forms \<Rightarrow> ('v, 'app) target \<Rightarrow> string list \<Rightarrow> 'v hash \<Rightarrow> 'v hash" where
  "trim_parts w r [] pp = pp"
| "trim_parts w r (key # ks) pp =
     (if nullish (read_key w (defaults r) key) \<and> is_present w (read_key w pp key) then pp
      else if to_s w (read_key w pp key) \<noteq> to_s w (read_key w (defaults r) key) then trim_parts w r ks pp
      else if key \<in> set (required_parts r) then pp
      else trim_parts w r ks (AList.delete key pp))"

datatype ('v, 'app) generated =
    Generated "('v, 'app) target" "'v hash" "'v hash"
  | NoRoute "'v hash" "string list" "string list"

definition remaining :: "('v, 'app) target \<Rightarrow> 'v hash \<Rightarrow> 'v hash option \<Rightarrow> 'v hash \<Rightarrow> 'v hash \<Rightarrow> 'v hash" where
  "remaining r pp nested originals options = filter (\<lambda>(k, v). \<not> (own_key pp k \<or> own_key (defaults r) k \<or>
     (case nested of Some m \<Rightarrow> own_key m k \<and> \<not> own_key originals k | None \<Rightarrow> False))) options"

text \<open>The loop over the candidate routes; \<open>missing\<close> is what the last one tried was missing.\<close>

fun generate_from :: "'v forms \<Rightarrow> string option \<Rightarrow> 'v hash \<Rightarrow> 'v hash option \<Rightarrow> 'v hash \<Rightarrow> 'v hash
    \<Rightarrow> ('v, 'app) target list \<Rightarrow> string list \<Rightarrow> ('v, 'app) generated" where
  "generate_from w name originals nested options recall [] missing =
     (let keys = map fst (put_all options recall)
      in NoRoute (put_all options recall) (filter (\<lambda>k. k \<notin> set keys) missing) (filter (\<lambda>k. k \<in> set keys) missing))"
| "generate_from w name originals nested options recall (r # rs) missing =
     (let pp = extract_parts w r options recall
      in if name \<in> {None, Some []} \<and> \<not> dispatches r
         then generate_from w name originals nested options recall rs missing
         else if missing_keys w r pp \<noteq> []
         then generate_from w name originals nested options recall rs (missing_keys w r pp)
         else Generated r (trim_parts w r (rev (parts r)) pp) (remaining r pp nested originals options))"

definition generate :: "'v forms \<Rightarrow> (string \<rightharpoonup> ('v, 'app) target) \<Rightarrow> ('v, 'app) target list \<Rightarrow> string option
    \<Rightarrow> 'v hash \<Rightarrow> 'v hash \<Rightarrow> ('v, 'app) generated" where
  "generate w named rs name options recall =
     (let rest = filter (\<lambda>(k, v). k \<noteq> ''pathParams'') options;
          nested = (case read_key w options ''pathParams'' of FOther v \<Rightarrow> as_hash w v | _ \<Rightarrow> None);
          opts = (case nested of Some m \<Rightarrow> put_all rest m | None \<Rightarrow> rest)
      in generate_from w name options nested opts recall
           (match_route w named rs name (put_all opts recall)) [])"

text \<open>\<open>path\<close> of what was generated; \<open>None\<close> when the pattern has no format.\<close>

definition part_texts :: "'v forms \<Rightarrow> 'v hash \<Rightarrow> string \<rightharpoonup> codes" where
  "part_texts w pp k = (case map_of pp k of None \<Rightarrow> None
     | Some v \<Rightarrow> if nullish v then None else Some (codes_of (to_s w v)))"

definition format_path :: "'v forms \<Rightarrow> ('v, 'app) target \<Rightarrow> 'v hash \<Rightarrow> string option" where
  "format_path w r pp = map_option (evaluate (part_texts w pp)) (build_format (tree_of r))"

section \<open>The message of a missing route\<close>

definition hex2 :: "nat \<Rightarrow> string" where
  "hex2 n = map char_of [hex_digit (n div 16), hex_digit (n mod 16)]"

definition escape_ruby_char :: "char \<Rightarrow> string" where
  "escape_ruby_char c = (if c = CHR 0x5C then [CHR 0x5C, CHR 0x5C]
     else if c = CHR 0x22 then [CHR 0x5C, CHR 0x22]
     else if c = CHR 0x0A then [CHR 0x5C, CHR ''n'']
     else if c = CHR 0x0D then [CHR 0x5C, CHR ''r'']
     else if c = CHR 0x09 then [CHR 0x5C, CHR ''t'']
     else if (of_char c :: nat) < 0x20 then CHR 0x5C # CHR ''x'' # hex2 (of_char c)
     else [c])"

definition inspect_string :: "string \<Rightarrow> string" where
  "inspect_string s = [CHR 0x22] @ concat (map escape_ruby_char s) @ [CHR 0x22]"

definition ruby_inspect :: "'v forms \<Rightarrow> 'v field \<Rightarrow> string" where
  "ruby_inspect w x = (case x of FUndefined \<Rightarrow> ''nil'' | FNull \<Rightarrow> ''nil'' | FStr s \<Rightarrow> inspect_string s
     | FBool b \<Rightarrow> if b then ''true'' else ''false'' | FOther v \<Rightarrow> inspect_of w v)"

definition inspect_hash :: "'v forms \<Rightarrow> 'v hash \<Rightarrow> string" where
  "inspect_hash w m = ''{'' @ join_with '', '' (map (\<lambda>(k, v). '':'' @ k @ ''=>'' @ ruby_inspect w v) m) @ ''}''"

definition inspect_keys :: "string list \<Rightarrow> string" where
  "inspect_keys ks = ''['' @ join_with '', '' (map inspect_string ks) @ '']''"

definition missing_message :: "'v forms \<Rightarrow> 'v hash \<Rightarrow> string list \<Rightarrow> string list \<Rightarrow> string" where
  "missing_message w constr missing unmatched =
     ''No route matches '' @ inspect_hash w (sort_key fst constr)
     @ (if missing \<noteq> [] then '', missing required keys: '' @ inspect_keys (sort missing) else [])
     @ (if unmatched \<noteq> [] then '', possible unmatched constraints: '' @ inspect_keys (sort unmatched) else [])"

section \<open>The cache finds the routes whose required defaults are given\<close>

lemma map_filter_concat: "concat (map (\<lambda>k. case f k of Some c \<Rightarrow> g c | None \<Rightarrow> []) ks) = concat (map g (List.map_filter f ks))"
proof (induction ks)
  case (Cons k ks)
  then show ?case by (cases "f k") (simp_all add: List.map_filter_simps)
qed (simp add: List.map_filter_simps)

lemma breadth_or_depth: "mset (non_recursive ks q) = mset (concat (map (possibles ks) q))"
proof (induction ks q rule: non_recursive.induct)
  case (2 ks cs xs q)
  then show ?case by (simp add: map_filter_concat)
qed simp

lemma concat_changed:
  assumes "distinct ks" "p \<in> set ks"
  shows "mset (concat (map (f(p := y)) ks)) + mset (f p) = mset (concat (map f ks)) + mset y"
  using assms
proof (induction ks)
  case (Cons k ks)
  have "map (f(p := y)) ks = map f ks" if "p \<notin> set ks" using that by (rule map_fun_upd)
  then show ?case using Cons by (cases "k = p") (simp_all del: fun_upd_apply add: fun_upd_same fun_upd_other)
qed simp

lemma possibles_insert:
  assumes "distinct ks"
  shows "mset (possibles ks (cache_insert steps x c)) =
    mset (possibles ks c) + (if set steps \<subseteq> set ks then {#x#} else {#})"
proof (induction steps x c rule: cache_insert.induct)
  case (2 p steps x cs xs)
  let ?c = "case map_of cs p of Some c \<Rightarrow> c | None \<Rightarrow> Cache [] []"
  let ?c' = "cache_insert steps x ?c"
  define at where "at = (\<lambda>k. case map_of cs k of Some c \<Rightarrow> possibles ks c | None \<Rightarrow> [])"
  have upd: "(\<lambda>k. case map_of (AList.update p ?c' cs) k of Some c \<Rightarrow> possibles ks c | None \<Rightarrow> []) =
      at(p := possibles ks ?c')"
    by (rule ext) (simp add: AList.update_conv' at_def)
  have "possibles ks (Cache [] []) = []" by (simp add: concat_eq_Nil_conv)
  then have old: "at p = possibles ks ?c" by (simp add: at_def split: option.split)
  have run: "possibles ks (cache_insert (p # steps) x (Cache cs xs)) = xs @ concat (map (at(p := possibles ks ?c')) ks)"
    "possibles ks (Cache cs xs) = xs @ concat (map at ks)"
    unfolding cache_insert.simps possibles.simps upd by (simp_all add: at_def)
  show ?case
  proof (cases "p \<in> set ks")
    case True
    have "mset (concat (map (at(p := possibles ks ?c')) ks)) + mset (at p) =
      mset (concat (map at ks)) + mset (possibles ks ?c')"
      by (rule concat_changed [OF assms True])
    then show ?thesis using True 2 unfolding run old by (simp add: add.assoc)
  next
    case False
    then show ?thesis unfolding run by (simp add: map_fun_upd)
  qed
qed simp


definition fitting :: "'v forms \<Rightarrow> ('v, 'app) target list \<Rightarrow> 'v hash \<Rightarrow> (nat \<times> ('v, 'app) target) list" where
  "fitting w rs options = filter (\<lambda>(i, r). pair_key w ` set (required_defaults r) \<subseteq> pair_key w ` set options)
     (enumerate 0 rs)"

lemma cache_finds:
  fixes rs :: "('v, 'app) target list" and options :: "'v hash"
  assumes "distinct (map fst options)"
  shows "mset (non_recursive (map (pair_key w) options) [build_cache w rs]) = mset (fitting w rs options)"
proof -
  let ?ks = "map (pair_key w) options"
  have d: "distinct ?ks" using assms
    by (induction options) (auto simp: pair_key_def)
  have "mset (possibles ?ks (fold (\<lambda>(i, r). cache_insert (map (pair_key w) (required_defaults r)) (i, r)) es c)) =
    mset (possibles ?ks c) + mset (filter (\<lambda>(i, r). pair_key w ` set (required_defaults r) \<subseteq> pair_key w ` set options) es)"
    for es :: "(nat \<times> ('v, 'app) target) list" and c
    by (induction es arbitrary: c) (simp_all add: possibles_insert [OF d] case_prod_unfold)
  moreover have "possibles ?ks (Cache [] []) = []" by (simp add: concat_eq_Nil_conv)
  ultimately show ?thesis by (simp add: breadth_or_depth build_cache_def fitting_def)
qed

lemma classes_sorted:
  fixes h :: "'e \<Rightarrow> int"
  assumes "sorted_wrt (>) S"
  shows "concat (map (\<lambda>s. filter (\<lambda>e. h e = s) xs) S) = sort_key (\<lambda>e. - h e) (filter (\<lambda>e. h e \<in> set S) xs)"
proof (rule sym, rule properties_for_sort_key)
  show "mset (concat (map (\<lambda>s. filter (\<lambda>e. h e = s) xs) S)) = mset (filter (\<lambda>e. h e \<in> set S) xs)"
    using assms
  proof (induction S)
    case (Cons s S)
    then have "s \<notin> set S" by auto
    then have "filter_mset (\<lambda>e. h e = s \<or> h e \<in> set S) (mset xs) =
      filter_mset (\<lambda>e. h e = s) (mset xs) + filter_mset (\<lambda>e. h e \<in> set S) (mset xs)"
      by (induction xs) auto
    then show ?case using Cons by simp
  qed simp
next
  fix k
  have "filter (\<lambda>e. h k = h e) (concat (map (\<lambda>s. filter (\<lambda>e. h e = s) xs) S)) =
    (if h k \<in> set S then filter (\<lambda>e. h k = h e) xs else [])"
    using assms
  proof (induction S)
    case (Cons s S)
    have "filter (\<lambda>e. h k = h e) (filter (\<lambda>e. h e = s) xs) = (if h k = s then filter (\<lambda>e. h k = h e) xs else [])"
      by (auto simp: filter_filter filter_empty_conv intro: filter_cong)
    then show ?case using Cons by auto
  qed simp
  moreover have "filter (\<lambda>e. h k = h e) (filter (\<lambda>e. h e \<in> set S) xs) =
    (if h k \<in> set S then filter (\<lambda>e. h k = h e) xs else [])"
    by (auto simp: filter_filter filter_empty_conv intro: filter_cong)
  ultimately show "filter (\<lambda>x. - h k = - h x) (concat (map (\<lambda>s. filter (\<lambda>e. h e = s) xs) S)) =
    filter (\<lambda>x. - h k = - h x) (filter (\<lambda>e. h e \<in> set S) xs)" by simp
next
  show "sorted (map (\<lambda>e. - h e) (concat (map (\<lambda>s. filter (\<lambda>e. h e = s) xs) S)))"
    using assms
  proof (induction S)
    case (Cons s S)
    have "map (\<lambda>e. - h e) (filter (\<lambda>e. h e = s) xs) = replicate (length (filter (\<lambda>e. h e = s) xs)) (- s)"
      by (induction xs) auto
    then show ?case using Cons by (auto simp: sorted_append)
  qed simp
qed

lemma by_score_sorts:
  assumes "mset es = mset cs" "distinct (map fst cs)" "sorted (map fst cs)"
  shows "by_score sc es = map snd (sort_key (\<lambda>(i, r). - sc r) (filter (\<lambda>(i, r). 0 \<le> sc r) cs))"
proof -
  define h where "h = (\<lambda>(i :: nat, r). sc r)"
  have set: "set es = set cs" using assms(1) by (metis set_mset_mset)
  let ?all = "rev (sort (remdups (map h es)))"
  let ?S = "takeWhile (\<lambda>s. 0 \<le> s) ?all"
  have desc: "sorted_wrt (>) ?all" by (simp add: sorted_wrt_rev strict_sorted_iff)
  have S: "sorted_wrt (>) ?S" using desc by (metis sorted_wrt_append takeWhile_dropWhile_id)
  have in_S: "s \<in> set ?S \<longleftrightarrow> 0 \<le> s \<and> s \<in> h ` set cs" for s
  proof -
    have "s \<in> set (takeWhile (\<lambda>s. 0 \<le> s) xs) \<longleftrightarrow> 0 \<le> s \<and> s \<in> set xs" if "sorted_wrt (>) xs" for xs :: "int list"
      using that by (induction xs) auto
    from this [OF desc] show ?thesis using set by simp
  qed
  have bucket: "sort_key fst (filter (\<lambda>e. h e = s) es) = filter (\<lambda>e. h e = s) cs" for s
  proof (rule properties_for_sort_key)
    show "mset (filter (\<lambda>e. h e = s) cs) = mset (filter (\<lambda>e. h e = s) es)" using assms(1) by simp
    show "sorted (map fst (filter (\<lambda>e. h e = s) cs))" using assms(3) by (rule sorted_filter)
  next
    fix k assume k: "k \<in> set (filter (\<lambda>e. h e = s) cs)"
    have one: "filter (\<lambda>x. fst k = fst x) ys = [k]" if "k \<in> set ys" "distinct (map fst ys)" for ys
      using that by (induction ys) (auto simp: filter_empty_conv intro: rev_image_eqI)
    have "distinct (map fst es)" using assms(1,2) by (metis mset_eq_imp_distinct_iff mset_map)
    then have d: "distinct (map fst (filter (\<lambda>e. h e = s) es))" "distinct (map fst (filter (\<lambda>e. h e = s) cs))"
      using assms(2) by (simp_all add: distinct_map_filter)
    have "k \<in> set (filter (\<lambda>e. h e = s) es)" using k set by simp
    then show "filter (\<lambda>x. fst k = fst x) (filter (\<lambda>e. h e = s) cs) = filter (\<lambda>x. fst k = fst x) (filter (\<lambda>e. h e = s) es)"
      by (simp only: one [OF k d(2)] one [OF _ d(1)])
  qed
  have hs: "(\<lambda>(i :: nat, r). sc r = s) = (\<lambda>e. h e = s)" for s by (auto simp: h_def)
  have "by_score sc es = map snd (concat (map (\<lambda>s. filter (\<lambda>e. h e = s) cs) ?S))"
    unfolding by_score_def hs h_def [symmetric] bucket map_concat map_map comp_def ..
  also have "\<dots> = map snd (sort_key (\<lambda>e. - h e) (filter (\<lambda>e. h e \<in> set ?S) cs))"
    by (simp only: classes_sorted [OF S])
  also have "filter (\<lambda>e. h e \<in> set ?S) cs = filter (\<lambda>e. 0 \<le> h e) cs"
    by (intro filter_cong) (auto simp: in_S simp del: set_rev)
  finally show ?thesis by (simp add: h_def case_prod_unfold)
qed

text \<open>
  C31. Without a name, the routes tried for writing are those whose required defaults are all given
  and whose required parts are supplied, the one with the highest score first, among equals in
  the order they were defined.
\<close>
theorem routes_are_tried_by_score:
  assumes "distinct (map fst options)" "Option.bind name named = None"
  shows "match_route w named rs name options =
    map snd (sort_key (\<lambda>(i, r). - score r (supplied_keys options))
      (filter (\<lambda>(i, r). 0 \<le> score r (supplied_keys options)) (fitting w rs options)))"
proof -
  have "distinct (map fst (fitting w rs options))" "sorted (map fst (fitting w rs options))"
    unfolding fitting_def by (simp_all add: distinct_map_filter sorted_filter)
  then show ?thesis using by_score_sorts [OF cache_finds [OF assms(1)]] assms(2)
    by (simp add: match_route_def)
qed


lemma by_score_from: "set (by_score sc es) \<subseteq> snd ` set es"
  unfolding by_score_def by (auto dest: set_takeWhileD)

lemma in_possibles:
  "y \<in> set (possibles ks (Cache cs xs)) \<longleftrightarrow>
     y \<in> set xs \<or> (\<exists>k \<in> set ks. \<exists>d. map_of cs k = Some d \<and> y \<in> set (possibles ks d))"
proof -
  have "y \<in> set (case map_of cs k of Some c \<Rightarrow> possibles ks c | None \<Rightarrow> []) \<longleftrightarrow>
    (\<exists>d. map_of cs k = Some d \<and> y \<in> set (possibles ks d))" for k
    by (cases "map_of cs k") simp_all
  then show ?thesis by simp
qed

lemma inserted_from: "y \<in> set (possibles ks (cache_insert steps x c)) \<Longrightarrow> y = x \<or> y \<in> set (possibles ks c)"
proof (induction steps x c rule: cache_insert.induct)
  case (2 p steps x cs xs)
  let ?c = "case map_of cs p of Some c \<Rightarrow> c | None \<Rightarrow> Cache [] []"
  consider "y \<in> set xs" | "p \<in> set ks" "y \<in> set (possibles ks (cache_insert steps x ?c))"
    | k d where "k \<in> set ks" "map_of cs k = Some d" "y \<in> set (possibles ks d)"
    using 2(2) unfolding cache_insert.simps in_possibles AList.update_conv' by (auto split: if_splits)
  then show ?case
  proof cases
    case 2
    have "y = x \<or> y \<in> set (possibles ks ?c)" by (rule \<open>_ \<Longrightarrow> y = x \<or> _\<close> [OF 2(2)])
    then show ?thesis using 2(1) by (cases "map_of cs p") (auto simp: in_possibles)
  qed (unfold in_possibles, blast+)
qed (unfold cache_insert.simps in_possibles, auto)

lemma cache_from: "set (possibles ks (fold (\<lambda>(i, r). cache_insert (f r) (i, r)) es c)) \<subseteq> set (possibles ks c) \<union> set es"
proof (induction es arbitrary: c)
  case (Cons e es)
  obtain i r where e: "e = (i, r)" by fastforce
  have "set (possibles ks (cache_insert (f r) (i, r) c)) \<subseteq> insert e (set (possibles ks c))"
    using inserted_from e by fast
  then show ?case using Cons [of "cache_insert (f r) (i, r) c"] by (simp add: e) blast
qed simp

lemma match_route_from:
  assumes "r \<in> set (match_route w named rs name options)"
  shows "r \<in> set rs \<or> Option.bind name named = Some r"
proof (cases "Option.bind name named")
  case None
  let ?es = "non_recursive (map (pair_key w) options) [build_cache w rs]"
  have "set ?es = set (possibles (map (pair_key w) options) (build_cache w rs))"
    using arg_cong [OF breadth_or_depth [of "map (pair_key w) options" "[build_cache w rs]"], of set_mset] by simp
  moreover have "set (possibles (map (pair_key w) options) (Cache [] [])) = {}" by simp
  moreover have "set (possibles (map (pair_key w) options) (build_cache w rs)) \<subseteq>
      set (possibles (map (pair_key w) options) (Cache [] [])) \<union> set (enumerate 0 rs)"
    unfolding build_cache_def by (rule cache_from)
  ultimately have "set ?es \<subseteq> set (enumerate 0 rs)" by simp
  moreover have "r \<in> snd ` set ?es" using assms None by_score_from by (fastforce simp: match_route_def)
  ultimately show ?thesis by (auto simp: in_set_enumerate_eq)
qed (use assms in \<open>simp add: match_route_def\<close>)

section \<open>What is written\<close>

fun outer_names :: "node \<Rightarrow> string list" where
  "outer_names (Cat a b) = outer_names a @ outer_names b"
| "outer_names (Star n r) = outer_names n"
| "outer_names (Symbol l r m) = [strip_marks l]"
| "outer_names n = []"

fun leads :: "node \<Rightarrow> bool" where
  "leads (Cat a b) = leads a"
| "leads (Slash l m) = True"
| "leads n = False"

definition symbol_name :: "node \<Rightarrow> string option" where
  "symbol_name n = (if is_symbol n then node_name n else None)"

lemma map_filter_append: "List.map_filter f (xs @ ys) = List.map_filter f xs @ List.map_filter f ys"
proof (induction xs)
  case (Cons x xs)
  then show ?case by (cases "f x") (simp_all add: List.map_filter_simps)
qed (simp add: List.map_filter_simps)

lemma pattern_names_alt: "pattern_names n = List.map_filter symbol_name (nodes_of n)"
  by (simp add: pattern_names_def new_ast_def Let_def symbol_name_def [abs_def])

lemma optional_alt: "set (optional_names n) = {k. \<exists>g \<in> set (nodes_of n). \<exists>x \<in> set (below_group g). symbol_name x = Some k}"
proof -
  have "(\<lambda>n. if is_symbol n then node_name n else None) = symbol_name" by (rule ext) (simp add: symbol_name_def)
  then have "set (optional_names n) = set (List.map_filter symbol_name (concat (map below_group (nodes_of n))))"
    by (simp add: optional_names_def uniq_from_set)
  then show ?thesis unfolding set_eq_iff mem_Collect_eq by (simp only: in_map_filter set_concat set_map UN_iff image_iff) blast
qed

lemma names_split:
  "well_made n \<Longrightarrow> distinct (pattern_names n) \<Longrightarrow>
     set (outer_names n) \<inter> set (optional_names n) = {} \<and>
     set (pattern_names n) = set (outer_names n) \<union> set (optional_names n)"
proof (induction n)
  case (Cat a b)
  have names: "pattern_names (Cat a b) = pattern_names a @ pattern_names b"
    by (simp add: pattern_names_alt map_filter_append List.map_filter_simps symbol_name_def is_symbol_def)
  have opt: "set (optional_names (Cat a b)) = set (optional_names a) \<union> set (optional_names b)"
    unfolding optional_alt by auto
  show ?case using Cat names opt by auto
next
  case (Group n)
  have names: "pattern_names (Group n) = pattern_names n"
    by (simp add: pattern_names_alt List.map_filter_simps symbol_name_def is_symbol_def)
  have "set (optional_names n) \<subseteq> set (pattern_names n)" using Group names by simp
  moreover have "set (optional_names (Group n)) = set (pattern_names n) \<union> set (optional_names n)"
    unfolding optional_alt pattern_names_alt by (auto simp: in_map_filter)
  ultimately show ?case using names by auto
next
  case (Star n r)
  have "is_symbol n" using Star.prems by simp
  then obtain l x m where n: "n = Symbol l x m" using node_name_symbol by blast
  show ?case unfolding optional_alt pattern_names_alt n
    by (auto simp: List.map_filter_simps symbol_name_def is_symbol_def)
next
  case (Symbol l r m)
  show ?case unfolding optional_alt pattern_names_alt
    by (auto simp: List.map_filter_simps symbol_name_def is_symbol_def)
qed (simp_all add: optional_alt pattern_names_alt List.map_filter_simps symbol_name_def is_symbol_def)

lemma outer_required:
  "well_made n \<Longrightarrow> distinct (pattern_names n) \<Longrightarrow> set (outer_names n) \<subseteq> set (required_names n)"
  using names_split by (fastforce simp: required_names_def)

lemma outer_given: "well_made n \<Longrightarrow> (\<And>k. k \<in> set (outer_names n) \<Longrightarrow> h k \<noteq> None) \<Longrightarrow> chosen h star n \<noteq> None"
proof (induction n arbitrary: star)
  case (Cat a b)
  have "chosen h star a \<noteq> None" "chosen h star b \<noteq> None"
    by (rule Cat.IH; use Cat.prems in \<open>simp\<close>)+
  then show ?case by (auto split: option.splits)
qed auto

lemma leads_slash: "well_made n \<Longrightarrow> leads n \<Longrightarrow> chosen h star n = Some w \<Longrightarrow> \<exists>p. concat (map snd w) = CHR ''/'' # p"
proof (induction n arbitrary: w star)
  case (Cat a b)
  then obtain u v where "chosen h star a = Some u" "chosen h star b = Some v" "w = u @ v"
    by (auto split: option.splits)
  with Cat show ?case by fastforce
qed auto

lemma generate_from_returns:
  "generate_from w name originals nested options recall rs missing = Generated r pp params \<Longrightarrow>
     r \<in> set rs \<and> missing_keys w r (extract_parts w r options recall) = [] \<and>
     pp = trim_parts w r (rev (parts r)) (extract_parts w r options recall) \<and>
     params = remaining r (extract_parts w r options recall) nested originals options"
proof (induction rs arbitrary: missing)
  case (Cons q rs)
  then show ?case by (simp only: generate_from.simps Let_def list.set split: if_splits) auto
qed (simp add: Let_def)

lemma trim_keeps: "k \<in> set (required_parts r) \<Longrightarrow> map_of (trim_parts w r ks pp) k = map_of pp k"
  by (induction w r ks pp rule: trim_parts.induct) (auto simp: delete_conv')

lemma trim_keys: "fst ` set (trim_parts w r ks pp) \<subseteq> fst ` set pp"
proof (induction w r ks pp rule: trim_parts.induct)
  case (2 w r key ks pp)
  have "fst ` set (AList.delete key pp) \<subseteq> fst ` set pp" by (auto simp: AList.delete_eq)
  then have "key \<notin> set (required_parts r) \<Longrightarrow> fst ` set (trim_parts w r ks (AList.delete key pp)) \<subseteq> fst ` set pp"
    if "\<not> (nullish (read_key w (defaults r) key) \<and> is_present w (read_key w pp key))"
      "to_s w (read_key w pp key) = to_s w (read_key w (defaults r) key)"
    using 2(2) that by (meson subset_trans)
  then show ?case using 2(1) by simp
qed simp

lemma extracted_keys: "fst ` set (extract_parts w r options recall) \<subseteq> set (parts r)"
proof -
  have "set (dropWhile p (rev (parts r))) \<subseteq> set (parts r)" for p by (metis set_dropWhileD set_rev subsetI)
  moreover have "set (required_parts r) \<subseteq> set (parts r)"
    by (auto simp: required_parts_def required_names_def parts_def)
  ultimately show ?thesis unfolding extract_parts_def Let_def by force
qed


text \<open>What the checks for missing parts rely on: the prototype of an object answers for no required
  part, and no requirement accepts the empty text.\<close>

definition checks_bite :: "'v forms \<Rightarrow> ('v, 'app) target \<Rightarrow> bool" where
  "checks_bite w r \<longleftrightarrow> list_all (\<lambda>k. inherited w k = FUndefined) (required_parts r) \<and>
     list_all (\<lambda>(k, test). \<not> test []) (key_tests r)"

lemma present_part:
  assumes "checks_bite w r" "missing_keys w r pp = []" "k \<in> set (required_parts r)"
  shows "part_texts w pp k \<noteq> None"
proof -
  let ?v = "read_key w pp k"
  have ok: "\<not> (case map_of (key_tests r) k of None \<Rightarrow> nullish ?v \<or> ?v = FBool False | Some test \<Rightarrow> \<not> test (to_s w ?v))"
    using assms(2,3) by (auto simp: missing_keys_def filter_empty_conv Let_def)
  have "\<not> nullish ?v"
  proof
    assume n: "nullish ?v"
    then have e: "to_s w ?v = []" by (auto simp: nullish_def to_s_def field_text_def)
    show False
    proof (cases "map_of (key_tests r) k")
      case (Some test)
      then have "(k, test) \<in> set (key_tests r)" by (rule map_of_SomeD)
      then show False using assms(1) ok Some e by (auto simp: checks_bite_def list_all_iff)
    qed (use ok n in simp)
  qed
  moreover have "inherited w k = FUndefined" using assms(1,3) by (auto simp: checks_bite_def list_all_iff)
  ultimately show ?thesis by (auto simp: part_texts_def read_key_def nullish_def split: option.splits)
qed

text \<open>
  C32. A generated URL is whole: its route was one of those to try, the path starts with the slash
  of the pattern instead of being dropped for a missing part, only parts of the pattern are written
  into it, and no option is written both into the path and after it.
\<close>
theorem generated_paths_are_whole:
  assumes "generate w named rs name options recall = Generated r pp params"
    and "well_made (tree_of r)" "leads (tree_of r)" "distinct (parts r)" "build_format (tree_of r) \<noteq> None"
    and "checks_bite w r"
  shows "(\<exists>p. format_path w r pp = Some (CHR ''/'' # p)) \<and> fst ` set pp \<subseteq> set (parts r) \<and>
    fst ` set pp \<inter> fst ` set params = {} \<and> (r \<in> set rs \<or> Option.bind name named = Some r)"
proof -
  obtain originals nested opts where g: "generate_from w name originals nested opts recall
      (match_route w named rs name (put_all opts recall)) [] = Generated r pp params"
    using assms(1) by (simp only: generate_def Let_def)
  let ?pp = "extract_parts w r opts recall"
  have r: "r \<in> set (match_route w named rs name (put_all opts recall))" "missing_keys w r ?pp = []"
    and pp: "pp = trim_parts w r (rev (parts r)) ?pp" and params: "params = remaining r ?pp nested originals opts"
    using generate_from_returns [OF g] by blast+
  have "part_texts w pp k \<noteq> None" if k: "k \<in> set (required_parts r)" for k
    using present_part [OF assms(6) r(2) k] trim_keeps [OF k, of w "rev (parts r)" ?pp] by (simp add: part_texts_def pp)
  moreover have "set (outer_names (tree_of r)) \<subseteq> set (required_parts r)"
    unfolding required_parts_def using outer_required [OF assms(2)] assms(4) by (simp add: parts_def)
  ultimately have "chosen (part_texts w pp) False (tree_of r) \<noteq> None"
    using outer_given [OF assms(2)] by blast
  then obtain wr where wr: "chosen (part_texts w pp) False (tree_of r) = Some wr" by blast
  obtain ps where ps: "build_format (tree_of r) = Some ps" using assms(5) by blast
  have path: "\<exists>p. format_path w r pp = Some (CHR ''/'' # p)"
    using evaluate_chosen [OF assms(2) ps] wr leads_slash [OF assms(2,3) wr] ps by (auto simp: format_path_def)
  have keys: "fst ` set pp \<subseteq> fst ` set ?pp" unfolding pp by (rule trim_keys)
  have "map_of ?pp k = None" if "k \<in> fst ` set params" for k
    using that unfolding params remaining_def own_key_def by auto
  then have "fst ` set params \<inter> fst ` set ?pp = {}" unfolding map_of_eq_None_iff by blast
  then have apart: "fst ` set pp \<inter> fst ` set params = {}" using keys by blast
  have inside: "fst ` set pp \<subseteq> set (parts r)" using keys extracted_keys by (rule subset_trans)
  show ?thesis by (intro conjI path inside apart match_route_from [OF r(1)])
qed


section \<open>Examples\<close>

definition sample_forms :: "nat forms" where
  "sample_forms = \<lparr>show_value = (\<lambda>v. []), param_of = FOther, blank_value = (\<lambda>v. False), inspect_of = (\<lambda>v. []),
     json = (\<lambda>x. case x of FStr s \<Rightarrow> s | _ \<Rightarrow> ''null''), as_hash = (\<lambda>v. None), inherited = (\<lambda>k. FUndefined)\<rparr>"

definition sample_target :: "string \<Rightarrow> (string \<times> (string \<Rightarrow> bool)) list \<Rightarrow> (nat, nat) target" where
  "sample_target c tests = \<lparr>number = 0, precedence = 0, anchored = True,
     tree_of = Cat (Slash ''/'' None) (Symbol '':id'' DefaultExp None), array_requirements = [], verbs = [AllVerbs],
     constraints = [], defaults = [(''controller'', FStr c)], app = None, scope_options = [],
     required_default_names = [''controller''], dispatches = True, key_tests = tests\<rparr>"

lemma sample_names:
  "pattern_names (Cat (Slash ''/'' None) (Symbol '':id'' DefaultExp None)) = [''id'']"
  "required_names (Cat (Slash ''/'' None) (Symbol '':id'' DefaultExp None)) = [''id'']"
proof -
  have n: "strip_marks '':id'' = ''id''" by (simp add: strip_marks_def)
  show p: "pattern_names (Cat (Slash ''/'' None) (Symbol '':id'' DefaultExp None)) = [''id'']"
    by (simp add: pattern_names_alt List.map_filter_simps symbol_name_def is_symbol_def n)
  have "set (optional_names (Cat (Slash ''/'' None) (Symbol '':id'' DefaultExp None))) = {}"
    unfolding optional_alt by simp
  then show "required_names (Cat (Slash ''/'' None) (Symbol '':id'' DefaultExp None)) = [''id'']"
    by (simp add: required_names_def p)
qed

lemma sample_reads:
  "required_defaults (sample_target c tests) = [(''controller'', FStr c)]"
  "required_parts (sample_target c tests) = [''id'']" "parts (sample_target c tests) = [''id'']"
  "defaults (sample_target c tests) = [(''controller'', FStr c)]" "scope_options (sample_target c tests) = []"
  "key_tests (sample_target c tests) = tests"
  by (simp_all add: required_defaults_def parts_def required_parts_def sample_target_def sample_names)

lemma routes_are_tried_by_score_example:
  "match_route sample_forms Map.empty [sample_target ''a'' [], sample_target ''b'' [], sample_target ''a'' []] None
      [(''controller'', FStr ''a''), (''id'', FStr ''7'')] =
    [sample_target ''a'' [], sample_target ''a'' []]"
  by (subst routes_are_tried_by_score)
    (simp_all add: fitting_def sample_reads score_def supplied_keys_def nullish_def pair_key_def sample_forms_def)

lemma sample_inherits: "inherited sample_forms k = FUndefined"
  by (simp add: sample_forms_def)

lemma sample_extracted:
  "extract_parts sample_forms (sample_target c tests) [(''id'', FStr ''7''), (''page'', FStr ''2'')] [] =
     [(''id'', FStr ''7'')]"
  "extract_parts sample_forms (sample_target c tests) [] [] = []"
  by (simp_all add: extract_parts_def sample_reads own_key_def read_key_def nullish_def to_param_def Let_def)

lemma sample_generated:
  "generate sample_forms [''item'' \<mapsto> sample_target ''a'' []] [] (Some ''item'')
      [(''id'', FStr ''7''), (''page'', FStr ''2'')] [] =
    Generated (sample_target ''a'' []) [(''id'', FStr ''7'')] [(''page'', FStr ''2'')]"
  by (simp add: generate_def match_route_def sample_extracted sample_reads missing_keys_def read_key_def nullish_def
      remaining_def own_key_def Let_def to_s_def field_text_def is_present_def white_def sample_inherits)

lemma generated_paths_are_whole_example:
  "(\<exists>p. format_path sample_forms (sample_target ''a'' []) [(''id'', FStr ''7'')] = Some (CHR ''/'' # p)) \<and>
   fst ` set [(''id'', FStr ''7'' :: nat field)] \<subseteq> set (parts (sample_target ''a'' [])) \<and>
   fst ` set [(''id'', FStr ''7'' :: nat field)] \<inter> fst ` set [(''page'', FStr ''2'' :: nat field)] = {}"
proof -
  have "checks_bite sample_forms (sample_target ''a'' [])" by (simp add: checks_bite_def sample_reads sample_forms_def)
  moreover have "well_made (tree_of (sample_target ''a'' []))" "leads (tree_of (sample_target ''a'' []))"
    "build_format (tree_of (sample_target ''a'' [])) \<noteq> None"
    by (simp_all add: sample_target_def)
  ultimately show ?thesis using generated_paths_are_whole [OF sample_generated] by (simp add: sample_reads)
qed

text \<open>
  A requirement that accepts the empty text hides a missing part: the check reads \<open>null\<close> as the empty
  text, where Ruby's \<open>match?(nil)\<close> is false, and the path written is empty.
\<close>
lemma empty_requirement_hides_missing_part:
  "generate sample_forms [''item'' \<mapsto> sample_target ''a'' [(''id'', \<lambda>s. True)]] [] (Some ''item'') [] [] =
     Generated (sample_target ''a'' [(''id'', \<lambda>s. True)]) [] []"
  "format_path sample_forms (sample_target ''a'' [(''id'', \<lambda>s. True)]) [] = Some []"
proof -
  show "generate sample_forms [''item'' \<mapsto> sample_target ''a'' [(''id'', \<lambda>s. True)]] [] (Some ''item'') [] [] =
     Generated (sample_target ''a'' [(''id'', \<lambda>s. True)]) [] []"
    by (simp add: generate_def match_route_def sample_extracted sample_reads missing_keys_def read_key_def
        remaining_def to_s_def field_text_def nullish_def is_present_def Let_def sample_inherits)
  show "format_path sample_forms (sample_target ''a'' [(''id'', \<lambda>s. True)]) [] = Some []"
    by (simp add: format_path_def sample_target_def evaluate_def part_texts_def)
qed

end
