(* ===== verification/Attr_Type.thy ===== *)
theory Attr_Type
  imports Ruby_Hash
begin

text \<open>
  The values and the types of Active Model's attributes
  (\<^verbatim>\<open>packages/activemodel/src/type/value.ts\<close>).

  A value the attributes carry is a \<open>js\<close>: \<open>undefined\<close>, \<open>null\<close>, the symbol an uninitialized attribute
  answers for its original, or a value of the application. A type is the record \<open>vtype\<close> of the
  methods the attributes call on it, each of which may throw; \<open>ty_key\<close> is what \<open>ValueType#equals\<close>
  compares. \<open>value_type\<close> is the base class itself: what a subclass overrides is replaced in the
  record, as \<open>Attr_Integer\<close> does. Application values are compared by \<open>===\<close> as equality of the model.

  The locale \<open>lawful_type\<close> states what the dirty tracking relies on: what a type wrote it reads
  back, a value has not changed from itself, and in-place changes show in the serialization.
\<close>

section \<open>Outcomes without state\<close>

definition attempt :: "'e + 'a \<Rightarrow> ('a \<Rightarrow> 'e + 'b) \<Rightarrow> 'e + 'b" where
  "attempt r f = (case r of Inl e \<Rightarrow> Inl e | Inr x \<Rightarrow> f x)"

definition lift :: "'e + 'a \<Rightarrow> ('s, 'e, 'a) comp" where
  "lift r = (\<lambda>s. (r, s))"

lemma attempt_simps [simp]: "attempt (Inl e) f = Inl e" "attempt (Inr x) f = f x"
  by (simp_all add: attempt_def)

lemma attempt_Inr: "attempt r f = Inr y \<longleftrightarrow> (\<exists>x. r = Inr x \<and> f x = Inr y)"
  by (cases r) simp_all

lemma lift_run [simp]: "lift r s = (r, s)"
  by (simp add: lift_def)

section \<open>Values\<close>

datatype 'a js = Absent | Nil | Uninitialized_original | It 'a

definition nullish :: "'a js \<Rightarrow> bool" where
  "nullish v \<longleftrightarrow> v = Absent \<or> v = Nil"

datatype aerr =
    Missing_attribute string
  | Key_missing string
  | Frozen
  | Null_type
  | Out_of_range string
  | Invalid_value string

section \<open>Types\<close>

record 'a vtype =
  ty_key :: "string \<times> nat option \<times> nat option \<times> nat option"
  ty_deserialize :: "'a js \<Rightarrow> aerr + 'a js"
  ty_cast :: "'a js \<Rightarrow> aerr + 'a js"
  ty_serialize :: "'a js \<Rightarrow> aerr + 'a js"
  ty_serialize_cast_value :: "'a js \<Rightarrow> aerr + 'a js"
  ty_compatible :: bool
  ty_is_changed :: "'a js \<Rightarrow> 'a js \<Rightarrow> 'a js \<Rightarrow> bool"
  ty_is_changed_in_place :: "'a js \<Rightarrow> 'a js \<Rightarrow> aerr + bool"
  ty_mass_assigned :: "'a js \<Rightarrow> bool"
  ty_assert_valid :: "'a js \<Rightarrow> aerr + unit"
  ty_serializable :: "'a js \<Rightarrow> aerr + bool"

definition type_equals :: "'a vtype \<Rightarrow> 'a vtype \<Rightarrow> bool" where
  "type_equals t u \<longleftrightarrow> ty_key t = ty_key u"

text \<open>\<open>serializeCastValueCompatible\<close> walks the prototype chain; each element says whether that
  prototype has its own \<open>serialize\<close> and its own \<open>serializeCastValue\<close>.\<close>

fun compatible_from :: "int \<Rightarrow> int \<Rightarrow> int \<Rightarrow> (bool \<times> bool) list \<Rightarrow> bool" where
  "compatible_from ser csv depth [] \<longleftrightarrow> csv \<ge> 0 \<and> ser \<ge> 0 \<and> csv \<le> ser"
| "compatible_from ser csv depth ((s, c) # protos) = compatible_from
     (if ser < 0 \<and> s then depth else ser) (if csv < 0 \<and> c then depth else csv) (depth + 1) protos"

definition serialize_cast_value_compatible :: "(bool \<times> bool) list \<Rightarrow> bool" where
  "serialize_cast_value_compatible protos = compatible_from (-1) (-1) 0 protos"

text \<open>\<open>rb_equal\<close> is Ruby's \<open>==\<close> on values; \<open>cast_value\<close> is the hook subclasses define. The
  two virtual calls of the base class are \<open>deserialize\<close> to \<open>cast\<close> and \<open>cast\<close> to \<open>castValue\<close>.\<close>

definition base_cast :: "('a js \<Rightarrow> aerr + 'a js) \<Rightarrow> 'a js \<Rightarrow> aerr + 'a js" where
  "base_cast cast_value v = (if nullish v then Inr Nil else cast_value v)"

definition value_type :: "('a js \<Rightarrow> 'a js \<Rightarrow> bool) \<Rightarrow> nat option \<Rightarrow> nat option \<Rightarrow> nat option \<Rightarrow> 'a vtype" where
  "value_type rb_equal precision scale limit = \<lparr>
     ty_key = (''ValueType'', precision, scale, limit),
     ty_deserialize = base_cast Inr,
     ty_cast = base_cast Inr,
     ty_serialize = Inr,
     ty_serialize_cast_value = Inr,
     ty_compatible = serialize_cast_value_compatible [(True, True)],
     ty_is_changed = (\<lambda>old new before. \<not> rb_equal old new),
     ty_is_changed_in_place = (\<lambda>raw new. Inr False),
     ty_mass_assigned = (\<lambda>v. False),
     ty_assert_valid = (\<lambda>v. Inr ()),
     ty_serializable = (\<lambda>v. Inr True)\<rparr>"

text \<open>A compatible class does not override \<open>serialize\<close> below the \<open>serializeCastValue\<close> it inherits.\<close>

lemma compatible_from_found:
  "0 \<le> ser \<Longrightarrow> 0 \<le> csv \<Longrightarrow> compatible_from ser csv d protos \<longleftrightarrow> csv \<le> ser"
  by (induction protos arbitrary: d) (auto simp: not_less [symmetric] split: prod.splits)

lemma compatible_from_cast:
  "0 \<le> csv \<Longrightarrow> csv < d \<Longrightarrow> compatible_from (-1) csv d protos \<longleftrightarrow> (\<exists>p \<in> set protos. fst p)"
proof (induction protos arbitrary: d)
  case (Cons p protos)
  then show ?case by (cases p; cases "fst p") (auto simp: compatible_from_found)
qed simp

lemma compatible_from_serialize:
  "0 \<le> ser \<Longrightarrow> ser < d \<Longrightarrow> \<not> compatible_from ser (-1) d protos"
proof (induction protos arbitrary: d)
  case (Cons p protos)
  then show ?case by (cases p; cases "snd p") (auto simp: compatible_from_found)
qed simp

lemma compatible_iff:
  "serialize_cast_value_compatible protos \<longleftrightarrow>
    (case dropWhile (\<lambda>p. \<not> fst p \<and> \<not> snd p) protos of
       [] \<Rightarrow> False
     | p # below \<Rightarrow> snd p \<and> (\<exists>q \<in> set (p # below). fst q))"
proof -
  have "0 \<le> d \<Longrightarrow> compatible_from (-1) (-1) d protos \<longleftrightarrow>
    (case dropWhile (\<lambda>p. \<not> fst p \<and> \<not> snd p) protos of
       [] \<Rightarrow> False
     | p # below \<Rightarrow> snd p \<and> (\<exists>q \<in> set (p # below). fst q))" for d
  proof (induction protos arbitrary: d)
    case (Cons p protos)
    obtain s c where "p = (s, c)" by (cases p)
    then show ?case using Cons.prems Cons.IH [of "d + 1"]
      by (cases s; cases c)
        (auto simp: compatible_from_found compatible_from_cast compatible_from_serialize)
  qed simp
  then show ?thesis by (simp add: serialize_cast_value_compatible_def)
qed

section \<open>What dirty tracking relies on\<close>

text \<open>\<open>good\<close> are the cast values the type handles; \<open>raw\<close> is a serialized value.\<close>

locale lawful_type =
  fixes t :: "'a vtype" and good :: "'a js \<Rightarrow> bool"
  assumes serialize_good: "good v \<Longrightarrow> \<exists>raw. ty_serialize t v = Inr raw"
    and read_back: "good v \<Longrightarrow> ty_serialize t v = Inr raw \<Longrightarrow> ty_deserialize t raw = Inr v"
    and shortcut: "good v \<Longrightarrow> ty_compatible t \<Longrightarrow> ty_serialize_cast_value t v = ty_serialize t v"
    and unchanged: "good v \<Longrightarrow> \<not> ty_is_changed t v v v"
    and in_place: "good v \<Longrightarrow> ty_serialize t v = Inr raw \<Longrightarrow> ty_is_changed_in_place t raw v = Inr False"
    and in_place_total: "good v \<Longrightarrow> \<exists>c. ty_is_changed_in_place t raw v = Inr c"

text \<open>A type for objects that can be changed where they are: such a change is noticed.\<close>

locale mutable_type = lawful_type +
  assumes detects: "good v \<Longrightarrow> ty_is_changed_in_place t raw v = Inr False \<Longrightarrow> ty_deserialize t raw = Inr v"

end
