(* ===== verification/Attr.thy ===== *)
theory Attr
  imports Attr_Type
begin

text \<open>
  Attributes (\<^verbatim>\<open>packages/activemodel/src/attribute.ts\<close> and
  \<^verbatim>\<open>attribute/user-provided-default.ts\<close>): one value of a record together with where it came from,
  its type, and the attribute it replaced.

  The class hierarchy is the tag \<open>kind\<close>; an overridden method is a case on it. The two memo fields
  (\<open>_value\<close>, \<open>_cachedValueForDatabase\<close>) are options, and the getters that fill them are computations
  on the attribute. The attribute an assignment replaced is only ever asked for its original value,
  which no memo changes, so it is kept by value. Values have no identity here: \<open>edited\<close>, the application
  changing an object an attribute has handed out, says in which places that object was held. A default given as a block is represented by the answer of
  the block. \<open>dup\<close> copies an attribute, which by value is the attribute itself. The block
  \<open>isSerializable\<close> may be given, which is called with the value, is left out.
\<close>

section \<open>The attribute\<close>

datatype kind = FromDatabase | FromUser | WithCastValue | NullAttr | Uninit | UserDefault

datatype 'a given = Given "'a js" | Block "aerr + 'a js"

datatype 'a attribute = Attribute (kind: kind) (attr_name: string) (before: "'a given")
  (atype: "'a vtype option") (original: "'a attribute option")
  (cached: "'a js option") (cached_for_database: "'a js option")

type_synonym ('a, 'b) aact = "('a attribute, aerr, 'b) comp"

fun with_cached :: "'a js \<Rightarrow> 'a attribute \<Rightarrow> 'a attribute" where
  "with_cached v (Attribute k n b t o' c d) = Attribute k n b t o' (Some v) d"

fun with_cached_for_database :: "'a js \<Rightarrow> 'a attribute \<Rightarrow> 'a attribute" where
  "with_cached_for_database v (Attribute k n b t o' c d) = Attribute k n b t o' c (Some v)"

definition construct :: "kind \<Rightarrow> string \<Rightarrow> 'a given \<Rightarrow> 'a vtype option \<Rightarrow> 'a attribute option \<Rightarrow> 'a js
    \<Rightarrow> 'a attribute" where
  "construct k n b t o' v = Attribute k n b t o' (if nullish v then None else Some v) None"

definition from_database :: "string \<Rightarrow> 'a js \<Rightarrow> 'a vtype option \<Rightarrow> 'a js \<Rightarrow> 'a attribute" where
  "from_database n b t v = construct FromDatabase n (Given b) t None v"

definition from_user :: "string \<Rightarrow> 'a js \<Rightarrow> 'a vtype option \<Rightarrow> 'a attribute option \<Rightarrow> 'a attribute" where
  "from_user n b t o' = construct FromUser n (Given b) t o' Absent"

definition with_cast :: "string \<Rightarrow> 'a js \<Rightarrow> 'a vtype option \<Rightarrow> 'a attribute" where
  "with_cast n b t = construct WithCastValue n (Given b) t None Absent"

text \<open>\<open>default_type\<close> is the type \<open>defaultValue()\<close> answers.\<close>

definition null_attribute :: "'a vtype \<Rightarrow> string \<Rightarrow> 'a attribute" where
  "null_attribute default_type n = construct NullAttr n (Given Nil) (Some default_type) None Absent"

definition uninitialized :: "string \<Rightarrow> 'a vtype option \<Rightarrow> 'a attribute" where
  "uninitialized n t = construct Uninit n (Given Nil) t None Absent"

definition user_provided_default :: "string \<Rightarrow> 'a given \<Rightarrow> 'a vtype option \<Rightarrow> 'a attribute option
    \<Rightarrow> 'a attribute" where
  "user_provided_default n b t o' = construct UserDefault n b t o' Absent"

section \<open>Reading\<close>

definition the_type :: "'a attribute \<Rightarrow> aerr + 'a vtype" where
  "the_type a = (case atype a of None \<Rightarrow> Inl Null_type | Some t \<Rightarrow> Inr t)"

definition value_before_type_cast :: "'a attribute \<Rightarrow> aerr + 'a js" where
  "value_before_type_cast a = (case before a of Given v \<Rightarrow> Inr v | Block r \<Rightarrow> r)"

definition type_cast :: "'a attribute \<Rightarrow> 'a js \<Rightarrow> aerr + 'a js" where
  "type_cast a v = (case kind a of
       FromDatabase \<Rightarrow> attempt (the_type a) (\<lambda>t. ty_deserialize t v)
     | FromUser \<Rightarrow> attempt (the_type a) (\<lambda>t. ty_cast t v)
     | UserDefault \<Rightarrow> attempt (the_type a) (\<lambda>t. ty_cast t v)
     | WithCastValue \<Rightarrow> Inr v
     | NullAttr \<Rightarrow> Inr Nil
     | Uninit \<Rightarrow> Inr Absent)"

definition attr_value :: "('a, 'a js) aact" where
  "attr_value = (\<lambda>a.
     if kind a = Uninit then (Inr Absent, a)
     else case cached a of
       Some v \<Rightarrow> (Inr v, a)
     | None \<Rightarrow> (case attempt (value_before_type_cast a) (type_cast a) of
         Inl e \<Rightarrow> (Inl e, a)
       | Inr v \<Rightarrow> (Inr v, with_cached v a)))"

fun original_value :: "'a attribute \<Rightarrow> aerr + 'a js" where
  "original_value (Attribute k n b t (Some o') c d) =
     (if k = Uninit then Inr Uninitialized_original else original_value o')"
| "original_value (Attribute k n b t None c d) =
     (if k = Uninit then Inr Uninitialized_original
      else let a = Attribute k n b t None c d in attempt (value_before_type_cast a) (type_cast a))"

fun original_value_for_database :: "'a attribute \<Rightarrow> aerr + 'a js" where
  "original_value_for_database (Attribute k n b t (Some o') c d) = original_value_for_database o'"
| "original_value_for_database (Attribute k n b t None c d) =
     (let a = Attribute k n b t None c d in
      if k = FromDatabase then value_before_type_cast a
      else attempt (the_type a) (\<lambda>t. attempt (original_value a) (ty_serialize t)))"

definition has_been_read :: "'a attribute \<Rightarrow> bool" where
  "has_been_read a \<longleftrightarrow> cached a \<noteq> None"

definition is_initialized :: "'a attribute \<Rightarrow> bool" where
  "is_initialized a \<longleftrightarrow> kind a \<noteq> Uninit"

definition came_from_user :: "'a attribute \<Rightarrow> aerr + bool" where
  "came_from_user a =
     (if kind a \<in> {FromUser, UserDefault}
      then attempt (the_type a) (\<lambda>t. attempt (value_before_type_cast a) (\<lambda>v. Inr (\<not> ty_mass_assigned t v)))
      else Inr False)"

definition is_serializable :: "('a, bool) aact" where
  "is_serializable = bind (gets the_type) (\<lambda>t. bind (lift t) (\<lambda>t.
     bind attr_value (\<lambda>v. lift (ty_serializable t v))))"

section \<open>Changes\<close>

definition changed_in_place :: "('a, bool) aact" where
  "changed_in_place = (\<lambda>a.
     if kind a = WithCastValue \<or> \<not> has_been_read a then (Inr False, a)
     else bind (lift (the_type a)) (\<lambda>t. bind (lift (original_value_for_database a)) (\<lambda>raw.
       bind attr_value (\<lambda>v. lift (ty_is_changed_in_place t raw v)))) a)"

definition changed_from_assignment :: "('a, bool) aact" where
  "changed_from_assignment = (\<lambda>a.
     if original a = None then (Inr False, a)
     else bind (lift (the_type a)) (\<lambda>t. bind (lift (original_value a)) (\<lambda>old. bind attr_value (\<lambda>new.
       bind (lift (value_before_type_cast a)) (\<lambda>b. ret (ty_is_changed t old new b))))) a)"

definition attr_changed :: "('a, bool) aact" where
  "attr_changed = bind changed_from_assignment (\<lambda>c. if c then ret True else changed_in_place)"

section \<open>The database form\<close>

definition compute_for_database :: "('a, 'a js) aact" where
  "compute_for_database = bind (gets the_type) (\<lambda>t. bind (lift t) (\<lambda>t. bind (gets kind) (\<lambda>k.
     bind attr_value (\<lambda>v.
       if k \<in> {FromUser, UserDefault} \<and> ty_compatible t then lift (ty_serialize_cast_value t v)
       else lift (ty_serialize t v)))))"

definition stale_for_database :: "('a, bool) aact" where
  "stale_for_database = (\<lambda>a. case cached_for_database a of
       None \<Rightarrow> (Inr True, a)
     | Some raw \<Rightarrow> bind (lift (the_type a)) (\<lambda>t. bind attr_value (\<lambda>v.
         lift (ty_is_changed_in_place t raw v))) a)"

definition value_for_database :: "('a, 'a js) aact" where
  "value_for_database = (\<lambda>a.
     if kind a = Uninit then (Inr Absent, a)
     else bind stale_for_database (\<lambda>stale. bind (if stale
       then bind compute_for_database (\<lambda>v. modify (with_cached_for_database v)) else skip)
       (\<lambda>_. gets (\<lambda>a. case cached_for_database a of Some v \<Rightarrow> v | None \<Rightarrow> Absent))) a)"

section \<open>New attributes from old\<close>

definition with_value_from_user :: "'a js \<Rightarrow> 'a attribute \<Rightarrow> aerr + 'a attribute" where
  "with_value_from_user v a =
     (if kind a = NullAttr then Inl (Missing_attribute (attr_name a))
      else attempt (the_type a) (\<lambda>t. attempt (ty_assert_valid t v) (\<lambda>_.
        Inr (from_user (attr_name a) v (atype a)
          (Some (case original a of Some o' \<Rightarrow> o' | None \<Rightarrow> a))))))"

definition with_value_from_database :: "'a js \<Rightarrow> 'a attribute \<Rightarrow> aerr + 'a attribute" where
  "with_value_from_database v a =
     (if kind a = NullAttr then Inl (Missing_attribute (attr_name a))
      else Inr (from_database (attr_name a) v (atype a) Absent))"

definition with_cast_value :: "'a js \<Rightarrow> 'a attribute \<Rightarrow> 'a attribute" where
  "with_cast_value v a = with_cast (attr_name a) v (atype a)"

definition retyped :: "'a vtype option \<Rightarrow> 'a attribute \<Rightarrow> 'a attribute" where
  "retyped t a = construct (kind a) (attr_name a) (before a) t (original a) Absent"

definition with_type :: "'a vtype option \<Rightarrow> ('a, 'a attribute) aact" where
  "with_type t = bind (gets kind) (\<lambda>k. bind (gets attr_name) (\<lambda>n.
     if k = NullAttr then ret (with_cast n Nil t)
     else if k = Uninit then ret (uninitialized n t)
     else if k = UserDefault then gets (retyped t)
     else bind changed_in_place (\<lambda>changed.
       if changed then bind attr_value (\<lambda>v. bind (gets (with_value_from_user v)) (\<lambda>r.
         bind (lift r) (\<lambda>a. ret (retyped t a))))
       else gets (retyped t))))"

definition with_user_default :: "'a given \<Rightarrow> 'a attribute \<Rightarrow> 'a attribute" where
  "with_user_default b a = user_provided_default (attr_name a) b (atype a)
     (if kind a = FromDatabase then Some a else original a)"

definition forget :: "('a, 'a attribute) aact" where
  "forget = bind value_for_database (\<lambda>v. bind (gets (with_value_from_database v)) lift)"

definition forgetting_assignment :: "('a, 'a attribute) aact" where
  "forgetting_assignment = (\<lambda>a. case kind a of
       Uninit \<Rightarrow> (Inr (uninitialized (attr_name a) (atype a)), a)
     | FromDatabase \<Rightarrow> bind changed_in_place (\<lambda>changed. if changed then forget else gets id) a
     | _ \<Rightarrow> forget a)"

definition attr_equals :: "'a attribute \<Rightarrow> 'a attribute \<Rightarrow> aerr + bool" where
  "attr_equals a b =
     (if kind a \<noteq> kind b \<or> attr_name a \<noteq> attr_name b then Inr False
      else attempt (value_before_type_cast a) (\<lambda>v. attempt (value_before_type_cast b) (\<lambda>w.
        Inr (v = w \<and> (case (atype a, atype b) of
            (None, None) \<Rightarrow> True
          | (Some t, Some u) \<Rightarrow> type_equals t u
          | _ \<Rightarrow> False)))))"

text \<open>
  What the application does to an object it was handed. An object may be held in several places at once:
  a type whose cast is the identity hands out the very object the attribute was built on, one whose
  \<open>serialize\<close> is the identity memoizes the value itself for the database, and an assigned value may be one
  the replaced attribute handed out. \<open>edited P v\<close> puts the changed object \<open>v\<close> in all the places \<open>P\<close> that
  held it; a block's answer is memoized by the attribute, so it is such a place too.
\<close>

datatype place = In_memo | In_raw | In_database_memo | In_replaced place

fun rewrite_given :: "'a js \<Rightarrow> 'a given \<Rightarrow> 'a given" where
  "rewrite_given v (Given b) = Given v"
| "rewrite_given v (Block r) = (case r of Inl e \<Rightarrow> Block (Inl e) | Inr b \<Rightarrow> Block (Inr v))"

fun edited :: "place set \<Rightarrow> 'a js \<Rightarrow> 'a attribute \<Rightarrow> 'a attribute" where
  "edited P v (Attribute k n b t o' c d) = Attribute k n
     (if In_raw \<in> P then rewrite_given v b else b) t
     (map_option (edited {p. In_replaced p \<in> P} v) o')
     (if In_memo \<in> P then map_option (\<lambda>_. v) c else c)
     (if In_database_memo \<in> P then map_option (\<lambda>_. v) d else d)"

text \<open>The place of the raw value the original value is read from: the last one of the chain.\<close>

fun origin :: "'a attribute \<Rightarrow> place" where
  "origin (Attribute k n b t None c d) = In_raw"
| "origin (Attribute k n b t (Some o') c d) = In_replaced (origin o')"

section \<open>What the memos leave alone\<close>

definition current :: "'a attribute \<Rightarrow> aerr + 'a js" where
  "current a = fst (attr_value a)"

definition settles :: "'a attribute \<Rightarrow> 'a attribute \<Rightarrow> bool" where
  "settles a b \<longleftrightarrow> kind b = kind a \<and> attr_name b = attr_name a \<and> before b = before a \<and>
     atype b = atype a \<and> original b = original a \<and> current b = current a \<and>
     (has_been_read a \<longrightarrow> cached b = cached a)"

interpretation settles: effect settles
  by unfold_locales (auto simp: settles_def has_been_read_def)

lemma with_cached_simps [simp]:
  "kind (with_cached v a) = kind a" "attr_name (with_cached v a) = attr_name a"
  "before (with_cached v a) = before a" "atype (with_cached v a) = atype a"
  "original (with_cached v a) = original a" "cached (with_cached v a) = Some v"
  "cached_for_database (with_cached v a) = cached_for_database a"
  by (cases a; simp)+

lemma with_cached_for_database_simps [simp]:
  "kind (with_cached_for_database v a) = kind a" "attr_name (with_cached_for_database v a) = attr_name a"
  "before (with_cached_for_database v a) = before a" "atype (with_cached_for_database v a) = atype a"
  "original (with_cached_for_database v a) = original a"
  "cached (with_cached_for_database v a) = cached a"
  "cached_for_database (with_cached_for_database v a) = Some v"
  by (cases a; simp)+

lemma construct_simps [simp]:
  "kind (construct k n b t o' v) = k" "attr_name (construct k n b t o' v) = n"
  "before (construct k n b t o' v) = b" "atype (construct k n b t o' v) = t"
  "original (construct k n b t o' v) = o'" "cached_for_database (construct k n b t o' v) = None"
  "cached (construct k n b t o' v) = (if nullish v then None else Some v)"
  by (simp_all add: construct_def)

lemma nullish_simps [simp]: "nullish Absent" "nullish Nil" "\<not> nullish (It x)"
  by (simp_all add: nullish_def)

lemmas constructor_defs = from_database_def from_user_def with_cast_def null_attribute_def
  uninitialized_def user_provided_default_def

lemma before_cast_cong:
  "kind b = kind a \<Longrightarrow> before b = before a \<Longrightarrow> atype b = atype a \<Longrightarrow>
     value_before_type_cast b = value_before_type_cast a \<and> type_cast b = type_cast a"
  by (auto simp: value_before_type_cast_def type_cast_def the_type_def fun_eq_iff split: kind.splits)

lemma current_unfold:
  "current a = (if kind a = Uninit then Inr Absent else case cached a of Some v \<Rightarrow> Inr v
     | None \<Rightarrow> attempt (value_before_type_cast a) (type_cast a))"
  by (simp add: current_def attr_value_def split: option.splits sum.splits)

lemma attr_value_settles: "settles a (snd (attr_value a))"
proof (cases "kind a = Uninit \<or> cached a \<noteq> None")
  case True
  then show ?thesis by (auto simp: attr_value_def settles_def)
next
  case False
  show ?thesis
  proof (cases "attempt (value_before_type_cast a) (type_cast a)")
    case (Inl e)
    then show ?thesis using False by (auto simp: attr_value_def settles_def)
  next
    case (Inr v)
    then have "snd (attr_value a) = with_cached v a" using False by (simp add: attr_value_def)
    then show ?thesis using False Inr by (simp add: settles_def current_unfold has_been_read_def)
  qed
qed

lemma stable_attr_value: "stable settles attr_value"
  by (rule stableI) (rule attr_value_settles)

lemma attr_value_run: "attr_value a = (current a, snd (attr_value a))"
  by (simp add: current_def)

lemma attr_value_read:
  "current a = Inr v \<Longrightarrow> kind a \<noteq> Uninit \<Longrightarrow> cached (snd (attr_value a)) = Some v"
  by (auto simp: current_def attr_value_def split: option.splits sum.splits)

lemma stable_lift: "stable settles (lift r)"
  by (rule stableI) (simp add: settles.refl)

lemma stable_changed_in_place: "stable settles changed_in_place"
  unfolding changed_in_place_def
proof (rule stableI, goal_cases)
  case (1 a)
  have "stable settles (bind (lift (the_type a)) (\<lambda>t. bind (lift (original_value_for_database a)) (\<lambda>raw.
       bind attr_value (\<lambda>v. lift (ty_is_changed_in_place t raw v)))))"
    by (intro settles.bind stable_lift stable_attr_value)
  then show ?case by (auto simp: settles.refl dest: stableD [where s = a])
qed

lemma stable_changed_from_assignment: "stable settles changed_from_assignment"
  unfolding changed_from_assignment_def
proof (rule stableI, goal_cases)
  case (1 a)
  have "stable settles (bind (lift (the_type a)) (\<lambda>t. bind (lift (original_value a)) (\<lambda>old. bind attr_value (\<lambda>new.
       bind (lift (value_before_type_cast a)) (\<lambda>b. ret (ty_is_changed t old new b))))))"
    by (intro settles.bind stable_lift stable_attr_value settles.ret)
  then show ?case by (auto simp: settles.refl dest: stableD [where s = a])
qed

lemma stable_attr_changed: "stable settles attr_changed"
  unfolding attr_changed_def
  by (intro settles.bind settles.if_then settles.ret stable_changed_in_place stable_changed_from_assignment)

lemma stable_compute: "stable settles compute_for_database"
  unfolding compute_for_database_def
  by (intro settles.bind settles.gets settles.if_then stable_lift stable_attr_value)

lemma stable_stale: "stable settles stale_for_database"
  unfolding stale_for_database_def
proof (rule stableI, goal_cases)
  case (1 a)
  have "stable settles (bind (lift (the_type a)) (\<lambda>t. bind attr_value (\<lambda>v.
         lift (ty_is_changed_in_place t raw v))))" for raw
    by (intro settles.bind stable_lift stable_attr_value)
  then show ?case by (auto simp: settles.refl dest: stableD [where s = a] split: option.splits)
qed

lemma settles_database_memo: "settles a (with_cached_for_database v a)"
proof -
  have "attempt (value_before_type_cast (with_cached_for_database v a)) (type_cast (with_cached_for_database v a)) =
    attempt (value_before_type_cast a) (type_cast a)" by (simp add: before_cast_cong [of "with_cached_for_database v a" a])
  then show ?thesis by (auto simp: settles_def current_unfold split: option.splits)
qed

lemma stable_value_for_database: "stable settles value_for_database"
proof (rule stableI)
  fix a
  have "stable settles (bind stale_for_database (\<lambda>stale. bind (if stale
       then bind compute_for_database (\<lambda>v. modify (with_cached_for_database v)) else skip)
       (\<lambda>_. gets (\<lambda>a. case cached_for_database a of Some v \<Rightarrow> v | None \<Rightarrow> Absent))))"
    by (intro settles.bind settles.if_then settles.gets settles.ret settles.modify stable_stale
        stable_compute settles_database_memo)
  then show "settles a (snd (value_for_database a))"
    by (auto simp: value_for_database_def settles.refl dest: stableD [where s = a])
qed

lemma stable_forgetting: "stable settles forgetting_assignment"
proof (rule stableI)
  fix a
  have f: "stable settles forget" unfolding forget_def
    by (intro settles.bind settles.gets stable_lift stable_value_for_database)
  then have "stable settles (bind changed_in_place (\<lambda>changed. if changed then forget else gets id))"
    by (intro settles.bind settles.if_then settles.gets stable_changed_in_place)
  with f show "settles a (snd (forgetting_assignment a))"
    by (auto simp: forgetting_assignment_def settles.refl dest: stableD [where s = a] split: kind.splits)
qed

end
