(* ===== verification/Attr_Changes.thy ===== *)
theory Attr_Changes
  imports Attr
begin

text \<open>
  What an attribute promises about changes: however often it is read, written and edited it goes on
  answering for the value it started from (unless the edit is of that very object), a write shows up as a change exactly when its type says
  so, and forgetting the changes keeps the value.
\<close>

section \<open>Well-formed attributes\<close>

text \<open>The chain of replaced attributes has at most one link, and only assigned attributes have one.\<close>

definition attr_ok :: "'a attribute \<Rightarrow> bool" where
  "attr_ok a \<longleftrightarrow> (\<forall>o'. original a = Some o' \<longrightarrow> original o' = None \<and> kind o' \<noteq> NullAttr) \<and>
     (original a \<noteq> None \<longrightarrow> kind a \<in> {FromUser, UserDefault}) \<and>
     (kind a \<noteq> UserDefault \<longrightarrow> (\<exists>v. before a = Given v)) \<and>
     (kind a = Uninit \<longrightarrow> cached a = None)"

lemma settles_ok: "settles a b \<Longrightarrow> attr_ok a \<Longrightarrow> kind a \<noteq> Uninit \<Longrightarrow> attr_ok b"
  by (auto simp: settles_def attr_ok_def)

lemma original_value_unfold:
  "original_value a = (if kind a = Uninit then Inr Uninitialized_original else case original a of
     Some o' \<Rightarrow> original_value o' | None \<Rightarrow> attempt (value_before_type_cast a) (type_cast a))"
  by (cases a rule: original_value.cases) (auto simp: Let_def)

lemma original_value_for_database_unfold:
  "original_value_for_database a = (case original a of
     Some o' \<Rightarrow> original_value_for_database o'
   | None \<Rightarrow> if kind a = FromDatabase then value_before_type_cast a
      else attempt (the_type a) (\<lambda>t. attempt (original_value a) (ty_serialize t)))"
  by (cases a rule: original_value_for_database.cases) (auto simp: Let_def)

declare original_value.simps [simp del] original_value_for_database.simps [simp del]

lemma originals_cong:
  assumes "kind b = kind a" "before b = before a" "atype b = atype a" "original b = original a"
  shows "original_value b = original_value a"
    "original_value_for_database b = original_value_for_database a"
proof -
  have c: "value_before_type_cast b = value_before_type_cast a" "type_cast b = type_cast a"
    using before_cast_cong assms by blast+
  have t: "the_type b = the_type a" using assms by (simp add: the_type_def)
  show o': "original_value b = original_value a"
    using c assms by (cases "original a") (simp_all add: original_value_unfold [of a] original_value_unfold [of b])
  show "original_value_for_database b = original_value_for_database a"
    using c t o' assms by (cases "original a") (simp_all add: original_value_for_database_unfold [of a]
        original_value_for_database_unfold [of b])
qed

lemma settles_originals:
  assumes "settles a b"
  shows "original_value b = original_value a"
    "original_value_for_database b = original_value_for_database a"
  using assms originals_cong [of b a] by (simp_all add: settles_def)

section \<open>Any number of reads, writes and edits\<close>

inductive attr_step :: "'a attribute \<Rightarrow> 'a attribute \<Rightarrow> bool" where
  reading: "attr_value a = (r, b) \<Longrightarrow> attr_step a b"
| storing: "value_for_database a = (r, b) \<Longrightarrow> attr_step a b"
| asking: "attr_changed a = (r, b) \<Longrightarrow> attr_step a b"
| editing: "origin a \<notin> P \<Longrightarrow> b = edited P v a \<Longrightarrow> attr_step a b"
| assigning: "with_value_from_user v a = Inr b \<Longrightarrow> attr_step a b"

lemma edited_simps [simp]:
  "kind (edited P v a) = kind a" "attr_name (edited P v a) = attr_name a" "atype (edited P v a) = atype a"
  "before (edited P v a) = (if In_raw \<in> P then rewrite_given v (before a) else before a)"
  "original (edited P v a) = map_option (edited {p. In_replaced p \<in> P} v) (original a)"
  "cached (edited P v a) = (if In_memo \<in> P then map_option (\<lambda>_. v) (cached a) else cached a)"
  by (cases a; simp)+

lemma edited_originals:
  "origin a \<notin> P \<Longrightarrow> original_value (edited P v a) = original_value a \<and>
     original_value_for_database (edited P v a) = original_value_for_database a"
proof (induction a arbitrary: P rule: origin.induct)
  case (1 k n b t c d)
  let ?a = "Attribute k n b t None c d"
  have "original_value (edited P v ?a) = original_value ?a"
    "original_value_for_database (edited P v ?a) = original_value_for_database ?a"
    by (rule originals_cong; use 1 in simp)+
  then show ?case ..
next
  case (2 k n b t o' c d)
  then show ?case by (simp add: original_value.simps original_value_for_database.simps)
qed

lemma edited_ok:
  assumes "attr_ok a" shows "attr_ok (edited P v a)"
proof -
  have "\<exists>w. rewrite_given v (before a) = Given w" if "\<exists>w. before a = Given w" using that by auto
  then show ?thesis using assms by (auto simp: attr_ok_def)
qed

lemma write_result:
  assumes "with_value_from_user v a = Inr b"
  shows "kind a \<noteq> NullAttr" "b = from_user (attr_name a) v (atype a)
     (Some (case original a of Some o' \<Rightarrow> o' | None \<Rightarrow> a))"
  using assms by (auto simp: with_value_from_user_def attempt_Inr split: if_splits)

lemma from_user_originals:
  "original_value (from_user n v t (Some o')) = original_value o'"
  "original_value_for_database (from_user n v t (Some o')) = original_value_for_database o'"
  by (simp_all add: from_user_def construct_def original_value.simps original_value_for_database.simps)

lemma write_originals:
  assumes "with_value_from_user v a = Inr b" and "attr_ok a"
  shows "original_value b = original_value a \<and>
    original_value_for_database b = original_value_for_database a \<and> attr_ok b"
proof (cases "original a")
  case None
  then show ?thesis
    using assms(2) write_result [OF assms(1)]
    by (simp add: from_user_originals) (simp add: attr_ok_def from_user_def)
next
  case (Some o')
  then have "kind a \<noteq> Uninit" using assms(2) by (auto simp: attr_ok_def)
  then show ?thesis
    using assms(2) write_result [OF assms(1)] Some
    by (simp add: from_user_originals original_value_unfold [of a] original_value_for_database_unfold [of a])
      (simp add: attr_ok_def from_user_def)
qed

lemma settles_ok': "settles a b \<Longrightarrow> attr_ok a \<Longrightarrow> (kind a = Uninit \<Longrightarrow> b = a) \<Longrightarrow> attr_ok b"
  by (cases "kind a = Uninit") (auto intro: settles_ok)

lemma uninit_ask: "kind a = Uninit \<Longrightarrow> attr_ok a \<Longrightarrow> attr_changed a = (Inr False, a)"
  by (auto simp: attr_ok_def attr_changed_def bind_def changed_from_assignment_def changed_in_place_def
      has_been_read_def)

lemma settled_keeps:
  "settles a b \<Longrightarrow> attr_ok a \<Longrightarrow> (kind a = Uninit \<Longrightarrow> b = a) \<Longrightarrow> attr_ok b \<and>
     original_value b = original_value a \<and> original_value_for_database b = original_value_for_database a"
  using settles_originals settles_ok' by blast

lemma attr_step_keeps:
  assumes "attr_step a b" and "attr_ok a"
  shows "attr_ok b \<and> original_value b = original_value a \<and>
     original_value_for_database b = original_value_for_database a"
  using assms
proof (induction rule: attr_step.induct)
  case (reading a r b)
  then show ?case
    by (intro settled_keeps settles.run [OF stable_attr_value reading(1)]) (auto simp: attr_value_def)
next
  case (storing a r b)
  then show ?case
    by (intro settled_keeps settles.run [OF stable_value_for_database storing(1)])
      (auto simp: value_for_database_def)
next
  case (asking a r b)
  then show ?case
    by (intro settled_keeps settles.run [OF stable_attr_changed asking(1)]) (use uninit_ask in force)+
next
  case (editing a P b v)
  then show ?case using edited_originals edited_ok by blast
next
  case (assigning v a b)
  then show ?case using write_originals by blast
qed

text \<open>
  C20. However often an attribute is read, asked for its changes, serialized, assigned and edited in
  place, its original value and the original's database form stay what they were, and the
  chain of attributes behind it never grows beyond one. An edit may change an object held in any
  places but one: the raw value the original is read from.
\<close>
theorem originals_are_stable:
  assumes "attr_step\<^sup>*\<^sup>* a b" and "attr_ok a"
  shows "original_value b = original_value a \<and>
     original_value_for_database b = original_value_for_database a \<and>
     (\<forall>o'. original b = Some o' \<longrightarrow> original o' = None)"
proof -
  from assms have "attr_ok b \<and> original_value b = original_value a \<and>
     original_value_for_database b = original_value_for_database a"
  proof (induction rule: rtranclp_induct)
    case base
    then show ?case by simp
  next
    case (step b c)
    then show ?case using attr_step_keeps [of b c] by simp
  qed
  then show ?thesis by (simp add: attr_ok_def)
qed

text \<open>
  That one place is the exception in the code too. A type that casts by identity, such as \<open>ValueType\<close>
  itself, hands out the raw value: an object edited there moves the original along, and the attribute does
  not count as changed.
\<close>

lemma raw_edits_move_the_original:
  assumes "t = value_type rb_equal p s l"
    and "attr_value (from_database n (It x) (Some t) Absent) = (r, a)"
  shows "r = Inr (It x) \<and> original_value (edited {In_memo, In_raw} (It y) a) = Inr (It y) \<and>
     fst (attr_changed (edited {In_memo, In_raw} (It y) a)) = Inr False"
proof -
  have "r = Inr (It x)" "a = Attribute FromDatabase n (Given (It x)) (Some t) None (Some (It x)) None"
    using assms by (simp_all add: attr_value_def from_database_def construct_def value_before_type_cast_def
        type_cast_def the_type_def value_type_def base_cast_def)
  then show ?thesis using assms(1)
    by (simp add: original_value.simps original_value_for_database.simps value_before_type_cast_def type_cast_def
        the_type_def value_type_def base_cast_def attr_changed_def changed_from_assignment_def
        changed_in_place_def has_been_read_def attr_value_def bind_def ret_def)
qed

section \<open>A write is a change when its type says so\<close>

lemma from_user_current:
  "current (from_user n v (Some t) o') = ty_cast t v"
  "kind (from_user n v (Some t) o') = FromUser"
  "the_type (from_user n v (Some t) o') = Inr t"
  "original (from_user n v (Some t) o') = o'"
  "value_before_type_cast (from_user n v (Some t) o') = Inr v"
  by (simp_all add: from_user_def current_unfold value_before_type_cast_def type_cast_def the_type_def)

lemma from_user_read:
  assumes "ty_cast t v = Inr new"
  shows "attr_value (from_user n v (Some t) o') = (Inr new, with_cached new (from_user n v (Some t) o'))"
  using assms
  by (simp add: attr_value_def from_user_def value_before_type_cast_def type_cast_def the_type_def)

text \<open>
  Assigning a value the type accepts gives an attribute that reads as the cast value, still
  answers the old original, and is changed exactly when the type calls the cast value changed from
  the original (given what was assigned) or the original's database form changed in place.
\<close>
theorem write_shows_as_change:
  assumes "attr_ok a" "kind a \<noteq> NullAttr" "atype a = Some t" "ty_assert_valid t v = Inr ()"
    and "original_value a = Inr old" "original_value_for_database a = Inr raw"
    and "ty_cast t v = Inr new" "ty_is_changed_in_place t raw new = Inr differs"
  shows "\<exists>b. with_value_from_user v a = Inr b \<and> fst (attr_value b) = Inr new \<and>
     original_value b = Inr old \<and> fst (attr_changed b) = Inr (ty_is_changed t old new v \<or> differs)"
proof -
  define b where "b = from_user (attr_name a) v (Some t) (Some (case original a of Some o' \<Rightarrow> o' | None \<Rightarrow> a))"
  have w: "with_value_from_user v a = Inr b"
    using assms(2-4) by (simp add: with_value_from_user_def the_type_def b_def)
  have o': "original_value b = Inr old" "original_value_for_database b = Inr raw"
    using write_originals [OF w assms(1)] assms(5,6) by simp_all
  have r: "attr_value b = (Inr new, with_cached new b)"
    unfolding b_def by (rule from_user_read [OF assms(7)])
  have b: "kind b = FromUser" "original b \<noteq> None" "the_type b = Inr t" "value_before_type_cast b = Inr v"
    unfolding b_def by (simp_all add: from_user_current)
  let ?b = "with_cached new b"
  have "settles b ?b" using settles.run [OF stable_attr_value r] .
  then have raw: "original_value_for_database ?b = Inr raw" using settles_originals o' by metis
  have t: "the_type ?b = Inr t" using b(3) by (simp add: the_type_def)
  have c1: "changed_from_assignment b = (Inr (ty_is_changed t old new v), ?b)"
    using b(1,3,4) o' r not_None_eq [THEN iffD1, OF b(2)]
    by (auto simp: changed_from_assignment_def bind_def ret_def)
  have again: "attr_value ?b = (Inr new, ?b)" using b(1) by (simp add: attr_value_def)
  have "changed_in_place ?b = (Inr differs, ?b)"
    using raw t again assms(8) b(1) by (simp add: changed_in_place_def has_been_read_def bind_def)
  then have "fst (attr_changed b) = Inr (ty_is_changed t old new v \<or> differs)"
    using c1 by (auto simp: attr_changed_def bind_def ret_def)
  then show ?thesis using w r o' by auto
qed

section \<open>Forgetting the changes\<close>

text \<open>\<open>tracked\<close>: what was serialized and what was read from the database are still what the memos
  stand for unless the type notices. It holds of every attribute when the type notices edits, and
  of attributes that were not edited for the other types.\<close>

definition tracked :: "'a vtype \<Rightarrow> 'a attribute \<Rightarrow> bool" where
  "tracked t a \<longleftrightarrow>
     (\<forall>raw v. cached_for_database a = Some raw \<longrightarrow> current a = Inr v \<longrightarrow>
        ty_is_changed_in_place t raw v = Inr False \<longrightarrow> ty_deserialize t raw = Inr v) \<and>
     (kind a = FromDatabase \<longrightarrow> fst (changed_in_place a) = Inr False \<longrightarrow> original_value a = current a)"

definition unedited :: "'a vtype \<Rightarrow> 'a attribute \<Rightarrow> bool" where
  "unedited t a \<longleftrightarrow>
     (\<forall>raw v. cached_for_database a = Some raw \<longrightarrow> current a = Inr v \<longrightarrow> ty_deserialize t raw = Inr v) \<and>
     (\<forall>v. cached a = Some v \<longrightarrow> attempt (value_before_type_cast a) (type_cast a) = Inr v)"

lemma unedited_tracked:
  assumes "unedited t a" "attr_ok a"
  shows "tracked t a"
proof -
  have "original_value a = current a" if "kind a = FromDatabase"
    using that assms by (auto simp: original_value_unfold [of a] current_unfold unedited_def attr_ok_def
        split: option.splits)
  then show ?thesis using assms(1) by (simp add: tracked_def unedited_def)
qed

lemma from_database_fresh:
  "ty_deserialize t raw = Inr v \<Longrightarrow> w = v \<or> nullish w \<Longrightarrow> unedited t (from_database n raw (Some t) w)"
  by (auto simp: unedited_def from_database_def value_before_type_cast_def type_cast_def the_type_def)

context lawful_type
begin

lemma computed:
  assumes "atype a = Some t" "current a = Inr v" "good v"
  obtains raw where "ty_serialize t v = Inr raw"
    "compute_for_database a = (Inr raw, snd (attr_value a))"
proof -
  from serialize_good [OF assms(3)] obtain raw where raw: "ty_serialize t v = Inr raw" ..
  have "compute_for_database a = (Inr raw, snd (attr_value a))"
  proof -
    obtain b where "attr_value a = (Inr v, b)" using assms(2) attr_value_run by metis
    then show ?thesis using assms(1) raw shortcut [OF assms(3)]
      by (simp add: compute_for_database_def bind_def gets_def the_type_def)
  qed
  with raw show ?thesis by (rule that)
qed

lemma database_form:
  assumes "atype a = Some t" "kind a \<noteq> Uninit" "current a = Inr v" "good v" "tracked t a"
  obtains raw b where "value_for_database a = (Inr raw, b)" "ty_deserialize t raw = Inr v" "settles a b"
proof -
  let ?b = "snd (attr_value a)"
  have s: "settles a ?b" by (rule attr_value_settles)
  have b: "atype ?b = Some t" "current ?b = Inr v" "cached ?b = Some v"
    using s assms attr_value_read by (simp_all add: settles_def)
  have again: "attr_value ?b = (Inr v, ?b)"
    using s b assms(2) by (simp add: attr_value_def [of] settles_def)
  obtain raw where raw: "ty_serialize t v = Inr raw" by (rule exE [OF serialize_good [OF assms(4)]])
  obtain raw1 where c1: "compute_for_database a = (Inr raw1, ?b)" "ty_serialize t v = Inr raw1"
    by (rule computed [OF assms(1,3,4)])
  obtain raw2 where c2: "compute_for_database ?b = (Inr raw2, snd (attr_value ?b))" "ty_serialize t v = Inr raw2"
    by (rule computed [OF b(1,2) assms(4)])
  have run: "\<exists>raw b. value_for_database a = (Inr raw, b) \<and> ty_deserialize t raw = Inr v"
  proof (cases "cached_for_database a")
    case None
    then show ?thesis using assms(2) c1 read_back [OF assms(4) c1(2)]
      by (simp add: value_for_database_def stale_for_database_def bind_def modify_def gets_def)
  next
    case (Some old)
    obtain c where c: "ty_is_changed_in_place t old v = Inr c" by (rule exE [OF in_place_total [OF assms(4)]])
    have st: "stale_for_database a = (Inr c, ?b)"
    proof -
      obtain b where "attr_value a = (Inr v, b)" using assms(3) attr_value_run by metis
      then show ?thesis using Some assms(1) c by (simp add: stale_for_database_def bind_def the_type_def)
    qed
    show ?thesis
    proof (cases c)
      case True
      then show ?thesis using assms(2) st c2 again read_back [OF assms(4) c2(2)]
        by (simp add: value_for_database_def bind_def modify_def gets_def)
    next
      case False
      have "cached_for_database ?b = Some old"
        using Some by (auto simp: attr_value_def split: option.splits sum.splits)
      then show ?thesis using False assms(2,3,5) st Some c
        by (simp add: value_for_database_def bind_def gets_def ret_def tracked_def)
    qed
  qed
  then obtain raw' b' where vf: "value_for_database a = (Inr raw', b')" "ty_deserialize t raw' = Inr v" by blast
  moreover have "settles a b'" using settles.run [OF stable_value_for_database vf(1)] .
  ultimately show ?thesis by (rule that)
qed

lemma fresh_unchanged:
  assumes "ty_deserialize t raw = Inr v"
  shows "current (from_database n raw (Some t) Absent) = Inr v"
    "original_value (from_database n raw (Some t) Absent) = Inr v"
    "fst (attr_changed (from_database n raw (Some t) Absent)) = Inr False"
  using assms by (simp_all add: from_database_def current_unfold original_value_unfold attr_changed_def
      changed_from_assignment_def changed_in_place_def bind_def has_been_read_def
      value_before_type_cast_def type_cast_def the_type_def)

lemma place:
  assumes "atype a = Some t" "kind a = FromDatabase" "attr_ok a" "current a = Inr v" "good v"
  shows "\<exists>c. changed_in_place a = (Inr c, a)"
proof (cases "has_been_read a")
  case False
  then have "changed_in_place a = (Inr False, a)" by (simp add: changed_in_place_def)
  then show ?thesis by blast
next
  case True
  have read: "attr_value a = (Inr v, a)" using True assms by (auto simp: attr_value_def has_been_read_def current_unfold)
  obtain raw where raw: "original_value_for_database a = Inr raw"
    using assms(2,3) by (auto simp: original_value_for_database_unfold [of a] attr_ok_def
        value_before_type_cast_def split: option.splits)
  obtain c where "ty_is_changed_in_place t raw v = Inr c" by (rule exE [OF in_place_total [OF assms(5)]])
  then show ?thesis using True read raw assms(1,2)
    by (simp add: changed_in_place_def bind_def the_type_def)
qed

lemma forgetting:
  assumes "atype a = Some t" "kind a \<notin> {Uninit, NullAttr}" "attr_ok a"
    and "current a = Inr v" "good v" "tracked t a"
  shows "\<exists>b a'. forgetting_assignment a = (Inr b, a') \<and> settles a a' \<and> current b = Inr v \<and>
     original_value b = Inr v \<and> fst (attr_changed b) = Inr False \<and> original b = None \<and> attr_ok b"
proof -
  have forget: "\<exists>b x'. forget x = (Inr b, x') \<and> current b = Inr v \<and> original_value b = Inr v \<and>
     fst (attr_changed b) = Inr False \<and> original b = None \<and> attr_ok b"
    if x: "settles a x" "tracked t x" for x
  proof -
    have x': "atype x = Some t" "kind x \<noteq> Uninit" "kind x \<noteq> NullAttr" "current x = Inr v"
      using x assms by (simp_all add: settles_def)
    obtain raw y where y: "value_for_database x = (Inr raw, y)" "ty_deserialize t raw = Inr v" "settles x y"
      by (rule database_form [OF x'(1,2,4) assms(5) x(2)])
    then have "kind y \<noteq> NullAttr" "atype y = Some t" using x' by (simp_all add: settles_def)
    then have "forget x = (Inr (from_database (attr_name y) raw (Some t) Absent), y)"
      using y by (simp add: forget_def bind_def gets_def with_value_from_database_def)
    moreover have "original (from_database n w u Absent) = None \<and> attr_ok (from_database n w u Absent)" for n w u
      by (simp add: from_database_def attr_ok_def)
    ultimately show ?thesis using fresh_unchanged [OF y(2)] by blast
  qed
  have "\<exists>b a'. forgetting_assignment a = (Inr b, a') \<and> current b = Inr v \<and> original_value b = Inr v \<and>
     fst (attr_changed b) = Inr False \<and> original b = None \<and> attr_ok b"
  proof (cases "kind a = FromDatabase")
    case False
    then show ?thesis using forget [OF settles.refl assms(6)] assms(2)
      by (cases "kind a") (simp_all add: forgetting_assignment_def)
  next
    case True
    then obtain c where c: "changed_in_place a = (Inr c, a)" using place [OF assms(1) _ assms(3-5)] by blast
    have no_original: "original a = None" using assms(3) True by (auto simp: attr_ok_def)
    show ?thesis
    proof (cases c)
      case changed: True
      then show ?thesis using forget [OF settles.refl assms(6)] c True
        by (simp add: forgetting_assignment_def bind_def)
    next
      case kept: False
      then have "forgetting_assignment a = (Inr a, a)"
        using c True by (simp add: forgetting_assignment_def bind_def gets_def)
      moreover have "original_value a = Inr v"
        using assms(4,6) True c kept by (simp add: tracked_def)
      moreover have "fst (attr_changed a) = Inr False"
        using c kept no_original by (simp add: attr_changed_def changed_from_assignment_def bind_def)
      ultimately show ?thesis using assms(3,4) no_original by blast
    qed
  qed
  then show ?thesis using settles.run [OF stable_forgetting] by metis
qed

end

context mutable_type
begin

lemma always_tracked:
  assumes "current a = Inr v" "good v" "atype a = Some t" "attr_ok a"
  shows "tracked t a"
proof -
  have "original_value a = current a" if k: "kind a = FromDatabase" and p: "fst (changed_in_place a) = Inr False"
  proof (cases "cached a")
    case None
    then show ?thesis using k assms(4)
      by (auto simp: original_value_unfold [of a] current_unfold attr_ok_def split: option.splits)
  next
    case (Some w)
    then have "w = v" "attr_value a = (Inr v, a)" using k assms(1) by (auto simp: current_unfold attr_value_def)
    moreover obtain raw where raw: "before a = Given raw" using k assms(4) by (auto simp: attr_ok_def)
    moreover have n: "original a = None" using k assms(4) by (auto simp: attr_ok_def)
    ultimately have "ty_is_changed_in_place t raw v = Inr False"
      using p k Some assms(3)
      by (simp add: changed_in_place_def has_been_read_def bind_def the_type_def
          original_value_for_database_unfold value_before_type_cast_def)
    then have "ty_deserialize t raw = Inr v" by (rule detects [OF assms(2)])
    then show ?thesis using k n raw assms(1,3)
      by (simp add: original_value_unfold value_before_type_cast_def type_cast_def the_type_def)
  qed
  then show ?thesis using detects [OF assms(2)] assms(1) by (auto simp: tracked_def)
qed

end

text \<open>
  C22. For every type that reads back what it wrote, forgetting the changes of an attribute that
  reads as \<open>v\<close> gives an attribute that reads as \<open>v\<close>, has \<open>v\<close> for its original, and is unchanged, provided
  its memos are \<open>tracked\<close>: the memoized database form still reads back as the value unless the type notices
  the difference, and an attribute from the database that the type calls unchanged reads as its original.
\<close>
theorem forgetting_keeps_value:
  assumes "lawful_type t good" and "atype a = Some t" "kind a \<notin> {Uninit, NullAttr}" "attr_ok a"
    and "fst (attr_value a) = Inr v" "good v" "tracked t a"
  shows "\<exists>b. fst (forgetting_assignment a) = Inr b \<and> fst (attr_value b) = Inr v \<and>
     original_value b = Inr v \<and> fst (attr_changed b) = Inr False"
  using lawful_type.forgetting [OF assms(1-4) _ assms(6,7)] assms(5) by (fastforce simp: current_def)

end
