(* ===== verification/Js_Number.thy ===== *)
theory Js_Number
  imports Ruby_Hash "HOL-Library.Log_Nat" Complex_Main
begin

text \<open>
  JavaScript's numbers as values: \<open>NaN\<close>, the infinities and the finite doubles as rational numbers,
  the two zeros being one. \<open>round53\<close> is the double nearest to an integer, on a tie the even one;
  \<open>parse_int\<close> is \<open>parseInt\<close> in base ten on a Latin-1 string. \<open>num_less\<close> and \<open>num_le\<close> are the comparisons,
  which never hold of \<open>NaN\<close>.
\<close>

section \<open>Numbers\<close>

datatype jsnum = NaN | Infinite bool | Fin rat

definition round53 :: "int \<Rightarrow> int" where
  "round53 n = (let m = nat \<bar>n\<bar>; k = floorlog 2 m - 53; q = m div 2 ^ k; r = m mod 2 ^ k;
     up = 2 * r > 2 ^ k \<or> (2 * r = 2 ^ k \<and> odd q)
     in sgn n * int ((q + (if up then 1 else 0)) * 2 ^ k))"

definition to_number :: "int \<Rightarrow> jsnum" where
  "to_number n = (let r = round53 n in if 2 ^ 1024 \<le> \<bar>r\<bar> then Infinite (r < 0) else Fin (of_int r))"

definition num_less :: "jsnum \<Rightarrow> jsnum \<Rightarrow> bool" where
  "num_less x y = (case (x, y) of
       (Fin p, Fin q) \<Rightarrow> p < q
     | (Fin p, Infinite neg) \<Rightarrow> \<not> neg
     | (Infinite neg, Fin q) \<Rightarrow> neg
     | (Infinite neg, Infinite neg') \<Rightarrow> neg \<and> \<not> neg'
     | _ \<Rightarrow> False)"

definition num_le :: "jsnum \<Rightarrow> jsnum \<Rightarrow> bool" where
  "num_le x y \<longleftrightarrow> num_less x y \<or> x = y \<and> x \<noteq> NaN"

section \<open>Strings\<close>

definition white :: "char \<Rightarrow> bool" where
  "white c \<longleftrightarrow> of_char c \<in> {9, 10, 11, 12, 13, 32, 160::nat}"

definition blank_string :: "string \<Rightarrow> bool" where
  "blank_string cs \<longleftrightarrow> list_all white cs"

definition split_sign :: "string \<Rightarrow> bool \<times> string" where
  "split_sign cs = (case cs of c # rest \<Rightarrow>
       if c = CHR ''-'' then (True, rest) else if c = CHR ''+'' then (False, rest) else (False, cs)
     | [] \<Rightarrow> (False, []))"

definition leading_integer :: "string \<Rightarrow> int option" where
  "leading_integer cs = (let (neg, rest) = split_sign (dropWhile white cs); ds = takeWhile digit rest
     in if ds = [] then None else Some (if neg then - int (number_of ds) else int (number_of ds)))"

definition parse_int :: "string \<Rightarrow> jsnum" where
  "parse_int cs = (case leading_integer cs of None \<Rightarrow> NaN | Some n \<Rightarrow> to_number n)"

end
