(* ===== verification/Attr_Integer.thy ===== *)
theory Attr_Integer
  imports Attr_Changes Js_Number Complex_Main
begin

text \<open>
  The integer types of Active Model (\<^verbatim>\<open>packages/activemodel/src/type/integer.ts\<close>,
  \<^verbatim>\<open>type/big-integer.ts\<close> and the numeric mixin \<^verbatim>\<open>type/helpers/numeric.ts\<close>).

  JavaScript's two kinds of numbers are kept apart: a \<open>Number\<close> is a double (the zeros are one
  value), a \<open>Big\<close> an unbounded integer. \<open>round53\<close> is the double nearest to an integer, on a tie the
  even one, which is what \<open>parseInt\<close> and \<open>Number(bigint)\<close> answer. Strings are Latin-1. An object is
  given by what the types ask of it: whether it is blank, its text, and what its \<open>toI\<close> answers.
  The message of the range error is its class only.
\<close>

section \<open>Numbers\<close>

datatype numeric = Number jsnum | Big int

datatype prim = Num numeric | Bool bool | Str string | Obj bool string "numeric option"

definition max_safe :: int where
  "max_safe = 9007199254740991"

definition is_safe_integer :: "jsnum \<Rightarrow> bool" where
  "is_safe_integer x = (case x of Fin q \<Rightarrow> of_int \<lfloor>q\<rfloor> = q \<and> \<bar>q\<bar> \<le> of_int max_safe | _ \<Rightarrow> False)"

definition trunc :: "rat \<Rightarrow> int" where
  "trunc q = (if 0 \<le> q then \<lfloor>q\<rfloor> else - \<lfloor>- q\<rfloor>)"

definition narrow_big_int :: "int \<Rightarrow> numeric" where
  "narrow_big_int n = (let x = to_number n in if is_safe_integer x then Number x else Big n)"

section \<open>Strings\<close>

text \<open>\<open>NUMERIC_REGEX\<close> asks for leading white space, a sign or none, and a digit.\<close>

definition string_of :: "prim js \<Rightarrow> (numeric \<Rightarrow> string) \<Rightarrow> string" where
  "string_of v show_number = (case v of
       Absent \<Rightarrow> ''undefined''
     | Nil \<Rightarrow> ''null''
     | Uninitialized_original \<Rightarrow> ''Symbol()''
     | It (Num n) \<Rightarrow> show_number n
     | It (Bool b) \<Rightarrow> if b then ''true'' else ''false''
     | It (Str cs) \<Rightarrow> cs
     | It (Obj _ cs _) \<Rightarrow> cs)"

definition is_non_numeric :: "string \<Rightarrow> bool" where
  "is_non_numeric cs \<longleftrightarrow> leading_integer cs = None"

definition is_number_to_non_number :: "(numeric \<Rightarrow> string) \<Rightarrow> prim js \<Rightarrow> prim js \<Rightarrow> bool" where
  "is_number_to_non_number show_number old raw \<longleftrightarrow>
     \<not> nullish old \<and> (case raw of It (Num n) \<Rightarrow> False | _ \<Rightarrow> is_non_numeric (string_of raw show_number))"

text \<open>The arm for \<open>BigDecimal\<close> objects is left out: neither integer type casts to one.\<close>

definition is_equal_nan :: "prim js \<Rightarrow> prim js \<Rightarrow> bool" where
  "is_equal_nan old new \<longleftrightarrow> old = It (Num (Number NaN)) \<and> new = It (Num (Number NaN))"

text \<open>Ruby's \<open>==\<close> on the values at hand: strict equality, which is never true of \<open>NaN\<close>.\<close>

definition rb_equal :: "prim js \<Rightarrow> prim js \<Rightarrow> bool" where
  "rb_equal v w \<longleftrightarrow> v = w \<and> v \<noteq> It (Num (Number NaN))"

section \<open>Casting\<close>

text \<open>The mixin's \<open>cast\<close> over a class with the hook \<open>cast_value\<close>.\<close>

definition numeric_cast :: "(prim js \<Rightarrow> aerr + prim js) \<Rightarrow> prim js \<Rightarrow> aerr + prim js" where
  "numeric_cast cast_value v = base_cast cast_value (case v of
       It (Bool b) \<Rightarrow> It (Num (Number (Fin (if b then 1 else 0))))
     | It (Str cs) \<Rightarrow> if blank_string cs then Nil else v
     | _ \<Rightarrow> v)"

definition numeric_is_changed :: "(numeric \<Rightarrow> string) \<Rightarrow> prim js \<Rightarrow> prim js \<Rightarrow> prim js \<Rightarrow> bool" where
  "numeric_is_changed show_number old new raw \<longleftrightarrow>
     (\<not> rb_equal old new \<or> is_number_to_non_number show_number old raw) \<and> \<not> is_equal_nan old raw"

definition integer_cast_value :: "prim js \<Rightarrow> aerr + prim js" where
  "integer_cast_value v = (case v of
       It (Num (Number (Fin q))) \<Rightarrow> Inr (It (Num (Number (Fin (of_int (trunc q))))))
     | It (Num (Number _)) \<Rightarrow> Inr Nil
     | It (Num (Big n)) \<Rightarrow> Inr (It (Num (narrow_big_int n)))
     | It (Str cs) \<Rightarrow> Inr (It (Num (Number (case parse_int cs of NaN \<Rightarrow> Fin 0 | x \<Rightarrow> x))))
     | It (Obj _ _ (Some n)) \<Rightarrow> Inr (It (Num n))
     | _ \<Rightarrow> Inr Nil)"

definition big_cast_value :: "prim js \<Rightarrow> aerr + prim js" where
  "big_cast_value v = (case v of
       It (Num (Big n)) \<Rightarrow> Inr (It (Num (narrow_big_int n)))
     | It (Num (Number (Fin q))) \<Rightarrow> Inr (It (Num (narrow_big_int (trunc q))))
     | It (Num (Number _)) \<Rightarrow> Inr Nil
     | It (Str cs) \<Rightarrow> Inr (It (Num (case leading_integer cs of
           None \<Rightarrow> Number (Fin 0) | Some n \<Rightarrow> narrow_big_int n)))
     | _ \<Rightarrow> integer_cast_value v)"

text \<open>\<open>isBlank\<close> of Active Support, on the values at hand.\<close>

definition is_blank :: "prim js \<Rightarrow> bool" where
  "is_blank v = (case v of
       Absent \<Rightarrow> True
     | Nil \<Rightarrow> True
     | It (Bool b) \<Rightarrow> \<not> b
     | It (Str cs) \<Rightarrow> blank_string cs
     | It (Obj b _ _) \<Rightarrow> b
     | _ \<Rightarrow> False)"

definition integer_deserialize :: "(prim js \<Rightarrow> aerr + prim js) \<Rightarrow> prim js \<Rightarrow> aerr + prim js" where
  "integer_deserialize cast_value v = (if is_blank v then Inr Nil else cast_value v)"

section \<open>The range\<close>

text \<open>\<open>None\<close> is the infinite bound. Below one byte the bound is no integer and \<open>BigInt\<close> throws.\<close>

definition max_value :: "nat \<Rightarrow> int option" where
  "max_value limit = (if 1024 \<le> 8 * limit - 1 then None else Some (2 ^ (8 * limit - 1)))"

definition in_bound :: "int option \<Rightarrow> int \<Rightarrow> bool" where
  "in_bound bound n \<longleftrightarrow> (case bound of None \<Rightarrow> True | Some m \<Rightarrow> - m \<le> n \<and> n < m)"

definition is_in_range :: "nat \<Rightarrow> int option \<Rightarrow> prim js \<Rightarrow> aerr + bool" where
  "is_in_range limit bound v = (case v of
       It (Num (Number (Fin q))) \<Rightarrow>
         if limit = 0 \<and> bound \<noteq> None then Inl (Invalid_value ''BigInt'') else Inr (in_bound bound (trunc q))
     | It (Num (Number _)) \<Rightarrow> Inr False
     | It (Num (Big n)) \<Rightarrow>
         if limit = 0 \<and> bound \<noteq> None then Inl (Invalid_value ''BigInt'') else Inr (in_bound bound n)
     | _ \<Rightarrow> Inr True)"

definition ensure_in_range :: "nat \<Rightarrow> int option \<Rightarrow> prim js \<Rightarrow> aerr + prim js" where
  "ensure_in_range limit bound v = attempt (is_in_range limit bound v)
     (\<lambda>r. if r then Inr v else Inl (Out_of_range ''IntegerType''))"

definition default_limit :: nat where
  "default_limit = 4"

definition limit_of :: "nat option \<Rightarrow> nat" where
  "limit_of limit = (case limit of None \<Rightarrow> default_limit | Some l \<Rightarrow> l)"

definition integer_serialize :: "nat \<Rightarrow> int option \<Rightarrow> (prim js \<Rightarrow> aerr + prim js) \<Rightarrow> prim js \<Rightarrow> aerr + prim js" where
  "integer_serialize limit bound cast v =
     (if (case v of It (Str cs) \<Rightarrow> is_non_numeric cs | _ \<Rightarrow> False) then Inr Nil
      else attempt (cast v) (ensure_in_range limit bound))"

definition integer_serializable :: "nat \<Rightarrow> int option \<Rightarrow> (prim js \<Rightarrow> aerr + prim js) \<Rightarrow> prim js \<Rightarrow> aerr + bool" where
  "integer_serializable limit bound cast v = attempt (cast v) (is_in_range limit bound)"

text \<open>The prototypes of the chain, from the class down to the base: each has its own \<open>serialize\<close>
  and \<open>serializeCastValue\<close>, except that \<open>BigIntegerType\<close> has only the latter.\<close>

definition integer_type :: "(numeric \<Rightarrow> string) \<Rightarrow> nat option \<Rightarrow> prim vtype" where
  "integer_type show_number limit = (let l = limit_of limit in
     (value_type rb_equal None None limit)\<lparr>
       ty_key := (''IntegerType'', None, None, limit),
       ty_deserialize := integer_deserialize integer_cast_value,
       ty_cast := numeric_cast integer_cast_value,
       ty_serialize := integer_serialize l (max_value l) (numeric_cast integer_cast_value),
       ty_serialize_cast_value := ensure_in_range l (max_value l),
       ty_compatible := serialize_cast_value_compatible [(True, True), (True, True), (True, True)],
       ty_is_changed := numeric_is_changed show_number,
       ty_serializable := integer_serializable l (max_value l) (numeric_cast integer_cast_value)\<rparr>)"

definition big_integer_type :: "(numeric \<Rightarrow> string) \<Rightarrow> nat option \<Rightarrow> prim vtype" where
  "big_integer_type show_number limit = (let l = limit_of limit in
     (value_type rb_equal None None limit)\<lparr>
       ty_key := (''BigIntegerType'', None, None, limit),
       ty_deserialize := integer_deserialize big_cast_value,
       ty_cast := numeric_cast big_cast_value,
       ty_serialize := integer_serialize l None (numeric_cast big_cast_value),
       ty_serialize_cast_value := Inr,
       ty_compatible := serialize_cast_value_compatible [(False, True), (True, True), (True, True), (True, True)],
       ty_is_changed := numeric_is_changed show_number,
       ty_serializable := integer_serializable l None (numeric_cast big_cast_value)\<rparr>)"


section \<open>Rounding\<close>

lemma round53_exact:
  assumes "\<bar>n\<bar> < 2 ^ 53"
  shows "round53 n = n"
proof -
  have "nat \<bar>n\<bar> < 2 ^ 53" using assms by (simp add: nat_less_iff)
  then have "floorlog 2 (nat \<bar>n\<bar>) \<le> 53" by (simp add: floorlog_le_iff)
  then have k: "floorlog 2 (nat \<bar>n\<bar>) - 53 = 0" by simp
  have "sgn n * int (nat \<bar>n\<bar>) = n" by (simp add: sgn_mult_abs)
  then show ?thesis unfolding round53_def Let_def k by simp
qed

lemma round53_large:
  assumes "2 ^ 53 \<le> \<bar>n\<bar>"
  shows "2 ^ 53 \<le> \<bar>round53 n\<bar>"
proof -
  define m where "m = nat \<bar>n\<bar>"
  define k where "k = floorlog 2 m - 53"
  have m: "2 ^ 53 \<le> m" using assms by (simp add: m_def le_nat_iff)
  then have "53 < floorlog 2 m" using floorlog_ge_SucI [of 2 53 m] by simp
  then have L: "floorlog 2 m = k + 53" by (simp add: k_def)
  have "0 < m" using m by (rule less_le_trans [rotated]) simp
  then have low: "2 ^ (k + 52) \<le> m" using floorlog_bounds [of m 2] L by (simp add: add.commute)
  have "2 ^ 52 * 2 ^ k \<le> m" using low by (simp add: power_add mult.commute)
  then have q: "2 ^ 52 \<le> m div 2 ^ k" by (simp add: less_eq_div_iff_mult_less_eq)
  have k1: "1 \<le> k" using \<open>53 < floorlog 2 m\<close> by (simp add: k_def)
  have "(2::nat) ^ 53 = 2 ^ 52 * 2 ^ 1" by simp
  also have "\<dots> \<le> 2 ^ 52 * 2 ^ k" using k1 by (intro mult_left_mono power_increasing) simp_all
  also have "\<dots> \<le> (m div 2 ^ k + u) * 2 ^ k" for u using q by (intro mult_right_mono) simp_all
  finally have big: "2 ^ 53 \<le> (m div 2 ^ k + u) * 2 ^ k" for u .
  obtain u where "round53 n = sgn n * int ((m div 2 ^ k + u) * 2 ^ k)"
    unfolding round53_def Let_def m_def [symmetric] k_def [symmetric] by blast
  moreover have "n \<noteq> 0" using assms by auto
  ultimately have "\<bar>round53 n\<bar> = int ((m div 2 ^ k + u) * 2 ^ k)" by (simp add: abs_mult abs_sgn_eq)
  moreover have "int (2 ^ 53) \<le> int ((m div 2 ^ k + u) * 2 ^ k)" using big by (simp only: of_nat_le_iff)
  ultimately show ?thesis by (simp only: of_nat_power of_nat_numeral)
qed

lemma to_number_safe:
  assumes "\<bar>n\<bar> \<le> max_safe"
  shows "to_number n = Fin (of_int n)"
proof -
  have "round53 n = n" using assms by (intro round53_exact) (simp add: max_safe_def)
  moreover have "\<bar>n\<bar> < 2 ^ 1024" using assms unfolding max_safe_def by (rule le_less_trans) simp
  ultimately show ?thesis by (simp add: to_number_def)
qed

lemma narrow_safe: "\<bar>n\<bar> \<le> max_safe \<Longrightarrow> narrow_big_int n = Number (Fin (of_int n))"
  by (simp add: narrow_big_int_def to_number_safe is_safe_integer_def Let_def flip: of_int_abs)

lemma narrow_unsafe:
  assumes "max_safe < \<bar>n\<bar>"
  shows "narrow_big_int n = Big n"
proof -
  have "2 ^ 53 \<le> \<bar>round53 n\<bar>" using assms by (intro round53_large) (simp add: max_safe_def)
  then have "\<not> \<bar>of_int (round53 n) :: rat\<bar> \<le> of_int max_safe"
    unfolding of_int_abs [symmetric] of_int_le_iff max_safe_def by simp
  then show ?thesis by (simp add: narrow_big_int_def to_number_def is_safe_integer_def Let_def)
qed

text \<open>The integer a number stands for.\<close>

definition whole :: "numeric \<Rightarrow> int option" where
  "whole n = (case n of Number (Fin q) \<Rightarrow> (if of_int (trunc q) = q then Some (trunc q) else None)
     | Number _ \<Rightarrow> None | Big m \<Rightarrow> Some m)"

lemma trunc_int [simp]: "trunc (of_int n) = n"
  by (simp add: trunc_def flip: of_int_minus)

lemma narrow_whole: "whole (narrow_big_int n) = Some n"
  by (cases "\<bar>n\<bar> \<le> max_safe") (simp_all add: narrow_safe narrow_unsafe whole_def)

section \<open>The types are lawful\<close>

definition fits :: "int option \<Rightarrow> numeric \<Rightarrow> bool" where
  "fits bound n \<longleftrightarrow> (\<exists>m. whole n = Some m \<and> in_bound bound m \<and> (\<forall>k. n = Big k \<longrightarrow> max_safe < \<bar>k\<bar>))"

definition integer_good :: "nat option \<Rightarrow> prim js \<Rightarrow> bool" where
  "integer_good limit v \<longleftrightarrow> v = Nil \<or> (\<exists>n. v = It (Num n) \<and> fits (max_value (limit_of limit)) n)"

definition big_good :: "prim js \<Rightarrow> bool" where
  "big_good v \<longleftrightarrow> v = Nil \<or> (\<exists>n. v = It (Num (narrow_big_int n)))"

lemma fits_cases:
  assumes "fits bound n"
  obtains (number) m where "n = Number (Fin (of_int m))" "in_bound bound m"
        | (big) m where "n = Big m" "in_bound bound m" "max_safe < \<bar>m\<bar>"
  using assms by (auto simp: fits_def whole_def split: numeric.splits jsnum.splits if_splits) metis

lemmas type_simps = integer_type_def big_integer_type_def value_type_def Let_def

lemmas cast_simps = integer_serialize_def integer_deserialize_def numeric_cast_def base_cast_def
  integer_cast_value_def big_cast_value_def is_blank_def ensure_in_range_def is_in_range_def

lemma integer_keeps_good:
  assumes "integer_good limit v" "0 < limit_of limit"
  shows "ty_serialize (integer_type s limit) v = Inr v" "ty_deserialize (integer_type s limit) v = Inr v"
    "ty_serialize_cast_value (integer_type s limit) v = Inr v" "\<not> ty_is_changed (integer_type s limit) v v v"
proof -
  from assms(1) consider "v = Nil" | n where "v = It (Num n)" "fits (max_value (limit_of limit)) n"
    by (auto simp: integer_good_def)
  then have "ty_serialize (integer_type s limit) v = Inr v \<and> ty_deserialize (integer_type s limit) v = Inr v \<and>
    ty_serialize_cast_value (integer_type s limit) v = Inr v \<and> \<not> ty_is_changed (integer_type s limit) v v v"
  proof cases
    case 1
    then show ?thesis by (simp add: type_simps cast_simps numeric_is_changed_def rb_equal_def
        is_number_to_non_number_def)
  next
    case 2
    from 2(2) show ?thesis
      by (cases rule: fits_cases)
        (use 2(1) assms(2) in \<open>simp_all add: type_simps cast_simps numeric_is_changed_def rb_equal_def
          is_number_to_non_number_def narrow_unsafe\<close>)
  qed
  then show "ty_serialize (integer_type s limit) v = Inr v" "ty_deserialize (integer_type s limit) v = Inr v"
    "ty_serialize_cast_value (integer_type s limit) v = Inr v" "\<not> ty_is_changed (integer_type s limit) v v v"
    by blast+
qed

lemma narrow_cases:
  obtains "narrow_big_int n = Number (Fin (of_int n))" "\<bar>n\<bar> \<le> max_safe"
        | "narrow_big_int n = Big n" "max_safe < \<bar>n\<bar>"
  using narrow_safe narrow_unsafe by (meson not_le)

lemma big_keeps_good:
  assumes "big_good v"
  shows "ty_serialize (big_integer_type s limit) v = Inr v \<and> ty_deserialize (big_integer_type s limit) v = Inr v \<and>
    ty_serialize_cast_value (big_integer_type s limit) v = Inr v \<and> \<not> ty_is_changed (big_integer_type s limit) v v v"
proof -
  from assms consider "v = Nil" | n where "v = It (Num (narrow_big_int n))" by (auto simp: big_good_def)
  then show ?thesis
  proof cases
    case 1
    then show ?thesis by (simp add: type_simps cast_simps numeric_is_changed_def rb_equal_def
        is_number_to_non_number_def)
  next
    case (2 n)
    show ?thesis
      by (cases n rule: narrow_cases) (simp_all add: 2 type_simps cast_simps numeric_is_changed_def
          rb_equal_def is_number_to_non_number_def in_bound_def narrow_safe narrow_unsafe)
  qed
qed

lemma some_false: "Ex Not"
  by (rule exI [of _ False]) simp

interpretation base: lawful_type "value_type (=) precision scale limit" "\<lambda>v. v \<noteq> Absent"
  for precision scale limit
  by unfold_locales (auto simp: value_type_def base_cast_def nullish_def)

interpretation bigint: lawful_type "big_integer_type s limit" big_good for s limit
  by unfold_locales (use big_keeps_good in \<open>simp_all add: type_simps some_false\<close>)

lemma integer_lawful: "0 < limit_of limit \<Longrightarrow> lawful_type (integer_type s limit) (integer_good limit)"
  by unfold_locales (use integer_keeps_good [of limit _ s] in \<open>simp_all add: type_simps some_false\<close>)

interpretation int4: lawful_type "integer_type s None" "integer_good None" for s
  by (rule integer_lawful) (simp add: limit_of_def default_limit_def)


section \<open>What the types promise\<close>

lemma cast_value_cases:
  assumes "integer_cast_value v = Inr c"
  obtains "c = Nil"
        | q where "c = It (Num (Number (Fin (of_int q))))"
        | b where "c = It (Num (Number (Infinite b)))"
        | n where "c = It (Num (narrow_big_int n))"
        | b cs n where "v = It (Obj b cs (Some n))" "c = It (Num n)"
proof -
  have parsed: "parse_int cs = NaN \<or> (\<exists>n. parse_int cs = Fin (of_int n)) \<or> (\<exists>b. parse_int cs = Infinite b)" for cs
    by (auto simp: parse_int_def to_number_def Let_def split: option.splits)
  show ?thesis
  proof (cases v)
    case (It p)
    show ?thesis
    proof (cases p)
      case (Num m)
      then show ?thesis using assms It that by (cases m) (auto simp: integer_cast_value_def split: jsnum.splits)
    next
      case (Str cs)
      then show ?thesis using assms It parsed [of cs] that(2) [of 0] that
        by (auto simp: integer_cast_value_def split: jsnum.splits)
    qed (use assms It that in \<open>auto simp: integer_cast_value_def split: option.splits\<close>)
  qed (use assms that(1) in \<open>auto simp: integer_cast_value_def\<close>)
qed

lemma cast_value_total: "\<exists>c. integer_cast_value v = Inr c"
  by (cases v rule: js.exhaust)
    (auto simp: integer_cast_value_def split: prim.splits numeric.splits jsnum.splits option.splits)

lemma numeric_cast_forms:
  "numeric_cast f v = Inr Nil \<or> numeric_cast f v = f v \<or> (\<exists>q. numeric_cast f v = f (It (Num (Number (Fin q)))))"
proof (cases v)
  case (It p)
  then show ?thesis by (cases p) (auto simp: numeric_cast_def base_cast_def)
qed (auto simp: numeric_cast_def base_cast_def)

lemma integer_cast_typed:
  assumes "\<And>b cs n. v = It (Obj b cs (Some n)) \<Longrightarrow> whole n \<noteq> None"
  shows "numeric_cast integer_cast_value v = Inr Nil \<or>
    (\<exists>n. numeric_cast integer_cast_value v = Inr (It (Num n)) \<and> (whole n \<noteq> None \<or> (\<exists>b. n = Number (Infinite b))))"
proof -
  have typed: "c = Nil \<or> (\<exists>n. c = It (Num n) \<and> (whole n \<noteq> None \<or> (\<exists>b. n = Number (Infinite b))))"
    if c: "integer_cast_value w = Inr c" and w: "w = v \<or> (\<exists>q. w = It (Num q))" for w c
    using c
  proof (cases rule: cast_value_cases)
    case 5
    then show ?thesis using assms w by auto
  qed (auto simp: narrow_whole, auto simp: whole_def)
  from numeric_cast_forms [of integer_cast_value v] show ?thesis
  proof (elim disjE exE)
    assume "numeric_cast integer_cast_value v = integer_cast_value v"
    then show ?thesis using typed [of v] cast_value_total [of v] by auto
  next
    fix q assume "numeric_cast integer_cast_value v = integer_cast_value (It (Num (Number (Fin q))))"
    then show ?thesis using typed [of "It (Num (Number (Fin q)))"]
        cast_value_total [of "It (Num (Number (Fin q)))"] by auto
  qed simp
qed

text \<open>
  C23. What an integer type serializes is \<open>null\<close> or a whole number in the range of its limit; the
  only error is the range error, and it is raised only for a cast value that is infinite or outside
  the range. (An object's \<open>toI\<close> is taken to answer a whole number.)
\<close>
theorem integer_serialize_typed:
  assumes "0 < limit_of limit" and "\<And>b cs n. v = It (Obj b cs (Some n)) \<Longrightarrow> whole n \<noteq> None"
  shows "case ty_serialize (integer_type s limit) v of
     Inr w \<Rightarrow> w = Nil \<or> (\<exists>n m. w = It (Num n) \<and> whole n = Some m \<and> in_bound (max_value (limit_of limit)) m)
   | Inl e \<Rightarrow> (\<exists>k n. e = Out_of_range k \<and> ty_cast (integer_type s limit) v = Inr (It (Num n)) \<and>
       (\<forall>m. whole n = Some m \<longrightarrow> \<not> in_bound (max_value (limit_of limit)) m))"
proof -
  let ?c = "numeric_cast integer_cast_value"
  have cast: "ty_cast (integer_type s limit) v = ?c v" by (simp add: type_simps)
  consider "ty_serialize (integer_type s limit) v = Inr Nil"
    | "ty_serialize (integer_type s limit) v = attempt (?c v) (ensure_in_range (limit_of limit) (max_value (limit_of limit)))"
    by (cases "case v of It (Str cs) \<Rightarrow> is_non_numeric cs | _ \<Rightarrow> False")
      (simp_all add: type_simps integer_serialize_def)
  then show ?thesis
  proof cases
    case 1
    then show ?thesis by simp
  next
    case 2
    have "?c v = Inr Nil \<or> (\<exists>n. ?c v = Inr (It (Num n)) \<and> (whole n \<noteq> None \<or> (\<exists>b. n = Number (Infinite b))))"
      by (rule integer_cast_typed) (rule assms(2))
    then show ?thesis
    proof (elim disjE exE conjE)
      assume "?c v = Inr Nil"
      then show ?thesis using 2 by (simp add: ensure_in_range_def is_in_range_def)
    next
      fix n assume n: "?c v = Inr (It (Num n))" "whole n \<noteq> None"
      then show ?thesis using 2 cast assms(1)
        by (auto simp: ensure_in_range_def is_in_range_def whole_def split: numeric.splits jsnum.splits if_splits)
    next
      fix n b assume "?c v = Inr (It (Num n))" "n = Number (Infinite b)"
      then show ?thesis using 2 cast by (simp add: ensure_in_range_def is_in_range_def whole_def)
    qed
  qed
qed

text \<open>One byte holds 127 and refuses 128.\<close>

lemma integer_serialize_typed_witness:
  "(\<exists>n m. It (Num (Number (Fin 127))) = It (Num n) \<and> whole n = Some m \<and> in_bound (max_value 1) m) \<and>
   (\<exists>k n. ty_serialize (integer_type (\<lambda>_. []) (Some 1)) (It (Num (Number (Fin 128)))) = Inl (Out_of_range k) \<and>
      whole n = Some 128 \<and> \<not> in_bound (max_value 1) 128)"
  using integer_serialize_typed [of "Some 1" "It (Num (Number (Fin 127)))" "\<lambda>_. []"]
    integer_serialize_typed [of "Some 1" "It (Num (Number (Fin 128)))" "\<lambda>_. []"]
  by (simp add: type_simps cast_simps limit_of_def max_value_def in_bound_def trunc_def whole_def)
    (auto simp: whole_def trunc_def intro: exI [of _ "Big 128"])

text \<open>
  Narrowing a big integer never changes its value, and gives a \<open>number\<close> exactly for the safe
  integers.
\<close>
theorem narrowing_is_lossless:
  "whole (narrow_big_int n) = Some n \<and> ((\<exists>x. narrow_big_int n = Number x) \<longleftrightarrow> \<bar>n\<bar> \<le> 2 ^ 53 - 1)"
  by (cases n rule: narrow_cases) (use narrow_whole [of n] in \<open>simp_all add: max_safe_def\<close>)

text \<open>
  Strings take another way: \<open>parseInt\<close> answers a double. A string of more than 53 bits is stored as
  a different integer, and the largest integer of eight bytes is refused as out of range. The
  big integer type reads the digits exactly.
\<close>

lemma floorlog_between: "2 ^ k \<le> m \<Longrightarrow> m < 2 ^ Suc k \<Longrightarrow> floorlog 2 m = Suc k"
  by (intro antisym floorlog_leI floorlog_ge_SucI) simp_all

lemma digits_read:
  "leading_integer ''9007199254740993'' = Some 9007199254740993"
  "leading_integer ''9223372036854775807'' = Some 9223372036854775807"
  by (simp_all add: leading_integer_def split_sign_def white_def digit_def number_of_def)

lemma rounded:
  "round53 9007199254740993 = 9007199254740992" "round53 9223372036854775807 = 9223372036854775808"
  by (simp_all add: round53_def floorlog_between [of 53] floorlog_between [of 62])

lemma integer_strings_are_rounded:
  "ty_serialize (integer_type s (Some 8)) (It (Str ''9007199254740993'')) = Inr (It (Num (Number (Fin 9007199254740992))))"
  "ty_serialize (integer_type s (Some 8)) (It (Str ''9223372036854775807'')) = Inl (Out_of_range ''IntegerType'')"
  "ty_serialize (big_integer_type s (Some 8)) (It (Str ''9007199254740993'')) = Inr (It (Num (Big 9007199254740993)))"
  by (simp_all add: type_simps cast_simps is_non_numeric_def digits_read parse_int_def to_number_def
      rounded narrow_unsafe max_safe_def limit_of_def max_value_def in_bound_def trunc_def blank_string_def white_def)

text \<open>
  A number above the safe integers and the same value read from the database are two values, so
  assigning the one over the other is a change.
\<close>
lemma equal_integers_change:
  "ty_cast (integer_type s (Some 8)) (It (Num (Big 9007199254740992))) = Inr (It (Num (Big 9007199254740992)))"
  "ty_cast (integer_type s (Some 8)) (It (Num (Number (Fin 9007199254740992)))) = Inr (It (Num (Number (Fin 9007199254740992))))"
  "ty_is_changed (integer_type s (Some 8)) (It (Num (Big 9007199254740992)))
     (It (Num (Number (Fin 9007199254740992)))) (It (Num (Number (Fin 9007199254740992))))"
  by (simp_all add: type_simps cast_simps narrow_unsafe max_safe_def trunc_def numeric_is_changed_def
      rb_equal_def is_equal_nan_def)

section \<open>The attribute lemmas on an integer column\<close>

definition int_value :: "int \<Rightarrow> prim js" where
  "int_value n = It (Num (Number (Fin (of_int n))))"

definition age :: "prim attribute" where
  "age = from_database ''age'' (int_value 1) (Some (integer_type (\<lambda>_. []) None)) Absent"

definition new_age :: "prim attribute" where
  "new_age = from_user ''age'' (It (Str ''5'')) (Some (integer_type (\<lambda>_. []) None)) (Some age)"

lemma read_five: "parse_int ''5'' = Fin 5"
proof -
  have "leading_integer ''5'' = Some 5"
    by (simp add: leading_integer_def split_sign_def white_def digit_def number_of_def)
  then show ?thesis by (simp add: parse_int_def to_number_safe max_safe_def)
qed

lemma age_facts:
  "attr_ok age" "original_value age = Inr (int_value 1)" "original_value_for_database age = Inr (int_value 1)"
  "with_value_from_user (It (Str ''5'')) age = Inr new_age"
  "attr_ok new_age" "fst (attr_value new_age) = Inr (int_value 5)"
  by (simp_all add: age_def new_age_def constructor_defs attr_ok_def original_value_unfold int_value_def
      original_value_for_database_unfold value_before_type_cast_def type_cast_def the_type_def type_simps
      cast_simps trunc_def with_value_from_user_def attr_value_def read_five blank_string_def white_def)

lemma originals_are_stable_witness:
  "original_value (edited {In_memo, In_raw} (int_value 7) new_age) = Inr (int_value 1)"
proof -
  have "attr_step age new_age" by (rule attr_step.assigning [OF age_facts(4)])
  moreover have "attr_step new_age (edited {In_memo, In_raw} (int_value 7) new_age)"
    by (rule attr_step.editing [OF _ refl]) (simp add: new_age_def from_user_def Attr.construct_def)
  ultimately have "attr_step\<^sup>*\<^sup>* age (edited {In_memo, In_raw} (int_value 7) new_age)" by auto
  from originals_are_stable [OF this age_facts(1)] show ?thesis using age_facts(2) by simp
qed

lemma write_shows_as_change_witness:
  "\<exists>b. with_value_from_user (It (Str ''5'')) age = Inr b \<and> fst (attr_value b) = Inr (int_value 5) \<and>
     fst (attr_changed b) = Inr True"
  using write_shows_as_change [OF age_facts(1), of "integer_type (\<lambda>_. []) None" "It (Str ''5'')"
      "int_value 1" "int_value 1" "int_value 5" False] age_facts(2,3)
  by (auto simp: age_def constructor_defs int_value_def type_simps cast_simps read_five blank_string_def
      white_def trunc_def numeric_is_changed_def rb_equal_def is_equal_nan_def)

lemma forgetting_keeps_value_witness:
  "\<exists>b. fst (forgetting_assignment new_age) = Inr b \<and> fst (attr_value b) = Inr (int_value 5) \<and>
     fst (attr_changed b) = Inr False"
proof -
  have "integer_good None (int_value 5)"
    by (auto simp: integer_good_def fits_def int_value_def whole_def trunc_def in_bound_def max_value_def
        limit_of_def default_limit_def)
  moreover have "tracked (integer_type (\<lambda>_. []) None) new_age"
    by (simp add: tracked_def new_age_def constructor_defs)
  moreover have "atype new_age = Some (integer_type (\<lambda>_. []) None)" "kind new_age \<notin> {Uninit, NullAttr}"
    by (simp_all add: new_age_def constructor_defs)
  ultimately show ?thesis
    using forgetting_keeps_value [OF int4.lawful_type_axioms _ _ age_facts(5,6)] by blast
qed

end
