(* ===== verification/Attr_Set.thy ===== *)
theory Attr_Set
  imports Attr_Changes
begin

text \<open>
  The set of a record's attributes (\<^verbatim>\<open>packages/activemodel/src/attribute-set.ts\<close>) and its lazy form
  (\<^verbatim>\<open>attribute-set/builder.ts\<close>).

  The subclass is the field \<open>lazily\<close>: \<open>None\<close> for an \<open>AttributeSet\<close>, the extra fields of a
  \<open>LazyAttributeSet\<close> otherwise; an overridden method is a case on it. \<open>sealed\<close> says that the store
  is frozen (the proxy then refuses to set), \<open>locked\<close> that the set itself is. An attribute in the
  store is an object others hold too, so what a getter memoizes in it is written back
  (\<open>with_attribute\<close>) whether or not the store is frozen. \<open>default_type\<close> is the type \<open>defaultValue()\<close>
  answers and \<open>proto\<close> what the prototype of an object literal answers.
\<close>

section \<open>The set\<close>

record 'a lazy =
  raw_values :: "'a js obj"
  types :: "'a vtype obj"
  additional_types :: "'a vtype obj"
  default_attributes :: "'a attribute obj"
  casted :: "'a js obj"
  materialized :: bool

record 'a attrset =
  store :: "'a attribute obj"
  sealed :: bool
  locked :: bool
  lazily :: "'a lazy option"

type_synonym ('a, 'b) sact = "('a attrset, aerr, 'b) comp"

definition attribute_set :: "'a attribute obj \<Rightarrow> 'a attrset" where
  "attribute_set attributes = \<lparr>store = attributes\<lparr>inherited := (\<lambda>_. None)\<rparr>, sealed = False,
     locked = False, lazily = None\<rparr>"

definition lazy_attribute_set :: "(string \<Rightarrow> 'a js option) \<Rightarrow> 'a js obj \<Rightarrow> 'a vtype obj \<Rightarrow> 'a vtype obj
    \<Rightarrow> 'a attribute obj \<Rightarrow> 'a attribute obj \<Rightarrow> 'a attrset" where
  "lazy_attribute_set proto vals tys additional defaults attributes = (attribute_set attributes)\<lparr>
     lazily := Some \<lparr>raw_values = vals, types = tys, additional_types = additional,
       default_attributes = defaults, casted = \<lparr>own = [], inherited = proto\<rparr>, materialized = False\<rparr>\<rparr>"

definition build_from_database :: "(string \<Rightarrow> 'a js option) \<Rightarrow> 'a vtype obj \<Rightarrow> 'a attribute obj
    \<Rightarrow> 'a js obj \<Rightarrow> 'a vtype obj \<Rightarrow> 'a attrset" where
  "build_from_database proto tys defaults vals additional =
     lazy_attribute_set proto vals tys additional defaults null_obj"

definition put_attribute :: "string \<Rightarrow> 'a attribute \<Rightarrow> ('a, unit) sact" where
  "put_attribute n a = (\<lambda>s. if sealed s then (Inl Frozen, s)
     else (Inr (), s\<lparr>store := obj_put n a (store s)\<rparr>))"

definition lookup_type :: "'a lazy \<Rightarrow> string \<Rightarrow> 'a vtype option" where
  "lookup_type l n = (if has_key (additional_types l) n then obj_get (additional_types l) n
     else obj_get (types l) n)"

section \<open>Finding an attribute\<close>

definition default_attribute :: "'a vtype \<Rightarrow> string \<Rightarrow> ('a, 'a attribute) sact" where
  "default_attribute default_type n = bind (gets lazily) (\<lambda>src. case src of
       None \<Rightarrow> ret (null_attribute default_type n)
     | Some l \<Rightarrow>
         if has_key (raw_values l) n then
           (let v = (case obj_get (raw_values l) n of Some v \<Rightarrow> v | None \<Rightarrow> Absent);
                w = (case obj_get (casted l) n of Some w \<Rightarrow> w | None \<Rightarrow> Absent);
                a = from_database n v (lookup_type l n) w
            in andthen (put_attribute n a) (ret a))
         else if has_key (types l) n then
           (let a = (case obj_get (default_attributes l) n of Some a \<Rightarrow> a
                     | None \<Rightarrow> uninitialized n (lookup_type l n))
            in andthen (put_attribute n a) (ret a))
         else ret (null_attribute default_type n))"

definition get_attribute :: "'a vtype \<Rightarrow> string \<Rightarrow> ('a, 'a attribute) sact" where
  "get_attribute default_type n = bind (gets (\<lambda>s. obj_get (store s) n)) (\<lambda>found. case found of
       Some a \<Rightarrow> ret a | None \<Rightarrow> default_attribute default_type n)"

definition memoize :: "string \<Rightarrow> 'a attribute \<Rightarrow> 'a attrset \<Rightarrow> 'a attrset" where
  "memoize n a s = (if has_key (store s) n then s\<lparr>store := obj_put n a (store s)\<rparr> else s)"

definition with_attribute :: "'a vtype \<Rightarrow> string \<Rightarrow> ('a, 'b) aact \<Rightarrow> ('a, 'b) sact" where
  "with_attribute default_type n m = bind (get_attribute default_type n) (\<lambda>a.
     case m a of (r, a') \<Rightarrow> andthen (modify (memoize n a')) (lift r))"

definition materialize :: "'a vtype \<Rightarrow> ('a, unit) sact" where
  "materialize default_type = bind (gets lazily) (\<lambda>src. case src of
       None \<Rightarrow> skip
     | Some l \<Rightarrow> only_if (\<not> materialized l) (andthen
         (for_each (own_keys (raw_values l) @ own_keys (types l))
            (\<lambda>n. bind (get_attribute default_type n) (\<lambda>_. skip)))
         (modify (\<lambda>s. s\<lparr>lazily := map_option (\<lambda>l. l\<lparr>materialized := True\<rparr>) (lazily s)\<rparr>))))"

definition attributes :: "'a vtype \<Rightarrow> ('a, 'a attribute obj) sact" where
  "attributes default_type = andthen (materialize default_type) (gets store)"

text \<open>\<open>transformValues(this.attributes(), f)\<close>\<close>

definition collect :: "'a vtype \<Rightarrow> ('a, 'b) aact \<Rightarrow> ('a, 'b obj) sact" where
  "collect default_type f = bind (attributes default_type) (\<lambda>o'.
     bind (map_each (\<lambda>n. bind (with_attribute default_type n f) (\<lambda>v. ret (n, v))) (own_keys o'))
       (\<lambda>nvs. ret (fold (\<lambda>(n, v). obj_put n v) nvs null_obj)))"

section \<open>Asking\<close>

definition initialized :: "'a vtype \<Rightarrow> string \<Rightarrow> ('a, bool) sact" where
  "initialized default_type n = with_attribute default_type n (gets is_initialized)"

definition is_key :: "'a vtype \<Rightarrow> string \<Rightarrow> ('a, bool) sact" where
  "is_key default_type n = bind (gets lazily) (\<lambda>src. bind (case src of
       None \<Rightarrow> bind (attributes default_type) (\<lambda>o'. ret (has_key o' n))
     | Some l \<Rightarrow> gets (\<lambda>s. has_key (raw_values l) n \<or> has_key (types l) n \<or> has_key (store s) n))
     (\<lambda>there. if there then initialized default_type n else ret False))"

fun select_names :: "(string \<Rightarrow> ('s, 'e, bool) comp) \<Rightarrow> string list \<Rightarrow> ('s, 'e, string list) comp" where
  "select_names p [] = ret []"
| "select_names p (n # ns) = bind (p n) (\<lambda>b. bind (select_names p ns) (\<lambda>r. ret (if b then n # r else r)))"

definition keys :: "'a vtype \<Rightarrow> ('a, string list) sact" where
  "keys default_type = bind (gets lazily) (\<lambda>src. bind (case src of
       None \<Rightarrow> bind (attributes default_type) (\<lambda>o'. ret (own_keys o'))
     | Some l \<Rightarrow> gets (\<lambda>s. uniq_from [] (own_keys (raw_values l) @ own_keys (types l) @ own_keys (store s))))
     (select_names (initialized default_type)))"

definition accessed :: "'a vtype \<Rightarrow> ('a, string list) sact" where
  "accessed default_type = bind (attributes default_type) (\<lambda>o'.
     select_names (\<lambda>n. with_attribute default_type n (gets has_been_read)) (own_keys o'))"

definition read_or :: "'a vtype \<Rightarrow> (string \<Rightarrow> aerr + 'a js) option \<Rightarrow> string \<Rightarrow> ('a, 'a js) sact" where
  "read_or default_type block n = with_attribute default_type n (bind (gets kind) (\<lambda>k.
     case block of Some f \<Rightarrow> if k = Uninit then lift (f n) else attr_value | None \<Rightarrow> attr_value))"

definition remember_cast :: "string \<Rightarrow> 'a js \<Rightarrow> 'a attrset \<Rightarrow> 'a attrset" where
  "remember_cast n v s = s\<lparr>lazily := map_option (\<lambda>l. l\<lparr>casted := obj_put n v (casted l)\<rparr>) (lazily s)\<rparr>"

definition fetch_value :: "'a vtype \<Rightarrow> (string \<Rightarrow> aerr + 'a js) option \<Rightarrow> string \<Rightarrow> ('a, 'a js) sact" where
  "fetch_value default_type block n = (\<lambda>s. case lazily s of
       None \<Rightarrow> read_or default_type block n s
     | Some l \<Rightarrow>
         if has_key (store s) n then read_or default_type block n s
         else if has_key (casted l) n
         then (Inr (case obj_get (casted l) n of Some v \<Rightarrow> v | None \<Rightarrow> Absent), s)
         else if has_key (raw_values l) n then
           bind (lift (case lookup_type l n of None \<Rightarrow> Inl Null_type
              | Some t \<Rightarrow> ty_deserialize t (case obj_get (raw_values l) n of Some v \<Rightarrow> v | None \<Rightarrow> Absent)))
             (\<lambda>v. andthen (modify (remember_cast n v)) (ret v)) s
         else read_or default_type block n s)"

definition fetch_attribute :: "'a vtype \<Rightarrow> string \<Rightarrow> (aerr + 'a attribute) option \<Rightarrow> ('a, 'a attribute) sact" where
  "fetch_attribute default_type n fallback = bind (attributes default_type) (\<lambda>o'.
     case map_of (own o') n of Some a \<Rightarrow> ret a
     | None \<Rightarrow> lift (case fallback of Some r \<Rightarrow> r | None \<Rightarrow> Inl (Key_missing n)))"

definition attributes_except :: "'a vtype \<Rightarrow> string list \<Rightarrow> ('a, 'a attribute obj) sact" where
  "attributes_except default_type ns = bind (attributes default_type) (\<lambda>o'. ret (except_keys ns o'))"

definition cast_types :: "'a vtype \<Rightarrow> ('a, 'a vtype option obj) sact" where
  "cast_types default_type = collect default_type (gets atype)"

definition values_before_type_cast :: "'a vtype \<Rightarrow> ('a, 'a js obj) sact" where
  "values_before_type_cast default_type =
     collect default_type (bind (gets value_before_type_cast) lift)"

definition values_for_database :: "'a vtype \<Rightarrow> ('a, 'a js obj) sact" where
  "values_for_database default_type = collect default_type value_for_database"

definition to_hash_of :: "'a vtype \<Rightarrow> (string \<Rightarrow> 'a js option) \<Rightarrow> ('a, 'a js obj) sact" where
  "to_hash_of default_type proto = bind (keys default_type) (\<lambda>ns.
     bind (map_each (\<lambda>n. bind (with_attribute default_type n attr_value) (\<lambda>v. ret (n, v))) ns)
       (\<lambda>nvs. ret (fold (\<lambda>(n, v). obj_put n v) nvs \<lparr>own = [], inherited = proto\<rparr>)))"

definition stores_equal :: "'a attribute obj \<Rightarrow> 'a attribute obj \<Rightarrow> aerr + bool" where
  "stores_equal o' p =
     (if length (own_keys o') \<noteq> length (own_keys p) then Inr False
      else foldr (\<lambda>n r. case (map_of (own o') n, map_of (own p) n) of
          (Some a, Some b) \<Rightarrow> attempt (attr_equals a b) (\<lambda>e. if e then r else Inr False)
        | _ \<Rightarrow> Inr False) (own_keys o') (Inr True))"

section \<open>Changing\<close>

definition write_from_database :: "'a vtype \<Rightarrow> string \<Rightarrow> 'a js \<Rightarrow> 'a vtype option \<Rightarrow> ('a, unit) sact" where
  "write_from_database default_type n v t = bind (gets (\<lambda>s. obj_get (store s) n)) (\<lambda>existing.
     case existing of
       Some a \<Rightarrow> bind (lift (with_value_from_database v a)) (put_attribute n)
     | None \<Rightarrow> put_attribute n (from_database n v
         (Some (case t of Some t \<Rightarrow> t | None \<Rightarrow> default_type)) Absent))"

definition write_from_user :: "'a vtype \<Rightarrow> string \<Rightarrow> 'a js \<Rightarrow> ('a, 'a js) sact" where
  "write_from_user default_type n v = bind (gets locked) (\<lambda>l. if l then throw Frozen else
     bind (get_attribute default_type n) (\<lambda>a. bind (lift (with_value_from_user v a)) (\<lambda>b.
       andthen (put_attribute n b) (ret v))))"

definition write_cast_value :: "'a vtype \<Rightarrow> string \<Rightarrow> 'a js \<Rightarrow> ('a, unit) sact" where
  "write_cast_value default_type n v = bind (get_attribute default_type n) (\<lambda>a.
     put_attribute n (with_cast_value v a))"

definition reset :: "'a vtype \<Rightarrow> string \<Rightarrow> ('a, unit) sact" where
  "reset default_type n = bind (is_key default_type n) (\<lambda>b.
     only_if b (write_from_database default_type n Nil None))"

definition map_attributes :: "'a vtype \<Rightarrow> ('a, 'a attribute) aact \<Rightarrow> ('a, 'a attrset) sact" where
  "map_attributes default_type f = bind (collect default_type f) (\<lambda>o'. ret (attribute_set o'))"

definition deep_dup :: "'a vtype \<Rightarrow> ('a, 'a attrset) sact" where
  "deep_dup default_type = map_attributes default_type (gets id)"

definition reverse_merge :: "'a attribute obj \<Rightarrow> ('a, unit) sact" where
  "reverse_merge target = for_each (own_keys target) (\<lambda>n. case map_of (own target) n of
       None \<Rightarrow> skip
     | Some a \<Rightarrow> bind (gets (\<lambda>s. has_key (store s) n)) (\<lambda>h. only_if (\<not> h) (put_attribute n a)))"

definition freeze_set :: "'a vtype \<Rightarrow> ('a, unit) sact" where
  "freeze_set default_type = andthen (attributes default_type)
     (modify (\<lambda>s. s\<lparr>sealed := True, locked := True\<rparr>))"

definition thawed_copy :: "'a attrset \<Rightarrow> 'a attrset" where
  "thawed_copy s = s\<lparr>store := obj_dup (store s), sealed := False, locked := False\<rparr>"

end
