(* ===== verification/Attr_Store.thy ===== *)
theory Attr_Store
  imports Attr_Set
begin

text \<open>
  The lazy attribute set refines the eager one.

  \<open>view s n\<close> is the attribute the set stands for under a name, whether it has been built or not;
  \<open>alike\<close> relates attributes that only differ in their memos. The operations are specified on views:
  reading answers the current value of the view and leaves all views alike, a write replaces the
  view of its name. Since both kinds of set satisfy that specification, the same sequence of reads
  and writes has the same outcomes on a lazy set and on the eager set of the same attributes.
\<close>

section \<open>Views\<close>

definition alike :: "'a attribute \<Rightarrow> 'a attribute \<Rightarrow> bool" where
  "alike a b \<longleftrightarrow> kind a = kind b \<and> attr_name a = attr_name b \<and> before a = before b \<and>
     atype a = atype b \<and> (original a = None \<longleftrightarrow> original b = None) \<and> current a = current b \<and>
     original_value a = original_value b \<and>
     original_value_for_database a = original_value_for_database b"

lemma alike_refl [simp]: "alike a a"
  by (simp add: alike_def)

lemma alike_sym: "alike a b \<Longrightarrow> alike b a"
  by (simp add: alike_def)

lemma alike_trans: "alike a b \<Longrightarrow> alike b c \<Longrightarrow> alike a c"
  by (simp add: alike_def)

lemma settles_alike: "settles a b \<Longrightarrow> alike a b"
  using settles_originals [of a b] by (simp add: settles_def alike_def)

lemma write_alike:
  assumes "alike a b" "attr_ok a" "attr_ok b" "with_value_from_user v a = Inr a'"
  shows "\<exists>b'. with_value_from_user v b = Inr b' \<and> alike a' b'"
proof -
  have "the_type b = the_type a" "kind b = kind a" "attr_name b = attr_name a" "atype b = atype a"
    using assms(1) by (simp_all add: the_type_def alike_def)
  then obtain b' where b': "with_value_from_user v b = Inr b'"
    using assms(4) by (auto simp: with_value_from_user_def attempt_Inr split: if_splits)
  have "original_value a' = original_value b' \<and> original_value_for_database a' = original_value_for_database b'"
    using write_originals [OF assms(4,2)] write_originals [OF b' assms(3)] assms(1) by (simp add: alike_def)
  moreover have "current (from_user n v t x) = current (from_user n v t y)" for n t x y
    by (simp add: current_unfold from_user_def value_before_type_cast_def type_cast_def the_type_def)
  ultimately have "alike a' b'"
    using write_result(2) [OF assms(4)] write_result(2) [OF b'] assms(1)
    by (simp add: alike_def) (simp add: from_user_def)
  with b' show ?thesis by blast
qed

lemma write_alike_error:
  assumes "alike a b"
  shows "with_value_from_user v a = Inl e \<longleftrightarrow> with_value_from_user v b = Inl e"
proof -
  have "the_type b = the_type a" "kind b = kind a" "attr_name b = attr_name a"
    using assms by (simp_all add: the_type_def alike_def)
  then show ?thesis by (auto simp: with_value_from_user_def attempt_def split: sum.splits)
qed

definition pending :: "'a vtype \<Rightarrow> 'a lazy \<Rightarrow> string \<Rightarrow> 'a attribute" where
  "pending default_type l n =
     (if has_key (raw_values l) n
      then from_database n (case obj_get (raw_values l) n of Some v \<Rightarrow> v | None \<Rightarrow> Absent) (lookup_type l n) Absent
      else if has_key (types l) n
      then (case obj_get (default_attributes l) n of Some a \<Rightarrow> a | None \<Rightarrow> uninitialized n (lookup_type l n))
      else null_attribute default_type n)"

definition view :: "'a vtype \<Rightarrow> 'a attrset \<Rightarrow> string \<Rightarrow> 'a attribute" where
  "view default_type s n = (case map_of (own (store s)) n of Some a \<Rightarrow> a
     | None \<Rightarrow> (case lazily s of None \<Rightarrow> null_attribute default_type n | Some l \<Rightarrow> pending default_type l n))"

section \<open>Well-formed sets\<close>

text \<open>\<open>proto\<close> is what the prototype of \<open>castedValues\<close> answers; a cast remembered for a name is what
  the type makes of the raw value, and a frozen set has built all its attributes.\<close>

definition casts_ok :: "'a lazy \<Rightarrow> bool" where
  "casts_ok l \<longleftrightarrow> (\<forall>n v. map_of (own (casted l)) n = Some v \<longrightarrow> has_key (raw_values l) n \<and>
     (\<exists>t. lookup_type l n = Some t \<and>
        ty_deserialize t (case obj_get (raw_values l) n of Some v \<Rightarrow> v | None \<Rightarrow> Absent) = Inr v))"

definition set_ok :: "'a attrset \<Rightarrow> bool" where
  "set_ok s \<longleftrightarrow> obj_ok (store s) \<and> (\<forall>n. inherited (store s) n = None) \<and>
     (\<forall>n a. map_of (own (store s)) n = Some a \<longrightarrow> attr_ok a) \<and>
     (case lazily s of None \<Rightarrow> True | Some l \<Rightarrow>
        casts_ok l \<and> (\<forall>n a. obj_get (default_attributes l) n = Some a \<longrightarrow> attr_ok a) \<and>
        (sealed s \<longrightarrow> (\<forall>n. has_key (raw_values l) n \<or> has_key (types l) n \<longrightarrow> has_key (store s) n)))"

text \<open>No column of the row has a name the prototype of the cast values answers. That prototype is the one of
  an object literal, so a column must not be called \<open>constructor\<close>, \<open>toString\<close> and the like.\<close>

definition plain_casts :: "'a attrset \<Rightarrow> bool" where
  "plain_casts s \<longleftrightarrow> (case lazily s of None \<Rightarrow> True | Some l \<Rightarrow>
     \<forall>n. has_key (raw_values l) n \<longrightarrow> inherited (casted l) n = None)"

definition keeps_views :: "'a vtype \<Rightarrow> 'a attrset \<Rightarrow> 'a attrset \<Rightarrow> bool" where
  "keeps_views dt s s' \<longleftrightarrow> (\<forall>n. alike (view dt s n) (view dt s' n))"

definition steady :: "'a vtype \<Rightarrow> 'a attrset \<Rightarrow> 'a attrset \<Rightarrow> bool" where
  "steady dt s s' \<longleftrightarrow> (set_ok s \<and> plain_casts s \<longrightarrow>
     set_ok s' \<and> plain_casts s' \<and> keeps_views dt s s' \<and> sealed s' = sealed s \<and> locked s' = locked s)"

interpretation steady: effect "steady dt" for dt
  by unfold_locales (auto simp: steady_def keeps_views_def intro: alike_trans)

lemma obj_get_store: "set_ok s \<Longrightarrow> obj_get (store s) n = map_of (own (store s)) n"
  by (auto simp: set_ok_def obj_get_def split: option.splits)

lemma obj_put_lookup: "map_of (own (obj_put k v o')) k' = (if k' = k then Some v else map_of (own o') k')"
  by (simp add: obj_put_def map_put_lookup)

lemma has_key_put: "has_key (obj_put k v o') k' \<longleftrightarrow> k' = k \<or> has_key o' k'"
  by (simp add: has_key_own obj_put_lookup)

lemma view_put: "view dt (s\<lparr>store := obj_put n a (store s)\<rparr>) m = (if m = n then a else view dt s m)"
  by (simp add: view_def obj_put_lookup split: option.splits)

lemma put_ok:
  "set_ok s \<Longrightarrow> attr_ok a \<Longrightarrow> set_ok (s\<lparr>store := obj_put n a (store s)\<rparr>)"
  by (auto simp: set_ok_def obj_put_lookup has_key_put oj.ok_put split: option.splits if_splits)

lemma null_ok: "attr_ok (null_attribute dt n)"
  by (simp add: attr_ok_def null_attribute_def)

lemma uninitialized_ok: "attr_ok (uninitialized n t)"
  by (simp add: attr_ok_def uninitialized_def)

lemma from_database_ok: "attr_ok (from_database n v t w)"
  by (simp add: attr_ok_def from_database_def)

lemma pending_ok: "set_ok s \<Longrightarrow> lazily s = Some l \<Longrightarrow> attr_ok (pending dt l n)"
  by (auto simp: pending_def set_ok_def null_ok uninitialized_ok from_database_ok split: option.splits)

lemma view_ok: "set_ok s \<Longrightarrow> attr_ok (view dt s n)"
  using pending_ok [of s] by (auto simp: view_def null_ok set_ok_def split: option.splits)

section \<open>Getting an attribute\<close>

lemma put_steady:
  assumes "set_ok s" "plain_casts s" "\<not> sealed s" "attr_ok a" "alike (view dt s n) a"
  shows "steady dt s (s\<lparr>store := obj_put n a (store s)\<rparr>)"
  using assms put_ok [OF assms(1,4)]
  by (auto simp: steady_def keeps_views_def view_put plain_casts_def split: option.splits)

lemma cast_memo_alike:
  assumes "ty_deserialize t v = Inr w"
  shows "alike (from_database n v (Some t) Absent) (from_database n v (Some t) w)"
  using assms by (simp add: alike_def from_database_def current_unfold value_before_type_cast_def type_cast_def
      the_type_def original_value_unfold original_value_for_database_unfold)

lemma get_attribute_found:
  assumes "set_ok s" "map_of (own (store s)) n = Some a"
  shows "get_attribute dt n s = (Inr a, s)"
  using assms by (simp add: get_attribute_def bind_def gets_def ret_def obj_get_store)

lemma missing_stored:
  assumes "set_ok s" "lazily s = Some l" "map_of (own (store s)) n = None"
    and "has_key (raw_values l) n \<or> has_key (types l) n"
  shows "\<not> sealed s"
  using assms by (auto simp: set_ok_def has_key_own)

text \<open>The result is alike the view; when the set knows the name, it is now in the store.\<close>

lemma get_attribute_spec:
  assumes ok: "set_ok s" and plain: "plain_casts s"
  shows "\<exists>a s'. get_attribute dt n s = (Inr a, s') \<and> alike (view dt s n) a \<and> attr_ok a \<and> steady dt s s' \<and>
     (map_of (own (store s')) n = Some a \<or> map_of (own (store s')) n = None \<and> s' = s \<and> a = null_attribute dt n)"
proof (cases "map_of (own (store s)) n")
  case (Some a)
  then show ?thesis using get_attribute_found [OF ok Some, of dt] ok
    by (auto simp: view_def steady.refl set_ok_def)
next
  case None
  then have get: "get_attribute dt n s = default_attribute dt n s"
    using ok by (simp add: get_attribute_def bind_def gets_def obj_get_store)
  show ?thesis
  proof (cases "lazily s")
    case src: None
    then have "get_attribute dt n s = (Inr (null_attribute dt n), s)" "view dt s n = null_attribute dt n"
      using get None by (simp_all add: default_attribute_def bind_def gets_def ret_def view_def)
    then show ?thesis using None by (simp add: steady.refl null_ok)
  next
    case src: (Some l)
    have view: "view dt s n = pending dt l n" using None src by (simp add: view_def)
    have build: "get_attribute dt n s = (Inr a, s\<lparr>store := obj_put n a (store s)\<rparr>) \<Longrightarrow> attr_ok a \<Longrightarrow>
      alike (pending dt l n) a \<Longrightarrow> \<not> sealed s \<Longrightarrow> ?thesis" for a
      using put_steady [OF ok plain, of a dt n] view by (auto simp: obj_put_lookup)
    show ?thesis
    proof (cases "has_key (raw_values l) n")
      case known: True
      let ?v = "case obj_get (raw_values l) n of Some v \<Rightarrow> v | None \<Rightarrow> Absent"
      let ?w = "case obj_get (casted l) n of Some w \<Rightarrow> w | None \<Rightarrow> Absent"
      let ?a = "from_database n ?v (lookup_type l n) ?w"
      have open': "\<not> sealed s" using missing_stored [OF ok src None] known by blast
      then have run: "get_attribute dt n s = (Inr ?a, s\<lparr>store := obj_put n ?a (store s)\<rparr>)"
        using get src known by (simp add: default_attribute_def bind_def gets_def ret_def andthen_def
            put_attribute_def Let_def)
      have "alike (pending dt l n) ?a"
      proof (cases "map_of (own (casted l)) n")
        case None
        then have "?w = Absent" using plain src known by (simp add: plain_casts_def obj_get_def)
        then show ?thesis using known by (simp add: pending_def)
      next
        case (Some w)
        then have "?w = w" by (simp add: obj_get_def)
        moreover obtain t where "lookup_type l n = Some t" "ty_deserialize t ?v = Inr w"
        proof -
          have "casts_ok l" using ok src by (simp add: set_ok_def)
          then show ?thesis using Some that unfolding casts_ok_def by blast
        qed
        ultimately show ?thesis using cast_memo_alike known by (simp add: pending_def)
      qed
      then show ?thesis by (rule build [OF run from_database_ok _ open'])
    next
      case unknown: False
      show ?thesis
      proof (cases "has_key (types l) n")
        case True
        then have open': "\<not> sealed s" using missing_stored [OF ok src None] by blast
        have "get_attribute dt n s = (Inr (pending dt l n), s\<lparr>store := obj_put n (pending dt l n) (store s)\<rparr>)"
          using get src unknown True open' by (simp add: default_attribute_def bind_def gets_def ret_def
              andthen_def put_attribute_def Let_def pending_def)
        then show ?thesis by (rule build [OF _ pending_ok [OF ok src] alike_refl open'])
      next
        case False
        then have "get_attribute dt n s = (Inr (null_attribute dt n), s)" "view dt s n = null_attribute dt n"
          using get src unknown view
          by (simp_all add: default_attribute_def bind_def gets_def ret_def pending_def)
        then show ?thesis using None by (simp add: steady.refl null_ok)
      qed
    qed
  qed
qed

lemma memoize_steady:
  assumes "set_ok s" "plain_casts s" "map_of (own (store s)) n = Some a" "alike a a'" "attr_ok a'"
  shows "steady dt s (memoize n a' s)"
proof -
  have "memoize n a' s = s\<lparr>store := obj_put n a' (store s)\<rparr>"
    using assms(3) by (simp add: memoize_def has_key_own)
  moreover have "alike (view dt s n) a'" using assms(3,4) by (simp add: view_def)
  ultimately show ?thesis using assms put_ok [OF assms(1,5)]
    by (auto simp: steady_def keeps_views_def view_put plain_casts_def split: option.splits)
qed

text \<open>Asking an attribute of the set: any computation on it that only fills memos.\<close>

lemma with_attribute_spec:
  assumes ok: "set_ok s" "plain_casts s"
    and m: "\<And>a. attr_ok a \<Longrightarrow> alike a (snd (m a)) \<and> attr_ok (snd (m a))"
  shows "\<exists>a s'. with_attribute dt n m s = (fst (m a), s') \<and> alike (view dt s n) a \<and> attr_ok a \<and> steady dt s s'"
proof -
  obtain a s' where get: "get_attribute dt n s = (Inr a, s')" "alike (view dt s n) a" "attr_ok a" "steady dt s s'"
    and stored: "map_of (own (store s')) n = Some a \<or> map_of (own (store s')) n = None \<and> s' = s"
    using get_attribute_spec [OF ok, of dt n] by blast
  obtain r a' where ma: "m a = (r, a')" by (cases "m a")
  have run: "with_attribute dt n m s = (r, memoize n a' s')"
    using get(1) ma by (cases r) (simp_all add: with_attribute_def bind_def andthen_def modify_def)
  have ok': "set_ok s'" "plain_casts s'" using get(4) ok by (simp_all add: steady_def)
  have "alike a a'" "attr_ok a'" using m [OF get(3)] ma by simp_all
  then have "steady dt s' (memoize n a' s')"
    using stored
  proof (elim disjE conjE)
    assume "map_of (own (store s')) n = Some a"
    then show ?thesis by (rule memoize_steady [OF ok' _ \<open>alike a a'\<close> \<open>attr_ok a'\<close>])
  next
    assume "map_of (own (store s')) n = None"
    then have "memoize n a' s' = s'" by (simp add: memoize_def has_key_own)
    then show ?thesis by (simp add: steady.refl)
  qed
  then have "steady dt s (memoize n a' s')" using get(4) steady.trans by blast
  moreover have "r = fst (m a)" using ma by simp
  ultimately show ?thesis using run get by blast
qed

section \<open>Reading and writing\<close>

lemma read_memo: "attr_ok a \<Longrightarrow> alike a (snd (attr_value a)) \<and> attr_ok (snd (attr_value a))"
proof -
  assume "attr_ok a"
  moreover have "kind a = Uninit \<Longrightarrow> snd (attr_value a) = a" by (simp add: attr_value_def)
  ultimately show ?thesis using settles_alike [OF attr_value_settles] settles_ok' [OF attr_value_settles] by blast
qed

text \<open>What \<open>fetchValue\<close> answers for a view.\<close>

definition value_of :: "(string \<Rightarrow> aerr + 'a js) option \<Rightarrow> string \<Rightarrow> 'a attribute \<Rightarrow> aerr + 'a js" where
  "value_of block n a = (case block of Some f \<Rightarrow> if kind a = Uninit then f n else current a | None \<Rightarrow> current a)"

lemma value_of_alike: "alike a b \<Longrightarrow> value_of block n a = value_of block n b"
  by (auto simp: value_of_def alike_def split: option.splits)

lemma read_or_spec:
  assumes "set_ok s" "plain_casts s"
  shows "\<exists>s'. read_or dt block n s = (value_of block n (view dt s n), s') \<and> steady dt s s'"
proof -
  let ?m = "bind (gets kind) (\<lambda>k. case block of Some f \<Rightarrow> if k = Uninit then lift (f n) else attr_value
     | None \<Rightarrow> attr_value)"
  have m: "alike a (snd (?m a)) \<and> attr_ok (snd (?m a))" if "attr_ok a" for a
    using read_memo [OF that] that by (auto simp: bind_def gets_def split: option.splits)
  have fst: "fst (?m a) = value_of block n a" for a
    by (auto simp: bind_def gets_def value_of_def current_def split: option.splits)
  from with_attribute_spec [OF assms m, of dt n] obtain a s' where
    "with_attribute dt n ?m s = (fst (?m a), s')" "alike (view dt s n) a" "steady dt s s'" by blast
  then show ?thesis using fst [of a] value_of_alike [of "view dt s n" a block n] by (auto simp: read_or_def)
qed

lemma remember_steady:
  assumes "set_ok s" "plain_casts s" "lazily s = Some l" "has_key (raw_values l) n" "lookup_type l n = Some t"
    and "ty_deserialize t (case obj_get (raw_values l) n of Some v \<Rightarrow> v | None \<Rightarrow> Absent) = Inr v"
  shows "steady dt s (remember_cast n v s)"
proof -
  let ?l = "l\<lparr>casted := obj_put n v (casted l)\<rparr>"
  have "casts_ok l" using assms by (simp add: set_ok_def)
  then have "casts_ok ?l" using assms(4-6)
    by (auto simp: casts_ok_def obj_put_lookup lookup_type_def split: if_splits)
  then have "set_ok (remember_cast n v s)" using assms(1,3) by (auto simp: remember_cast_def set_ok_def)
  moreover have "view dt (remember_cast n v s) = view dt s"
    using assms(3) by (auto simp: fun_eq_iff view_def remember_cast_def pending_def lookup_type_def split: option.splits)
  moreover have "plain_casts (remember_cast n v s)"
    using assms(2,3) by (simp add: plain_casts_def remember_cast_def)
  ultimately show ?thesis by (simp add: steady_def keeps_views_def) (simp add: remember_cast_def)
qed

lemma fetch_value_spec:
  assumes ok: "set_ok s" "plain_casts s"
  shows "\<exists>s'. fetch_value dt block n s = (value_of block n (view dt s n), s') \<and> steady dt s s'"
proof (cases "lazily s")
  case None
  then show ?thesis using read_or_spec [OF ok, of dt block n] by (simp add: fetch_value_def)
next
  case (Some l)
  let ?raw = "case obj_get (raw_values l) n of Some v \<Rightarrow> v | None \<Rightarrow> Absent"
  have casts: "casts_ok l" using ok Some by (simp add: set_ok_def)
  show ?thesis
  proof (cases "has_key (store s) n \<or> \<not> has_key (casted l) n \<and> \<not> has_key (raw_values l) n")
    case True
    then have "fetch_value dt block n s = read_or dt block n s"
      using Some by (auto simp: fetch_value_def)
    then show ?thesis using read_or_spec [OF ok, of dt block n] by simp
  next
    case False
    then have raw: "has_key (raw_values l) n" using casts by (auto simp: casts_ok_def has_key_own)
    then have view: "view dt s n = from_database n ?raw (lookup_type l n) Absent"
      using False Some by (simp add: view_def has_key_own pending_def)
    then have answers: "value_of block n (view dt s n) = (case lookup_type l n of None \<Rightarrow> Inl Null_type
        | Some t \<Rightarrow> ty_deserialize t ?raw)"
      by (auto simp: value_of_def from_database_def current_unfold value_before_type_cast_def type_cast_def
          the_type_def split: option.splits)
    show ?thesis
    proof (cases "map_of (own (casted l)) n")
      case (Some v)
      then obtain t where "lookup_type l n = Some t" "ty_deserialize t ?raw = Inr v"
        using casts unfolding casts_ok_def by blast
      then show ?thesis using answers False Some \<open>lazily s = Some l\<close>
        by (auto simp: fetch_value_def has_key_own obj_get_def intro: steady.refl)
    next
      case None
      then have run: "fetch_value dt block n s = bind (lift (value_of block n (view dt s n)))
          (\<lambda>v. andthen (modify (remember_cast n v)) (ret v)) s"
        using answers False raw Some by (simp add: fetch_value_def has_key_own)
      show ?thesis
      proof (cases "value_of block n (view dt s n)")
        case (Inl e)
        then show ?thesis using run by (simp add: bind_def steady.refl)
      next
        case (Inr v)
        then obtain t where "lookup_type l n = Some t" "ty_deserialize t ?raw = Inr v"
          using answers by (auto split: option.splits)
        then have "steady dt s (remember_cast n v s)" by (rule remember_steady [OF ok Some raw])
        then show ?thesis using run Inr by (simp add: bind_def andthen_def modify_def ret_def)
      qed
    qed
  qed
qed

text \<open>The set after a write: the written name has the new attribute, the others look as before.\<close>

definition written :: "'a vtype \<Rightarrow> string \<Rightarrow> 'a attribute \<Rightarrow> 'a attrset \<Rightarrow> 'a attrset \<Rightarrow> bool" where
  "written dt n b s s' \<longleftrightarrow> set_ok s' \<and> plain_casts s' \<and> sealed s' = sealed s \<and> locked s' = locked s \<and>
     (\<forall>m. alike (if m = n then b else view dt s m) (view dt s' m))"

lemma write_spec:
  assumes ok: "set_ok s" "plain_casts s" and free: "\<not> locked s" "\<not> sealed s"
  shows "(\<exists>b s'. with_value_from_user v (view dt s n) = Inr b \<and> write_from_user dt n v s = (Inr v, s') \<and> written dt n b s s') \<or>
     (\<exists>e s'. with_value_from_user v (view dt s n) = Inl e \<and> write_from_user dt n v s = (Inl e, s') \<and> steady dt s s')"
proof -
  obtain a s' where get: "get_attribute dt n s = (Inr a, s')" "alike (view dt s n) a" "attr_ok a" "steady dt s s'"
    using get_attribute_spec [OF ok, of dt n] by blast
  have run: "write_from_user dt n v s = bind (lift (with_value_from_user v a))
      (\<lambda>b. andthen (put_attribute n b) (ret v)) s'"
    using get(1) free by (simp add: write_from_user_def bind_def gets_def)
  have s': "set_ok s'" "plain_casts s'" "\<not> sealed s'" "\<not> locked s'" "keeps_views dt s s'"
    using get(4) ok free by (simp_all add: steady_def)
  show ?thesis
  proof (cases "with_value_from_user v (view dt s n)")
    case (Inl e)
    then have "with_value_from_user v a = Inl e" using write_alike_error [OF get(2)] by blast
    then show ?thesis using run get(4) Inl by (simp add: bind_def)
  next
    case (Inr b)
    then obtain b' where b': "with_value_from_user v a = Inr b'" "alike b b'"
      using write_alike [OF get(2) view_ok [OF ok(1)] get(3)] by blast
    let ?s = "s'\<lparr>store := obj_put n b' (store s')\<rparr>"
    have "write_from_user dt n v s = (Inr v, ?s)"
      using run b'(1) s'(3) by (simp add: bind_def andthen_def put_attribute_def ret_def)
    moreover have "attr_ok b'" using write_originals [OF b'(1) get(3)] by blast
    then have "written dt n b s ?s"
      using s' b'(2) put_ok [OF s'(1)] free
      by (auto simp: written_def view_put keeps_views_def plain_casts_def split: option.splits)
    ultimately show ?thesis using Inr by blast
  qed
qed

section \<open>The interface\<close>

text \<open>What a table of attributes promises, and that it then answers every sequence of reads and
  writes as the plain function from names to attributes does.\<close>

datatype 'a request = Fetch string | Write string "'a js"

fun spec_run :: "(string \<Rightarrow> 'a attribute) \<Rightarrow> 'a request list \<Rightarrow> (aerr + 'a js) list" where
  "spec_run f [] = []"
| "spec_run f (Fetch n # rs) = current (f n) # spec_run f rs"
| "spec_run f (Write n v # rs) = (case with_value_from_user v (f n) of
     Inl e \<Rightarrow> Inl e # spec_run f rs
   | Inr b \<Rightarrow> Inr v # spec_run (f(n := b)) rs)"

locale attribute_table =
  fixes ok :: "'s \<Rightarrow> bool" and look :: "'s \<Rightarrow> string \<Rightarrow> 'a attribute"
    and fetch_of :: "string \<Rightarrow> ('s, aerr, 'a js) comp" and write_to :: "string \<Rightarrow> 'a js \<Rightarrow> ('s, aerr, 'a js) comp"
  assumes look_ok: "ok s \<Longrightarrow> attr_ok (look s n)"
    and fetch_law: "ok s \<Longrightarrow> \<exists>s'. fetch_of n s = (current (look s n), s') \<and> ok s' \<and> (\<forall>m. alike (look s m) (look s' m))"
    and write_ok: "ok s \<Longrightarrow> with_value_from_user v (look s n) = Inr b \<Longrightarrow>
      \<exists>s'. write_to n v s = (Inr v, s') \<and> ok s' \<and> (\<forall>m. alike (if m = n then b else look s m) (look s' m))"
    and write_error: "ok s \<Longrightarrow> with_value_from_user v (look s n) = Inl e \<Longrightarrow>
      \<exists>s'. write_to n v s = (Inl e, s') \<and> ok s' \<and> (\<forall>m. alike (look s m) (look s' m))"
begin

fun table_run :: "'s \<Rightarrow> 'a request list \<Rightarrow> (aerr + 'a js) list" where
  "table_run s [] = []"
| "table_run s (Fetch n # rs) = (case fetch_of n s of (r, s') \<Rightarrow> r # table_run s' rs)"
| "table_run s (Write n v # rs) = (case write_to n v s of (r, s') \<Rightarrow> r # table_run s' rs)"

lemma table_run_spec:
  "ok s \<Longrightarrow> (\<And>n. alike (f n) (look s n) \<and> attr_ok (f n)) \<Longrightarrow> table_run s rs = spec_run f rs"
proof (induction f rs arbitrary: s rule: spec_run.induct)
  case (1 f)
  then show ?case by simp
next
  case (2 f n rs)
  obtain s' where s': "fetch_of n s = (current (look s n), s')" "ok s'" "\<forall>m. alike (look s m) (look s' m)"
    using fetch_law [OF 2(2)] by blast
  then have "table_run s' rs = spec_run f rs" using 2(3) by (intro 2(1)) (auto intro: alike_trans)
  moreover have "current (f n) = current (look s n)" using 2(3) [of n] by (simp add: alike_def)
  ultimately show ?case using s'(1) by simp
next
  case (3 f n v rs)
  show ?case
  proof (cases "with_value_from_user v (f n)")
    case (Inl e)
    then have "with_value_from_user v (look s n) = Inl e" using write_alike_error 3(4) by blast
    then obtain s' where s': "write_to n v s = (Inl e, s')" "ok s'" "\<forall>m. alike (look s m) (look s' m)"
      using write_error [OF 3(3)] by blast
    then have "table_run s' rs = spec_run f rs" using 3(4) Inl by (intro 3(1)) (auto intro: alike_trans)
    then show ?thesis using s'(1) Inl by simp
  next
    case (Inr b)
    then obtain b' where b': "with_value_from_user v (look s n) = Inr b'" "alike b b'"
      using write_alike 3(4) look_ok [OF 3(3)] by blast
    then obtain s' where s': "write_to n v s = (Inr v, s')" "ok s'"
      "\<forall>m. alike (if m = n then b' else look s m) (look s' m)"
      using write_ok [OF 3(3)] by blast
    have "attr_ok b" using write_originals [OF Inr] 3(4) by blast
    moreover have "alike ((f(n := b)) m) (look s' m)" for m
    proof (cases "m = n")
      case True
      then show ?thesis using s'(3) b'(2) alike_trans [of b b' "look s' n"] by (auto split: if_splits)
    next
      case False
      then have "alike (look s m) (look s' m)" using s'(3) by (auto split: if_splits)
      then show ?thesis using False 3(4) [of m] alike_trans by auto
    qed
    ultimately have "table_run s' rs = spec_run (f(n := b)) rs"
      using Inr s'(2) 3(4) by (intro 3(2)) auto
    then show ?thesis using s'(1) Inr by simp
  qed
qed

end

definition open_set :: "'a attrset \<Rightarrow> bool" where
  "open_set s \<longleftrightarrow> set_ok s \<and> plain_casts s \<and> \<not> locked s \<and> \<not> sealed s"

interpretation sets: attribute_table open_set "view dt" "fetch_value dt None" "write_from_user dt" for dt
proof (unfold_locales, goal_cases)
  case (1 s n)
  then show ?case by (simp add: open_set_def view_ok)
next
  case (2 s n)
  then show ?case using fetch_value_spec [of s dt None n]
    by (auto simp: open_set_def value_of_def steady_def keeps_views_def)
next
  case (3 s v n b)
  then obtain s' where "write_from_user dt n v s = (Inr v, s')" "written dt n b s s'"
    using write_spec [of s v dt n] by (auto simp: open_set_def)
  then show ?case using 3 unfolding open_set_def written_def by metis
next
  case (4 s v n e)
  then show ?case using write_spec [of s v dt n]
    by (auto simp: open_set_def steady_def keeps_views_def)
qed

section \<open>Lazy and eager\<close>

text \<open>The eager set of the same attributes.\<close>

definition eager_from_database :: "'a vtype \<Rightarrow> 'a vtype obj \<Rightarrow> 'a attribute obj \<Rightarrow> 'a js obj
    \<Rightarrow> 'a vtype obj \<Rightarrow> 'a attrset" where
  "eager_from_database default_type tys defaults vals additional =
     (let l = \<lparr>raw_values = vals, types = tys, additional_types = additional,
        default_attributes = defaults, casted = null_obj, materialized = False\<rparr>
      in attribute_set \<lparr>own = map (\<lambda>n. (n, pending default_type l n))
        (uniq_from [] (own_keys vals @ own_keys tys)), inherited = (\<lambda>_. None)\<rparr>)"

definition run_requests :: "'a vtype \<Rightarrow> 'a attrset \<Rightarrow> 'a request list \<Rightarrow> (aerr + 'a js) list" where
  "run_requests dt s rs = sets.table_run dt s rs"

lemma pending_attr_ok:
  "(\<And>n a. obj_get (default_attributes l) n = Some a \<Longrightarrow> attr_ok a) \<Longrightarrow> attr_ok (pending dt l n)"
  by (auto simp: pending_def null_ok uninitialized_ok from_database_ok split: option.splits)

text \<open>
  C19. A lazy attribute set and the eager set of the same attributes give the same outcome, value
  or error, to every request of every sequence of reads and writes, whatever the names asked for, when
  no column of the row has a name that every object answers.
\<close>
theorem lazy_equals_eager:
  assumes "\<And>n a. obj_get defaults n = Some a \<Longrightarrow> attr_ok a" and "\<And>n. has_key vals n \<Longrightarrow> proto n = None"
  shows "run_requests dt (build_from_database proto tys defaults vals additional) rs =
     run_requests dt (eager_from_database dt tys defaults vals additional) rs"
proof -
  let ?l = "\<lparr>raw_values = vals, types = tys, additional_types = additional,
        default_attributes = defaults, casted = null_obj, materialized = False\<rparr>"
  let ?e = "eager_from_database dt tys defaults vals additional"
  let ?z = "build_from_database proto tys defaults vals additional"
  have z: "open_set ?z" "view dt ?z = pending dt ?l"
    using assms by (auto simp: open_set_def set_ok_def plain_casts_def casts_ok_def build_from_database_def
        lazy_attribute_set_def attribute_set_def obj_ok_null view_def fun_eq_iff pending_def lookup_type_def
        obj_ok_def map_ok_def split: option.splits)
  have look: "map_of (own (store ?e)) n =
      (if has_key vals n \<or> has_key tys n then Some (pending dt ?l n) else None)" for n
    by (simp add: eager_from_database_def attribute_set_def Let_def map_of_keys uniq_from_set own_keys_has)
  have "open_set ?e" unfolding open_set_def set_ok_def
  proof (intro conjI allI impI)
    show "obj_ok (store ?e)"
      by (simp add: obj_ok_def map_ok_def eager_from_database_def attribute_set_def Let_def o_def uniq_from_distinct)
    show "attr_ok a" if "map_of (own (store ?e)) n = Some a" for n a
      using that pending_attr_ok [of ?l dt n] assms(1) unfolding look by (auto split: if_splits)
  qed (simp_all add: eager_from_database_def attribute_set_def Let_def plain_casts_def)
  moreover have "view dt ?e = pending dt ?l"
  proof
    fix n
    have "lazily ?e = None" by (simp add: eager_from_database_def attribute_set_def Let_def)
    then show "view dt ?e n = pending dt ?l n" by (simp add: view_def look) (simp add: pending_def)
  qed
  moreover have "attr_ok (pending dt ?l n)" for n by (rule pending_attr_ok) (simp add: assms(1))
  ultimately show ?thesis
    unfolding run_requests_def
    using sets.table_run_spec [OF z(1), of "pending dt ?l"] sets.table_run_spec [of ?e "pending dt ?l"] z(2)
    by simp
qed

text \<open>
  The hypothesis on the columns is needed: for a column whose name the prototype of an object
  literal answers, such as \<open>constructor\<close>, building the attribute before its value has been read
  makes the inherited function its value, whatever the database holds.
\<close>
lemma inherited_cast_is_read:
  assumes "has_key vals n" "proto n = Some f" "\<not> nullish f"
  shows "fst (fetch_value dt None n (snd (get_attribute dt n
      (build_from_database proto tys defaults vals additional)))) = Inr f"
proof -
  define v where "v = (case obj_get vals n of Some v \<Rightarrow> v | None \<Rightarrow> Absent)"
  define t where "t = (if has_key additional n then obj_get additional n else obj_get tys n)"
  have "snd (get_attribute dt n (build_from_database proto tys defaults vals additional)) =
     (build_from_database proto tys defaults vals additional)\<lparr>store := obj_put n (from_database n v t f) null_obj\<rparr>"
    using assms by (simp add: get_attribute_def default_attribute_def build_from_database_def
        lazy_attribute_set_def attribute_set_def bind_def gets_def ret_def andthen_def put_attribute_def
        Let_def obj_get_def lookup_type_def v_def t_def null_obj_def)
  moreover have "has_key (obj_put n (from_database n v t f) null_obj) n" by (simp add: has_key_put)
  ultimately show ?thesis using assms(3)
    by (simp add: fetch_value_def build_from_database_def lazy_attribute_set_def attribute_set_def read_or_def
        with_attribute_def get_attribute_def bind_def gets_def obj_get_def obj_put_lookup ret_def andthen_def
        modify_def from_database_def attr_value_def)
qed

end
