(* ===== verification/Attr_Dirty.thy ===== *)
theory Attr_Dirty
  imports Attr_Store
begin

text \<open>
  Dirty tracking (\<^verbatim>\<open>packages/activemodel/src/attribute-mutation-tracker.ts\<close> and \<^verbatim>\<open>dirty.ts\<close>).

  A \<open>tracker\<close> is the attribute set it watches and the forced changes. A \<open>model\<close> has the tracker of
  its own attributes and, after a save, the tracker of what it saved; the tracker that is created
  on demand is the one without forced changes, and the set a model and its tracker share is held
  once. The two trackers of a saved model hold their sets by value: an object edited in place
  after the save is seen by the new one only. \<open>NullMutationTracker\<close> is the absent tracker.
  The \<open>ForcedMutationTracker\<close> of models without attributes is a \<open>forced_host\<close>, whose fields are
  read through \<open>field\<close>. Names like \<open>__proto__\<close> that an object literal does not store are left out.
\<close>

section \<open>The mutation tracker\<close>

record 'a tracker =
  watched :: "'a attrset"
  forced :: "(string \<times> 'a js) list"

type_synonym ('a, 'b) tact = "('a tracker, aerr, 'b) comp"

definition on_set :: "('a, 'b) sact \<Rightarrow> ('a, 'b) tact" where
  "on_set m = (\<lambda>t. case m (watched t) of (r, s') \<Rightarrow> (r, t\<lparr>watched := s'\<rparr>))"

definition tracker_original :: "'a vtype \<Rightarrow> string \<Rightarrow> ('a, 'a js) tact" where
  "tracker_original dt n = on_set (with_attribute dt n (bind (gets original_value) lift))"

definition tracker_value :: "'a vtype \<Rightarrow> string \<Rightarrow> ('a, 'a js) tact" where
  "tracker_value dt n = on_set (fetch_value dt None n)"

definition tracker_type_cast :: "'a vtype \<Rightarrow> string \<Rightarrow> 'a js \<Rightarrow> ('a, 'a js) tact" where
  "tracker_type_cast dt n v = on_set (with_attribute dt n (bind (gets (\<lambda>a. type_cast a v)) lift))"

definition attribute_changed :: "'a vtype \<Rightarrow> string \<Rightarrow> ('a, bool) tact" where
  "attribute_changed dt n = bind (gets (\<lambda>t. map_has (forced t) n)) (\<lambda>f.
     if f then ret True else on_set (with_attribute dt n attr_changed))"

text \<open>The options \<open>from\<close> and \<open>to\<close>. \<open>valuesEqual\<close> is equality of values.\<close>

definition differs_from :: "'a vtype \<Rightarrow> (string \<Rightarrow> ('a, 'a js) tact) \<Rightarrow> string \<Rightarrow> 'a js option \<Rightarrow> ('a, bool) tact" where
  "differs_from dt actual n wanted = (case wanted of
       None \<Rightarrow> ret False
     | Some v \<Rightarrow> bind (actual n) (\<lambda>x. bind (tracker_type_cast dt n v) (\<lambda>y. ret (x \<noteq> y))))"

definition is_changed :: "'a vtype \<Rightarrow> string \<Rightarrow> 'a js option \<Rightarrow> 'a js option \<Rightarrow> ('a, bool) tact" where
  "is_changed dt n from_opt to_opt = bind (attribute_changed dt n) (\<lambda>c. if \<not> c then ret False else
     bind (differs_from dt (tracker_original dt) n from_opt) (\<lambda>d. if d then ret False else
     bind (differs_from dt (tracker_value dt) n to_opt) (\<lambda>d. ret (\<not> d))))"

definition attr_names :: "'a vtype \<Rightarrow> ('a, string list) tact" where
  "attr_names dt = on_set (keys dt)"

definition changed_attribute_names :: "'a vtype \<Rightarrow> ('a, string list) tact" where
  "changed_attribute_names dt = bind (attr_names dt) (select_names (\<lambda>n. is_changed dt n None None))"

definition change_to_attribute :: "'a vtype \<Rightarrow> string \<Rightarrow> ('a, ('a js \<times> 'a js) option) tact" where
  "change_to_attribute dt n = bind (is_changed dt n None None) (\<lambda>c. if \<not> c then ret None else
     bind (tracker_original dt n) (\<lambda>x. bind (tracker_value dt n) (\<lambda>y. ret (Some (x, y)))))"

text \<open>The two loops that fill a result object, name by name.\<close>

fun gather :: "(string \<Rightarrow> ('s, 'e, 'v option) comp) \<Rightarrow> string list \<Rightarrow> 'v obj \<Rightarrow> ('s, 'e, 'v obj) comp" where
  "gather p [] o' = ret o'"
| "gather p (n # ns) o' = bind (p n) (\<lambda>v. gather p ns (case v of Some v \<Rightarrow> obj_put n v o' | None \<Rightarrow> o'))"

definition changed_values :: "'a vtype \<Rightarrow> (string \<Rightarrow> 'a js option) \<Rightarrow> ('a, 'a js obj) tact" where
  "changed_values dt proto = bind (attr_names dt) (\<lambda>ns. gather (\<lambda>n. bind (is_changed dt n None None) (\<lambda>c.
     if c then bind (tracker_original dt n) (\<lambda>v. ret (Some v)) else ret None)) ns
       \<lparr>own = [], inherited = proto\<rparr>)"

definition changes :: "'a vtype \<Rightarrow> (string \<Rightarrow> ('a js \<times> 'a js) option) \<Rightarrow> ('a, ('a js \<times> 'a js) obj) tact" where
  "changes dt proto = bind (attr_names dt) (\<lambda>ns. gather (change_to_attribute dt) ns
     \<lparr>own = [], inherited = proto\<rparr>)"

fun some_name :: "(string \<Rightarrow> ('s, 'e, bool) comp) \<Rightarrow> string list \<Rightarrow> ('s, 'e, bool) comp" where
  "some_name p [] = ret False"
| "some_name p (n # ns) = bind (p n) (\<lambda>b. if b then ret True else some_name p ns)"

definition any_changes :: "'a vtype \<Rightarrow> ('a, bool) tact" where
  "any_changes dt = bind (attr_names dt) (some_name (\<lambda>n. is_changed dt n None None))"

definition tracker_changed_in_place :: "'a vtype \<Rightarrow> string \<Rightarrow> ('a, bool) tact" where
  "tracker_changed_in_place dt n = on_set (with_attribute dt n changed_in_place)"

definition forget_change :: "'a vtype \<Rightarrow> string \<Rightarrow> ('a, unit) tact" where
  "forget_change dt n = bind (on_set (with_attribute dt n forgetting_assignment)) (\<lambda>b.
     andthen (on_set (put_attribute n b)) (modify (\<lambda>t. t\<lparr>forced := map_drop n (forced t)\<rparr>)))"

definition force_change :: "'a vtype \<Rightarrow> string \<Rightarrow> ('a, 'a js) tact" where
  "force_change dt n = bind (tracker_value dt n) (\<lambda>v.
     andthen (modify (\<lambda>t. t\<lparr>forced := map_put n v (forced t)\<rparr>)) (ret v))"

section \<open>Models\<close>

record 'a model =
  from_db :: "'a tracker"
  before_last_save :: "'a tracker option"

type_synonym ('a, 'b) mact = "('a model, aerr, 'b) comp"

definition on_tracker :: "('a, 'b) tact \<Rightarrow> ('a, 'b) mact" where
  "on_tracker m = (\<lambda>r. case m (from_db r) of (x, t) \<Rightarrow> (x, r\<lparr>from_db := t\<rparr>))"

definition on_saved :: "'b \<Rightarrow> ('a, 'b) tact \<Rightarrow> ('a, 'b) mact" where
  "on_saved none m = (\<lambda>r. case before_last_save r of
       None \<Rightarrow> (Inr none, r)
     | Some t \<Rightarrow> (case m t of (x, t') \<Rightarrow> (x, r\<lparr>before_last_save := Some t'\<rparr>)))"

text \<open>\<open>_attributes = _attributes.map(forgettingAssignment)\<close>; the old set, in which the memos are
  filled, is what the saved tracker goes on watching.\<close>

definition forget_attribute_assignments :: "'a vtype \<Rightarrow> ('a, 'a attrset) mact" where
  "forget_attribute_assignments dt = on_tracker (on_set (map_attributes dt forgetting_assignment))"

definition fresh_tracker :: "'a attrset \<Rightarrow> 'a tracker" where
  "fresh_tracker s = \<lparr>watched = s, forced = []\<rparr>"

definition changes_applied :: "'a vtype \<Rightarrow> ('a, unit) mact" where
  "changes_applied dt = (\<lambda>r. case forget_attribute_assignments dt r of
       (Inl e, r') \<Rightarrow> (Inl e, r'\<lparr>before_last_save := Some (from_db r')\<rparr>)
     | (Inr s, r') \<Rightarrow> (Inr (), r'\<lparr>from_db := fresh_tracker s, before_last_save := Some (from_db r')\<rparr>))"

definition clear_changes_information :: "'a vtype \<Rightarrow> ('a, unit) mact" where
  "clear_changes_information dt = andthen (modify (\<lambda>r. r\<lparr>before_last_save := None\<rparr>))
     (bind (forget_attribute_assignments dt) (\<lambda>s. modify (\<lambda>r. r\<lparr>from_db := fresh_tracker s\<rparr>)))"

definition clear_attribute_change :: "'a vtype \<Rightarrow> string \<Rightarrow> ('a, unit) mact" where
  "clear_attribute_change dt n = on_tracker (forget_change dt n)"

definition clear_attribute_changes :: "'a vtype \<Rightarrow> string list \<Rightarrow> ('a, unit) mact" where
  "clear_attribute_changes dt ns = for_each ns (clear_attribute_change dt)"

definition write_attribute :: "'a vtype \<Rightarrow> string \<Rightarrow> 'a js \<Rightarrow> ('a, 'a js) mact" where
  "write_attribute dt n v = on_tracker (on_set (write_from_user dt n v))"

definition restore_attribute :: "'a vtype \<Rightarrow> string \<Rightarrow> ('a, unit) mact" where
  "restore_attribute dt n = bind (on_tracker (is_changed dt n None None)) (\<lambda>c. only_if c (
     bind (on_tracker (tracker_original dt n)) (\<lambda>v. andthen (write_attribute dt n v)
       (clear_attribute_change dt n))))"

definition restore_attributes :: "'a vtype \<Rightarrow> string list option \<Rightarrow> ('a, unit) mact" where
  "restore_attributes dt names = bind (case names of Some ns \<Rightarrow> ret ns
     | None \<Rightarrow> on_tracker (changed_attribute_names dt)) (\<lambda>ns. for_each ns (restore_attribute dt))"

definition model_changed :: "'a vtype \<Rightarrow> ('a, bool) mact" where
  "model_changed dt = on_tracker (any_changes dt)"

definition attribute_was :: "'a vtype \<Rightarrow> string \<Rightarrow> ('a, 'a js) mact" where
  "attribute_was dt n = on_tracker (tracker_original dt n)"

definition attribute_will_change :: "'a vtype \<Rightarrow> string \<Rightarrow> ('a, 'a js) mact" where
  "attribute_will_change dt n = on_tracker (force_change dt n)"

definition attribute_previously_changed :: "'a vtype \<Rightarrow> string \<Rightarrow> 'a js option \<Rightarrow> 'a js option \<Rightarrow> ('a, bool) mact" where
  "attribute_previously_changed dt n from_opt to_opt = on_saved False (is_changed dt n from_opt to_opt)"

definition attribute_previously_was :: "'a vtype \<Rightarrow> string \<Rightarrow> ('a, 'a js) mact" where
  "attribute_previously_was dt n = on_saved Absent (tracker_original dt n)"

definition attribute_previous_change :: "'a vtype \<Rightarrow> string \<Rightarrow> ('a, ('a js \<times> 'a js) option) mact" where
  "attribute_previous_change dt n = on_saved None (change_to_attribute dt n)"

definition previous_changes :: "'a vtype \<Rightarrow> (string \<Rightarrow> ('a js \<times> 'a js) option) \<Rightarrow> ('a, ('a js \<times> 'a js) obj) mact" where
  "previous_changes dt proto = on_saved \<lparr>own = [], inherited = proto\<rparr> (changes dt proto)"

text \<open>\<open>initInternals\<close> and \<open>initializeDup\<close>: \<open>s\<close> is the set the class gives the new record.\<close>

definition init_internals :: "'a attrset \<Rightarrow> 'a model" where
  "init_internals s = \<lparr>from_db = fresh_tracker s, before_last_save = None\<rparr>"

definition initialize_dup :: "'a attrset \<Rightarrow> 'a model \<Rightarrow> 'a model" where
  "initialize_dup s r = r\<lparr>from_db := fresh_tracker s\<rparr>"

section \<open>Models without attributes\<close>

record 'a forced_host =
  field :: "string \<Rightarrow> 'a js"
  recorded :: "(string \<times> 'a js) list"
  finalized :: "(string \<times> 'a js \<times> 'a js) list option"

definition host_changed :: "'a forced_host \<Rightarrow> string \<Rightarrow> bool" where
  "host_changed h n \<longleftrightarrow> map_has (recorded h) n"

definition host_original :: "'a forced_host \<Rightarrow> string \<Rightarrow> 'a js" where
  "host_original h n = (case map_of (recorded h) n of Some v \<Rightarrow> v | None \<Rightarrow> field h n)"

definition host_is_changed :: "'a forced_host \<Rightarrow> string \<Rightarrow> 'a js option \<Rightarrow> 'a js option \<Rightarrow> bool" where
  "host_is_changed h n from_opt to_opt \<longleftrightarrow> host_changed h n \<and>
     (case from_opt of Some v \<Rightarrow> host_original h n = v | None \<Rightarrow> True) \<and>
     (case to_opt of Some v \<Rightarrow> field h n = v | None \<Rightarrow> True)"

definition host_change :: "'a forced_host \<Rightarrow> string \<Rightarrow> ('a js \<times> 'a js) option" where
  "host_change h n = (case Option.bind (finalized h) (\<lambda>f. map_of f n) of
       Some c \<Rightarrow> Some c
     | None \<Rightarrow> if host_changed h n then Some (host_original h n, field h n) else None)"

definition host_changes :: "'a forced_host \<Rightarrow> (string \<times> 'a js \<times> 'a js) list" where
  "host_changes h = fold (\<lambda>n cs. case host_change h n of Some c \<Rightarrow> map_put n c cs | None \<Rightarrow> cs)
     (map fst (recorded h)) []"

definition host_force_change :: "string \<Rightarrow> 'a forced_host \<Rightarrow> 'a js \<times> 'a forced_host" where
  "host_force_change n h = (if host_changed h n then (Absent, h)
     else (field h n, h\<lparr>recorded := map_put n (field h n) (recorded h)\<rparr>))"

definition host_forget_change :: "string \<Rightarrow> 'a forced_host \<Rightarrow> 'a forced_host" where
  "host_forget_change n h = h\<lparr>recorded := map_drop n (recorded h)\<rparr>"

definition finalize_changes :: "'a forced_host \<Rightarrow> 'a forced_host" where
  "finalize_changes h = h\<lparr>finalized := Some (host_changes h)\<rparr>"

definition host_assign :: "string \<Rightarrow> 'a js \<Rightarrow> 'a forced_host \<Rightarrow> 'a forced_host" where
  "host_assign n v h = h\<lparr>field := (field h)(n := v)\<rparr>"

end
