(* ===== verification/Attr_Tracking.thy ===== *)
theory Attr_Tracking
  imports Attr_Dirty
begin

text \<open>
  What dirty tracking promises: the changes it lists are the attributes whose type calls the current
  value changed from the original, each with both values; after a save nothing is changed, the
  values are kept and the saved changes are what was changed before; restoring an attribute gives
  the original back.

  \<open>stands_for dt g f s\<close> says that a well-formed set \<open>s\<close> stands for the attributes \<open>f\<close>; asking keeps it.
  The statements are about types whose values cannot be edited in place (\<open>calm\<close>): for the others the
  verdict also depends on which attributes have been read.
\<close>

section \<open>Asking a set\<close>

definition stands_for :: "'a vtype \<Rightarrow> bool \<times> bool \<Rightarrow> (string \<Rightarrow> 'a attribute) \<Rightarrow> 'a attrset \<Rightarrow> bool" where
  "stands_for dt g f s \<longleftrightarrow> set_ok s \<and> plain_casts s \<and> (sealed s, locked s) = g \<and> (\<forall>n. alike (f n) (view dt s n))"

lemma stands_for_view: "set_ok s \<Longrightarrow> plain_casts s \<Longrightarrow> stands_for dt (sealed s, locked s) (view dt s) s"
  by (simp add: stands_for_def)

lemma stands_for_steady: "stands_for dt g f s \<Longrightarrow> steady dt s s' \<Longrightarrow> stands_for dt g f s'"
  by (auto simp: stands_for_def steady_def keeps_views_def intro: alike_trans)

text \<open>A question about an attribute: it fills memos only, and its answer does not depend on them.\<close>

definition question :: "('a, 'b) aact \<Rightarrow> bool" where
  "question m \<longleftrightarrow> (\<forall>a. attr_ok a \<longrightarrow> alike a (snd (m a)) \<and> attr_ok (snd (m a)))"

definition answers_alike :: "('a, 'b) aact \<Rightarrow> 'a attribute \<Rightarrow> bool" where
  "answers_alike m a \<longleftrightarrow> (\<forall>b. alike a b \<longrightarrow> attr_ok b \<longrightarrow> fst (m b) = fst (m a))"

lemma ask:
  assumes "stands_for dt g f s" "question m" "answers_alike m (f n)"
  shows "\<exists>s'. with_attribute dt n m s = (fst (m (f n)), s') \<and> stands_for dt g f s'"
proof -
  have s: "set_ok s" "plain_casts s" "alike (f n) (view dt s n)" using assms(1) by (simp_all add: stands_for_def)
  obtain a s' where w: "with_attribute dt n m s = (fst (m a), s')" "alike (view dt s n) a" "attr_ok a" "steady dt s s'"
    using with_attribute_spec [OF s(1,2), of m dt n] assms(2) by (auto simp: question_def)
  have "fst (m a) = fst (m (f n))"
    using assms(3) alike_trans [OF s(3) w(2)] w(3) by (simp add: answers_alike_def)
  then show ?thesis using w stands_for_steady [OF assms(1)] by auto
qed

lemma question_pure: "question (gets g)"
  by (simp add: question_def gets_def)

lemma question_lifted: "question (bind (gets g) lift)"
  by (simp add: question_def bind_def gets_def)

lemma question_settles: "stable settles m \<Longrightarrow> (\<And>a. attr_ok a \<Longrightarrow> kind a = Uninit \<Longrightarrow> snd (m a) = a) \<Longrightarrow> question m"
  unfolding question_def
  using settles_alike settles_ok' stableD by metis

lemma question_changed: "question attr_changed"
  by (rule question_settles [OF stable_attr_changed]) (simp add: uninit_ask)

lemma question_forgetting: "question forgetting_assignment"
  by (rule question_settles [OF stable_forgetting]) (simp add: forgetting_assignment_def)

lemma question_value: "question attr_value"
  using read_memo unfolding question_def by blast

section \<open>Calm attributes\<close>

definition calm :: "'a attribute \<Rightarrow> bool" where
  "calm a \<longleftrightarrow> (\<exists>t. atype a = Some t \<and> (\<forall>raw v. ty_is_changed_in_place t raw v = Inr False)) \<and>
     (\<exists>raw. original_value_for_database a = Inr raw) \<and> attr_ok a"

definition change_verdict :: "'a attribute \<Rightarrow> aerr + bool" where
  "change_verdict a = (if original a = None then Inr False else
     attempt (the_type a) (\<lambda>t. attempt (original_value a) (\<lambda>old. attempt (current a) (\<lambda>new.
       attempt (value_before_type_cast a) (\<lambda>b. Inr (ty_is_changed t old new b))))))"

lemma calm_in_place:
  assumes "calm a" and "settles a b"
  shows "fst (changed_in_place b) = Inr False"
proof (cases "kind b = WithCastValue \<or> \<not> has_been_read b \<or> kind b = Uninit")
  case True
  then show ?thesis
  proof (elim disjE)
    assume "kind b = Uninit"
    moreover from this have "cached b = None \<or> cached b \<noteq> None" by blast
    ultimately show ?thesis
      using assms settles_originals [OF assms(2)]
      by (auto simp: changed_in_place_def bind_def attr_value_def calm_def settles_def the_type_def)
  qed (simp_all add: changed_in_place_def)
next
  case False
  obtain t where t: "atype b = Some t" "\<And>raw v. ty_is_changed_in_place t raw v = Inr False"
    using assms by (auto simp: calm_def settles_def)
  obtain raw where raw: "original_value_for_database b = Inr raw"
    using assms settles_originals [OF assms(2)] by (auto simp: calm_def)
  obtain v where "attr_value b = (Inr v, b)" using False by (auto simp: attr_value_def has_been_read_def)
  then show ?thesis using False t raw by (simp add: changed_in_place_def bind_def the_type_def)
qed

lemma changed_from_assignment_verdict: "fst (changed_from_assignment a) = change_verdict a"
proof (cases "original a")
  case None
  then show ?thesis by (simp add: changed_from_assignment_def change_verdict_def)
next
  case (Some o')
  obtain r b where rb: "attr_value a = (r, b)" by (cases "attr_value a")
  then have "current a = r" by (simp add: current_def)
  then show ?thesis using Some rb
    by (cases "the_type a"; cases "original_value a"; cases r; cases "value_before_type_cast a")
      (simp_all add: changed_from_assignment_def change_verdict_def bind_def ret_def)
qed

lemma calm_verdict:
  assumes "calm a"
  shows "fst (attr_changed a) = change_verdict a"
proof -
  obtain r b where rb: "changed_from_assignment a = (r, b)" by (cases "changed_from_assignment a")
  then have v: "change_verdict a = r" and "settles a b"
    using changed_from_assignment_verdict [of a] settles.run [OF stable_changed_from_assignment rb] by simp_all
  then have "fst (changed_in_place b) = Inr False" using calm_in_place [OF assms] by blast
  then show ?thesis unfolding v using rb
    by (cases r) (simp_all add: attr_changed_def bind_def ret_def)
qed

lemma alike_verdict: "alike a b \<Longrightarrow> change_verdict b = change_verdict a"
proof -
  assume a: "alike a b"
  then have "the_type b = the_type a" "value_before_type_cast b = value_before_type_cast a"
    by (simp_all add: alike_def the_type_def value_before_type_cast_def)
  then show ?thesis using a by (simp add: change_verdict_def alike_def)
qed

lemma alike_calm: "alike a b \<Longrightarrow> attr_ok b \<Longrightarrow> calm a \<Longrightarrow> calm b"
  by (simp add: calm_def alike_def)

lemma calm_changed_alike: "calm a \<Longrightarrow> answers_alike attr_changed a"
  by (simp add: answers_alike_def calm_verdict alike_calm alike_verdict)

lemma originals_alike: "answers_alike (bind (gets original_value) lift) a"
  by (simp add: answers_alike_def alike_def bind_def gets_def)

lemma initialized_alike: "answers_alike (gets is_initialized) a"
  by (simp add: answers_alike_def alike_def gets_def is_initialized_def)

lemma value_alike: "answers_alike attr_value a"
  by (simp add: answers_alike_def alike_def flip: current_def)

section \<open>The names of a set\<close>

definition known :: "'a attrset \<Rightarrow> string \<Rightarrow> bool" where
  "known s n \<longleftrightarrow> has_key (store s) n \<or>
     (case lazily s of None \<Rightarrow> False | Some l \<Rightarrow> has_key (raw_values l) n \<or> has_key (types l) n)"

lemma select_names_run:
  assumes "\<And>n s. I s \<Longrightarrow> n \<in> set ns \<Longrightarrow> \<exists>s'. p n s = (Inr (P n), s') \<and> I s'" and "I s"
  shows "\<exists>s'. select_names p ns s = (Inr (filter P ns), s') \<and> I s'"
  using assms
proof (induction ns arbitrary: s)
  case Nil
  then show ?case by (simp add: ret_def)
next
  case (Cons n ns)
  obtain s1 where s1: "p n s = (Inr (P n), s1)" "I s1" using Cons.prems(1) [OF Cons.prems(2), of n] by auto
  obtain s2 where "select_names p ns s1 = (Inr (filter P ns), s2)" "I s2"
    using Cons.IH [OF _ s1(2)] Cons.prems(1) by auto
  then show ?case using s1 by (simp add: bind_def ret_def)
qed

lemma gather_run:
  assumes "\<And>n s. I s \<Longrightarrow> n \<in> set ns \<Longrightarrow> \<exists>s'. p n s = (Inr (V n), s') \<and> I s'" and "I s"
  shows "\<exists>o1 s'. gather p ns o' s = (Inr o1, s') \<and> I s' \<and>
    (\<forall>n. map_of (own o1) n = (if n \<in> set ns \<and> V n \<noteq> None then V n else map_of (own o') n))"
  using assms
proof (induction ns arbitrary: s o')
  case Nil
  then show ?case by (simp add: ret_def)
next
  case (Cons n ns)
  obtain s1 where s1: "p n s = (Inr (V n), s1)" "I s1" using Cons.prems(1) [OF Cons.prems(2), of n] by auto
  define o2 where "o2 = (case V n of Some v \<Rightarrow> obj_put n v o' | None \<Rightarrow> o')"
  have step: "gather p (n # ns) o' s = gather p ns o2 s1" using s1 by (simp add: bind_def o2_def)
  obtain o1 s2 where o1: "gather p ns o2 s1 = (Inr o1, s2)" "I s2"
    "\<forall>n. map_of (own o1) n = (if n \<in> set ns \<and> V n \<noteq> None then V n else map_of (own o2) n)"
    using Cons.IH [OF _ s1(2), of o2] Cons.prems(1) by auto
  have "map_of (own o2) m = (if m = n \<and> V n \<noteq> None then V n else map_of (own o') m)" for m
    by (auto simp: o2_def obj_put_lookup split: option.splits)
  then show ?case unfolding step using o1
    by (intro exI [of _ o1] exI [of _ s2]) auto
qed

lemma keys_run:
  assumes "stands_for dt g f s"
  shows "\<exists>ns s'. keys dt s = (Inr ns, s') \<and> stands_for dt g f s' \<and> distinct ns \<and>
    (\<forall>n. n \<in> set ns \<longleftrightarrow> known s n \<and> kind (f n) \<noteq> Uninit)"
proof -
  have ok: "obj_ok (store s)" using assms by (simp add: stands_for_def set_ok_def)
  have ask_init: "\<exists>s'. initialized dt n s = (Inr (kind (f n) \<noteq> Uninit), s') \<and> stands_for dt g f s'"
    if "stands_for dt g f s" for n s
    using ask [OF that question_pure initialized_alike]
    by (auto simp: initialized_def gets_def is_initialized_def)
  obtain names where names: "keys dt s = select_names (initialized dt) names s" "distinct names"
    "\<And>n. n \<in> set names \<longleftrightarrow> known s n"
  proof (cases "lazily s")
    case None
    then have "keys dt s = select_names (initialized dt) (own_keys (store s)) s"
      by (simp add: keys_def bind_def gets_def attributes_def andthen_def materialize_def ret_def)
    then show thesis using that [of "own_keys (store s)"] own_keys_distinct [OF ok] None
      by (simp add: own_keys_has known_def)
  next
    case (Some l)
    let ?ns = "uniq_from [] (own_keys (raw_values l) @ own_keys (types l) @ own_keys (store s))"
    have "keys dt s = select_names (initialized dt) ?ns s"
      using Some by (simp add: keys_def bind_def gets_def)
    then show thesis using that [of ?ns] Some
      by (auto simp: uniq_from_set uniq_from_distinct own_keys_has known_def)
  qed
  obtain s' where "select_names (initialized dt) names s = (Inr (filter (\<lambda>n. kind (f n) \<noteq> Uninit) names), s')"
    "stands_for dt g f s'"
    using select_names_run [where I = "stands_for dt g f" and p = "initialized dt" and P = "\<lambda>n. kind (f n) \<noteq> Uninit"
        and ns = names and s = s] ask_init assms by blast
  then show ?thesis using names by auto
qed

section \<open>The changes of a tracker\<close>

definition tracks :: "'a vtype \<Rightarrow> bool \<times> bool \<Rightarrow> (string \<Rightarrow> 'a attribute) \<Rightarrow> (string \<times> 'a js) list \<Rightarrow> 'a tracker \<Rightarrow> bool" where
  "tracks dt g f F t \<longleftrightarrow> stands_for dt g f (watched t) \<and> forced t = F"

lemma on_set_run:
  "m (watched t) = (r, s') \<Longrightarrow> tracks dt g f F t \<Longrightarrow> stands_for dt g f' s' \<Longrightarrow>
     \<exists>t'. on_set m t = (r, t') \<and> tracks dt g f' F t'"
  by (simp add: on_set_def tracks_def)

lemma tracker_ask:
  assumes "tracks dt g f F t" "question m" "answers_alike m (f n)"
  shows "\<exists>t'. on_set (with_attribute dt n m) t = (fst (m (f n)), t') \<and> tracks dt g f F t'"
proof -
  obtain s' where "with_attribute dt n m (watched t) = (fst (m (f n)), s')" "stands_for dt g f s'"
    using ask [of dt g f "watched t" m n] assms by (auto simp: tracks_def)
  then show ?thesis using on_set_run [of "with_attribute dt n m" t _ s' dt g f F f] assms(1) by blast
qed

text \<open>What the tracker can be sure of about an initialized attribute.\<close>

definition settled :: "'a attribute \<Rightarrow> 'a js \<Rightarrow> 'a js \<Rightarrow> bool \<Rightarrow> bool" where
  "settled a old new c \<longleftrightarrow> calm a \<and> original_value a = Inr old \<and> fst (attr_value a) = Inr new \<and>
     fst (attr_changed a) = Inr c"

lemma is_changed_run:
  assumes "tracks dt g f F t" "settled (f n) old new c"
  shows "\<exists>t'. is_changed dt n None None t = (Inr (map_has F n \<or> c), t') \<and> tracks dt g f F t'"
proof -
  obtain t' where "on_set (with_attribute dt n attr_changed) t = (Inr c, t')" "tracks dt g f F t'"
    using tracker_ask [OF assms(1) question_changed, of n] calm_changed_alike assms(2) by (fastforce simp: settled_def)
  moreover have "forced t = F" using assms(1) by (simp add: tracks_def)
  ultimately show ?thesis using assms(1)
    by (cases "map_has F n") (auto simp: is_changed_def attribute_changed_def differs_from_def bind_def gets_def ret_def)
qed

lemma tracker_original_run:
  assumes "tracks dt g f F t" "original_value (f n) = Inr old"
  shows "\<exists>t'. tracker_original dt n t = (Inr old, t') \<and> tracks dt g f F t'"
  using tracker_ask [OF assms(1) question_lifted originals_alike, of n] assms(2)
  by (fastforce simp: tracker_original_def bind_def gets_def)

lemma tracker_value_run:
  assumes "tracks dt g f F t" "fst (attr_value (f n)) = Inr new"
  shows "\<exists>t'. tracker_value dt n t = (Inr new, t') \<and> tracks dt g f F t'"
proof -
  have s: "set_ok (watched t)" "plain_casts (watched t)" "alike (f n) (view dt (watched t) n)"
    using assms(1) by (simp_all add: tracks_def stands_for_def)
  then obtain s' where "fetch_value dt None n (watched t) = (value_of None n (view dt (watched t) n), s')"
    "steady dt (watched t) s'" using fetch_value_spec by blast
  moreover have "value_of None n (view dt (watched t) n) = Inr new"
    using s(3) assms(2) by (simp add: value_of_def alike_def current_def)
  ultimately show ?thesis
    unfolding tracker_value_def using on_set_run [of "fetch_value dt None n" t "Inr new" s' dt g f F f] assms(1)
      stands_for_steady [of dt g f "watched t" s'] by (auto simp: tracks_def)
qed

lemma change_to_attribute_run:
  assumes "tracks dt g f F t" "settled (f n) old new c"
  shows "\<exists>t'. change_to_attribute dt n t = (Inr (if map_has F n \<or> c then Some (old, new) else None), t') \<and> tracks dt g f F t'"
proof -
  obtain t1 where t1: "is_changed dt n None None t = (Inr (map_has F n \<or> c), t1)" "tracks dt g f F t1"
    using is_changed_run [OF assms] by blast
  obtain t2 where t2: "tracker_original dt n t1 = (Inr old, t2)" "tracks dt g f F t2"
    using tracker_original_run [OF t1(2)] assms(2) by (auto simp: settled_def)
  obtain t3 where "tracker_value dt n t2 = (Inr new, t3)" "tracks dt g f F t3"
    using tracker_value_run [OF t2(2)] assms(2) by (auto simp: settled_def)
  then show ?thesis using t1 t2
    by (cases "map_has F n \<or> c") (auto simp: change_to_attribute_def bind_def ret_def)
qed

lemma changes_run:
  assumes "tracks dt g f F t"
    and "\<And>n. known (watched t) n \<Longrightarrow> kind (f n) \<noteq> Uninit \<Longrightarrow> settled (f n) (old n) (new n) (c n)"
  shows "\<exists>cs t'. changes dt proto t = (Inr cs, t') \<and> tracks dt g f F t' \<and> (\<forall>n. map_of (own cs) n =
     (if known (watched t) n \<and> kind (f n) \<noteq> Uninit \<and> (map_has F n \<or> c n) then Some (old n, new n) else None))"
proof -
  obtain ns s' where ns: "keys dt (watched t) = (Inr ns, s')" "stands_for dt g f s'"
    "\<And>n. n \<in> set ns \<longleftrightarrow> known (watched t) n \<and> kind (f n) \<noteq> Uninit"
    using keys_run [of dt g f "watched t"] assms(1) by (auto simp: tracks_def)
  obtain t1 where t1: "attr_names dt t = (Inr ns, t1)" "tracks dt g f F t1"
    using on_set_run [of "keys dt" t "Inr ns" s' dt g f F f] ns(1,2) assms(1) by (auto simp: attr_names_def)
  let ?V = "\<lambda>n. if map_has F n \<or> c n then Some (old n, new n) else None"
  let ?p = "change_to_attribute dt"
  have each: "\<exists>t'. ?p n t = (Inr (?V n), t') \<and> tracks dt g f F t'" if "tracks dt g f F t" "n \<in> set ns" for n t
    using change_to_attribute_run [OF that(1)] assms(2) that(2) ns(3) by blast
  have "\<exists>o1 s'. gather ?p ns \<lparr>own = [], inherited = proto\<rparr> t1 = (Inr o1, s') \<and> tracks dt g f F s' \<and>
    (\<forall>n. map_of (own o1) n = (if n \<in> set ns \<and> ?V n \<noteq> None then ?V n
        else map_of (own \<lparr>own = [], inherited = proto\<rparr>) n))"
    by (rule gather_run) (use each t1(2) in blast)+
  then obtain cs t2 where "gather ?p ns \<lparr>own = [], inherited = proto\<rparr> t1 = (Inr cs, t2)" "tracks dt g f F t2"
    "\<forall>n. map_of (own cs) n = (if n \<in> set ns \<and> ?V n \<noteq> None then ?V n
        else map_of (own \<lparr>own = [], inherited = proto\<rparr>) n)"
    by blast
  then show ?thesis using t1 ns(3) by (auto simp: changes_def bind_def)
qed

text \<open>
  C21. For types whose values cannot be edited in place (\<open>calm\<close>, part of \<open>settled\<close>), a tracker lists as
  changes exactly the initialized attributes that are forced or that \<open>isChanged\<close> of the attribute calls
  changed, each with its original and its current value.
\<close>
theorem changes_are_exact:
  assumes "set_ok s" "plain_casts s"
    and "\<And>n. known s n \<Longrightarrow> kind (view dt s n) \<noteq> Uninit \<Longrightarrow> settled (view dt s n) (old n) (new n) (c n)"
  shows "\<exists>cs t'. changes dt proto \<lparr>watched = s, forced = F\<rparr> = (Inr cs, t') \<and> (\<forall>n. map_of (own cs) n =
     (if known s n \<and> kind (view dt s n) \<noteq> Uninit \<and> (map_has F n \<or> c n) then Some (old n, new n) else None))"
  using changes_run [of dt "(sealed s, locked s)" "view dt s" F "\<lparr>watched = s, forced = F\<rparr>" old new c proto] stands_for_view [OF assms(1,2)]
    assms(3) by (fastforce simp: tracks_def)

section \<open>Computations on all stored attributes\<close>

lemma map_put_same: "distinct (map fst es) \<Longrightarrow> map_of es n = Some a \<Longrightarrow> map_put n a es = es"
  by (induction es) (auto split: if_splits)

lemma with_attribute_stored:
  assumes "set_ok s" "map_of (own (store s)) n = Some a"
  shows "with_attribute dt n m s = (fst (m a), s\<lparr>store := obj_put n (snd (m a)) (store s)\<rparr>)"
  using get_attribute_found [OF assms, of dt] assms(2)
  by (cases "m a"; cases "fst (m a)")
    (simp_all add: with_attribute_def bind_def andthen_def modify_def memoize_def has_key_own)

lemma with_attribute_quiet:
  assumes "set_ok s" "map_of (own (store s)) n = Some a" "snd (m a) = a"
  shows "with_attribute dt n m s = (fst (m a), s)"
proof -
  have "obj_put n a (store s) = store s"
    using assms(1,2) by (simp add: obj_put_def map_put_same set_ok_def obj_ok_def map_ok_def)
  then show ?thesis using with_attribute_stored [OF assms(1,2), of dt m] assms(3) by simp
qed

definition built :: "'a attrset \<Rightarrow> bool" where
  "built s \<longleftrightarrow> (\<forall>n. known s n \<longrightarrow> has_key (store s) n)"

definition mark :: "'a attrset \<Rightarrow> 'a attrset" where
  "mark s = s\<lparr>lazily := map_option (\<lambda>l. l\<lparr>materialized := True\<rparr>) (lazily s)\<rparr>"

lemma mark_simps [simp]: "store (mark s) = store s" "sealed (mark s) = sealed s" "locked (mark s) = locked s"
  "lazily s = None \<Longrightarrow> mark s = s"
  by (simp_all add: mark_def)

lemma casts_ok_mark [simp]: "casts_ok (l\<lparr>materialized := b\<rparr>) \<longleftrightarrow> casts_ok l"
  by (simp add: casts_ok_def lookup_type_def)

lemma set_ok_mark: "set_ok s \<Longrightarrow> set_ok (mark s)"
  by (simp add: set_ok_def mark_def split: option.splits)

lemma mark_steady: "steady dt s (mark s)"
proof -
  have "view dt (mark s) n = view dt s n" for n
    by (auto simp: view_def mark_def pending_def lookup_type_def split: option.splits)
  moreover have "plain_casts s \<Longrightarrow> plain_casts (mark s)"
    by (auto simp: plain_casts_def mark_def split: option.splits)
  ultimately show ?thesis using set_ok_mark by (auto simp: steady_def keeps_views_def)
qed

lemma attributes_built:
  assumes "set_ok s" "built s"
  shows "\<exists>s'. attributes dt s = (Inr (store s), s') \<and> (s' = s \<or> s' = mark s)"
proof (cases "lazily s")
  case None
  then show ?thesis by (simp add: attributes_def materialize_def andthen_def bind_def gets_def ret_def)
next
  case (Some l)
  have visit: "for_each ns (\<lambda>n. bind (get_attribute dt n) (\<lambda>_. skip)) s = (Inr (), s)"
    if "\<And>n. n \<in> set ns \<Longrightarrow> has_key (store s) n" for ns
    using that
  proof (induction ns)
    case (Cons n ns)
    then obtain a where "map_of (own (store s)) n = Some a" by (auto simp: has_key_own)
    then show ?case using Cons get_attribute_found [OF assms(1), of n a dt]
      by (simp add: andthen_def bind_def ret_def)
  qed (simp add: ret_def)
  have "has_key (store s) n" if "n \<in> set (own_keys (raw_values l) @ own_keys (types l))" for n
    using that assms(2) Some by (auto simp: built_def known_def own_keys_has)
  then have "for_each (own_keys (raw_values l) @ own_keys (types l)) (\<lambda>n. bind (get_attribute dt n) (\<lambda>_. skip)) s =
     (Inr (), s)" by (rule visit)
  then show ?thesis using Some
    by (cases "materialized l") (auto simp: attributes_def materialize_def andthen_def bind_def gets_def
        modify_def only_if_def mark_def ret_def)
qed

lemma map_each_stored:
  assumes "distinct ns" "set_ok s" "\<And>n. n \<in> set ns \<Longrightarrow> \<exists>a. map_of (own (store s)) n = Some a \<and> fst (f a) = Inr (B n) \<and> attr_ok (snd (f a))"
  shows "\<exists>o'. map_each (\<lambda>n. bind (with_attribute dt n f) (\<lambda>v. ret (n, v))) ns s =
      (Inr (map (\<lambda>n. (n, B n)) ns), s\<lparr>store := o'\<rparr>) \<and> set_ok (s\<lparr>store := o'\<rparr>) \<and>
    (\<forall>n. map_of (own o') n = (if n \<in> set ns then map_option (\<lambda>a. snd (f a)) (map_of (own (store s)) n)
       else map_of (own (store s)) n))"
  using assms
proof (induction ns arbitrary: s)
  case Nil
  then show ?case by (intro exI [of _ "store s"]) (simp add: ret_def)
next
  case (Cons n ns)
  obtain a where a: "map_of (own (store s)) n = Some a" "fst (f a) = Inr (B n)" "attr_ok (snd (f a))"
    using Cons.prems(3) [of n] by auto
  let ?s = "s\<lparr>store := obj_put n (snd (f a)) (store s)\<rparr>"
  have "with_attribute dt n f s = (fst (f a), ?s)" by (rule with_attribute_stored [OF Cons.prems(2) a(1)])
  then have w: "with_attribute dt n f s = (Inr (B n), ?s)" using a(2) by simp
  have ok: "set_ok ?s" using put_ok [OF Cons.prems(2) a(3)] .
  have "\<exists>b. map_of (own (store ?s)) m = Some b \<and> fst (f b) = Inr (B m) \<and> attr_ok (snd (f b))" if "m \<in> set ns" for m
    using Cons.prems(1,3) that by (auto simp: obj_put_lookup)
  then obtain o' where o': "map_each (\<lambda>n. bind (with_attribute dt n f) (\<lambda>v. ret (n, v))) ns ?s =
      (Inr (map (\<lambda>n. (n, B n)) ns), ?s\<lparr>store := o'\<rparr>)" "set_ok (?s\<lparr>store := o'\<rparr>)"
    "\<forall>n. map_of (own o') n = (if n \<in> set ns then map_option (\<lambda>a. snd (f a)) (map_of (own (store ?s)) n)
       else map_of (own (store ?s)) n)"
    using Cons.IH [OF _ ok] Cons.prems(1) by auto
  then show ?case using w a(1) Cons.prems(1)
    by (intro exI [of _ o']) (auto simp: bind_def ret_def obj_put_lookup)
qed

lemma put_all_null:
  "distinct ns \<Longrightarrow> own (fold (\<lambda>(n, v). obj_put n v) (map (\<lambda>n. (n, B n)) ns) null_obj) = map (\<lambda>n. (n, B n)) ns"
proof -
  assume d: "distinct ns"
  have "own (fold (\<lambda>k r. case Some (B k) of Some v \<Rightarrow> obj_put k v r | None \<Rightarrow> r) ns null_obj) =
     own null_obj @ map (\<lambda>k. (k, B k)) ns"
    by (rule put_fresh) (use d in simp_all)
  moreover have "fold (\<lambda>(n, v). obj_put n v) (map (\<lambda>n. (n, B n)) ns) r =
     fold (\<lambda>k r. case Some (B k) of Some v \<Rightarrow> obj_put k v r | None \<Rightarrow> r) ns r" for r
    by (induction ns arbitrary: r) simp_all
  ultimately show ?thesis by simp
qed

lemma map_attributes_built:
  assumes "set_ok s" "built s" "\<And>n a. map_of (own (store s)) n = Some a \<Longrightarrow>
      fst (f a) = Inr (B n) \<and> attr_ok (snd (f a)) \<and> alike a (snd (f a))"
  shows "\<exists>s'. map_attributes dt f s = (Inr (attribute_set \<lparr>own = map (\<lambda>n. (n, B n)) (own_keys (store s)),
      inherited = (\<lambda>_. None)\<rparr>), s') \<and> steady dt s s' \<and> (\<forall>n. known s' n \<longleftrightarrow> known s n)"
proof -
  obtain s1 where s1: "attributes dt s = (Inr (store s), s1)" "s1 = s \<or> s1 = mark s"
    using attributes_built [OF assms(1,2)] by blast
  have st: "store s1 = store s" using s1(2) by auto
  have steady1: "steady dt s s1" using s1(2) mark_steady steady.refl by blast
  have ok1: "set_ok s1" using s1(2) assms(1) set_ok_mark by blast
  have d: "distinct (own_keys (store s))" using assms(1) own_keys_distinct by (auto simp: set_ok_def)
  have "\<exists>a. map_of (own (store s1)) n = Some a \<and> fst (f a) = Inr (B n) \<and> attr_ok (snd (f a))"
    if "n \<in> set (own_keys (store s))" for n
    using that assms(3) st by (auto simp: own_keys_has has_key_own)
  then obtain o' where o': "map_each (\<lambda>n. bind (with_attribute dt n f) (\<lambda>v. ret (n, v))) (own_keys (store s)) s1 =
      (Inr (map (\<lambda>n. (n, B n)) (own_keys (store s))), s1\<lparr>store := o'\<rparr>)" "set_ok (s1\<lparr>store := o'\<rparr>)"
    "\<forall>n. map_of (own o') n = (if n \<in> set (own_keys (store s)) then map_option (\<lambda>a. snd (f a)) (map_of (own (store s1)) n)
       else map_of (own (store s1)) n)"
    using map_each_stored [OF d ok1, of f B dt] by blast
  have o1: "map_of (own o') n = map_option (\<lambda>a. snd (f a)) (map_of (own (store s1)) n)" for n
    using o'(3) st by (auto simp: own_keys_has has_key_own)
  have "alike (view dt s1 n) (view dt (s1\<lparr>store := o'\<rparr>) n)" for n
    using assms(3) st by (auto simp: view_def o1 split: option.splits)
  then have "steady dt s1 (s1\<lparr>store := o'\<rparr>)"
    using o'(2) by (auto simp: steady_def keeps_views_def plain_casts_def)
  then have "steady dt s (s1\<lparr>store := o'\<rparr>)" using steady1 steady.trans by blast
  moreover have "known (s1\<lparr>store := o'\<rparr>) n \<longleftrightarrow> known s n" for n
    using s1(2) by (auto simp: known_def has_key_own o1 mark_def split: option.splits)
  moreover have "attribute_set (fold (\<lambda>(n, v). obj_put n v) (map (\<lambda>n. (n, B n)) (own_keys (store s))) null_obj) =
     attribute_set \<lparr>own = map (\<lambda>n. (n, B n)) (own_keys (store s)), inherited = (\<lambda>_. None)\<rparr>"
    using put_all_null [OF d, of B] by (simp add: attribute_set_def)
  ultimately show ?thesis using s1(1) o'(1)
    by (auto simp: map_attributes_def collect_def bind_def ret_def)
qed

section \<open>Saving\<close>

lemma unassigned_quiet:
  assumes "attr_ok b" "original b = None" "fst (attr_changed b) = Inr c"
  shows "attr_changed b = (Inr c, b)"
proof -
  have "snd (changed_in_place b) = b"
  proof (cases "kind b = WithCastValue \<or> \<not> has_been_read b")
    case True
    then show ?thesis by (auto simp: changed_in_place_def)
  next
    case False
    then have "snd (attr_value b) = b" by (auto simp: attr_value_def has_been_read_def)
    then show ?thesis using False by (auto simp: changed_in_place_def bind_def split: sum.splits prod.splits)
  qed
  then have "snd (attr_changed b) = b"
    using assms(2) by (simp add: attr_changed_def changed_from_assignment_def bind_def)
  then show ?thesis using assms(3) by (metis prod.collapse)
qed

definition saveable :: "'a attribute \<Rightarrow> 'a js \<Rightarrow> bool" where
  "saveable a v \<longleftrightarrow> (\<exists>t good. atype a = Some t \<and> lawful_type t good \<and> good v \<and> tracked t a) \<and>
     kind a \<notin> {Uninit, NullAttr} \<and> fst (attr_value a) = Inr v"

lemma forgetting_saveable:
  assumes "attr_ok a" "kind a = Uninit \<or> saveable a v"
  shows "\<exists>b. fst (forgetting_assignment a) = Inr b \<and> attr_ok b \<and> attr_changed b = (Inr False, b) \<and>
    (kind a \<noteq> Uninit \<longrightarrow> current b = Inr v)"
proof (cases "kind a = Uninit")
  case True
  then have "fst (forgetting_assignment a) = Inr (uninitialized (attr_name a) (atype a))"
    by (simp add: forgetting_assignment_def)
  moreover have "attr_changed (uninitialized n t) = (Inr False, uninitialized n t)" for n t
    by (rule uninit_ask) (simp_all add: uninitialized_def attr_ok_def)
  ultimately show ?thesis using True uninitialized_ok by blast
next
  case False
  then obtain t good where t: "atype a = Some t" "lawful_type t good" "good v" "tracked t a"
    "kind a \<notin> {Uninit, NullAttr}" "current a = Inr v"
    using assms(2) by (auto simp: saveable_def current_def)
  obtain b a' where "forgetting_assignment a = (Inr b, a')" "current b = Inr v" "fst (attr_changed b) = Inr False"
    "original b = None" "attr_ok b"
    using lawful_type.forgetting [OF t(2,1,5) assms(1) t(6,3,4)] by blast
  then show ?thesis using unassigned_quiet by fastforce
qed

lemma quiet_set_unchanged:
  assumes "set_ok s" "lazily s = None"
    and "\<And>n b. map_of (own (store s)) n = Some b \<Longrightarrow> attr_changed b = (Inr False, b)"
  shows "fst (changed_attribute_names dt (fresh_tracker s)) = Inr []"
proof -
  let ?ks = "own_keys (store s)"
  have each: "\<exists>s'. initialized dt n u = (Inr (kind (the (map_of (own (store s)) n)) \<noteq> Uninit), s') \<and> s' = s"
    if u: "u = s" and n: "n \<in> set ?ks" for n u
  proof -
    obtain b where b: "map_of (own (store s)) n = Some b" using n by (auto simp: own_keys_has has_key_own)
    have "with_attribute dt n (gets is_initialized) s = (fst (gets is_initialized b), s)"
      by (rule with_attribute_quiet [OF assms(1) b]) (simp add: gets_def)
    then show ?thesis using u b by (simp add: initialized_def gets_def is_initialized_def)
  qed
  have "\<exists>s'. select_names (initialized dt) ?ks s =
     (Inr (filter (\<lambda>n. kind (the (map_of (own (store s)) n)) \<noteq> Uninit) ?ks), s') \<and> s' = s"
    by (rule select_names_run) (use each in blast)+
  then obtain ns where "select_names (initialized dt) ?ks s = (Inr ns, s)" "set ns \<subseteq> set ?ks"
    by (metis filter_is_subset)
  then have names: "attr_names dt (fresh_tracker s) = (Inr ns, fresh_tracker s)" and sub: "set ns \<subseteq> set ?ks"
    using assms(2) by (simp_all add: attr_names_def on_set_def keys_def bind_def gets_def attributes_def
        andthen_def materialize_def ret_def fresh_tracker_def)
  have "\<exists>t'. is_changed dt n None None u = (Inr False, t') \<and> t' = fresh_tracker s"
    if u: "u = fresh_tracker s" and n: "n \<in> set ns" for n u
  proof -
    have "has_key (store s) n" using n sub own_keys_has by blast
    then obtain b where b: "map_of (own (store s)) n = Some b" by (auto simp: has_key_own)
    have "with_attribute dt n attr_changed s = (fst (attr_changed b), s)"
      by (rule with_attribute_quiet [OF assms(1) b]) (simp add: assms(3) [OF b])
    then show ?thesis using u assms(3) [OF b]
      by (simp add: is_changed_def attribute_changed_def bind_def gets_def fresh_tracker_def map_has_def on_set_def ret_def)
  qed
  then have "\<exists>t'. select_names (\<lambda>n. is_changed dt n None None) ns (fresh_tracker s) = (Inr (filter (\<lambda>_. False) ns), t') \<and>
     t' = fresh_tracker s"
    by (intro select_names_run) blast+
  then show ?thesis using names by (auto simp: changed_attribute_names_def bind_def)
qed

text \<open>
  C18. After a save of a set whose attributes are all built and have lawful types, the values of which
  cannot be edited in place (\<open>calm\<close>, part of \<open>settled\<close>), nothing is changed, every attribute reads as
  before, and the previous changes are exactly what was changed.
\<close>
theorem saving_moves_the_changes:
  assumes "set_ok s" "plain_casts s" "built s"
    and "\<And>n a. map_of (own (store s)) n = Some a \<Longrightarrow> kind a \<noteq> Uninit \<Longrightarrow>
      saveable a (new n) \<and> settled a (old n) (new n) (c n)"
  shows "\<exists>r. changes_applied dt \<lparr>from_db = \<lparr>watched = s, forced = F\<rparr>, before_last_save = p\<rparr> = (Inr (), r) \<and>
     fst (changed_attribute_names dt (from_db r)) = Inr [] \<and>
     (\<forall>n a. map_of (own (store s)) n = Some a \<longrightarrow> kind a \<noteq> Uninit \<longrightarrow>
        fst (fetch_value dt None n (watched (from_db r))) = Inr (new n)) \<and>
     (\<exists>cs. fst (previous_changes dt proto r) = Inr cs \<and> (\<forall>n. map_of (own cs) n =
        (if (\<exists>a. map_of (own (store s)) n = Some a \<and> kind a \<noteq> Uninit) \<and> (map_has F n \<or> c n)
         then Some (old n, new n) else None)))"
proof -
  let ?f = forgetting_assignment
  define B where "B n = (case fst (?f (the (map_of (own (store s)) n))) of Inr b \<Rightarrow> b
     | Inl _ \<Rightarrow> null_attribute dt n)" for n
  have stored_ok: "attr_ok a" if "map_of (own (store s)) n = Some a" for n a
    using that assms(1) by (auto simp: set_ok_def)
  have B: "fst (?f a) = Inr (B n) \<and> attr_ok (B n) \<and> attr_changed (B n) = (Inr False, B n) \<and>
      (kind a \<noteq> Uninit \<longrightarrow> current (B n) = Inr (new n))" if a: "map_of (own (store s)) n = Some a" for n a
  proof -
    obtain b where "fst (?f a) = Inr b" "attr_ok b" "attr_changed b = (Inr False, b)"
      "kind a \<noteq> Uninit \<longrightarrow> current b = Inr (new n)"
      using forgetting_saveable [OF stored_ok [OF a], of "new n"] assms(4) [OF a] by blast
    then show ?thesis using a by (simp add: B_def)
  qed
  have Q: "attr_ok (snd (?f a)) \<and> alike a (snd (?f a))" if "map_of (own (store s)) n = Some a" for n a
    using question_forgetting stored_ok [OF that] unfolding question_def by blast
  let ?s2 = "attribute_set \<lparr>own = map (\<lambda>n. (n, B n)) (own_keys (store s)), inherited = (\<lambda>_. None)\<rparr>"
  obtain s1 where s1: "map_attributes dt ?f s = (Inr ?s2, s1)" "steady dt s s1" "\<forall>n. known s1 n \<longleftrightarrow> known s n"
    using map_attributes_built [OF assms(1,3), of ?f B dt] B Q by blast
  have look2: "map_of (own (store ?s2)) n = (if has_key (store s) n then Some (B n) else None)" for n
    by (simp add: attribute_set_def map_of_keys own_keys_has)
  have B': "attr_ok (B n) \<and> attr_changed (B n) = (Inr False, B n)" if "has_key (store s) n" for n
    using that B by (auto simp: has_key_own)
  have d: "distinct (own_keys (store s))" using assms(1) own_keys_distinct by (auto simp: set_ok_def)
  have ok2: "set_ok ?s2" unfolding set_ok_def
  proof (intro conjI allI impI)
    show "obj_ok (store ?s2)" using d by (simp add: obj_ok_def map_ok_def attribute_set_def o_def)
    show "attr_ok a" if "map_of (own (store ?s2)) n = Some a" for n a
      using that B' unfolding look2 by (auto split: if_splits)
  qed (simp_all add: attribute_set_def)
  define r where "r = \<lparr>from_db = fresh_tracker ?s2, before_last_save = Some \<lparr>watched = s1, forced = F\<rparr>\<rparr>"
  have run: "changes_applied dt \<lparr>from_db = \<lparr>watched = s, forced = F\<rparr>, before_last_save = p\<rparr> = (Inr (), r)"
    using s1(1) by (simp add: changes_applied_def forget_attribute_assignments_def on_tracker_def on_set_def r_def)
  have "fst (changed_attribute_names dt (from_db r)) = Inr []"
    unfolding r_def model.simps
  proof (rule quiet_set_unchanged [OF ok2])
    show "lazily ?s2 = None" by (simp add: attribute_set_def)
    show "attr_changed b = (Inr False, b)" if "map_of (own (store ?s2)) n = Some b" for n b
      using that B' unfolding look2 by (auto split: if_splits)
  qed
  moreover have "fst (fetch_value dt None n (watched (from_db r))) = Inr (new n)"
    if "map_of (own (store s)) n = Some a" "kind a \<noteq> Uninit" for n a
  proof -
    have "view dt ?s2 n = B n" using that(1) by (simp add: view_def look2 has_key_own)
    moreover have "plain_casts ?s2" by (simp add: plain_casts_def attribute_set_def)
    ultimately have "fst (fetch_value dt None n ?s2) = current (B n)"
      using fetch_value_spec [OF ok2, of dt None n] by (auto simp: value_of_def)
    then show ?thesis using B [OF that(1)] that(2) by (simp add: r_def fresh_tracker_def)
  qed
  moreover have "\<exists>cs. fst (previous_changes dt proto r) = Inr cs \<and> (\<forall>n. map_of (own cs) n =
        (if (\<exists>a. map_of (own (store s)) n = Some a \<and> kind a \<noteq> Uninit) \<and> (map_has F n \<or> c n)
         then Some (old n, new n) else None))"
  proof -
    let ?t = "\<lparr>watched = s1, forced = F\<rparr>"
    have tr: "tracks dt (sealed s, locked s) (view dt s) F ?t"
      using stands_for_steady [OF stands_for_view [OF assms(1,2)] s1(2)] by (simp add: tracks_def)
    have known: "known s n \<longleftrightarrow> has_key (store s) n" for n using assms(3) by (auto simp: built_def known_def)
    have viewed: "map_of (own (store s)) n = Some (view dt s n)" if "known s n" for n
      using that known by (auto simp: view_def has_key_own)
    obtain cs t' where cs: "changes dt proto ?t = (Inr cs, t')" "\<forall>n. map_of (own cs) n =
     (if known (watched ?t) n \<and> kind (view dt s n) \<noteq> Uninit \<and> (map_has F n \<or> c n) then Some (old n, new n) else None)"
      using changes_run [OF tr, of old new c proto] s1(3) assms(4) viewed by auto
    have "known s n \<and> kind (view dt s n) \<noteq> Uninit \<longleftrightarrow> (\<exists>a. map_of (own (store s)) n = Some a \<and> kind a \<noteq> Uninit)" for n
      using viewed known by (auto simp: has_key_own view_def)
    then show ?thesis using cs s1(3) by (auto simp: previous_changes_def on_saved_def r_def)
  qed
  ultimately show ?thesis using run by blast
qed

section \<open>Restoring\<close>

lemma write_stores:
  assumes "write_from_user dt n v s = (Inr w, s')"
  shows "\<exists>b x. map_of (own (store s')) n = Some b \<and> with_value_from_user v x = Inr b"
  using assms
  by (auto simp: write_from_user_def throw_def bind_def gets_def andthen_def put_attribute_def ret_def
      obj_put_lookup split: if_splits sum.splits prod.splits)

text \<open>
  Restoring a changed attribute, whose original its type casts to itself, succeeds: the
  attribute reads as the original again, is unchanged, and is no longer forced.
\<close>
theorem restore_gives_back:
  assumes set: "open_set s" and a: "settled (view dt s n) old new c" "kind (view dt s n) \<notin> {Uninit, NullAttr}"
    and t: "atype (view dt s n) = Some t" "lawful_type t good" "good old" "ty_cast t old = Inr old"
      "ty_assert_valid t old = Inr ()"
    and changed: "map_has F n \<or> c"
  shows "\<exists>r. restore_attribute dt n \<lparr>from_db = \<lparr>watched = s, forced = F\<rparr>, before_last_save = p\<rparr> = (Inr (), r) \<and>
     fst (fetch_value dt None n (watched (from_db r))) = Inr old \<and>
     fst (is_changed dt n None None (from_db r)) = Inr False \<and> forced (from_db r) = map_drop n F"
proof -
  let ?v = "view dt s n" and ?t0 = "\<lparr>watched = s, forced = F\<rparr>"
  have ok: "set_ok s" "plain_casts s" "\<not> locked s" "\<not> sealed s" using set by (simp_all add: open_set_def)
  have "tracks dt (sealed s, locked s) (view dt s) F ?t0" using stands_for_view [OF ok(1,2)] by (simp add: tracks_def)
  then obtain t1 where t1: "is_changed dt n None None ?t0 = (Inr True, t1)" "tracks dt (sealed s, locked s) (view dt s) F t1"
    using is_changed_run [of dt "(sealed s, locked s)" "view dt s" F ?t0 n, OF _ a(1)] changed by auto
  obtain t2 where t2: "tracker_original dt n t1 = (Inr old, t2)" "tracks dt (sealed s, locked s) (view dt s) F t2"
    using tracker_original_run [OF t1(2), of n] a(1) by (auto simp: settled_def)
  let ?s = "watched t2"
  have ok2: "set_ok ?s" "plain_casts ?s" "\<not> locked ?s" "\<not> sealed ?s" and like: "alike ?v (view dt ?s n)" and F: "forced t2 = F"
    using t2(2) ok by (auto simp: tracks_def stands_for_def)
  have "atype (view dt ?s n) = Some t" "kind (view dt ?s n) \<noteq> NullAttr"
    using like t(1) a(2) by (simp_all add: alike_def)
  then obtain b where b: "with_value_from_user old (view dt ?s n) = Inr b"
    using t(5) by (auto simp: with_value_from_user_def the_type_def)
  then obtain s3 where s3: "write_from_user dt n old ?s = (Inr old, s3)" "written dt n b ?s s3"
    using write_spec [OF ok2, of old dt n] by auto
  obtain d x where d: "map_of (own (store s3)) n = Some d" "with_value_from_user old x = Inr d"
    using write_stores [OF s3(1)] by blast
  have ok3: "set_ok s3" "plain_casts s3" "\<not> sealed s3" using s3(2) ok2 by (simp_all add: written_def)
  have "alike b (view dt s3 n)" using s3(2) unfolding written_def by (metis (full_types))
  then have "alike b d" using d(1) by (simp add: view_def)
  moreover have "atype b = Some t" "kind b = FromUser" "current b = Inr old"
    using write_result(2) [OF b] \<open>atype (view dt ?s n) = Some t\<close> t(4)
    by (simp_all add: from_user_current) (simp add: from_user_def)
  ultimately have d': "atype d = Some t" "kind d = FromUser" "current d = Inr old" by (auto simp: alike_def)
  have "tracked t d" using write_result(2) [OF d(2)] d'(2) by (simp add: tracked_def from_user_def)
  moreover have "attr_ok d" using ok3(1) d(1) by (auto simp: set_ok_def)
  ultimately obtain e d2 where e: "forgetting_assignment d = (Inr e, d2)" "current e = Inr old"
    "fst (attr_changed e) = Inr False" "original e = None" "attr_ok e" "settles d d2"
    using lawful_type.forgetting [OF t(2) d'(1) _ _ d'(3) t(3)] d'(2) by auto
  let ?s4 = "s3\<lparr>store := obj_put n d2 (store s3)\<rparr>"
  let ?s5 = "?s4\<lparr>store := obj_put n e (store ?s4)\<rparr>"
  have ok4: "set_ok ?s4" using put_ok [OF ok3(1)] settles_ok [OF e(6) \<open>attr_ok d\<close>] d'(2) by simp
  have ok5: "set_ok ?s5" by (rule put_ok [OF ok4 e(5)])
  have stored: "map_of (own (store ?s5)) n = Some e" by (simp add: obj_put_lookup)
  have "with_attribute dt n forgetting_assignment s3 = (Inr e, ?s4)"
    using with_attribute_stored [OF ok3(1) d(1), of dt forgetting_assignment] e(1) by simp
  then have forget: "forget_change dt n (t2\<lparr>watched := s3\<rparr>) = (Inr (), \<lparr>watched = ?s5, forced = map_drop n F\<rparr>)"
    using ok3(3) F by (simp add: forget_change_def on_set_def bind_def andthen_def modify_def put_attribute_def)
  let ?r = "\<lparr>from_db = \<lparr>watched = ?s5, forced = map_drop n F\<rparr>, before_last_save = p\<rparr>"
  have run: "restore_attribute dt n \<lparr>from_db = ?t0, before_last_save = p\<rparr> = (Inr (), ?r)"
    using t1(1) t2(1) s3(1) forget by (simp add: restore_attribute_def on_tracker_def bind_def only_if_def andthen_def
        write_attribute_def on_set_def clear_attribute_change_def)
  have "plain_casts ?s5" using ok3(2) by (simp add: plain_casts_def)
  moreover have "view dt ?s5 n = e" using stored by (simp add: view_def)
  ultimately have "fst (fetch_value dt None n ?s5) = Inr old"
    using fetch_value_spec [OF ok5, of dt None n] e(2) by (auto simp: value_of_def)
  moreover have "fst (is_changed dt n None None \<lparr>watched = ?s5, forced = map_drop n F\<rparr>) = Inr False"
  proof -
    have "\<not> map_has (map_drop n F) n" by (auto simp: map_has_def map_drop_def)
    then show ?thesis using with_attribute_stored [OF ok5 stored, of dt attr_changed] e(3)
      by (simp add: is_changed_def attribute_changed_def bind_def gets_def on_set_def ret_def)
  qed
  ultimately show ?thesis using run by auto
qed

section \<open>Models without attributes\<close>

lemma host_changes_lookup:
  "map_of (host_changes h) n = (if n \<in> set (map fst (recorded h)) then host_change h n else None)"
proof -
  have "map_of (fold (\<lambda>n cs. case host_change h n of Some c \<Rightarrow> map_put n c cs | None \<Rightarrow> cs) ns cs) n =
    (if n \<in> set ns \<and> host_change h n \<noteq> None then host_change h n else map_of cs n)" for ns cs
    by (induction ns arbitrary: cs) (auto simp: map_put_lookup split: option.splits)
  then show ?thesis by (cases "host_change h n") (simp_all add: host_changes_def)
qed

lemma map_has_iff: "map_has m k \<longleftrightarrow> map_of m k \<noteq> None"
  by (simp add: map_has_def map_of_eq_None_iff)

fun host_assigns :: "(string \<times> 'a js) list \<Rightarrow> 'a forced_host \<Rightarrow> 'a forced_host" where
  "host_assigns [] h = h"
| "host_assigns ((n, v) # nvs) h = host_assigns nvs (host_assign n v (snd (host_force_change n h)))"

lemma force_change_recorded:
  "map_of (recorded (snd (host_force_change n h))) m =
     (if m = n then Some (host_original h n) else map_of (recorded h) m)"
  by (auto simp: host_force_change_def host_changed_def map_has_def map_put_lookup host_original_def
      dest!: map_of_eq_None_iff [THEN iffD1] split: option.splits)
   (metis map_of_eq_None_iff not_None_eq option.simps(3) set_map)

text \<open>
  In a model that announces every assignment by \<open>attributeWillChange\<close>, whatever is assigned how
  often, the change of an attribute is the pair of the value before the first assignment and the
  value now.
\<close>
theorem announced_changes:
  assumes "recorded h = []" "finalized h = None"
  shows "host_change (host_assigns nvs h) n =
     (if n \<in> fst ` set nvs then Some (field h n, field (host_assigns nvs h) n) else None)"
proof -
  have keep: "map_of (recorded (host_assigns nvs g)) n = (if n \<in> fst ` set nvs then Some (host_original g n)
      else map_of (recorded g) n)" for g :: "'a forced_host"
  proof (induction nvs arbitrary: g)
    case Nil
    then show ?case by simp
  next
    case (Cons nv nvs)
    obtain m v where nv: "nv = (m, v)" by (cases nv)
    let ?g = "host_assign m v (snd (host_force_change m g))"
    have rec: "map_of (recorded ?g) k = (if k = m then Some (host_original g m) else map_of (recorded g) k)" for k
      by (simp add: host_assign_def force_change_recorded)
    have fld: "k \<noteq> m \<Longrightarrow> field ?g k = field g k" for k
      by (simp add: host_assign_def host_force_change_def)
    have "host_original ?g n = host_original g n"
      using rec [of n] fld [of n] by (cases "n = m") (auto simp: host_original_def split: option.splits)
    then show ?case using Cons.IH [of ?g] rec [of n] nv by auto
  qed
  have fin: "finalized (host_assigns nvs g) = finalized g" for g :: "'a forced_host"
    by (induction nvs g rule: host_assigns.induct) (simp_all add: host_assign_def host_force_change_def)
  have "map_of (recorded (host_assigns nvs h)) n = (if n \<in> fst ` set nvs then Some (field h n) else None)"
    using keep [of h] assms(1) by (simp add: host_original_def)
  then have "host_changed (host_assigns nvs h) n \<longleftrightarrow> n \<in> fst ` set nvs"
    "n \<in> fst ` set nvs \<Longrightarrow> host_original (host_assigns nvs h) n = field h n"
    by (simp_all add: host_changed_def map_has_iff host_original_def)
  then show ?thesis using fin [of h] assms(2) by (simp add: host_change_def)
qed

end
