(* ===== verification/Attr_Example.thy ===== *)
theory Attr_Example
  imports Attr_Integer Attr_Tracking
begin

text \<open>
  A record with one integer column, read as 1 and assigned \<open>"5"\<close>: the lemmas on attribute sets and
  on dirty tracking at work.
\<close>

definition int_type :: "prim vtype" where
  "int_type = integer_type (\<lambda>_. []) None"

definition person :: "prim attrset" where
  "person = attribute_set \<lparr>own = [(''age'', new_age)], inherited = (\<lambda>_. None)\<rparr>"

lemma person_facts:
  "set_ok person" "plain_casts person" "built person" "open_set person"
  "map_of (own (store person)) n = (if n = ''age'' then Some new_age else None)"
  "known person n \<longleftrightarrow> n = ''age''" "view dt person ''age'' = new_age" "kind new_age = FromUser"
  "sealed person = False" "locked person = False"
  using age_facts(5)
  by (auto simp: person_def attribute_set_def set_ok_def obj_ok_def map_ok_def plain_casts_def built_def
      known_def has_key_own open_set_def view_def new_age_def constructor_defs split: if_splits)

lemma new_age_originals:
  "original_value new_age = Inr (int_value 1)" "original_value_for_database new_age = Inr (int_value 1)"
  "fst (attr_changed new_age) = Inr True" "atype new_age = Some int_type"
proof -
  show o': "original_value new_age = Inr (int_value 1)" "original_value_for_database new_age = Inr (int_value 1)"
    using write_originals [OF age_facts(4,1)] age_facts(2,3) by simp_all
  show t: "atype new_age = Some int_type" by (simp add: new_age_def constructor_defs int_type_def)
  have "attr_value new_age = (Inr (int_value 5), with_cached (int_value 5) new_age)"
    using age_facts(6) by (auto simp: attr_value_def new_age_def constructor_defs split: sum.splits)
  then have "changed_from_assignment new_age = (Inr True, with_cached (int_value 5) new_age)"
    using o' t by (simp add: changed_from_assignment_def bind_def ret_def the_type_def new_age_def
        constructor_defs value_before_type_cast_def int_type_def type_simps numeric_is_changed_def
        rb_equal_def is_equal_nan_def int_value_def)
  then show "fst (attr_changed new_age) = Inr True" by (simp add: attr_changed_def bind_def ret_def)
qed

lemma new_age_settled: "settled new_age (int_value 1) (int_value 5) True"
  using new_age_originals age_facts(5,6) by (simp add: settled_def calm_def int_type_def type_simps)

lemma ints_good: "integer_good None (int_value 5)" "integer_good None (int_value 1)"
  by (auto simp: integer_good_def fits_def int_value_def whole_def trunc_def in_bound_def max_value_def
      limit_of_def default_limit_def)

lemma new_age_saveable: "saveable new_age (int_value 5)"
proof -
  have "lawful_type int_type (integer_good None)" unfolding int_type_def by (rule int4.lawful_type_axioms)
  moreover have "tracked int_type new_age" by (simp add: tracked_def new_age_def constructor_defs)
  ultimately show ?thesis using new_age_originals(4) ints_good(1) age_facts(6) person_facts(8)
    by (auto simp: saveable_def)
qed

lemma changes_are_exact_witness:
  "\<exists>cs t'. changes int_type (\<lambda>_. None) \<lparr>watched = person, forced = []\<rparr> = (Inr cs, t') \<and>
     map_of (own cs) ''age'' = Some (int_value 1, int_value 5) \<and> map_of (own cs) ''name'' = None"
  using changes_are_exact [OF person_facts(1,2), of int_type "\<lambda>_. int_value 1" "\<lambda>_. int_value 5" "\<lambda>_. True"
      "\<lambda>_. None" "[]"] new_age_settled by (auto simp: person_facts)

lemma saving_moves_the_changes_witness:
  "\<exists>r. changes_applied int_type \<lparr>from_db = \<lparr>watched = person, forced = []\<rparr>, before_last_save = None\<rparr> = (Inr (), r) \<and>
     fst (changed_attribute_names int_type (from_db r)) = Inr [] \<and>
     fst (fetch_value int_type None ''age'' (watched (from_db r))) = Inr (int_value 5) \<and>
     (\<exists>cs. fst (previous_changes int_type (\<lambda>_. None) r) = Inr cs \<and>
        map_of (own cs) ''age'' = Some (int_value 1, int_value 5))"
proof -
  have "saveable a (int_value 5) \<and> settled a (int_value 1) (int_value 5) True"
    if "map_of (own (store person)) n = Some a" for n a
    using that new_age_saveable new_age_settled by (auto simp: person_facts split: if_splits)
  then show ?thesis
    using saving_moves_the_changes [OF person_facts(1-3), of "\<lambda>_. int_value 5" "\<lambda>_. int_value 1" "\<lambda>_. True"
        int_type "[]" None "\<lambda>_. None"] by (fastforce simp: person_facts)
qed

lemma restore_gives_back_witness:
  "\<exists>r. restore_attribute int_type ''age'' \<lparr>from_db = \<lparr>watched = person, forced = []\<rparr>, before_last_save = None\<rparr> = (Inr (), r) \<and>
     fst (fetch_value int_type None ''age'' (watched (from_db r))) = Inr (int_value 1) \<and>
     fst (is_changed int_type ''age'' None None (from_db r)) = Inr False"
proof -
  have l: "lawful_type int_type (integer_good None)" unfolding int_type_def by (rule int4.lawful_type_axioms)
  have c: "ty_cast int_type (int_value 1) = Inr (int_value 1)" "ty_assert_valid int_type (int_value 1) = Inr ()"
    by (simp_all add: int_type_def type_simps cast_simps int_value_def trunc_def)
  show ?thesis
    using restore_gives_back [OF person_facts(4), of int_type "''age''" "int_value 1" "int_value 5" True int_type
        "integer_good None" "[]" None] new_age_settled new_age_originals(4) l ints_good(2) c
    by (auto simp: person_facts)
qed

lemma announced_changes_witness:
  "host_change (host_assigns [(''name'', It (Str ''b'')), (''name'', It (Str ''c''))]
     \<lparr>field = (\<lambda>_. It (Str ''a'')), recorded = [], finalized = None\<rparr>) ''name'' = Some (It (Str ''a''), It (Str ''c''))"
  using announced_changes [of "\<lparr>field = (\<lambda>_. It (Str ''a'')), recorded = [], finalized = None\<rparr>"
      "[(''name'', It (Str ''b'')), (''name'', It (Str ''c''))]" "''name''"]
  by (simp add: host_assign_def host_force_change_def host_changed_def map_has_def)

text \<open>A row with the column \<open>age\<close>: reading, writing and reading again, lazily and eagerly.\<close>

definition row :: "prim js obj" where
  "row = \<lparr>own = [(''age'', int_value 1)], inherited = (\<lambda>_. None)\<rparr>"

definition columns :: "prim vtype obj" where
  "columns = \<lparr>own = [(''age'', int_type)], inherited = (\<lambda>_. None)\<rparr>"

text \<open>What the prototype of an object literal answers, each of its functions given by its name.\<close>

definition object_literal :: "string \<Rightarrow> prim js option" where
  "object_literal n = (if n \<in> {''constructor'', ''toString'', ''toLocaleString'', ''valueOf'', ''hasOwnProperty'',
     ''isPrototypeOf'', ''propertyIsEnumerable'', ''__defineGetter__'', ''__defineSetter__'',
     ''__lookupGetter__'', ''__lookupSetter__'', ''__proto__''} then Some (It (Str n)) else None)"

lemma lazy_equals_eager_witness:
  "run_requests int_type (build_from_database object_literal columns null_obj row null_obj)
     [Fetch ''age'', Fetch ''toString'', Write ''age'' (It (Str ''5'')), Fetch ''age''] =
   run_requests int_type (eager_from_database int_type columns null_obj row null_obj)
     [Fetch ''age'', Fetch ''toString'', Write ''age'' (It (Str ''5'')), Fetch ''age'']"
proof (rule lazy_equals_eager)
  show "object_literal n = None" if "has_key row n" for n
    using that by (simp add: row_def has_key_own object_literal_def split: if_splits)
qed (simp add: null_obj_def obj_get_def)

end
