(* ===== verification/Attr_Text.thy ===== *)
theory Attr_Text
  imports Attr_Integer
begin

text \<open>
  The text and truth types of Active Model (\<^verbatim>\<open>packages/activemodel/src/type/immutable-string.ts\<close>,
  \<^verbatim>\<open>type/string.ts\<close> and \<^verbatim>\<open>type/boolean.ts\<close>), on the values of \<open>Attr_Integer\<close>. \<open>s\<close> is the text of a
  number; the objects are others than \<open>BigDecimal\<close> and \<open>Duration\<close>, which \<open>serialize\<close> would write out;
  \<open>tr\<close> and \<open>fa\<close> are the options for the two truth values.

  A string type notices when a string was changed where it is, so it is a \<open>mutable_type\<close>.
\<close>

section \<open>Immutable strings\<close>

definition text_cast_value :: "string \<Rightarrow> string \<Rightarrow> (numeric \<Rightarrow> string) \<Rightarrow> prim js \<Rightarrow> aerr + prim js" where
  "text_cast_value tr fa s v = (case v of
       It (Bool True) \<Rightarrow> Inr (It (Str tr))
     | It (Bool False) \<Rightarrow> Inr (It (Str fa))
     | _ \<Rightarrow> Inr (It (Str (string_of v s))))"

definition text_serialize :: "string \<Rightarrow> string \<Rightarrow> (numeric \<Rightarrow> string) \<Rightarrow> prim js \<Rightarrow> aerr + prim js" where
  "text_serialize tr fa s v = (case v of
       It (Num n) \<Rightarrow> Inr (It (Str (s n)))
     | It (Bool True) \<Rightarrow> Inr (It (Str tr))
     | It (Bool False) \<Rightarrow> Inr (It (Str fa))
     | _ \<Rightarrow> Inr v)"

definition immutable_string_type :: "string \<Rightarrow> string \<Rightarrow> (numeric \<Rightarrow> string) \<Rightarrow> nat option \<Rightarrow> nat option \<Rightarrow> nat option \<Rightarrow> prim vtype" where
  "immutable_string_type tr fa s precision scale limit = (value_type rb_equal precision scale limit)\<lparr>
     ty_key := (''ImmutableStringType'', precision, scale, limit),
     ty_deserialize := base_cast (text_cast_value tr fa s),
     ty_cast := base_cast (text_cast_value tr fa s),
     ty_serialize := text_serialize tr fa s,
     ty_compatible := serialize_cast_value_compatible [(True, True), (True, True)]\<rparr>"

section \<open>Strings\<close>

definition string_cast_value :: "string \<Rightarrow> string \<Rightarrow> (numeric \<Rightarrow> string) \<Rightarrow> prim js \<Rightarrow> aerr + prim js" where
  "string_cast_value tr fa s v = (case v of
       It (Bool b) \<Rightarrow> text_cast_value tr fa s v
     | _ \<Rightarrow> Inr (It (Str (string_of v s))))"

definition string_changed_in_place :: "prim js \<Rightarrow> prim js \<Rightarrow> aerr + bool" where
  "string_changed_in_place raw new = Inr (case new of
       It (Str cs) \<Rightarrow> if nullish raw then True else raw \<noteq> new
     | _ \<Rightarrow> False)"

definition string_type :: "string \<Rightarrow> string \<Rightarrow> (numeric \<Rightarrow> string) \<Rightarrow> nat option \<Rightarrow> nat option \<Rightarrow> nat option \<Rightarrow> prim vtype" where
  "string_type tr fa s precision scale limit = (immutable_string_type tr fa s precision scale limit)\<lparr>
     ty_key := (''StringType'', precision, scale, limit),
     ty_deserialize := base_cast (string_cast_value tr fa s),
     ty_cast := base_cast (string_cast_value tr fa s),
     ty_compatible := serialize_cast_value_compatible [(False, False), (True, True), (True, True)],
     ty_is_changed_in_place := string_changed_in_place\<rparr>"

section \<open>Truth values\<close>

definition false_values :: "prim list" where
  "false_values = [Bool False, Num (Number (Fin 0)), Num (Big 0), Str ''0'', Str '':0'', Str ''f'', Str '':f'',
     Str ''F'', Str '':F'', Str ''false'', Str '':false'', Str ''FALSE'', Str '':FALSE'', Str ''off'', Str '':off'',
     Str ''OFF'', Str '':OFF'']"

definition boolean_cast_value :: "prim js \<Rightarrow> aerr + prim js" where
  "boolean_cast_value v = (if v = It (Str []) then Inr Nil
     else Inr (It (Bool (case v of It p \<Rightarrow> p \<notin> set false_values | _ \<Rightarrow> True))))"

definition boolean_type :: "prim vtype" where
  "boolean_type = (value_type rb_equal None None None)\<lparr>
     ty_key := (''BooleanType'', None, None, None),
     ty_deserialize := base_cast boolean_cast_value,
     ty_cast := base_cast boolean_cast_value,
     ty_serialize := base_cast boolean_cast_value,
     ty_compatible := serialize_cast_value_compatible [(True, True), (True, True)]\<rparr>"

section \<open>The laws of types\<close>

lemmas text_simps = immutable_string_type_def string_type_def boolean_type_def value_type_def base_cast_def
  nullish_def text_cast_value_def text_serialize_def string_cast_value_def string_changed_in_place_def
  boolean_cast_value_def false_values_def rb_equal_def string_of_def

definition is_text :: "prim js \<Rightarrow> bool" where
  "is_text v \<longleftrightarrow> (case v of It (Str cs) \<Rightarrow> True | _ \<Rightarrow> False)"

lemma is_text_iff: "is_text v \<longleftrightarrow> (\<exists>cs. v = It (Str cs))"
  by (auto simp: is_text_def split: js.splits prim.splits)

interpretation fixed_text: lawful_type "immutable_string_type tr fa s precision scale limit" "\<lambda>v. v = Nil \<or> is_text v"
  for tr fa s precision scale limit
  by unfold_locales (auto simp: text_simps is_text_iff)

interpretation strings: mutable_type "string_type tr fa s precision scale limit" is_text
  for tr fa s precision scale limit
  by unfold_locales (auto simp: text_simps is_text_iff split: js.splits prim.splits if_splits)

interpretation truth: lawful_type boolean_type "\<lambda>v. v = Nil \<or> v = It (Bool True) \<or> v = It (Bool False)"
  by unfold_locales (auto simp: text_simps)

section \<open>What the types promise\<close>

lemma boolean_casts: "\<exists>c. ty_cast boolean_type v = Inr c \<and> (c = Nil \<or> c = It (Bool True) \<or> c = It (Bool False))"
  by (auto simp: text_simps)

lemma boolean_cast_twice:
  "ty_cast boolean_type v = Inr c \<Longrightarrow> ty_cast boolean_type c = Inr c"
  using boolean_casts [of v] by (auto simp: text_simps)

lemma string_casts: "\<exists>c. ty_cast (string_type tr fa s precision scale limit) v = Inr c \<and> (c = Nil \<or> is_text c)"
  by (auto simp: text_simps is_text_iff split: js.splits prim.splits bool.splits)

text \<open>A string that was changed where it is is forgotten to what it is now, however it got there.\<close>

lemma string_forgetting:
  assumes "atype a = Some (string_type tr fa s precision scale limit)" "kind a \<notin> {Uninit, NullAttr}" "attr_ok a"
    and "current a = Inr v" "is_text v"
  shows "\<exists>b a'. forgetting_assignment a = (Inr b, a') \<and> current b = Inr v \<and> original_value b = Inr v \<and>
     fst (attr_changed b) = Inr False"
  using strings.forgetting [OF assms strings.always_tracked [OF assms(4,5,1,3)]] by blast

end
