(* ===== verification/Rack_Query.thy ===== *)
theory Rack_Query
  imports Journey_Uri
begin

text \<open>
  Query strings: \<^verbatim>\<open>packages/rack/src/query-parser.ts\<close> and the functions that write them,
  \<open>buildQuery\<close> and \<open>buildNestedQuery\<close> of \<^verbatim>\<open>packages/rack/src/utils.ts\<close>.

  Texts are lists of code points as in \<open>Journey_Uri\<close>. A table of parameters is an object of the class
  \<open>Params\<close>: its enumerable entries in the order JavaScript lists them, array indices first, and its
  hidden property \<open>toParamsHash\<close>, a method until something is assigned over it. An object without the
  method is no longer an instance of \<open>Params\<close>. Separators are sets of ASCII characters. An error
  carries its class only; what a call that threw has done to its argument is left out, since the
  callers throw the argument away.
\<close>

section \<open>Escaping\<close>

text \<open>\<open>decodeURIComponent\<close>: \<open>None\<close> is its \<open>URIError\<close>.\<close>

fun pct_byte :: "codes \<Rightarrow> (nat \<times> codes) option" where
  "pct_byte (c # a # b # r) =
     (if c = 37 \<and> hex_value a \<noteq> None \<and> hex_value b \<noteq> None
      then Some (16 * the (hex_value a) + the (hex_value b), r) else None)"
| "pct_byte _ = None"

fun pct_bytes :: "nat \<Rightarrow> codes \<Rightarrow> (nat list \<times> codes) option" where
  "pct_bytes 0 s = Some ([], s)"
| "pct_bytes (Suc n) s = (case pct_byte s of None \<Rightarrow> None
     | Some (b, r) \<Rightarrow> (case pct_bytes n r of None \<Rightarrow> None | Some (bs, r') \<Rightarrow> Some (b # bs, r')))"

definition sequence_length :: "nat \<Rightarrow> nat" where
  "sequence_length b = (if b < 0x80 then 1 else if b < 0xC0 then 0 else if b < 0xE0 then 2
     else if b < 0xF0 then 3 else if b < 0xF8 then 4 else 0)"

definition utf8_value :: "nat list \<Rightarrow> nat" where
  "utf8_value bs = (case bs of
       [a] \<Rightarrow> a
     | [a, b] \<Rightarrow> (a - 0xC0) * 64 + (b - 0x80)
     | [a, b, c] \<Rightarrow> ((a - 0xE0) * 64 + (b - 0x80)) * 64 + (c - 0x80)
     | [a, b, c, d] \<Rightarrow> (((a - 0xF0) * 64 + (b - 0x80)) * 64 + (c - 0x80)) * 64 + (d - 0x80)
     | _ \<Rightarrow> 0)"

definition pct_char :: "codes \<Rightarrow> (nat \<times> codes) option" where
  "pct_char s = (case pct_byte s of None \<Rightarrow> None
     | Some (b, _) \<Rightarrow> (case pct_bytes (sequence_length b) s of None \<Rightarrow> None
         | Some (bs, r) \<Rightarrow> (let c = utf8_value bs in if bs \<noteq> [] \<and> scalar c \<and> utf8 c = bs then Some (c, r) else None)))"

lemma pct_byte_shorter: "pct_byte s = Some (b, r) \<Longrightarrow> length r < length s"
  by (cases s rule: pct_byte.cases) (auto split: if_splits)

lemma pct_bytes_shorter: "pct_bytes n s = Some (bs, r) \<Longrightarrow> length r \<le> length s \<and> (bs \<noteq> [] \<longrightarrow> length r < length s)"
  by (induction n arbitrary: s bs r) (fastforce split: option.splits prod.splits dest: pct_byte_shorter)+

lemma pct_char_shorter: "pct_char s = Some (c, r) \<Longrightarrow> length r < length s"
  using pct_bytes_shorter by (fastforce simp: pct_char_def Let_def split: option.splits if_splits)

function decode_component :: "codes \<Rightarrow> codes option" where
  "decode_component [] = Some []"
| "decode_component (c # s) = (if c \<noteq> 37 then map_option ((#) c) (decode_component s)
     else (case pct_char (c # s) of None \<Rightarrow> None | Some (d, r) \<Rightarrow> map_option ((#) d) (decode_component r)))"
  by pat_completeness auto
termination
  by (relation "measure length") (auto dest: pct_char_shorter)

definition www_unescape :: "codes \<Rightarrow> codes option" where
  "www_unescape s = decode_component (map (\<lambda>c. if c = 43 then 32 else c) s)"

text \<open>\<open>URI.encodeWwwFormComponent\<close>, which works on the bytes of the text.\<close>

definition www_byte :: "nat \<Rightarrow> codes" where
  "www_byte b = (if kept_by_rack b then [b] else if b = 32 then [43] else pct_encode_byte b)"

definition www_escape :: "codes \<Rightarrow> codes" where
  "www_escape s = concat (map www_byte (concat (map utf8 s)))"

section \<open>Tables of parameters\<close>

datatype param = Undefined | Null | Text codes | Items "param list"
  | Table "param option" "(codes \<times> param) list"

type_synonym params = "param option \<times> (codes \<times> param) list"

abbreviation (input) as_table :: "params \<Rightarrow> param" where
  "as_table t \<equiv> Table (fst t) (snd t)"

definition to_params_hash :: codes where
  "to_params_hash = codes_of ''toParamsHash''"

definition index_value :: "codes \<Rightarrow> nat" where
  "index_value k = foldl (\<lambda>n c. 10 * n + (c - 48)) 0 k"

definition index_key :: "codes \<Rightarrow> bool" where
  "index_key k \<longleftrightarrow> k \<noteq> [] \<and> list_all (\<lambda>c. 48 \<le> c \<and> c \<le> 57) k \<and> (hd k = 48 \<longrightarrow> length k = 1) \<and>
     index_value k < 2 ^ 32 - 1"

text \<open>Assigning an own property of an object, in the order of \<open>Object.entries\<close>.\<close>

definition key_before :: "codes \<Rightarrow> codes \<Rightarrow> bool" where
  "key_before k l \<longleftrightarrow> (index_key l \<longrightarrow> index_key k \<and> index_value k < index_value l)"

definition entry_put :: "codes \<Rightarrow> param \<Rightarrow> (codes \<times> param) list \<Rightarrow> (codes \<times> param) list" where
  "entry_put k v es = (if k \<in> fst ` set es then map (\<lambda>e. if fst e = k then (k, v) else e) es
     else takeWhile (\<lambda>e. key_before (fst e) k) es @ (k, v) # dropWhile (\<lambda>e. key_before (fst e) k) es)"

datatype slot = Missing | Method | Held param

definition slot_of :: "codes \<Rightarrow> params \<Rightarrow> slot" where
  "slot_of k t = (if k = to_params_hash then (case fst t of None \<Rightarrow> Method | Some v \<Rightarrow> Held v)
     else (case map_of (snd t) k of None \<Rightarrow> Missing | Some v \<Rightarrow> Held v))"

definition put_param :: "codes \<Rightarrow> param \<Rightarrow> params \<Rightarrow> params" where
  "put_param k v t = (if k = to_params_hash then (Some v, snd t) else (fst t, entry_put k v (snd t)))"

definition make_params :: params where
  "make_params = (None, [])"

text \<open>\<open>params[k] ??= []\<close> and \<open>params[k] ??= makeParams()\<close> with the test that follows them.\<close>

definition slot_items :: "slot \<Rightarrow> param list option" where
  "slot_items s = (case s of
       Missing \<Rightarrow> Some [] | Held Null \<Rightarrow> Some [] | Held Undefined \<Rightarrow> Some []
     | Held (Items vs) \<Rightarrow> Some vs
     | _ \<Rightarrow> None)"

definition slot_params :: "slot \<Rightarrow> params option" where
  "slot_params s = (case s of
       Missing \<Rightarrow> Some make_params | Held Null \<Rightarrow> Some make_params | Held Undefined \<Rightarrow> Some make_params
     | Held (Table None es) \<Rightarrow> Some (None, es)
     | _ \<Rightarrow> None)"

section \<open>Names\<close>

definition bracket :: "nat \<Rightarrow> bool" where
  "bracket c \<longleftrightarrow> c = 91 \<or> c = 93"

definition split_name :: "nat \<Rightarrow> codes \<Rightarrow> codes \<times> codes" where
  "split_name depth name =
     (if depth = 0 then (take 1 name @ takeWhile (\<lambda>c. c \<noteq> 91) (drop 1 name), dropWhile (\<lambda>c. c \<noteq> 91) (drop 1 name))
      else if take 2 name = [91, 93] then ([91, 93], drop 2 name)
      else if take 1 name = [91] \<and> 93 \<in> set (drop 1 name)
      then (takeWhile (\<lambda>c. c \<noteq> 93) (drop 1 name), drop 1 (dropWhile (\<lambda>c. c \<noteq> 93) (drop 1 name)))
      else (name, []))"

definition child_key :: "codes \<Rightarrow> codes" where
  "child_key after = (let inner = butlast (drop 3 after)
     in if drop 3 after \<noteq> [] \<and> after ! 2 = 91 \<and> last after = 93 \<and> inner \<noteq> [] \<and> \<not> list_ex bracket inner
        then inner else drop 2 after)"

fun has_path :: "slot \<Rightarrow> codes list \<Rightarrow> bool" where
  "has_path s [] = True"
| "has_path (Held (Table None es)) (p # ps) =
     (case slot_of p (None, es) of Missing \<Rightarrow> False | s \<Rightarrow> has_path s ps)"
| "has_path _ (p # ps) = False"

definition params_hash_has_key :: "param \<Rightarrow> codes \<Rightarrow> bool" where
  "params_hash_has_key hash key \<longleftrightarrow> \<not> sublist [91, 93] key \<and>
     has_path (Held hash) (filter (\<lambda>w. w \<noteq> []) (split_by bracket key))"

definition params_of :: "param \<Rightarrow> params option" where
  "params_of v = (case v of Table None es \<Rightarrow> Some (None, es) | _ \<Rightarrow> None)"

section \<open>Reading parameters\<close>

datatype query_error = Uri_error | Invalid_parameter | Query_limit | Params_too_deep | Parameter_type codes

text \<open>What a call returns: nothing, its table, or a new array.\<close>

datatype returned = Nothing | Self | Fresh "param list"

definition value_of :: "returned \<Rightarrow> params \<Rightarrow> param" where
  "value_of r t = (case r of Nothing \<Rightarrow> Undefined | Self \<Rightarrow> as_table t | Fresh vs \<Rightarrow> Items vs)"

function normalize_params :: "nat \<Rightarrow> nat \<Rightarrow> params \<Rightarrow> codes \<Rightarrow> param \<Rightarrow> query_error + params \<times> returned" where
  "normalize_params limit depth t name v = (if limit \<le> depth then Inl Params_too_deep else
     (case split_name depth name of (k, after) \<Rightarrow>
        if k = [] then Inr (t, Nothing)
        else if after = [] then (if k = [91, 93] \<and> depth \<noteq> 0 then Inr (t, Fresh [v]) else Inr (put_param k v t, Self))
        else if after = [91] then Inr (put_param name v t, Self)
        else if after = [91, 93] then
          (case slot_items (slot_of k t) of None \<Rightarrow> Inl (Parameter_type k)
           | Some vs \<Rightarrow> Inr (put_param k (Items (vs @ [v])) t, Self))
        else if take 2 after = [91, 93] then
          (case slot_items (slot_of k t) of None \<Rightarrow> Inl (Parameter_type k)
           | Some vs \<Rightarrow>
             (case (if vs = [] then None else params_of (last vs)) of
                Some u \<Rightarrow>
                  if \<not> params_hash_has_key (last vs) (child_key after)
                  then (case normalize_params limit (depth + 1) u (child_key after) v of
                      Inl e \<Rightarrow> Inl e
                    | Inr (u', r) \<Rightarrow> Inr (put_param k (Items (butlast vs @ [as_table u'])) t, Self))
                  else (case normalize_params limit (depth + 1) make_params (child_key after) v of
                      Inl e \<Rightarrow> Inl e
                    | Inr (u', r) \<Rightarrow> Inr (put_param k (Items (vs @ [value_of r u'])) t, Self))
              | None \<Rightarrow>
                  (case normalize_params limit (depth + 1) make_params (child_key after) v of
                      Inl e \<Rightarrow> Inl e
                    | Inr (u', r) \<Rightarrow> Inr (put_param k (Items (vs @ [value_of r u'])) t, Self))))
        else (case slot_params (slot_of k t) of None \<Rightarrow> Inl (Parameter_type k)
           | Some u \<Rightarrow> (case normalize_params limit (depth + 1) u after v of
                Inl e \<Rightarrow> Inl e
              | Inr (u', r) \<Rightarrow> Inr (put_param k (value_of r u') t, Self)))))"
  by pat_completeness auto
termination
  by (relation "measure (\<lambda>(limit, depth, _). limit - depth)") auto

declare normalize_params.simps [simp del]

section \<open>Query strings\<close>

record query_parser =
  param_depth_limit :: nat
  bytesize_limit :: nat
  params_limit :: nat

definition make_default :: "nat \<Rightarrow> nat option \<Rightarrow> nat option \<Rightarrow> query_parser" where
  "make_default depth bytesize params = \<lparr>param_depth_limit = depth,
     bytesize_limit = (case bytesize of None \<Rightarrow> 4194304 | Some n \<Rightarrow> n),
     params_limit = (case params of None \<Rightarrow> 4096 | Some n \<Rightarrow> n)\<rparr>"

definition new_depth_limit :: "nat \<Rightarrow> query_parser \<Rightarrow> query_parser" where
  "new_depth_limit depth q = q\<lparr>param_depth_limit := depth\<rparr>"

definition separators :: "codes option \<Rightarrow> codes" where
  "separators sep = (case sep of None \<Rightarrow> [38] | Some s \<Rightarrow> if s = [] then [38] else s)"

definition check_query_string :: "query_parser \<Rightarrow> codes \<Rightarrow> codes \<Rightarrow> query_error + codes" where
  "check_query_string q qs seps =
     (if bytesize_limit q < length (concat (map utf8 qs)) then Inl Query_limit
      else if params_limit q \<le> length (filter (\<lambda>c. c \<in> set seps) qs) then Inl Query_limit
      else Inr qs)"

text \<open>\<open>str.split(/[seps] */)\<close>\<close>

definition split_query :: "codes \<Rightarrow> codes \<Rightarrow> codes list" where
  "split_query seps s = split_skip (\<lambda>c. c \<in> set seps) (\<lambda>c. c = 32) s"

definition decode_pair :: "codes \<Rightarrow> (codes \<times> param) option" where
  "decode_pair p = (if 61 \<notin> set p then map_option (\<lambda>k. (k, Null)) (www_unescape p)
     else (case www_unescape (takeWhile (\<lambda>c. c \<noteq> 61) p) of None \<Rightarrow> None
       | Some k \<Rightarrow> map_option (\<lambda>v. (k, Text v)) (www_unescape (drop 1 (dropWhile (\<lambda>c. c \<noteq> 61) p)))))"

definition add_plain :: "codes \<Rightarrow> param \<Rightarrow> (codes \<times> param) list \<Rightarrow> (codes \<times> param) list" where
  "add_plain k v result = (case map_of result k of
       Some (Items vs) \<Rightarrow> entry_put k (Items (vs @ [v])) result
     | Some cur \<Rightarrow> entry_put k (Items [cur, v]) result
     | None \<Rightarrow> entry_put k v result)"

fun read_pairs :: "(codes \<Rightarrow> param \<Rightarrow> 'a \<Rightarrow> query_error + 'a) \<Rightarrow> codes list \<Rightarrow> 'a \<Rightarrow> query_error + 'a" where
  "read_pairs add [] t = Inr t"
| "read_pairs add (p # ps) t = (if p = [] then read_pairs add ps t
     else (case decode_pair p of None \<Rightarrow> Inl Uri_error
       | Some (k, v) \<Rightarrow> (case add k v t of Inl e \<Rightarrow> Inl e | Inr t' \<Rightarrow> read_pairs add ps t')))"

definition parse_query :: "query_parser \<Rightarrow> codes \<Rightarrow> codes option \<Rightarrow> query_error + (codes \<times> param) list" where
  "parse_query q qs sep = (if qs = [] then Inr []
     else (case check_query_string q qs (separators sep) of Inl e \<Rightarrow> Inl e
       | Inr str \<Rightarrow> read_pairs (\<lambda>k v r. Inr (add_plain k v r)) (split_query (separators sep) str) []))"

definition add_nested :: "nat \<Rightarrow> codes \<Rightarrow> param \<Rightarrow> params \<Rightarrow> query_error + params" where
  "add_nested limit k v t = (case normalize_params limit 0 t k v of Inl e \<Rightarrow> Inl e | Inr (t', _) \<Rightarrow> Inr t')"

definition parse_nested_query :: "query_parser \<Rightarrow> codes \<Rightarrow> codes option \<Rightarrow> query_error + (codes \<times> param) list" where
  "parse_nested_query q qs sep = (if qs = [] then Inr []
     else (case (case check_query_string q qs (separators sep) of Inl e \<Rightarrow> Inl e
         | Inr str \<Rightarrow> read_pairs (add_nested (param_depth_limit q)) (split_query (separators sep) str) make_params) of
       Inl Uri_error \<Rightarrow> Inl Invalid_parameter
     | Inl e \<Rightarrow> Inl e
     | Inr t \<Rightarrow> Inr (snd t)))"

section \<open>Writing query strings\<close>

abbreviation amp_join :: "codes list \<Rightarrow> codes" where
  "amp_join \<equiv> join_with 38"

definition written_pair :: "codes \<Rightarrow> param \<Rightarrow> codes" where
  "written_pair k v = (case v of Text s \<Rightarrow> www_escape k @ 61 # www_escape s | _ \<Rightarrow> www_escape k)"

definition build_query :: "(codes \<times> param) list \<Rightarrow> codes" where
  "build_query es = amp_join (map (\<lambda>(k, v). case v of
       Items vs \<Rightarrow> amp_join (map (\<lambda>x. www_escape k @ 61 # www_escape (case x of Text s \<Rightarrow> s | _ \<Rightarrow> [])) vs)
     | _ \<Rightarrow> written_pair k v) es)"

text \<open>\<open>None\<close> is the \<open>ArgumentError\<close> for a value that is neither a table nor a list.\<close>

fun all_written :: "codes option list \<Rightarrow> codes list option" where
  "all_written [] = Some []"
| "all_written (x # xs) = (case x of None \<Rightarrow> None | Some y \<Rightarrow> map_option ((#) y) (all_written xs))"

fun build_nested_query :: "param \<Rightarrow> codes option \<Rightarrow> codes option" where
  "build_nested_query (Items vs) pre = map_option amp_join (all_written (map (\<lambda>v.
     build_nested_query v (Some ((case pre of None \<Rightarrow> [] | Some p \<Rightarrow> p) @ [91, 93]))) vs))"
| "build_nested_query (Table m es) pre = map_option (\<lambda>ws. amp_join (filter (\<lambda>w. w \<noteq> []) ws))
     (all_written (map (\<lambda>e. build_nested_query (snd e)
        (Some (case pre of None \<Rightarrow> fst e | Some p \<Rightarrow> p @ [91] @ fst e @ [93]))) es))"
| "build_nested_query (Text s) pre = map_option (\<lambda>p. www_escape p @ 61 # www_escape s) pre"
| "build_nested_query Null pre = Some (www_escape (case pre of None \<Rightarrow> [] | Some p \<Rightarrow> p))"
| "build_nested_query Undefined pre = Some (www_escape (case pre of None \<Rightarrow> [] | Some p \<Rightarrow> p))"

end
