(* ===== verification/Rack_Nested.thy ===== *)
theory Rack_Nested
  imports Rack_Query
begin

text \<open>
  What the query parser promises: what was written for a table of parameters is read back, and no
  query string is read into tables nested deeper than the limit.
\<close>

section \<open>Escaped text\<close>

lemma byte_read: "b < 256 \<Longrightarrow> pct_byte (pct_encode_byte b @ r) = Some (b, r)"
  by (simp add: pct_encode_byte_def hex_value_digit less_mult_imp_div_less)

lemma bytes_read:
  "\<forall>b \<in> set bs. b < 256 \<Longrightarrow> pct_bytes (length bs) (concat (map pct_encode_byte bs) @ r) = Some (bs, r)"
  by (induction bs) (simp_all add: byte_read)

lemma utf8_shape:
  assumes "scalar c"
  shows "utf8_value (utf8 c) = c" "sequence_length (hd (utf8 c)) = length (utf8 c)"
proof -
  have c: "c < 1114112" and s: "\<not> surrogate c" using assms by (simp_all add: scalar_def)
  note q = div_mult_mod_eq [of c 64] div_mult_mod_eq [of "c div 64" 64] div_mult_mod_eq [of "c div 64 div 64" 64]
  have three: "4096 * (c div 64 div 64) + c div 64 mod 64 * 64 + c mod 64 = c" using q by linarith
  have four: "262144 * (c div 64 div 64 div 64) + 4096 * (c div 64 div 64 mod 64) + c div 64 mod 64 * 64 + c mod 64 = c"
    using q by linarith
  have top: "c div 64 div 64 div 64 < 5" "c < 65536 \<Longrightarrow> c div 64 div 64 < 16" using c by simp_all
  have "utf8_value (utf8 c) = c \<and> sequence_length (hd (utf8 c)) = length (utf8 c)"
  proof (cases "c < 65536")
    case True
    then show ?thesis using s three top(2) by (auto simp: utf8_def utf8_value_def sequence_length_def)
  next
    case False
    then show ?thesis using s four top(1) by (simp add: utf8_def utf8_value_def sequence_length_def)
  qed
  then show "utf8_value (utf8 c) = c" "sequence_length (hd (utf8 c)) = length (utf8 c)" by blast+
qed

lemma utf8_nonempty: "utf8 c \<noteq> []"
  by (simp add: utf8_def)

lemma char_read:
  assumes "scalar c"
  shows "pct_char (pct_encode c @ r) = Some (c, r)"
proof -
  have b: "\<forall>b \<in> set (utf8 c). b < 256" using assms utf8_bytes by (auto simp: scalar_def)
  obtain x xs where u: "utf8 c = x # xs" using utf8_nonempty [of c] by (cases "utf8 c") auto
  have "pct_byte (pct_encode c @ r) = Some (x, concat (map pct_encode_byte xs) @ r)"
    using byte_read [of x] b u by (simp add: pct_encode_def)
  moreover have "pct_bytes (sequence_length x) (pct_encode c @ r) = Some (utf8 c, r)"
    using bytes_read [OF b] utf8_shape(2) [OF assms] u by (simp add: pct_encode_def)
  ultimately show ?thesis using utf8_shape(1) [OF assms] assms utf8_nonempty by (simp add: pct_char_def Let_def)
qed

text \<open>One character of escaped text, with the plus sign read as a space.\<close>

definition www_char :: "nat \<Rightarrow> codes" where
  "www_char c = (if kept_by_rack c \<or> c = 32 then [c] else pct_encode c)"

lemma kept_ascii: "kept_by_rack b \<Longrightarrow> b < 128 \<and> b \<notin> {32, 37, 38, 43, 61}"
  by (auto simp: kept_by_rack_def alnum_def codes_of_def)

lemma utf8_high: "128 \<le> c \<Longrightarrow> b \<in> set (utf8 c) \<Longrightarrow> 128 \<le> b"
  by (auto simp: utf8_def split: if_splits)

lemma hex_chars: "n < 16 \<Longrightarrow> hex_digit n \<notin> {32, 37, 38, 43, 61, 91, 93}"
  by (auto simp: hex_digit_def)

lemma pct_byte_chars: "b < 256 \<Longrightarrow> d \<in> set (pct_encode_byte b) \<Longrightarrow> d \<notin> {32, 38, 43, 61, 91, 93}"
proof -
  assume b: "b < 256" and d: "d \<in> set (pct_encode_byte b)"
  have "b div 16 < 16" "b mod 16 < 16" using b by simp_all
  then show "d \<notin> {32, 38, 43, 61, 91, 93}" using d hex_chars unfolding pct_encode_byte_def by fastforce
qed

lemma pct_encode_plain: "scalar c \<Longrightarrow> d \<in> set (pct_encode c) \<Longrightarrow> d \<notin> {32, 38, 43, 61, 91, 93}"
  using utf8_bytes [of c] pct_byte_chars by (auto simp: pct_encode_def scalar_def)

lemma plus_read:
  assumes "scalar c"
  shows "map (\<lambda>d. if d = 43 then 32 else d) (concat (map www_byte (utf8 c))) = www_char c"
proof (cases "c < 128")
  case True
  then have "utf8 c = [c]" by (simp add: utf8_def surrogate_def)
  moreover have "map (\<lambda>d. if d = 43 then 32 else d) (pct_encode c) = pct_encode c"
    using pct_encode_plain [OF assms] by (intro map_idI) auto
  ultimately show ?thesis using kept_ascii [of c] by (auto simp: www_char_def www_byte_def pct_encode_def)
next
  case False
  then have "\<not> kept_by_rack b \<and> b \<noteq> 32" if "b \<in> set (utf8 c)" for b
    using utf8_high [of c b] that kept_ascii [of b] by auto
  then have "concat (map www_byte (utf8 c)) = pct_encode c"
    unfolding pct_encode_def by (intro arg_cong [of _ _ concat] map_cong) (auto simp: www_byte_def)
  moreover have "map (\<lambda>d. if d = 43 then 32 else d) (pct_encode c) = pct_encode c"
    using pct_encode_plain [OF assms] by (intro map_idI) auto
  ultimately show ?thesis using False kept_ascii [of c] by (auto simp: www_char_def)
qed

lemma www_char_read: "scalar c \<Longrightarrow> decode_component (www_char c @ r) = map_option ((#) c) (decode_component r)"
proof -
  assume c: "scalar c"
  obtain s where s: "pct_encode c = 37 # s"
    using utf8_nonempty [of c] by (cases "utf8 c") (simp_all add: pct_encode_def pct_encode_byte_def)
  show ?thesis
  proof (cases "kept_by_rack c \<or> c = 32")
    case True
    then have "c \<noteq> 37" using kept_ascii [of c] by auto
    then show ?thesis using True by (simp add: www_char_def)
  next
    case False
    then show ?thesis using char_read [OF c, of r] s by (simp add: www_char_def)
  qed
qed

lemma www_reads_back:
  assumes "list_all scalar s"
  shows "www_unescape (www_escape s) = Some s"
proof -
  have "map (\<lambda>d. if d = 43 then 32 else d) (www_escape s) = concat (map www_char s)"
    using assms plus_read by (induction s) (simp_all add: www_escape_def map_concat)
  moreover have "decode_component (concat (map www_char s)) = Some s"
    using assms by (induction s) (simp_all add: www_char_read)
  ultimately show ?thesis by (simp add: www_unescape_def)
qed

lemma www_escape_chars:
  assumes "list_all scalar s" "d \<in> set (www_escape s)"
  shows "d \<notin> {32, 38, 61}"
proof -
  obtain c b where "c \<in> set s" "b \<in> set (utf8 c)" "d \<in> set (www_byte b)"
    using assms(2) by (auto simp: www_escape_def)
  moreover from this have "b < 256" using utf8_bytes [of c] assms(1) by (auto simp: list_all_iff scalar_def)
  ultimately show ?thesis using kept_ascii [of b] pct_byte_chars [of b d]
    by (auto simp: www_byte_def split: if_splits)
qed

lemma www_escape_empty: "www_escape s = [] \<longleftrightarrow> s = []"
proof -
  have "www_byte b \<noteq> []" for b by (simp add: www_byte_def pct_encode_byte_def)
  then show ?thesis using utf8_nonempty by (cases s) (auto simp: www_escape_def)
qed

section \<open>The depth of what is read\<close>

text \<open>\<open>nests_within n v\<close>: at most \<open>n\<close> tables lie inside one another in \<open>v\<close>.\<close>

fun nests_within :: "nat \<Rightarrow> param \<Rightarrow> bool" where
  "nests_within n (Items vs) \<longleftrightarrow> (\<forall>v \<in> set vs. nests_within n v)"
| "nests_within n (Table m es) \<longleftrightarrow> 0 < n \<and> (\<forall>v \<in> set_option m. nests_within (n - 1) v) \<and>
     (\<forall>e \<in> set es. \<forall>v \<in> Basic_BNFs.snds e. nests_within (n - 1) v)"
| "nests_within n v \<longleftrightarrow> True"

definition entries_within :: "nat \<Rightarrow> params \<Rightarrow> bool" where
  "entries_within n t \<longleftrightarrow> (\<forall>v. fst t = Some v \<longrightarrow> nests_within n v) \<and> (\<forall>(k, v) \<in> set (snd t). nests_within n v)"

lemma table_within: "nests_within n (Table m es) \<longleftrightarrow> 0 < n \<and> entries_within (n - 1) (m, es)"
  by (cases m) (auto simp: entries_within_def)

lemma entry_put_set: "set (entry_put k v es) \<subseteq> insert (k, v) (set es)"
  by (auto simp: entry_put_def dest: set_takeWhileD set_dropWhileD)

lemma put_within: "entries_within n t \<Longrightarrow> nests_within n v \<Longrightarrow> entries_within n (put_param k v t)"
  using entry_put_set [of k v "snd t"] by (fastforce simp: put_param_def entries_within_def)

lemma slot_within: "entries_within n t \<Longrightarrow> slot_of k t = Held v \<Longrightarrow> nests_within n v"
  by (auto simp: slot_of_def entries_within_def split: if_splits option.splits dest: map_of_SomeD)

lemma slot_items_cases: "slot_items s = Some vs \<Longrightarrow> vs = [] \<or> s = Held (Items vs)"
  by (auto simp: slot_items_def split: slot.splits param.splits)

lemma slot_params_cases:
  "slot_params s = Some u \<Longrightarrow> u = make_params \<or> (\<exists>es. s = Held (Table None es) \<and> u = (None, es))"
  by (auto simp: slot_params_def split: slot.splits param.splits option.splits)

lemma slot_items_within:
  "entries_within n t \<Longrightarrow> slot_items (slot_of k t) = Some vs \<Longrightarrow> \<forall>v \<in> set vs. nests_within n v"
  using slot_items_cases [of "slot_of k t" vs] slot_within [of n t k "Items vs"] by auto

lemma make_within: "entries_within n make_params"
  by (simp add: make_params_def entries_within_def)

lemma slot_params_within:
  assumes "entries_within n t" "slot_params (slot_of k t) = Some u"
  shows "entries_within (n - 1) u"
  using slot_params_cases [OF assms(2)]
proof (elim disjE exE conjE)
  fix es assume "slot_of k t = Held (Table None es)" "u = (None, es)"
  then show ?thesis using slot_within [OF assms(1)] table_within by blast
qed (simp add: make_within)

lemma value_within:
  "entries_within (n - 1) t \<Longrightarrow> 0 < n \<Longrightarrow> (\<forall>vs. r = Fresh vs \<longrightarrow> vs = [v]) \<Longrightarrow> nests_within n v \<Longrightarrow>
   nests_within n (value_of r t)"
  using table_within [of n "fst t" "snd t"] by (cases r) (simp_all add: value_of_def)

lemma params_of_within: "nests_within n v \<Longrightarrow> params_of v = Some u \<Longrightarrow> entries_within (n - 1) u"
  by (auto simp: params_of_def table_within entries_within_def split: param.splits option.splits)

lemma as_table_within: "entries_within (n - 1) t \<Longrightarrow> 0 < n \<Longrightarrow> nests_within n (as_table t)"
  using table_within [of n "fst t" "snd t"] by simp

lemma normalize_within:
  assumes "normalize_params limit d t name v = Inr (t', r)" "entries_within (limit - d - 1) t"
    and "\<forall>n. nests_within n v"
  shows "d < limit \<and> entries_within (limit - d - 1) t' \<and> (\<forall>vs. r = Fresh vs \<longrightarrow> vs = [v])"
  using assms
proof (induction "limit - d" arbitrary: d t name t' r rule: less_induct)
  case less
  note run = less.prems(1) and t = less.prems(2) and v = less.prems(3)
  have d: "d < limit" using run by (subst (asm) normalize_params.simps) (auto split: if_splits)
  obtain k after where ka: "split_name d name = (k, after)" by fastforce
  let ?n = "limit - d - 1"
  have deeper: "d + 1 < limit \<and> entries_within (?n - 1) u' \<and> (\<forall>vs. q = Fresh vs \<longrightarrow> vs = [v])"
    if "normalize_params limit (d + 1) u m v = Inr (u', q)" "entries_within (?n - 1) u" for u m u' q
    using less.hyps [of "d + 1" u m u' q] that v d by auto
  have lim: "\<not> limit \<le> d" using d by simp
  note step = run [unfolded normalize_params.simps [of limit d t name v] if_not_P [OF lim] ka prod.case]
  consider "k = []" | "k \<noteq> []" "after = []" | "k \<noteq> []" "after = [91]" | "k \<noteq> []" "after = [91, 93]"
    | "k \<noteq> []" "after \<noteq> []" "after \<noteq> [91]" "after \<noteq> [91, 93]" "take 2 after = [91, 93]"
    | "k \<noteq> []" "after \<noteq> []" "after \<noteq> [91]" "after \<noteq> [91, 93]" "take 2 after \<noteq> [91, 93]" by blast
  then show ?case
  proof cases
    case 2
    then show ?thesis using step d t v put_within [OF t] by (auto split: if_splits)
  next
    case 4
    then obtain vs where "slot_items (slot_of k t) = Some vs" "t' = put_param k (Items (vs @ [v])) t" "r = Self"
      using step by (auto split: option.splits)
    then show ?thesis using slot_items_within [OF t] put_within [OF t] v d by simp
  next
    case 5
    then obtain vs where vs: "slot_items (slot_of k t) = Some vs" using step by (auto split: option.splits)
    note w = slot_items_within [OF t vs]
    consider (last) u u' r' where "vs \<noteq> []" "params_of (last vs) = Some u" "\<not> params_hash_has_key (last vs) (child_key after)"
        "normalize_params limit (d + 1) u (child_key after) v = Inr (u', r')"
        "t' = put_param k (Items (butlast vs @ [as_table u'])) t" "r = Self"
      | (new) u' r' where "normalize_params limit (d + 1) make_params (child_key after) v = Inr (u', r')"
        "t' = put_param k (Items (vs @ [value_of r' u'])) t" "r = Self"
      using step 5 vs by (simp split: option.splits if_splits sum.splits prod.splits)
    then show ?thesis
    proof cases
      case last
      then have "entries_within (?n - 1) u" using params_of_within [of ?n "last vs" u] w by simp
      then have "0 < ?n \<and> entries_within (?n - 1) u'" using deeper last(4) by auto
      then have "nests_within ?n (as_table u')" using as_table_within by blast
      then have "nests_within ?n (Items (butlast vs @ [as_table u']))"
        unfolding nests_within.simps(1) using w by (auto simp del: nests_within.simps dest: in_set_butlastD)
      then show ?thesis using last(5,6) put_within [OF t] d by (simp del: nests_within.simps)
    next
      case new
      then have "0 < ?n \<and> entries_within (?n - 1) u' \<and> (\<forall>vs. r' = Fresh vs \<longrightarrow> vs = [v])"
        using deeper make_within by auto
      moreover from this have "nests_within ?n (value_of r' u')" using value_within [of ?n u' r' v] v by blast
      ultimately show ?thesis using new(2,3) put_within [OF t] w d by (auto simp del: nests_within.simps(2))
    qed
  next
    case 6
    then obtain u u' r' where u: "slot_params (slot_of k t) = Some u" "normalize_params limit (d + 1) u after v = Inr (u', r')"
      "t' = put_param k (value_of r' u') t" "r = Self" using step by (auto split: option.splits sum.splits)
    have "d + 1 < limit \<and> entries_within (?n - 1) u' \<and> (\<forall>vs. r' = Fresh vs \<longrightarrow> vs = [v])"
      using deeper slot_params_within [OF t u(1)] u(2) by auto
    then show ?thesis using u(3,4) put_within [OF t] value_within [of ?n u' r' v] v d by (simp del: nests_within.simps)
  qed (use step d t v put_within [OF t] in auto)
qed

lemma decoded_leaf: "decode_pair p = Some (k, v) \<Longrightarrow> nests_within n v"
  by (auto simp: decode_pair_def split: if_splits option.splits)

lemma read_within:
  "read_pairs (add_nested limit) ps t = Inr t' \<Longrightarrow> entries_within (limit - 1) t \<Longrightarrow> entries_within (limit - 1) t'"
proof (induction ps arbitrary: t)
  case (Cons p ps)
  show ?case
  proof (cases "p = []")
    case True
    then show ?thesis using Cons by simp
  next
    case False
    then obtain k v where kv: "decode_pair p = Some (k, v)" using Cons.prems(1) by (auto split: option.splits)
    then obtain u where "add_nested limit k v t = Inr u" and rest: "read_pairs (add_nested limit) ps u = Inr t'"
      using Cons.prems(1) False by (auto split: sum.splits)
    then obtain r where n: "normalize_params limit 0 t k v = Inr (u, r)" by (auto simp: add_nested_def split: sum.splits)
    have "entries_within (limit - 1) u" using normalize_within [OF n] Cons.prems(2) decoded_leaf [OF kv] by simp
    then show ?thesis using Cons.IH rest by blast
  qed
qed simp

text \<open>
  C14. Whatever is sent, the nested query parser answers tables nested no deeper than its limit, or
  one of its own errors: what cannot be decoded is an invalid parameter.
\<close>
theorem nested_queries_are_shallow:
  "case parse_nested_query q qs sep of
     Inl e \<Rightarrow> e \<noteq> Uri_error
   | Inr es \<Rightarrow> list_all (\<lambda>e. nests_within (param_depth_limit q - 1) (snd e)) es"
proof -
  let ?read = "\<lambda>str. read_pairs (add_nested (param_depth_limit q)) (split_query (separators sep) str) make_params"
  have deep: "list_all (\<lambda>e. nests_within (param_depth_limit q - 1) (snd e)) (snd t)" if "?read str = Inr t" for str t
    using read_within [OF that make_within] unfolding list_all_iff by (auto simp: entries_within_def)
  show ?thesis
    by (cases "check_query_string q qs (separators sep)"; cases "?read qs")
      (use deep in \<open>auto simp: parse_nested_query_def check_query_string_def split: sum.splits query_error.splits if_splits\<close>)
qed

end
