(* ===== verification/Rack_Written.thy ===== *)
theory Rack_Written
  imports Rack_Nested
begin

text \<open>
  Query strings that \<open>buildNestedQuery\<close> writes are read back by the nested query parser.

  \<open>well n v\<close> describes the values that have a query string of their own: texts and nulls, lists of
  them that are not empty, tables that are not empty, nested at most \<open>n\<close> deep, and lists of flat
  tables each of which starts with a key the one before has: that is how the parser tells where a
  table of a list ends. \<open>named_values\<close> are the names and values that are written, in order.
\<close>

section \<open>Values with a query string\<close>

definition leaf :: "param \<Rightarrow> bool" where
  "leaf v \<longleftrightarrow> (case v of Null \<Rightarrow> True | Text s \<Rightarrow> list_all scalar s | _ \<Rightarrow> False)"

definition key_ok :: "codes \<Rightarrow> bool" where
  "key_ok k \<longleftrightarrow> k \<noteq> [] \<and> k \<noteq> to_params_hash \<and> list_all (\<lambda>c. scalar c \<and> \<not> bracket c) k"

fun in_order :: "codes list \<Rightarrow> bool" where
  "in_order [] \<longleftrightarrow> True"
| "in_order (k # ks) \<longleftrightarrow> list_all (\<lambda>l. k \<noteq> l \<and> key_before k l) ks \<and> in_order ks"

definition row :: "param \<Rightarrow> bool" where
  "row v \<longleftrightarrow> (case v of Table None es \<Rightarrow> es \<noteq> [] \<and> in_order (map fst es) \<and> list_all (\<lambda>e. key_ok (fst e) \<and> leaf (snd e)) es
     | _ \<Rightarrow> False)"

definition entries :: "param \<Rightarrow> (codes \<times> param) list" where
  "entries v = (case v of Table _ es \<Rightarrow> es | _ \<Rightarrow> [])"

fun rows :: "param list \<Rightarrow> bool" where
  "rows [] \<longleftrightarrow> True"
| "rows [v] \<longleftrightarrow> row v"
| "rows (v # w # vs) \<longleftrightarrow> row v \<and> fst (hd (entries w)) \<in> fst ` set (entries v) \<and> rows (w # vs)"

fun well :: "nat \<Rightarrow> param \<Rightarrow> bool" where
  "well n (Items vs) \<longleftrightarrow> vs \<noteq> [] \<and> (list_all leaf vs \<or> 0 < n \<and> rows vs)"
| "well n (Table m es) \<longleftrightarrow> 0 < n \<and> m = None \<and> es \<noteq> [] \<and> in_order (map fst es) \<and>
     (\<forall>e \<in> set es. key_ok (fst e) \<and> (\<forall>v \<in> Basic_BNFs.snds e. well (n - 1) v))"
| "well n v \<longleftrightarrow> leaf v"

fun named_values :: "param \<Rightarrow> codes \<Rightarrow> (codes \<times> param) list" where
  "named_values (Items vs) p = concat (map (\<lambda>v. named_values v (p @ [91, 93])) vs)"
| "named_values (Table m es) p = concat (map (\<lambda>e. named_values (snd e) (p @ [91] @ fst e @ [93])) es)"
| "named_values v p = [(p, v)]"

fun add_all :: "nat \<Rightarrow> nat \<Rightarrow> (codes \<times> param) list \<Rightarrow> params \<Rightarrow> query_error + params" where
  "add_all limit d [] t = Inr t"
| "add_all limit d (x # xs) t = (case normalize_params limit d t (fst x) (snd x) of Inl e \<Rightarrow> Inl e
     | Inr (t', _) \<Rightarrow> add_all limit d xs t')"

definition name_at :: "nat \<Rightarrow> codes \<Rightarrow> codes" where
  "name_at d k = (if d = 0 then k else [91] @ k @ [93])"

section \<open>Tables\<close>

lemma put_put: "put_param k v (put_param k w t) = put_param k v t"
proof -
  have "entry_put k v (entry_put k w es) = entry_put k v es" for es
  proof (cases "k \<in> fst ` set es")
    case True
    moreover have "fst ` set (map (\<lambda>e. if fst e = k then (k, w) else e) es) = fst ` set es" by (induction es) auto
    ultimately have "k \<in> fst ` set (map (\<lambda>e. if fst e = k then (k, w) else e) es)" by simp
    then show ?thesis using True by (simp add: entry_put_def)
  next
    case False
    have "map (\<lambda>e. if fst e = k then (k, v) else e) xs = xs" if "k \<notin> fst ` set xs" for xs :: "(codes \<times> param) list"
      using that by (intro map_idI) force
    moreover have "k \<notin> fst ` set (takeWhile P es)" "k \<notin> fst ` set (dropWhile P es)" for P
      using False by (auto dest: set_takeWhileD set_dropWhileD)
    ultimately show ?thesis using False by (simp add: entry_put_def)
  qed
  then show ?thesis by (simp add: put_param_def)
qed

lemma slot_put: "slot_of k (put_param k v t) = Held v"
proof -
  have "map_of (entry_put k v es) k = Some v" for es
  proof (cases "k \<in> fst ` set es")
    case True
    then show ?thesis by (induction es) (auto simp: entry_put_def split: if_splits)
  next
    case False
    then have "k \<notin> fst ` set (takeWhile P es)" for P by (auto dest: set_takeWhileD)
    then show ?thesis using False by (simp add: entry_put_def map_add_Some_iff map_of_eq_None_iff)
  qed
  then show ?thesis by (simp add: slot_of_def put_param_def)
qed

lemma put_last:
  assumes "in_order (map fst es @ [k])" "k \<noteq> to_params_hash"
  shows "put_param k v (m, es) = (m, es @ [(k, v)])"
proof -
  have "\<forall>e \<in> set es. fst e \<noteq> k \<and> key_before (fst e) k" using assms(1)
    by (induction es) auto
  then have "k \<notin> fst ` set es" "takeWhile (\<lambda>e. key_before (fst e) k) es = es" "dropWhile (\<lambda>e. key_before (fst e) k) es = []"
    by auto
  then show ?thesis using assms(2) by (simp add: put_param_def entry_put_def)
qed

lemma in_order_append: "in_order (ks @ ls) \<Longrightarrow> in_order ks \<and> in_order ls"
  by (induction ks) auto

lemma in_order_fresh: "in_order (ks @ [k]) \<Longrightarrow> k \<notin> set ks"
  by (induction ks) auto

section \<open>Names\<close>

lemma key_chars: "key_ok k \<Longrightarrow> k \<noteq> [] \<and> 91 \<notin> set k \<and> 93 \<notin> set k"
  by (auto simp: key_ok_def bracket_def list_all_iff)

lemma split_name_at:
  assumes "key_ok k" "after = [] \<or> hd after = 91"
  shows "split_name d (name_at d k @ after) = (k, after)"
proof -
  obtain c r where k: "k = c # r" "c \<noteq> 91" "c \<noteq> 93" "91 \<notin> set r" "93 \<notin> set r"
    using key_chars [OF assms(1)] by (cases k) auto
  show ?thesis
  proof (cases "d = 0")
    case True
    have "takeWhile (\<lambda>c. c \<noteq> 91) (r @ after) = r" "dropWhile (\<lambda>c. c \<noteq> 91) (r @ after) = after"
      using k(4) assms(2) by (induction r) (cases after; simp)+
    then show ?thesis using True k(1) by (simp add: split_name_def name_at_def)
  next
    case False
    have "takeWhile (\<lambda>c. c \<noteq> 93) (r @ 93 # after) = r" "dropWhile (\<lambda>c. c \<noteq> 93) (r @ 93 # after) = 93 # after"
      using k(5) by (induction r) simp_all
    then show ?thesis using False k by (simp add: split_name_def name_at_def)
  qed
qed

lemma split_plain: "key_ok k \<Longrightarrow> split_name d k = (k, [])"
  using split_name_at [of k "[]" 0] key_chars [of k]
  by (cases d; cases k) (auto simp: name_at_def split_name_def)

lemma child_key_of: "key_ok c \<Longrightarrow> child_key (91 # 93 # 91 # c @ [93]) = c"
  by (auto simp: child_key_def Let_def key_ok_def list_ex_iff list_all_iff numeral_3_eq_3)

lemma has_key_iff:
  assumes "key_ok c"
  shows "params_hash_has_key (Table None es) c \<longleftrightarrow> c \<in> fst ` set es"
proof -
  have c: "list_all (\<lambda>x. \<not> bracket x) c" "c \<noteq> []" "c \<noteq> to_params_hash"
    using assms by (auto simp: key_ok_def list_all_iff)
  have "91 \<notin> set c" using key_chars [OF assms] by simp
  then have "\<not> sublist [91, 93] c" using set_mono_sublist [of "[91, 93]" c] by auto
  then have "params_hash_has_key (Table None es) c \<longleftrightarrow> slot_of c (None, es) \<noteq> Missing"
    using split_by_none [OF c(1)] c(2) by (auto simp: params_hash_has_key_def split: slot.splits)
  also have "\<dots> \<longleftrightarrow> map_of es c \<noteq> None" using c(3) by (simp add: slot_of_def split: option.splits)
  finally show ?thesis by (simp add: map_of_eq_None_iff)
qed

section \<open>One name\<close>

lemma norm_leaf:
  "key_ok k \<Longrightarrow> d < limit \<Longrightarrow> normalize_params limit d t (name_at d k) v = Inr (put_param k v t, Self)"
  using split_name_at [of k "[]" d] key_chars [of k] by (subst normalize_params.simps) auto

lemma norm_item:
  "key_ok k \<Longrightarrow> d < limit \<Longrightarrow> slot_items (slot_of k t) = Some vs \<Longrightarrow>
   normalize_params limit d t (name_at d k @ [91, 93]) v = Inr (put_param k (Items (vs @ [v])) t, Self)"
  using split_name_at [of k "[91, 93]" d] key_chars [of k] by (subst normalize_params.simps) auto

lemma norm_child:
  assumes "key_ok k" "key_ok c" "d + 1 < limit" "slot_items (slot_of k t) = Some us"
  shows "normalize_params limit d t (name_at d k @ 91 # 93 # 91 # c @ [93]) v =
    (case (if us = [] then None else params_of (last us)) of
       Some u \<Rightarrow> if \<not> params_hash_has_key (last us) c
         then Inr (put_param k (Items (butlast us @ [as_table (put_param c v u)])) t, Self)
         else Inr (put_param k (Items (us @ [as_table (put_param c v make_params)])) t, Self)
     | None \<Rightarrow> Inr (put_param k (Items (us @ [as_table (put_param c v make_params)])) t, Self))"
proof -
  have inner: "normalize_params limit (d + 1) u c v = Inr (put_param c v u, Self)" for u
    using split_plain [OF assms(2)] key_chars [OF assms(2)] assms(3) by (subst normalize_params.simps) auto
  have split: "split_name d (name_at d k @ 91 # 93 # 91 # c @ [93]) = (k, 91 # 93 # 91 # c @ [93])"
    by (rule split_name_at [OF assms(1)]) simp
  have k: "k \<noteq> []" "\<not> limit \<le> d" using key_chars [OF assms(1)] assms(3) by auto
  show ?thesis using k assms(4)
    by (simp add: normalize_params.simps [of limit d t "name_at d k @ 91 # 93 # 91 # c @ [93]" v] split
        child_key_of [OF assms(2)] inner [simplified] value_of_def split: option.splits)
qed

text \<open>What a name goes on with after a key: a key in brackets, and so on.\<close>

definition onward :: "codes \<Rightarrow> bool" where
  "onward n \<longleftrightarrow> (\<exists>c rest. n = [91] @ c @ 93 # rest \<and> key_ok c \<and> (rest = [] \<or> hd rest = 91 \<and> rest \<noteq> [91]))"

lemma norm_down:
  assumes "key_ok k" "d < limit" "onward n" "slot_params (slot_of k t) = Some u"
  shows "normalize_params limit d t (name_at d k @ n) v =
    (case normalize_params limit (d + 1) u n v of Inl e \<Rightarrow> Inl e
     | Inr (u', r) \<Rightarrow> Inr (put_param k (value_of r u') t, Self))"
proof -
  obtain c rest where n: "n = [91] @ c @ 93 # rest" "key_ok c" using assms(3) by (auto simp: onward_def)
  obtain x xs where c: "c = x # xs" "x \<noteq> 93" using key_chars [OF n(2)] by (cases c) auto
  have "split_name d (name_at d k @ n) = (k, n)" by (rule split_name_at [OF assms(1)]) (simp add: n)
  moreover have "n \<noteq> []" "n \<noteq> [91]" "n \<noteq> [91, 93]" "take 2 n \<noteq> [91, 93]" using n(1) c by simp_all
  ultimately show ?thesis using assms(2,4) key_chars [OF assms(1)]
    by (simp add: normalize_params.simps [of limit d t "name_at d k @ n" v])
qed

lemma norm_self:
  assumes "onward n" "d \<noteq> 0" "normalize_params limit d t n v = Inr (t', r)"
  shows "r = Self \<and> fst t' = fst t"
proof -
  obtain c rest where n: "n = name_at d c @ rest" "key_ok c" "rest = [] \<or> hd rest = 91" "rest \<noteq> [91]"
    using assms(1,2) by (auto simp: onward_def name_at_def)
  have split: "split_name d n = (c, rest)" unfolding n(1) by (rule split_name_at [OF n(2,3)])
  have c: "c \<noteq> []" "c \<noteq> [91, 93]" "c \<noteq> to_params_hash" using key_chars [OF n(2)] n(2) by (auto simp: key_ok_def)
  then have "fst (put_param c w t) = fst t" for w by (simp add: put_param_def)
  then show ?thesis using assms(3) c n(4)
    by (subst (asm) normalize_params.simps) (auto simp: split split: if_splits option.splits sum.splits)
qed

section \<open>All names of a value\<close>

lemma add_all_append:
  "add_all limit d (xs @ ys) t = (case add_all limit d xs t of Inl e \<Rightarrow> Inl e | Inr t' \<Rightarrow> add_all limit d ys t')"
  by (induction xs arbitrary: t) (simp_all split: sum.splits prod.splits)

lemma leaf_pairs: "leaf v \<Longrightarrow> named_values v p = [(p, v)]"
  by (cases v) (simp_all add: leaf_def)

lemma item_pairs: "list_all leaf vs \<Longrightarrow> named_values (Items vs) p = map (\<lambda>v. (p @ [91, 93], v)) vs"
  by (induction vs) (simp_all add: leaf_pairs)

lemma add_items:
  assumes "key_ok k" "d < limit"
  shows "slot_items (slot_of k t) = Some us \<Longrightarrow> vs \<noteq> [] \<Longrightarrow>
    add_all limit d (map (\<lambda>v. (name_at d k @ [91, 93], v)) vs) t = Inr (put_param k (Items (us @ vs)) t)"
proof (induction vs arbitrary: us t)
  case (Cons v vs)
  let ?t = "put_param k (Items (us @ [v])) t"
  have s: "slot_items (slot_of k ?t) = Some (us @ [v])" by (simp add: slot_put slot_items_def)
  have one: "normalize_params limit d t (name_at d k @ [91, 93]) v = Inr (?t, Self)"
    by (rule norm_item [OF assms Cons.prems(1)])
  show ?case
  proof (cases "vs = []")
    case False
    then show ?thesis using Cons.IH [OF s] one put_put [of k] by simp
  qed (use one in simp)
qed simp

lemma add_row_rest:
  assumes "key_ok k" "d + 1 < limit"
  shows "in_order (map fst (fs @ es)) \<Longrightarrow> list_all (\<lambda>e. key_ok (fst e)) es \<Longrightarrow>
    slot_of k t = Held (Items (us @ [Table None fs])) \<Longrightarrow> es \<noteq> [] \<Longrightarrow>
    add_all limit d (map (\<lambda>e. (name_at d k @ 91 # 93 # 91 # fst e @ [93], snd e)) es) t =
      Inr (put_param k (Items (us @ [Table None (fs @ es)])) t)"
proof (induction es arbitrary: fs t)
  case (Cons e es)
  let ?t = "put_param k (Items (us @ [Table None (fs @ [e])])) t"
  have e: "key_ok (fst e)" "in_order (map fst fs @ [fst e])"
    using Cons.prems(1,2) in_order_append [of "map fst fs @ [fst e]" "map fst es"] by simp_all
  have put: "put_param (fst e) (snd e) (None, fs) = (None, fs @ [e])"
    using put_last [OF e(2)] e(1) by (simp add: key_ok_def)
  have "\<not> params_hash_has_key (Table None fs) (fst e)" using has_key_iff [OF e(1)] in_order_fresh [OF e(2)] by simp
  then have one: "normalize_params limit d t (name_at d k @ 91 # 93 # 91 # fst e @ [93]) (snd e) = Inr (?t, Self)"
    using norm_child [OF assms(1) e(1) assms(2), of t "us @ [Table None fs]" "snd e"] Cons.prems(3) put
    by (simp add: slot_items_def params_of_def)
  show ?case
  proof (cases "es = []")
    case False
    then show ?thesis using Cons.IH [of "fs @ [e]" ?t] Cons.prems(1,2) one put_put [of k] by (simp add: slot_put)
  qed (use one in simp)
qed simp

lemma row_table: "row v \<Longrightarrow> \<exists>es. v = Table None es"
  by (auto simp: row_def split: param.splits option.splits)

lemma add_row:
  assumes "key_ok k" "d + 1 < limit" "row (Table None es)" "slot_items (slot_of k t) = Some us"
    and "us = [] \<or> (\<exists>fs. last us = Table None fs \<and> fst (hd es) \<in> fst ` set fs)"
  shows "add_all limit d (map (\<lambda>e. (name_at d k @ 91 # 93 # 91 # fst e @ [93], snd e)) es) t =
    Inr (put_param k (Items (us @ [Table None es])) t)"
proof -
  obtain e r where es: "es = e # r" using assms(3) by (cases es) (simp_all add: row_def)
  let ?t = "put_param k (Items (us @ [Table None [e]])) t"
  have e: "key_ok (fst e)" "list_all (\<lambda>e. key_ok (fst e)) r" "in_order (map fst ([e] @ r))"
    using assms(3) es by (auto simp: row_def list_all_iff)
  have put: "put_param (fst e) (snd e) make_params = (None, [e])"
    using put_last [of "[]" "fst e"] e(1) by (simp add: key_ok_def make_params_def)
  have "us = [] \<or> (\<exists>fs. last us = Table None fs \<and> params_hash_has_key (Table None fs) (fst e))"
    using assms(5) has_key_iff [OF e(1)] unfolding es list.sel by blast
  then have "normalize_params limit d t (name_at d k @ 91 # 93 # 91 # fst e @ [93]) (snd e) = Inr (?t, Self)"
    using norm_child [OF assms(1) e(1) assms(2,4), of "snd e"] put by (elim disjE exE conjE) (simp_all add: params_of_def)
  then have one: "add_all limit d (map (\<lambda>e. (name_at d k @ 91 # 93 # 91 # fst e @ [93], snd e)) es) t =
      add_all limit d (map (\<lambda>e. (name_at d k @ 91 # 93 # 91 # fst e @ [93], snd e)) r) ?t" using es by simp
  show ?thesis
  proof (cases "r = []")
    case False
    then show ?thesis using add_row_rest [OF assms(1,2) e(3,2), of ?t us] one es put_put [of k] by (simp add: slot_put)
  qed (use one es in simp)
qed

lemma row_pairs:
  "row (Table None es) \<Longrightarrow> named_values (Table None es) (p @ [91, 93]) = map (\<lambda>e. (p @ 91 # 93 # 91 # fst e @ [93], snd e)) es"
proof -
  assume "row (Table None es)"
  then have "list_all (\<lambda>e. leaf (snd e)) es" by (simp add: row_def list_all_iff)
  then show ?thesis by (induction es) (simp_all add: leaf_pairs)
qed

lemma add_rows:
  assumes "key_ok k" "d + 1 < limit"
  shows "rows vs \<Longrightarrow> vs \<noteq> [] \<Longrightarrow> slot_items (slot_of k t) = Some us \<Longrightarrow>
    us = [] \<or> (\<exists>fs. last us = Table None fs \<and> fst (hd (entries (hd vs))) \<in> fst ` set fs) \<Longrightarrow>
    add_all limit d (named_values (Items vs) (name_at d k)) t = Inr (put_param k (Items (us @ vs)) t)"
proof (induction vs arbitrary: us t rule: rows.induct)
  case (2 v)
  obtain es where v: "v = Table None es" using "2.prems"(1) row_table by auto
  show ?case using add_row [OF assms, of es t us] 2 v by (simp add: row_pairs entries_def del: named_values.simps(2))
next
  case (3 v w vs)
  obtain es where v: "v = Table None es" using "3.prems"(1) row_table by auto
  let ?t = "put_param k (Items (us @ [v])) t"
  have one: "add_all limit d (named_values v (name_at d k @ [91, 93])) t = Inr ?t"
    using add_row [OF assms, of es t us] 3 v by (simp add: row_pairs entries_def del: named_values.simps(2))
  have "add_all limit d (named_values (Items (w # vs)) (name_at d k)) ?t = Inr (put_param k (Items ((us @ [v]) @ w # vs)) ?t)"
    using "3.prems"(1) by (intro "3.IH") (auto simp: v entries_def slot_put slot_items_def)
  then show ?case using one put_put [of k] by (simp add: add_all_append)
qed simp

lemma add_table:
  assumes "key_ok k" "d < limit"
  shows "nvs \<noteq> [] \<Longrightarrow> \<forall>(n, v) \<in> set nvs. onward n \<Longrightarrow> slot_params (slot_of k t) = Some u \<Longrightarrow> fst u = None \<Longrightarrow>
    add_all limit (d + 1) nvs u = Inr u' \<Longrightarrow>
    add_all limit d (map (\<lambda>(n, v). (name_at d k @ n, v)) nvs) t = Inr (put_param k (Table None (snd u')) t)"
proof (induction nvs arbitrary: t u)
  case (Cons x nvs)
  obtain n v where x: "x = (n, v)" by (cases x)
  obtain u1 r where one: "normalize_params limit (d + 1) u n v = Inr (u1, r)" and rest: "add_all limit (d + 1) nvs u1 = Inr u'"
    using Cons.prems(5) x by (auto split: sum.splits)
  have on: "onward n" using Cons.prems(2) x by simp
  have r: "r = Self" "fst u1 = None" using norm_self [OF on _ one] Cons.prems(4) by simp_all
  let ?t = "put_param k (Table None (snd u1)) t"
  have first: "normalize_params limit d t (name_at d k @ n) v = Inr (?t, Self)"
    using norm_down [OF assms on Cons.prems(3)] one r by (simp add: value_of_def)
  have s: "slot_params (slot_of k ?t) = Some u1" using r(2) by (cases u1) (simp add: slot_put slot_params_def)
  show ?case
  proof (cases "nvs = []")
    case True
    then show ?thesis using first x rest by simp
  next
    case False
    then show ?thesis using Cons.IH [OF False _ s r(2) rest] Cons.prems(2) first x put_put [of k] by simp
  qed
qed simp

lemma snd_in: "snd e \<in> Basic_BNFs.snds e"
  by (cases e) simp

lemma pairs_shift: "named_values v (p @ q) = map (\<lambda>(n, w). (p @ n, w)) (named_values v q)"
proof (induction v arbitrary: q)
  case (Items vs)
  have "map (\<lambda>v. named_values v (p @ q @ [91, 93])) vs = map (\<lambda>v. map (\<lambda>(n, w). (p @ n, w)) (named_values v (q @ [91, 93]))) vs"
    using Items by (intro map_cong) simp_all
  from arg_cong [OF this, of concat] show ?case by (simp add: map_concat comp_def)
next
  case (Table m es)
  have "map (\<lambda>e. named_values (snd e) (p @ q @ [91] @ fst e @ [93])) es =
      map (\<lambda>e. map (\<lambda>(n, w). (p @ n, w)) (named_values (snd e) (q @ [91] @ fst e @ [93]))) es"
    using Table(2) [OF _ snd_in] by (intro map_cong) simp_all
  from arg_cong [OF this, of concat] show ?case by (simp add: map_concat comp_def)
qed simp_all

lemma pairs_extend: "(n, w) \<in> set (named_values v p) \<Longrightarrow> n = p \<or> (\<exists>r. n = p @ 91 # r \<and> r \<noteq> [])"
proof (induction v arbitrary: p)
  case (Items vs)
  then obtain x where "x \<in> set vs" "(n, w) \<in> set (named_values x (p @ [91, 93]))" by auto
  then show ?case using Items(1) [of x "p @ [91, 93]"] by auto
next
  case (Table m es)
  then obtain e where e: "e \<in> set es" "(n, w) \<in> set (named_values (snd e) (p @ [91] @ fst e @ [93]))" by auto
  then have "n = p @ [91] @ fst e @ [93] \<or> (\<exists>r. n = (p @ [91] @ fst e @ [93]) @ 91 # r \<and> r \<noteq> [])"
    using Table(2) [OF _ snd_in] by blast
  then show ?case by auto
qed simp_all

lemma onward_pairs:
  assumes "key_ok c" "(n, w) \<in> set (named_values v ([91] @ c @ [93]))"
  shows "onward n"
proof -
  obtain rest where "n = [91] @ c @ 93 # rest" "rest = [] \<or> hd rest = 91 \<and> rest \<noteq> [91]"
    using pairs_extend [OF assms(2)] by auto
  then show ?thesis using assms(1) unfolding onward_def by blast
qed

lemma leaf_list: "list_all leaf vs \<Longrightarrow> vs \<noteq> [] \<Longrightarrow> named_values (Items vs) p \<noteq> []"
  by (simp add: item_pairs del: named_values.simps(1))

lemma row_list: "rows vs \<Longrightarrow> vs \<noteq> [] \<Longrightarrow> named_values (Items vs) p \<noteq> []"
proof -
  assume "rows vs" "vs \<noteq> []"
  then obtain v ws where v: "vs = v # ws" "row v" by (cases vs rule: rows.cases) auto
  then obtain es where "v = Table None es" using row_table by blast
  moreover from this have "es \<noteq> []" using v(2) by (simp add: row_def)
  ultimately show ?thesis using v row_pairs [of es p] by (simp del: named_values.simps(2))
qed

lemma well_entry: "well n (Table m es) \<Longrightarrow> e \<in> set es \<Longrightarrow> key_ok (fst e) \<and> well (n - 1) (snd e)"
  unfolding well.simps(2) using snd_in [of e] by blast

lemma pairs_nonempty: "well n v \<Longrightarrow> named_values v p \<noteq> []"
proof (induction v arbitrary: n p)
  case (Items vs)
  then show ?case using leaf_list row_list by (metis well.simps(1))
next
  case (Table m es)
  then obtain e r where es: "es = e # r" by (cases es) auto
  then have "well (n - 1) (snd e)" using well_entry [OF Table(3)] by simp
  then have "named_values (snd e) (p @ [91] @ fst e @ [93]) \<noteq> []" using Table(2) [OF _ snd_in] es by simp
  then show ?case using es by simp
qed simp_all

section \<open>Names and values are put where they came from\<close>

definition entry_pairs :: "nat \<Rightarrow> (codes \<times> param) list \<Rightarrow> (codes \<times> param) list" where
  "entry_pairs d es = concat (map (\<lambda>e. named_values (snd e) (name_at d (fst e))) es)"

definition placed :: "nat \<Rightarrow> param \<Rightarrow> bool" where
  "placed limit v \<longleftrightarrow> (\<forall>d t k. d < limit \<longrightarrow> key_ok k \<longrightarrow> well (limit - d - 1) v \<longrightarrow> slot_of k t = Missing \<longrightarrow>
     add_all limit d (named_values v (name_at d k)) t = Inr (put_param k v t))"

lemma slot_missing: "k \<notin> fst ` set es \<Longrightarrow> key_ok k \<Longrightarrow> slot_of k (m, es) = Missing"
  by (auto simp: slot_of_def key_ok_def map_of_eq_None_iff split: option.splits dest: map_of_SomeD)

lemma entries_placed:
  assumes "d < limit"
  shows "\<forall>e \<in> set es. placed limit (snd e) \<and> key_ok (fst e) \<and> well (limit - d - 1) (snd e) \<Longrightarrow>
    in_order (map fst fs @ map fst es) \<Longrightarrow> add_all limit d (entry_pairs d es) (m, fs) = Inr (m, fs @ es)"
proof (induction es arbitrary: fs)
  case (Cons e es)
  have e: "placed limit (snd e)" "key_ok (fst e)" "well (limit - d - 1) (snd e)" using Cons.prems(1) by auto
  have o': "in_order (map fst fs @ [fst e])" using Cons.prems(2) in_order_append [of "map fst fs @ [fst e]" "map fst es"] by simp
  then have "slot_of (fst e) (m, fs) = Missing" using slot_missing e(2) in_order_fresh [OF o'] by simp
  then have "add_all limit d (named_values (snd e) (name_at d (fst e))) (m, fs) = Inr (put_param (fst e) (snd e) (m, fs))"
    using e assms unfolding placed_def by blast
  also have "put_param (fst e) (snd e) (m, fs) = (m, fs @ [e])"
    using put_last [OF o'] e(2) by (simp add: key_ok_def)
  finally show ?case using Cons.IH [of "fs @ [e]"] Cons.prems by (simp add: entry_pairs_def add_all_append)
qed (simp add: entry_pairs_def)

lemma all_placed: "placed limit v"
proof (induction v)
  case (Items vs)
  show ?case unfolding placed_def
  proof (intro allI impI)
    fix d t k assume a: "d < limit" "key_ok k" "well (limit - d - 1) (Items vs)" "slot_of k t = Missing"
    then have s: "slot_items (slot_of k t) = Some []" "vs \<noteq> []" by (auto simp: slot_items_def)
    show "add_all limit d (named_values (Items vs) (name_at d k)) t = Inr (put_param k (Items vs) t)"
    proof (cases "list_all leaf vs")
      case True
      then show ?thesis using add_items [OF a(2,1) s] by (simp add: item_pairs del: named_values.simps(1))
    next
      case False
      then have "d + 1 < limit" "rows vs" using a(3) by auto
      then show ?thesis using add_rows [OF a(2) _ _ s(2,1)] by simp
    qed
  qed
next
  case (Table m es)
  show ?case unfolding placed_def
  proof (intro allI impI)
    fix d t k assume a: "d < limit" "key_ok k" "well (limit - d - 1) (Table m es)" "slot_of k t = Missing"
    have m: "m = None" "es \<noteq> []" "in_order (map fst es)" "d + 1 < limit" using a(3) by auto
    have es: "\<forall>e \<in> set es. placed limit (snd e) \<and> key_ok (fst e) \<and> well (limit - (d + 1) - 1) (snd e)"
      using well_entry [OF a(3)] Table(2) [OF _ snd_in] by auto
    have add: "add_all limit (d + 1) (entry_pairs (d + 1) es) make_params = Inr (None, es)"
      using entries_placed [OF m(4) es, of "[]" None] m(3) by (simp add: make_params_def)
    have on: "\<forall>(n, v) \<in> set (entry_pairs (d + 1) es). onward n"
      using es onward_pairs by (fastforce simp: entry_pairs_def name_at_def)
    obtain e r where e: "es = e # r" using m(2) by (cases es) auto
    have ne: "entry_pairs (d + 1) es \<noteq> []"
      using es pairs_nonempty [of _ "snd e"] unfolding e entry_pairs_def by auto
    have "named_values (Table m es) (name_at d k) = map (\<lambda>(n, v). (name_at d k @ n, v)) (entry_pairs (d + 1) es)"
      using pairs_shift [of _ "name_at d k"] by (simp add: entry_pairs_def name_at_def map_concat comp_def)
    moreover have "slot_params (slot_of k t) = Some make_params" using a(4) by (simp add: slot_params_def)
    ultimately show "add_all limit d (named_values (Table m es) (name_at d k)) t = Inr (put_param k (Table m es) t)"
      using add_table [OF a(2,1) ne on _ _ add] m(1) by (simp add: make_params_def)
  qed
qed (simp_all add: placed_def norm_leaf)

section \<open>The text that is written\<close>

fun full :: "param \<Rightarrow> bool" where
  "full (Items vs) \<longleftrightarrow> vs \<noteq> [] \<and> (\<forall>v \<in> set vs. full v)"
| "full (Table m es) \<longleftrightarrow> es \<noteq> [] \<and> (\<forall>e \<in> set es. key_ok (fst e) \<and> (\<forall>v \<in> Basic_BNFs.snds e. full v))"
| "full v \<longleftrightarrow> leaf v"

lemma leaf_full: "leaf v \<Longrightarrow> full v"
  by (cases v) (simp_all add: leaf_def)

lemma full_table: "full (Table m es) \<longleftrightarrow> es \<noteq> [] \<and> (\<forall>e \<in> set es. key_ok (fst e) \<and> full (snd e))"
  by (auto simp: snd_in)

lemma row_full: "row v \<Longrightarrow> full v"
  using row_table [of v] by (auto simp: row_def full_table list_all_iff leaf_full simp del: full.simps)

lemma rows_full: "rows vs \<Longrightarrow> v \<in> set vs \<Longrightarrow> full v"
  by (induction vs rule: rows.induct) (auto simp: row_full simp del: full.simps)

lemma well_full: "well n v \<Longrightarrow> full v"
proof (induction v arbitrary: n)
  case (Items vs)
  then show ?case using rows_full by (auto simp: list_all_iff leaf_full)
next
  case (Table m es)
  then have "key_ok (fst e) \<and> full (snd e)" if "e \<in> set es" for e
    using well_entry [OF Table(3) that] Table(2) [OF that snd_in] by blast
  then show ?case using Table(3) unfolding full_table by simp
qed simp_all

abbreviation (input) written :: "(codes \<times> param) list \<Rightarrow> codes list" where
  "written xs \<equiv> map (\<lambda>(n, w). written_pair n w) xs"

lemma full_nonempty: "full v \<Longrightarrow> named_values v p \<noteq> []"
proof (induction v arbitrary: p)
  case (Items vs)
  then show ?case by (cases vs) auto
next
  case (Table m es)
  then obtain e r where e: "es = e # r" by (cases es) auto
  have "full (snd e)" using Table(3) unfolding full_table e by simp
  then have "named_values (snd e) q \<noteq> []" for q using Table(2) [OF _ snd_in] e by simp
  then show ?case by (simp add: e)
qed simp_all

lemma bracket_scalar: "scalar 91" "scalar 93"
  by (simp_all add: scalar_def surrogate_def)

lemma full_names:
  "full v \<Longrightarrow> list_all scalar p \<Longrightarrow> (n, w) \<in> set (named_values v p) \<Longrightarrow> list_all scalar n \<and> leaf w"
proof (induction v arbitrary: p)
  case (Items vs)
  then obtain x where x: "x \<in> set vs" "(n, w) \<in> set (named_values x (p @ [91, 93]))" by auto
  have "list_all scalar (p @ [91, 93])" using Items(3) bracket_scalar by simp
  then show ?case using Items(1) [OF x(1) _ _ x(2)] Items(2) x(1) by simp
next
  case (Table m es)
  then obtain e where e: "e \<in> set es" "(n, w) \<in> set (named_values (snd e) (p @ [91] @ fst e @ [93]))" by auto
  have f: "key_ok (fst e)" "full (snd e)" using Table(3) e(1) unfolding full_table by auto
  then have "list_all scalar (p @ [91] @ fst e @ [93])"
    using Table(4) bracket_scalar by (auto simp: key_ok_def list_all_iff)
  then show ?case using Table(2) [OF e(1) snd_in f(2) _ e(2)] by blast
qed simp_all

lemma amp_join_append: "xs \<noteq> [] \<Longrightarrow> ys \<noteq> [] \<Longrightarrow> amp_join (xs @ ys) = amp_join xs @ 38 # amp_join ys"
  by (cases xs; cases ys) (simp_all add: join_with_def)

lemma amp_join_concat: "list_all (\<lambda>xs. xs \<noteq> []) xss \<Longrightarrow> amp_join (map amp_join xss) = amp_join (concat xss)"
proof (induction xss)
  case (Cons xs xss)
  show ?case
  proof (cases xss)
    case (Cons ys yss)
    then have "concat xss \<noteq> []" "map amp_join xss \<noteq> []" using Cons.prems by auto
    then show ?thesis using amp_join_append [of xs "concat xss"] amp_join_append [of "[amp_join xs]" "map amp_join xss"] Cons.IH Cons.prems
      by (simp add: join_with_def [of 38 "[amp_join xs]"])
  qed (simp add: join_with_def)
qed (simp add: join_with_def)

lemma amp_join_nonempty: "xs \<noteq> [] \<Longrightarrow> hd xs \<noteq> [] \<Longrightarrow> amp_join xs \<noteq> []"
  by (cases xs) (simp_all add: join_with_def)

lemma all_written_map: "\<forall>x \<in> set xs. f x = Some (g x) \<Longrightarrow> all_written (map f xs) = Some (map g xs)"
  by (induction xs) simp_all

lemma written_nonempty: "n \<noteq> [] \<Longrightarrow> written_pair n w \<noteq> []"
  by (auto simp: written_pair_def www_escape_empty split: param.splits)

lemma join_entries:
  assumes "\<forall>e \<in> set es. full (snd e) \<and> f e \<noteq> []"
  shows "amp_join (filter (\<lambda>w. w \<noteq> []) (map (\<lambda>e. amp_join (written (named_values (snd e) (f e)))) es)) =
    amp_join (written (concat (map (\<lambda>e. named_values (snd e) (f e)) es)))"
proof -
  let ?f = "\<lambda>e. written (named_values (snd e) (f e))"
  have "?f e \<noteq> [] \<and> amp_join (?f e) \<noteq> []" if e: "e \<in> set es" for e
  proof -
    obtain n w r where p: "named_values (snd e) (f e) = (n, w) # r"
      using full_nonempty [of "snd e" "f e"] assms e by (cases "named_values (snd e) (f e)") auto
    then have "n \<noteq> []" using pairs_extend [of n w "snd e" "f e"] assms e by auto
    then show ?thesis using amp_join_nonempty [of "?f e"] written_nonempty p by simp
  qed
  then have "filter (\<lambda>w. w \<noteq> []) (map (\<lambda>e. amp_join (?f e)) es) = map amp_join (map ?f es)"
    and "list_all (\<lambda>xs. xs \<noteq> []) (map ?f es)" by (auto simp: list_all_iff comp_def intro!: filter_True)
  then show ?thesis using amp_join_concat [of "map ?f es"] by (simp add: map_concat comp_def)
qed

lemma build_pairs:
  "full v \<Longrightarrow> p \<noteq> [] \<Longrightarrow> build_nested_query v (Some p) = Some (amp_join (written (named_values v p)))"
proof (induction v arbitrary: p)
  case (Items vs)
  let ?f = "\<lambda>v. written (named_values v (p @ [91, 93]))"
  have "all_written (map (\<lambda>v. build_nested_query v (Some (p @ [91, 93]))) vs) = Some (map (\<lambda>v. amp_join (?f v)) vs)"
    by (rule all_written_map) (use Items in simp)
  moreover have "amp_join (map amp_join (map ?f vs)) = amp_join (concat (map ?f vs))"
    by (rule amp_join_concat) (use Items(2) full_nonempty in \<open>auto simp: list_all_iff\<close>)
  ultimately show ?case by (simp add: map_concat comp_def)
next
  case (Table m es)
  have f: "full (snd e)" if "e \<in> set es" for e using Table(3) that unfolding full_table by simp
  have "all_written (map (\<lambda>e. build_nested_query (snd e) (Some (p @ [91] @ fst e @ [93]))) es) =
      Some (map (\<lambda>e. amp_join (written (named_values (snd e) (p @ [91] @ fst e @ [93])))) es)"
    by (rule all_written_map) (use f Table(2) [OF _ snd_in] in simp)
  then show ?case using join_entries [of es "\<lambda>e. p @ [91] @ fst e @ [93]"] f by simp
qed (auto simp: leaf_def join_with_def written_pair_def)

lemma name_chars: "list_all scalar s \<Longrightarrow> 61 \<notin> set (www_escape s) \<and> 38 \<notin> set (www_escape s) \<and> 32 \<notin> set (www_escape s)"
  using www_escape_chars by blast

lemma written_pair_read:
  assumes "list_all scalar n" "leaf w"
  shows "decode_pair (written_pair n w) = Some (n, w)"
proof (cases w)
  case (Text s)
  note until [of 61 "www_escape n" "www_escape s"]
  moreover have "61 \<notin> set (www_escape n)" using name_chars [OF assms(1)] by blast
  ultimately show ?thesis using assms Text by (simp add: decode_pair_def written_pair_def www_reads_back leaf_def)
qed (use assms name_chars [OF assms(1)] in \<open>simp_all add: decode_pair_def written_pair_def www_reads_back leaf_def\<close>)

lemma written_chars:
  "list_all scalar n \<Longrightarrow> leaf w \<Longrightarrow> 38 \<notin> set (written_pair n w) \<and> 32 \<notin> set (written_pair n w)"
  using name_chars [of n] name_chars by (cases w) (auto simp: written_pair_def leaf_def)

lemma split_join:
  "list_all (\<lambda>x. 38 \<notin> set x \<and> 32 \<notin> set x) (x # xs) \<Longrightarrow> split_query [38] (amp_join (x # xs)) = x # xs"
  unfolding split_query_def by (rule split_skip_join) (auto simp: list_all_iff)

lemma read_written:
  "\<forall>(n, w) \<in> set xs. n \<noteq> [] \<and> list_all scalar n \<and> leaf w \<Longrightarrow>
   read_pairs (add_nested limit) (written xs) t = add_all limit 0 xs t"
  by (induction xs arbitrary: t) (auto simp: written_nonempty written_pair_read add_nested_def split: sum.splits)



section \<open>A hidden property\<close>

lemmas parse_simps = parse_nested_query_def make_default_def check_query_string_def separators_def codes_of_def utf8_def
  surrogate_def split_query_def split_skip.simps decode_pair_def www_unescape_def add_nested_def normalize_params.simps split_name_def
  put_param_def to_params_hash_def slot_of_def slot_params_def make_params_def value_of_def entry_put_def

text \<open>
  A parameter with the name of the hidden method is lost, and inside a table it makes the table one
  the parser no longer takes for its own.
\<close>
theorem to_params_hash_is_swallowed:
  "parse_nested_query (make_default 32 None None) (codes_of ''toParamsHash=1'') None = Inr [] \<and>
   parse_nested_query (make_default 32 None None) (codes_of ''a[toParamsHash]=1&a[b]=2'') None = Inl (Parameter_type [97])"
  by (simp add: parse_simps)

end
