(* ===== verification/Rack_Utils.thy ===== *)
theory Rack_Utils
  imports Rack_Query Js_Number
begin

text \<open>
  Utilities of \<^verbatim>\<open>packages/rack/src/utils.ts\<close>: byte ranges, the cleaning of paths, the choice of an
  encoding, escaping for HTML, cookies and status codes. Headers are Latin-1 strings; paths, cookies
  and HTML are lists of code points. Sizes are below \<open>2 ^ 53\<close>.
\<close>

section \<open>Byte ranges\<close>

text \<open>The match of \<open>/bytes=([^;]+)/\<close>.\<close>

fun find_ranges :: "string \<Rightarrow> string option" where
  "find_ranges [] = None"
| "find_ranges (c # cs) = (if take 6 (c # cs) = ''bytes='' \<and> drop 6 (c # cs) \<noteq> [] \<and> (c # cs) ! 6 \<noteq> CHR '';''
     then Some (takeWhile (\<lambda>d. d \<noteq> CHR '';'') (drop 6 (c # cs))) else find_ranges cs)"

definition minus_num :: "nat \<Rightarrow> jsnum \<Rightarrow> jsnum" where
  "minus_num n x = (case x of NaN \<Rightarrow> NaN | Infinite neg \<Rightarrow> Infinite (\<not> neg) | Fin q \<Rightarrow> Fin (of_nat n - q))"

text \<open>A range is kept when it is not empty; its ends are finite then.\<close>

definition kept_range :: "jsnum \<Rightarrow> jsnum \<Rightarrow> (rat \<times> rat) list" where
  "kept_range r0 r1 = (if num_le r0 r1 then (case (r0, r1) of (Fin a, Fin b) \<Rightarrow> [(a, b)] | _ \<Rightarrow> []) else [])"

definition byte_range :: "nat \<Rightarrow> string \<Rightarrow> (rat \<times> rat) list option" where
  "byte_range sz spec = (if CHR ''-'' \<notin> set spec then None else
     (let parts = split_by (\<lambda>c. c = CHR ''-'') spec; r0s = parts ! 0; r1s = parts ! 1; last_byte = Fin (of_nat (sz - 1)) in
      if r0s = [] then
        (if r1s = [] then None
         else (let r0 = minus_num sz (parse_int r1s) in Some (kept_range (if num_less r0 (Fin 0) then Fin 0 else r0) last_byte)))
      else (let r0 = parse_int r0s in
        if r1s = [] then Some (kept_range r0 last_byte)
        else (let r1 = parse_int r1s in
          if num_less r1 r0 then None
          else Some (kept_range r0 (if num_le (Fin (of_nat sz)) r1 then last_byte else r1))))))"

fun all_ranges :: "nat \<Rightarrow> string list \<Rightarrow> (rat \<times> rat) list option" where
  "all_ranges sz [] = Some []"
| "all_ranges sz (spec # specs) = (case byte_range sz spec of None \<Rightarrow> None
     | Some rs \<Rightarrow> map_option ((@) rs) (all_ranges sz specs))"

definition get_byte_ranges :: "string option \<Rightarrow> nat \<Rightarrow> (rat \<times> rat) list option" where
  "get_byte_ranges http_range sz = (if sz = 0 then None else
     (case http_range of None \<Rightarrow> None | Some h \<Rightarrow>
       (case find_ranges h of None \<Rightarrow> None | Some specs \<Rightarrow>
         (case all_ranges sz (split_skip (\<lambda>c. c = CHR '','') (\<lambda>c. c = CHR '' '' \<or> of_char c = (9 :: nat)) specs) of
            None \<Rightarrow> None
          | Some ranges \<Rightarrow> Some (if of_nat sz < sum_list (map (\<lambda>(a, b). b - a + 1) ranges) then [] else ranges)))))"

section \<open>Paths\<close>

definition path_sep :: "nat \<Rightarrow> bool" where
  "path_sep c \<longleftrightarrow> c = 47 \<or> c = 92"

definition clean_step :: "codes \<Rightarrow> codes list \<Rightarrow> codes list" where
  "clean_step part clean = (if part = [] \<or> part = [46] then clean
     else if part = [46, 46] then butlast clean else clean @ [part])"

definition clean_path_info :: "codes \<Rightarrow> codes" where
  "clean_path_info path_info = (let parts = split_by path_sep path_info; result = join_with 47 (fold clean_step parts [])
     in if hd parts = [] then 47 # result else result)"

definition valid_path :: "codes \<Rightarrow> bool" where
  "valid_path p \<longleftrightarrow> 0 \<notin> set p"

section \<open>Encodings\<close>

text \<open>\<open>expanded\<close> pairs a name with its quality and preference; the sort is stable and in place.\<close>

definition expand_encoding :: "string list \<Rightarrow> (string \<times> rat) list \<Rightarrow> string \<times> rat \<Rightarrow> (string \<times> rat \<times> nat) list" where
  "expand_encoding available accept a = (case a of (m, q) \<Rightarrow>
     (let pref = length (takeWhile (\<lambda>x. x \<noteq> m) available)
      in if m = ''*'' then map (\<lambda>m2. (m2, q, pref)) (filter (\<lambda>x. x \<notin> fst ` set accept) available)
         else [(m, q, pref)]))"

definition sort_encodings :: "(string \<times> rat \<times> nat) list \<Rightarrow> (string \<times> rat \<times> nat) list" where
  "sort_encodings es = sort_key (\<lambda>(m, q, p). - q) (sort_key (\<lambda>(m, q, p). p) es)"

definition select_best_encoding :: "string list \<Rightarrow> (string \<times> rat) list \<Rightarrow> string option" where
  "select_best_encoding available accept =
     (let expanded = sort_encodings (concat (map (expand_encoding available accept) accept));
          candidates = map fst expanded;
          candidates = (if ''identity'' \<in> set candidates then candidates else candidates @ [''identity'']);
          candidates = fold (\<lambda>(m, q, p) cs. if q = 0 then remove1 m cs else cs) expanded candidates
      in List.find (\<lambda>c. c \<in> set available) candidates)"

section \<open>HTML\<close>

definition replace_char :: "nat \<Rightarrow> string \<Rightarrow> codes \<Rightarrow> codes" where
  "replace_char c r s = concat (map (\<lambda>x. if x = c then codes_of r else [x]) s)"

definition escape_html :: "codes option \<Rightarrow> codes" where
  "escape_html s = (case s of None \<Rightarrow> [] | Some s \<Rightarrow>
     replace_char 34 ''&quot;'' (replace_char 39 ''&#39;'' (replace_char 62 ''&gt;'' (replace_char 60 ''&lt;''
       (replace_char 38 ''&amp;'' s)))))"

section \<open>Comparison in constant time\<close>

definition secure_compare :: "nat list \<Rightarrow> nat list \<Rightarrow> bool" where
  "secure_compare a b = (if length a \<noteq> length b then False
     else foldl (\<lambda>result p. or result (xor (fst p) (snd p))) 0 (zip a b) = 0)"

section \<open>Cookies\<close>

text \<open>\<open>key in cookies\<close> asks a plain object, so the names of its prototype are taken from the start.\<close>

definition object_prototype :: "codes list" where
  "object_prototype = map codes_of [''constructor'', ''__defineGetter__'', ''__defineSetter__'', ''hasOwnProperty'',
     ''__lookupGetter__'', ''__lookupSetter__'', ''isPrototypeOf'', ''propertyIsEnumerable'', ''toString'', ''valueOf'',
     ''__proto__'', ''toLocaleString'']"

definition add_cookie :: "codes \<Rightarrow> (codes \<times> param) list \<Rightarrow> (codes \<times> param) list" where
  "add_cookie cookie cookies = (if cookie = [] then cookies else
     (let key = takeWhile (\<lambda>c. c \<noteq> 61) cookie; val = drop 1 (dropWhile (\<lambda>c. c \<noteq> 61) cookie)
      in if key \<in> fst ` set cookies \<or> key \<in> set object_prototype then cookies
         else entry_put key (Text (case www_unescape val of Some v \<Rightarrow> v | None \<Rightarrow> val)) cookies))"

definition parse_cookies_header :: "codes \<Rightarrow> (codes \<times> param) list" where
  "parse_cookies_header s = (if s = [] then [] else fold add_cookie (split_skip (\<lambda>c. c = 59) (\<lambda>c. c = 32) s) [])"

section \<open>Status codes\<close>

definition http_status_codes :: "(int \<times> string) list" where
  "http_status_codes = [
     (100, ''Continue''), (101, ''Switching Protocols''), (102, ''Processing''), (103, ''Early Hints''),
     (200, ''OK''), (201, ''Created''), (202, ''Accepted''), (203, ''Non-Authoritative Information''),
     (204, ''No Content''), (205, ''Reset Content''), (206, ''Partial Content''), (207, ''Multi-Status''),
     (208, ''Already Reported''), (226, ''IM Used''),
     (300, ''Multiple Choices''), (301, ''Moved Permanently''), (302, ''Found''), (303, ''See Other''),
     (304, ''Not Modified''), (305, ''Use Proxy''), (307, ''Temporary Redirect''), (308, ''Permanent Redirect''),
     (400, ''Bad Request''), (401, ''Unauthorized''), (402, ''Payment Required''), (403, ''Forbidden''),
     (404, ''Not Found''), (405, ''Method Not Allowed''), (406, ''Not Acceptable''),
     (407, ''Proxy Authentication Required''), (408, ''Request Timeout''), (409, ''Conflict''), (410, ''Gone''),
     (411, ''Length Required''), (412, ''Precondition Failed''), (413, ''Content Too Large''), (414, ''URI Too Long''),
     (415, ''Unsupported Media Type''), (416, ''Range Not Satisfiable''), (417, ''Expectation Failed''),
     (421, ''Misdirected Request''), (422, ''Unprocessable Content''), (423, ''Locked''), (424, ''Failed Dependency''),
     (425, ''Too Early''), (426, ''Upgrade Required''), (428, ''Precondition Required''), (429, ''Too Many Requests''),
     (431, ''Request Header Fields Too Large''), (451, ''Unavailable For Legal Reasons''),
     (500, ''Internal Server Error''), (501, ''Not Implemented''), (502, ''Bad Gateway''), (503, ''Service Unavailable''),
     (504, ''Gateway Timeout''), (505, ''HTTP Version Not Supported''), (506, ''Variant Also Negotiates''),
     (507, ''Insufficient Storage''), (508, ''Loop Detected''), (511, ''Network Authentication Required'')]"

definition to_lower :: "char \<Rightarrow> char" where
  "to_lower c = (let n = of_char c :: nat in if 65 \<le> n \<and> n \<le> 90 then char_of (n + 32) else c)"

definition status_symbol :: "string \<Rightarrow> string" where
  "status_symbol message = map (\<lambda>c. if c = CHR '' '' \<or> c = CHR ''-'' then CHR ''_'' else to_lower c) message"

definition symbol_to_status_code :: "(string \<times> int) list" where
  "symbol_to_status_code = map (\<lambda>(c, m). (status_symbol m, c)) http_status_codes"

definition obsolete_symbols :: "(string \<times> int) list" where
  "obsolete_symbols = [(''payload_too_large'', 413), (''unprocessable_entity'', 422),
     (''bandwidth_limit_exceeded'', 509), (''not_extended'', 510)]"

text \<open>A numeral is read as its number when it is the one \<open>String\<close> writes; they are below \<open>2 ^ 53\<close>.\<close>

definition canonical_number :: "string \<Rightarrow> int option" where
  "canonical_number s = (let (neg, ds) = (if take 1 s = ''-'' then (True, drop 1 s) else (False, s))
     in if ds \<noteq> [] \<and> list_all digit ds \<and> (hd ds = CHR ''0'' \<longrightarrow> length ds = 1 \<and> \<not> neg)
        then Some (if neg then - int (number_of ds) else int (number_of ds)) else None)"

datatype status = Code int | Symbol string

definition status_code :: "status \<Rightarrow> string + int" where
  "status_code st = (case st of Code n \<Rightarrow> Inr n
     | Symbol s \<Rightarrow> (case canonical_number s of Some n \<Rightarrow> Inr n
        | None \<Rightarrow> (case map_of symbol_to_status_code s of Some c \<Rightarrow> Inr c
           | None \<Rightarrow> (case map_of obsolete_symbols s of Some c \<Rightarrow> Inr c | None \<Rightarrow> Inl s))))"

end
