(* ===== verification/Rack_Safe.thy ===== *)
theory Rack_Safe
  imports Rack_Utils "HOL-Library.Multiset"
begin

text \<open>
  What the utilities promise: byte ranges lie in the file, cleaned paths do not climb, the encoding
  chosen is the best one accepted, escaped HTML has no markup, comparison in constant time is equality.
\<close>

section \<open>Byte ranges\<close>

definition range_ok :: "nat \<Rightarrow> rat \<times> rat \<Rightarrow> bool" where
  "range_ok sz r \<longleftrightarrow> (case r of (a, b) \<Rightarrow> a \<in> \<int> \<and> b \<in> \<int> \<and> 0 \<le> a \<and> a \<le> b \<and> b \<le> of_nat sz - 1)"

lemma parse_int_plain:
  assumes "CHR ''-'' \<notin> set s" "parse_int s = Fin q"
  shows "q \<in> \<int> \<and> 0 \<le> q"
proof -
  obtain n where n: "leading_integer s = Some n" "to_number n = Fin q"
    using assms(2) by (auto simp: parse_int_def split: option.splits)
  have "\<not> fst (split_sign cs)" if "CHR ''-'' \<notin> set cs" for cs
    using that by (cases cs) (auto simp: split_sign_def)
  moreover have "CHR ''-'' \<notin> set (dropWhile white s)" using assms(1) by (auto dest: set_dropWhileD)
  ultimately have "\<not> fst (split_sign (dropWhile white s))" by blast
  then have "0 \<le> n" using n(1) by (auto simp: leading_integer_def Let_def split: prod.splits if_splits)
  then have "0 \<le> round53 n" unfolding round53_def Let_def by (intro mult_nonneg_nonneg) (simp_all add: sgn_if)
  then show ?thesis using n(2) by (auto simp: to_number_def Let_def split: if_splits)
qed

lemma kept_range_ok:
  assumes "\<And>q. r0 = Fin q \<Longrightarrow> q \<in> \<int> \<and> 0 \<le> q" "\<And>q. r1 = Fin q \<Longrightarrow> q \<in> \<int> \<and> q \<le> of_nat sz - 1"
  shows "list_all (range_ok sz) (kept_range r0 r1)"
  using assms by (auto simp: kept_range_def num_le_def num_less_def range_ok_def split: jsnum.splits)

lemma byte_range_ok:
  assumes "0 < sz" "byte_range sz spec = Some rs"
  shows "list_all (range_ok sz) rs"
proof -
  let ?parts = "split_by (\<lambda>c. c = CHR ''-'') spec" and ?last = "Fin (of_nat (sz - 1))"
  have dash: "CHR ''-'' \<in> set spec" using assms(2) by (auto simp: byte_range_def split: if_splits)
  have two: "length ?parts > 1" using dash
    by (induction spec) (auto split: list.splits)
  then have "?parts ! 0 \<in> set ?parts" "?parts ! 1 \<in> set ?parts" by (auto intro: nth_mem)
  moreover have "CHR ''-'' \<notin> set w" if "w \<in> set ?parts" for w
    using split_by_pieces [OF that] by (auto simp: list_all_iff)
  ultimately have plain: "CHR ''-'' \<notin> set (?parts ! 0)" "CHR ''-'' \<notin> set (?parts ! 1)" by blast+
  have last: "q \<in> \<int> \<and> q \<le> of_nat sz - 1" if "?last = Fin q" for q using that assms(1) by (auto simp: of_nat_diff)
  have r1: "q \<in> \<int> \<and> q \<le> of_nat sz - 1"
    if "(if num_le (Fin (of_nat sz)) (parse_int (?parts ! 1)) then ?last else parse_int (?parts ! 1)) = Fin q" for q
  proof (cases "num_le (Fin (of_nat sz)) (parse_int (?parts ! 1))")
    case False
    then have p: "parse_int (?parts ! 1) = Fin q" using that by simp
    then have "q < of_nat sz" using False by (auto simp: num_le_def num_less_def)
    moreover have "q \<in> \<int>" using parse_int_plain [OF plain(2) p] by simp
    ultimately show ?thesis by (auto elim!: Ints_cases) (metis of_int_less_iff of_int_of_nat_eq of_int_1 of_int_diff of_int_le_iff zle_diff1_eq)
  next
    case True
    then have "?last = Fin q" using that by (simp only: if_True)
    then show ?thesis by (rule last)
  qed
  have r0: "q \<in> \<int> \<and> 0 \<le> q"
    if "(if num_less (minus_num sz (parse_int (?parts ! 1))) (Fin 0) then Fin 0 else minus_num sz (parse_int (?parts ! 1))) = Fin q" for q
  proof (cases "parse_int (?parts ! 1)")
    case (Fin p)
    then have "p \<in> \<int>" using parse_int_plain [OF plain(2)] by blast
    then show ?thesis using that Fin by (auto simp: minus_num_def num_less_def split: if_splits)
  qed (use that in \<open>auto simp: minus_num_def num_less_def split: if_splits\<close>)
  consider "rs = kept_range (if num_less (minus_num sz (parse_int (?parts ! 1))) (Fin 0) then Fin 0
      else minus_num sz (parse_int (?parts ! 1))) ?last"
    | "rs = kept_range (parse_int (?parts ! 0)) ?last"
    | "rs = kept_range (parse_int (?parts ! 0)) (if num_le (Fin (of_nat sz)) (parse_int (?parts ! 1)) then ?last
      else parse_int (?parts ! 1))"
    using assms(2) dash by (simp add: byte_range_def Let_def split: if_splits)
  then show ?thesis
  proof cases
    case 1
    show ?thesis unfolding 1 by (rule kept_range_ok, erule r0, erule last)
  next
    case 2
    show ?thesis unfolding 2 by (rule kept_range_ok, erule parse_int_plain [OF plain(1)], erule last)
  next
    case 3
    show ?thesis unfolding 3 by (rule kept_range_ok, erule parse_int_plain [OF plain(1)], erule r1)
  qed
qed

lemma all_ranges_ok: "0 < sz \<Longrightarrow> all_ranges sz specs = Some rs \<Longrightarrow> list_all (range_ok sz) rs"
  by (induction specs arbitrary: rs) (auto split: option.splits dest: byte_range_ok)

text \<open>
  C16. The byte ranges of a header are not empty, have whole ends within the file and add up to at
  most its size.
\<close>
theorem byte_ranges_are_in_the_file:
  "case get_byte_ranges header sz of None \<Rightarrow> True
   | Some rs \<Rightarrow> list_all (\<lambda>(a, b). a \<in> \<int> \<and> b \<in> \<int> \<and> 0 \<le> a \<and> a \<le> b \<and> b \<le> of_nat sz - 1) rs \<and>
       sum_list (map (\<lambda>(a, b). b - a + 1) rs) \<le> of_nat sz"
proof -
  have "list_all (range_ok sz) rs \<and> sum_list (map (\<lambda>(a, b). b - a + 1) rs) \<le> of_nat sz"
    if "get_byte_ranges header sz = Some rs" for rs
    using that all_ranges_ok [of sz]
    by (auto simp: get_byte_ranges_def not_less split: if_splits option.splits)
  moreover have "range_ok sz = (\<lambda>(a, b). a \<in> \<int> \<and> b \<in> \<int> \<and> 0 \<le> a \<and> a \<le> b \<and> b \<le> of_nat sz - 1)"
    by (auto simp: range_ok_def fun_eq_iff)
  ultimately show ?thesis by (simp split: option.splits)
qed

section \<open>Paths\<close>

definition clean_part :: "codes \<Rightarrow> bool" where
  "clean_part w \<longleftrightarrow> w \<noteq> [] \<and> w \<noteq> [46] \<and> w \<noteq> [46, 46] \<and> list_all (\<lambda>c. \<not> path_sep c) w"

lemma list_all_butlast: "list_all P xs \<Longrightarrow> list_all P (butlast xs)"
  by (auto simp: list_all_iff dest: in_set_butlastD)

lemma clean_parts:
  "list_all (list_all (\<lambda>c. \<not> path_sep c)) ws \<Longrightarrow> list_all clean_part acc \<Longrightarrow> list_all clean_part (fold clean_step ws acc)"
proof (induction ws arbitrary: acc)
  case (Cons w ws)
  have "list_all clean_part (clean_step w acc)"
    using Cons.prems list_all_butlast [of clean_part acc]
    by (simp add: clean_step_def) (simp add: clean_part_def)
  then show ?case using Cons by simp
qed simp

lemma clean_again: "list_all clean_part ws \<Longrightarrow> fold clean_step ws acc = acc @ ws"
  by (induction ws arbitrary: acc) (auto simp: clean_step_def clean_part_def)

lemma clean_pieces:
  obtains ws where "list_all clean_part ws" "clean_path_info p = join_with 47 ws \<or> clean_path_info p = 47 # join_with 47 ws"
proof -
  have "list_all (list_all (\<lambda>c. \<not> path_sep c)) (split_by path_sep p)" using split_by_pieces by (auto simp: list_all_iff)
  then have "list_all clean_part (fold clean_step (split_by path_sep p) [])" by (rule clean_parts) simp
  then show ?thesis using that by (auto simp: clean_path_info_def Let_def)
qed

text \<open>
  C15. A cleaned path has no part that is \<open>.\<close> or \<open>..\<close> and no backslash, so it does not leave the
  directory it is looked up in; cleaning it again changes nothing, except that the empty path becomes
  a single slash.
\<close>
theorem cleaned_paths_do_not_climb:
  "let r = clean_path_info p
   in list_all (\<lambda>w. w \<noteq> [46] \<and> w \<noteq> [46, 46]) (split_by path_sep r) \<and> 92 \<notin> set r \<and> 
     clean_path_info r = (if r = [] then [47] else r)"
proof -
  obtain ws where ws: "list_all clean_part ws" and r: "clean_path_info p = join_with 47 ws \<or> clean_path_info p = 47 # join_with 47 ws"
    by (rule clean_pieces)
  have sep: "path_sep 47" "path_sep 92" by (simp_all add: path_sep_def)
  have split: "split_by path_sep (join_with 47 ws) = (if ws = [] then [[]] else ws)"
    using split_by_join [of ws path_sep 47] sep ws by (auto simp: clean_part_def list_all_iff join_with_def)
  have bslash: "92 \<notin> set (join_with 47 ws)"
    using ws sep(2) by (induction ws) (auto simp: join_with_def clean_part_def list_all_iff split: list.splits)
  have dots: "list_all (\<lambda>w. w \<noteq> [46] \<and> w \<noteq> [46, 46]) ws" using ws by (auto simp: clean_part_def list_all_iff)
  have clean: "fold clean_step ([] # vs) [] = fold clean_step vs []" for vs by (simp add: clean_step_def)
  have head: "hd ws \<noteq> []" if "ws \<noteq> []" using ws that by (cases ws) (simp_all add: clean_part_def)
  have slash: "clean_path_info (47 # join_with 47 ws) = 47 # join_with 47 ws"
    using clean_again [OF ws, of "[]"] by (auto simp: clean_path_info_def split sep clean_step_def)
  have rel: "join_with 47 ws = [] \<or> clean_path_info (join_with 47 ws) = join_with 47 ws"
    using clean_again [OF ws, of "[]"] head by (auto simp: clean_path_info_def split join_with_def [of _ "[]"])
  have empty: "clean_path_info [] = [47]" by (simp add: clean_path_info_def clean_step_def join_with_def)
  show ?thesis using r split bslash dots slash rel empty sep(1) by (auto simp: Let_def)
qed

section \<open>Encodings\<close>

text \<open>The quality a header gives to a name; \<open>identity\<close> is always acceptable, last of all.\<close>

definition quality :: "(string \<times> rat) list \<Rightarrow> string \<Rightarrow> rat option" where
  "quality accept m = (case map_of accept m of Some q \<Rightarrow> Some q
     | None \<Rightarrow> (case map_of accept ''*'' of Some q \<Rightarrow> Some q
         | None \<Rightarrow> if m = ''identity'' then Some (- 1) else None))"

definition refused :: "(string \<times> rat) list \<Rightarrow> string \<Rightarrow> bool" where
  "refused accept m \<longleftrightarrow> quality accept m = None \<or> quality accept m = Some 0"

lemma remove_fold:
  "distinct cs \<Longrightarrow> fold (\<lambda>(m, q, p) cs. if q = 0 then remove1 m cs else cs) es cs =
   filter (\<lambda>c. c \<notin> set (map fst (filter (\<lambda>(m, q, p). q = 0) es))) cs"
proof (induction es arbitrary: cs)
  case (Cons e es)
  obtain m q p where e: "e = (m, q, p)" by (cases e)
  show ?case
  proof (cases "q = 0")
    case True
    have "remove1 m cs = filter (\<lambda>c. m \<noteq> c) cs"
      using Cons.prems by (simp add: distinct_remove1_removeAll removeAll_filter_not_eq)
    then show ?thesis using Cons.IH [of "remove1 m cs"] Cons.prems e True
      by (auto simp del: set_map set_filter simp: conj_commute intro!: filter_cong)
  next
    case False
    then show ?thesis using Cons e by simp
  qed
qed simp

lemma find_first:
  assumes "sorted_wrt R xs" "\<And>x. R x x" "List.find P xs = Some c" "m \<in> set xs" "P m"
  shows "R c m"
  using assms(1,3,4)
proof (induction xs)
  case (Cons x xs)
  then show ?case using assms(2,5) by (cases "P x") auto
qed simp

lemma expanded_names:
  "map fst (expand_encoding available accept a) =
     (if fst a = ''*'' then filter (\<lambda>x. x \<notin> fst ` set accept) available else [fst a])"
  by (cases a) (simp add: expand_encoding_def Let_def comp_def)

lemma names_set:
  "set (concat (map (\<lambda>a. map fst (expand_encoding available accept a)) as)) =
    (fst ` set as - {''*''}) \<union> (if ''*'' \<in> fst ` set as then {m \<in> set available. m \<notin> fst ` set accept} else {})"
proof (induction as)
  case (Cons a as)
  then show ?case by (cases "fst a = ''*''") (auto simp: expanded_names)
qed simp

lemma names_once:
  "distinct available \<Longrightarrow> distinct (map fst as) \<Longrightarrow> fst ` set as \<subseteq> fst ` set accept \<Longrightarrow>
    distinct (concat (map (\<lambda>a. map fst (expand_encoding available accept a)) as))"
proof (induction as)
  case (Cons a as)
  let ?f = "\<lambda>a. map fst (expand_encoding available accept a)"
  have "set (?f a) \<inter> set (concat (map ?f as)) = {}"
  proof (cases "fst a = ''*''")
    case True
    then have "set (concat (map ?f as)) \<subseteq> fst ` set accept" using Cons.prems unfolding names_set by auto
    moreover have "set (?f a) \<subseteq> - fst ` set accept" unfolding expanded_names using True by auto
    ultimately show ?thesis by blast
  next
    case False
    then show ?thesis using Cons.prems unfolding names_set expanded_names by auto
  qed
  then show ?case using Cons by (simp add: expanded_names)
qed simp

lemma expanded_quality:
  assumes "distinct (map fst accept)" "distinct available" "m \<in> set available" "''*'' \<notin> set available"
  shows "quality accept m = (case map_of (concat (map (expand_encoding available accept) accept)) m of
     Some (q, p) \<Rightarrow> Some q | None \<Rightarrow> if m = ''identity'' then Some (- 1) else None)"
proof -
  let ?es = "concat (map (expand_encoding available accept) accept)"
  have names: "map fst ?es = concat (map (\<lambda>a. map fst (expand_encoding available accept a)) accept)"
    by (simp add: map_concat comp_def)
  have once: "distinct (map fst ?es)" unfolding names by (rule names_once [OF assms(2,1)]) simp
  have star: "m \<noteq> ''*''" using assms(3,4) by auto
  show ?thesis
  proof (cases "map_of accept m")
    case (Some q)
    then have "(m, q) \<in> set accept" by (rule map_of_SomeD)
    moreover have "(m, q, length (takeWhile (\<lambda>x. x \<noteq> m) available)) \<in> set (expand_encoding available accept (m, q))"
      using star by (simp add: expand_encoding_def Let_def)
    ultimately have "(m, q, length (takeWhile (\<lambda>x. x \<noteq> m) available)) \<in> set ?es" unfolding set_concat set_map by blast
    then show ?thesis using Some map_of_is_SomeI [OF once] by (simp add: quality_def)
  next
    case None
    then have m: "m \<notin> fst ` set accept" by (simp add: map_of_eq_None_iff)
    show ?thesis
    proof (cases "map_of accept ''*''")
      case (Some q)
      then have q: "(''*'', q) \<in> set accept" by (rule map_of_SomeD)
      moreover have "(m, q, length (takeWhile (\<lambda>x. x \<noteq> ''*'') available)) \<in> set (expand_encoding available accept (''*'', q))"
        using assms(3) m by (simp add: expand_encoding_def Let_def)
      ultimately have "(m, q, length (takeWhile (\<lambda>x. x \<noteq> ''*'') available)) \<in> set ?es" unfolding set_concat set_map by blast
      then show ?thesis using Some None map_of_is_SomeI [OF once] by (simp add: quality_def)
    next
      case none: None
      then have "''*'' \<notin> fst ` set accept" by (simp add: map_of_eq_None_iff)
      then have "m \<notin> set (map fst ?es)" using names_set [of available accept accept] m unfolding names by auto
      then have "map_of ?es m = None" unfolding map_of_eq_None_iff by simp
      then show ?thesis using none None by (simp add: quality_def)
    qed
  qed
qed

lemma sort_encodings_facts: "mset (sort_encodings es) = mset es" "sorted (map (\<lambda>(m, q, p). - q) (sort_encodings es))"
  unfolding sort_encodings_def by (simp_all only: mset_sort sorted_sort_key)

text \<open>\<open>ranked es\<close> are the candidates left in the order they are tried, \<open>grade\<close> the quality they are ranked by.\<close>

definition grade :: "(string \<times> rat \<times> nat) list \<Rightarrow> string \<Rightarrow> rat" where
  "grade es m = (case map_of es m of Some (q, p) \<Rightarrow> q | None \<Rightarrow> - 1)"

definition with_identity :: "string list \<Rightarrow> string list" where
  "with_identity cs = (if ''identity'' \<in> set cs then cs else cs @ [''identity''])"

definition ranked :: "(string \<times> rat \<times> nat) list \<Rightarrow> string list" where
  "ranked es = filter (\<lambda>c. c \<notin> set (map fst (filter (\<lambda>(m, q, p). q = 0) (sort_encodings es))))
     (with_identity (map fst (sort_encodings es)))"

lemma sorted_names:
  "mset (map fst (sort_encodings es)) = mset (map fst es)" "set (sort_encodings es) = set es"
  using sort_encodings_facts(1) [of es] by (auto dest: mset_eq_setD)

lemma select_ranked:
  assumes "distinct (map fst (concat (map (expand_encoding available accept) accept)))"
  shows "select_best_encoding available accept =
    List.find (\<lambda>c. c \<in> set available) (ranked (concat (map (expand_encoding available accept) accept)))"
proof -
  have "distinct (with_identity (map fst (sort_encodings (concat (map (expand_encoding available accept) accept)))))"
    using assms mset_eq_imp_distinct_iff [OF sorted_names(1)] by (auto simp: with_identity_def)
  then show ?thesis
    by (simp only: select_best_encoding_def Let_def with_identity_def [symmetric] remove_fold ranked_def)
qed

lemma grade_in: "distinct (map fst es) \<Longrightarrow> (m, q, p) \<in> set es \<Longrightarrow> map_of es m = Some (q, p) \<and> grade es m = q"
  using map_of_is_SomeI [of es m "(q, p)"] by (simp add: grade_def)

lemma ranked_sorted:
  assumes once: "distinct (map fst es)" and pos: "\<forall>(m, q, p) \<in> set es. 0 \<le> q"
  shows "sorted_wrt (\<lambda>x y. grade es y \<le> grade es x) (ranked es)"
proof -
  let ?ns = "map fst (sort_encodings es)"
  have g: "grade es m = q \<and> 0 \<le> q" if "(m, q, p) \<in> set (sort_encodings es)" for m q p
    using that grade_in [OF once] pos sorted_names(2) [of es] by auto
  have "sorted_wrt (\<lambda>x y. grade es y \<le> grade es x) ?ns"
    using sort_encodings_facts(2) [of es] g unfolding sorted_map sorted_wrt_map
    by (elim sorted_wrt_mono_rel [rotated]) auto
  moreover have "\<forall>x \<in> set ?ns. 0 \<le> grade es x" using g by auto
  moreover have "grade es ''identity'' = - 1" if "''identity'' \<notin> set ?ns"
  proof -
    have "map_of es ''identity'' = None" using that sorted_names(2) [of es] by (simp add: map_of_eq_None_iff)
    then show ?thesis by (simp add: grade_def)
  qed
  ultimately have "sorted_wrt (\<lambda>x y. grade es y \<le> grade es x) (with_identity ?ns)"
    by (fastforce simp: with_identity_def sorted_wrt_append)
  then show ?thesis unfolding ranked_def by (rule sorted_wrt_filter)
qed

lemma ranked_has:
  assumes once: "distinct (map fst es)"
  shows "m \<in> set (ranked es) \<longleftrightarrow> (case map_of es m of Some (q, p) \<Rightarrow> q \<noteq> 0 | None \<Rightarrow> m = ''identity'')"
proof (cases "map_of es m")
  case None
  then have "m \<notin> set (map fst (sort_encodings es))" using sorted_names(2) [of es] by (simp add: map_of_eq_None_iff)
  then show ?thesis using None by (auto simp: ranked_def with_identity_def)
next
  case (Some r)
  obtain x p where r: "r = (x, p)" by (cases r)
  then have x: "(m, x, p) \<in> set (sort_encodings es)" using map_of_SomeD [OF Some] sorted_names(2) [of es] by simp
  have same: "y = x" if "(m, y, p') \<in> set (sort_encodings es)" for y p'
    using that grade_in [OF once, of m y p'] Some r sorted_names(2) [of es] by simp
  have "m \<in> fst ` {e \<in> set (sort_encodings es). (case e of (m, q, p) \<Rightarrow> q = 0)} \<longleftrightarrow> x = 0"
  proof
    assume "x = 0"
    then have "(m, x, p) \<in> {e \<in> set (sort_encodings es). (case e of (m, q, p) \<Rightarrow> q = 0)}" using x by simp
    then show "m \<in> fst ` {e \<in> set (sort_encodings es). (case e of (m, q, p) \<Rightarrow> q = 0)}" by (rule rev_image_eqI) simp
  qed (use same in auto)
  moreover have "m \<in> fst ` set (sort_encodings es)" using x by (rule rev_image_eqI) simp
  then have "m \<in> set (with_identity (map fst (sort_encodings es)))" by (simp add: with_identity_def)
  ultimately show ?thesis using Some r unfolding ranked_def set_filter set_map by simp
qed

text \<open>
  C17. The encoding chosen is one of those available, acceptable and of the best quality, and none is
  chosen only when all are refused.
\<close>
theorem best_encoding_is_selected:
  assumes "distinct (map fst accept)" "distinct available" "''*'' \<notin> set available" "list_all (\<lambda>(m, q). 0 \<le> q) accept"
  shows "case select_best_encoding available accept of
      None \<Rightarrow> list_all (refused accept) available
    | Some c \<Rightarrow> c \<in> set available \<and> \<not> refused accept c \<and>
        list_all (\<lambda>m. refused accept m \<or> the (quality accept m) \<le> the (quality accept c)) available"
proof -
  define es where "es = concat (map (expand_encoding available accept) accept)"
  have names: "map fst es = concat (map (\<lambda>a. map fst (expand_encoding available accept a)) accept)"
    by (simp add: es_def map_concat comp_def)
  have once: "distinct (map fst es)" unfolding names by (rule names_once [OF assms(2,1)]) simp
  have "\<forall>(m, q, p) \<in> set es. 0 \<le> q"
    using assms(4) by (fastforce simp: es_def expand_encoding_def list_all_iff Let_def split: if_splits)
  then have sorted: "sorted_wrt (\<lambda>x y. grade es y \<le> grade es x) (ranked es)" by (rule ranked_sorted [OF once])
  have inside: "(m \<in> set (ranked es) \<longleftrightarrow> \<not> refused accept m) \<and> (\<not> refused accept m \<longrightarrow> the (quality accept m) = grade es m)"
    if "m \<in> set available" for m
    using expanded_quality [OF assms(1,2) that assms(3), folded es_def] ranked_has [OF once, of m]
    by (auto simp: refused_def grade_def split: option.splits if_splits)
  have select: "select_best_encoding available accept = List.find (\<lambda>c. c \<in> set available) (ranked es)"
    using select_ranked [of available accept, folded es_def] once by blast
  show ?thesis
  proof (cases "List.find (\<lambda>c. c \<in> set available) (ranked es)")
    case None
    then have "list_all (refused accept) available" using inside unfolding find_None_iff list_all_iff by blast
    then show ?thesis using None by (simp add: select)
  next
    case (Some c)
    then have "c \<in> set (ranked es)" "c \<in> set available" by (auto simp: find_Some_iff)
    then have c: "c \<in> set available" "\<not> refused accept c" using inside by blast+
    have "the (quality accept m) \<le> the (quality accept c)" if "m \<in> set available" "\<not> refused accept m" for m
      using find_first [OF sorted _ Some] inside that c by simp
    then have "list_all (\<lambda>m. refused accept m \<or> the (quality accept m) \<le> the (quality accept c)) available"
      unfolding list_all_iff by blast
    then show ?thesis using Some c by (simp add: select)
  qed
qed

text \<open>Brotli and gzip are accepted alike and gzip is preferred; the star refuses everything else.\<close>

lemma best_encoding_is_selected_example:
  "case select_best_encoding [''gzip'', ''br'', ''identity''] [(''br'', 1 / 2), (''gzip'', 1 / 2), (''*'', 0)] of
      None \<Rightarrow> False | Some c \<Rightarrow> c = ''gzip'' \<and> \<not> refused [(''br'', 1 / 2), (''gzip'', 1 / 2), (''*'', 0)] c"
proof -
  let ?av = "[''gzip'', ''br'', ''identity'']" and ?ac = "[(''br'', 1 / 2), (''gzip'', 1 / 2), (''*'', 0)]"
  have "select_best_encoding ?av ?ac = Some ''gzip''"
    by (simp add: select_best_encoding_def expand_encoding_def sort_encodings_def Let_def)
  then show ?thesis using best_encoding_is_selected [of ?ac ?av] by simp
qed

section \<open>HTML\<close>

definition entity :: "nat \<Rightarrow> codes" where
  "entity c = (if c = 38 then codes_of ''&amp;'' else if c = 60 then codes_of ''&lt;'' else if c = 62 then codes_of ''&gt;''
     else if c = 39 then codes_of ''&#39;'' else if c = 34 then codes_of ''&quot;'' else [c])"

lemma replace_append: "replace_char c r (s @ t) = replace_char c r s @ replace_char c r t"
  by (simp add: replace_char_def)

lemma escape_html_once: "escape_html (Some s) = concat (map entity s)"
proof (induction s)
  case (Cons c s)
  have "escape_html (Some ([c] @ s)) = escape_html (Some [c]) @ escape_html (Some s)"
    unfolding escape_html_def option.case replace_append ..
  moreover have "escape_html (Some [c]) = entity c"
    by (simp add: escape_html_def replace_char_def entity_def codes_of_def)
  ultimately show ?case using Cons by simp
qed (simp add: escape_html_def replace_char_def)

text \<open>\<open>read_entities\<close> undoes it, so nothing is lost.\<close>

fun read_entities :: "codes \<Rightarrow> codes" where
  "read_entities [] = []"
| "read_entities (c # s) = (if c = 38
     then (if take 4 s = codes_of ''amp;'' then 38 # read_entities (drop 4 s)
       else if take 3 s = codes_of ''lt;'' then 60 # read_entities (drop 3 s)
       else if take 3 s = codes_of ''gt;'' then 62 # read_entities (drop 3 s)
       else if take 4 s = codes_of ''#39;'' then 39 # read_entities (drop 4 s)
       else if take 5 s = codes_of ''quot;'' then 34 # read_entities (drop 5 s)
       else c # read_entities s)
     else c # read_entities s)"

lemma read_entity: "read_entities (entity c @ s) = c # read_entities s"
  by (simp add: entity_def codes_of_def)

lemma escaped_html_reads_back:
  "read_entities (escape_html (Some s)) = s \<and> list_all (\<lambda>c. c \<notin> {60, 62, 39, 34}) (escape_html (Some s))"
proof -
  have "read_entities (concat (map entity s)) = s"
    by (induction s) (simp_all add: read_entity del: read_entities.simps(2))
  moreover have "list_all (\<lambda>c. c \<notin> {60, 62, 39, 34}) (entity c)" for c by (simp add: entity_def codes_of_def)
  then have "list_all (\<lambda>c. c \<notin> {60, 62, 39, 34}) (concat (map entity s))" by (induction s) simp_all
  ultimately show ?thesis unfolding escape_html_once ..
qed

section \<open>Comparison in constant time\<close>

lemma xor_zero: "xor a b = 0 \<longleftrightarrow> a = b" for a b :: nat
  by (auto simp: bit_eq_iff bit_xor_iff)

lemma compare_fold:
  "length a = length b \<Longrightarrow> foldl (\<lambda>r p. or r (xor (fst p) (snd p))) n (zip a b) = (0 :: nat) \<longleftrightarrow> n = 0 \<and> a = b"
  by (induction a b arbitrary: n rule: list_induct2) (auto simp: or_eq_0_iff xor_zero)

lemma secure_compare_is_equality: "secure_compare a b \<longleftrightarrow> a = b"
  using compare_fold [of a b 0] by (auto simp: secure_compare_def)

section \<open>Cookies\<close>

text \<open>A cookie whose name every object inherits is never read.\<close>

lemma entry_put_names: "fst ` set (entry_put k v es) = insert k (fst ` set es)"
proof (cases "k \<in> fst ` set es")
  case True
  then show ?thesis by (induction es) (auto simp: entry_put_def)
next
  case False
  have "set es = set (takeWhile P es) \<union> set (dropWhile P es)" for P
    by (metis set_append takeWhile_dropWhile_id)
  then show ?thesis using False by (simp add: entry_put_def)
qed

lemma inherited_cookies_are_lost:
  "key \<in> set object_prototype \<Longrightarrow> key \<notin> fst ` set (parse_cookies_header s)"
proof -
  assume key: "key \<in> set object_prototype"
  have step: "key \<notin> fst ` set (add_cookie c cs)" if "key \<notin> fst ` set cs" for c cs
    using that key entry_put_names [of _ _ cs] by (auto simp: add_cookie_def Let_def)
  have "key \<notin> fst ` set (fold add_cookie ws cs)" if "key \<notin> fst ` set cs" for ws cs
    using that step by (induction ws arbitrary: cs) auto
  then show "key \<notin> fst ` set (parse_cookies_header s)" by (simp add: parse_cookies_header_def)
qed

section \<open>Status codes\<close>

lemma status_symbols_are_distinct: "distinct (map fst symbol_to_status_code)"
  by (simp add: symbol_to_status_code_def http_status_codes_def status_symbol_def to_lower_def Let_def)

end
