(* ===== verification/Callbacks.thy ===== *)
theory Callbacks
  imports Prelude "HOL-Library.AList"
begin

text \<open>
  Callback chains, \<^verbatim>\<open>packages/activesupport/src/callbacks.ts\<close>, as far as they run synchronously:
  no callback, condition or block returns a promise.

  The target and everything a callback can touch is the type of the world. The environment of a run
  adds the two fields of \<open>FilterEnvironment\<close>. A callback, a condition and the block are computations
  on the world that may throw. An around callback is a \<open>body\<close>: steps on the world and calls of
  \<open>next\<close>, whose value or error it sees, in any number and order. Which function \<open>CallTemplate.build\<close>
  makes of a filter is part of the callback.
\<close>

section \<open>Callbacks\<close>

datatype 'v val = Undefined | Truth bool | Of 'v

datatype 'e thrown = AbortSignal | Thrown 'e

datatype ('w, 'v, 'e) body =
    Done "'v val"
  | Raise "'e thrown"
  | Act "'w \<Rightarrow> 'w \<times> ('w, 'v, 'e) body"
  | Proceed "'e thrown + 'v val \<Rightarrow> ('w, 'v, 'e) body"

type_synonym ('w, 'v, 'e, 'a) user = "'v val \<Rightarrow> ('w, 'e thrown, 'a) comp"

datatype callback_kind = Before | After | Around

datatype filter = StringFilter string | SymbolFilter string | FunctionFilter nat | ObjectFilter nat

record ('w, 'v, 'e) callback =
  kind_of :: callback_kind
  filter_of :: filter
  if_conditions :: "('w, 'v, 'e, bool) user list"
  unless_conditions :: "('w, 'v, 'e, bool) user list"
  lambda :: "('w, 'v, 'e, 'v val) user"
  wraps :: "'v val \<Rightarrow> ('w, 'v, 'e) body"

text \<open>The option \<open>terminator\<close>: \<open>false\<close>, not given, or a function of the target and the callback.\<close>

datatype ('w, 'v, 'e) terminator = NoTerminator | CatchAbort
  | Custom "('w, 'e thrown, 'v val) comp \<Rightarrow> ('w, 'e thrown, bool) comp"

record ('w, 'v, 'e) config =
  terminator :: "('w, 'v, 'e) terminator"
  skip_after :: bool
  halted_hook :: "filter \<Rightarrow> ('w, 'e thrown, unit) comp"

record ('w, 'v) env =
  world :: 'w
  halted :: bool
  outcome :: "'v val"

type_synonym ('w, 'v, 'e, 'a) run = "(('w, 'v) env, 'e thrown, 'a) comp"

definition on_world :: "('w, 'e thrown, 'a) comp \<Rightarrow> ('w, 'v, 'e, 'a) run" where
  "on_world m = (\<lambda>e. case m (world e) of (r, w) \<Rightarrow> (r, e\<lparr>world := w\<rparr>))"

definition call_user :: "('w, 'v, 'e, 'a) user \<Rightarrow> ('w, 'v, 'e, 'a) run" where
  "call_user f = (\<lambda>e. on_world (f (outcome e)) e)"

definition inverted :: "('w, 'v, 'e, bool) user \<Rightarrow> ('w, 'v, 'e, bool) user" where
  "inverted c = (\<lambda>v. bind (c v) (\<lambda>b. ret (\<not> b)))"

definition conditions :: "('w, 'v, 'e) callback \<Rightarrow> ('w, 'v, 'e, bool) user list" where
  "conditions c = if_conditions c @ map inverted (unless_conditions c)"

fun every :: "('w, 'v, 'e, bool) user list \<Rightarrow> ('w, 'v, 'e, bool) run" where
  "every [] = ret True"
| "every (c # cs) = bind (call_user c) (\<lambda>b. if b then every cs else ret False)"

section \<open>Running one callback\<close>

definition halt :: "('w, 'v, 'e) config \<Rightarrow> ('w, 'v, 'e) callback \<Rightarrow> ('w, 'v, 'e, unit) run" where
  "halt cfg c = andthen (modify (\<lambda>e. e\<lparr>halted := True\<rparr>)) (on_world (halted_hook cfg (filter_of c)))"

definition run_before :: "('w, 'v, 'e) config \<Rightarrow> ('w, 'v, 'e) callback \<Rightarrow> ('w, 'v, 'e, unit) run" where
  "run_before cfg c = bind (gets halted) (\<lambda>h. if h then skip else bind (every (conditions c)) (\<lambda>ok.
     if \<not> ok then skip else (case terminator cfg of
       NoTerminator \<Rightarrow> andthen (call_user (lambda c)) skip
     | Custom t \<Rightarrow> bind (call_user (\<lambda>v. t (lambda c v))) (\<lambda>stop. only_if stop (halt cfg c))
     | CatchAbort \<Rightarrow> (\<lambda>e. case call_user (lambda c) e of
           (Inl AbortSignal, e') \<Rightarrow> halt cfg c e'
         | (Inl (Thrown x), e') \<Rightarrow> (Inl (Thrown x), e')
         | (Inr v, e') \<Rightarrow> (Inr (), e')))))"

definition run_after :: "('w, 'v, 'e) config \<Rightarrow> ('w, 'v, 'e) callback \<Rightarrow> ('w, 'v, 'e, unit) run" where
  "run_after cfg c = bind (gets halted) (\<lambda>h. if h \<and> skip_after cfg then skip
     else bind (every (conditions c)) (\<lambda>ok. if ok then andthen (call_user (lambda c)) skip else skip))"

primrec run_around_body :: "('w, 'v, 'e, 'v val) run \<Rightarrow> ('w, 'v, 'e) body \<Rightarrow> ('w, 'v, 'e, 'v val) run" where
  "run_around_body next' (Done v) = ret v"
| "run_around_body next' (Raise x) = throw x"
| "run_around_body next' (Act f) = (\<lambda>e. case (map_prod id (run_around_body next') \<circ> f) (world e) of (w, m) \<Rightarrow> m (e\<lparr>world := w\<rparr>))"
| "run_around_body next' (Proceed k) = (\<lambda>e. case next' e of (r, e') \<Rightarrow> (run_around_body next' \<circ> k) r e')"

section \<open>Sequences\<close>

text \<open>\<open>CallbackSequence\<close>: the callbacks before and after, and for all but the final one the around
  callback and what it wraps.\<close>

datatype ('w, 'v, 'e) sequence =
    Final "('w, 'v, 'e) callback list" "('w, 'v, 'e) callback list"
  | Nested "('w, 'v, 'e) callback list" "('w, 'v, 'e) callback list" "('w, 'v, 'e) callback" "('w, 'v, 'e) sequence"

fun seq_before :: "('w, 'v, 'e) callback \<Rightarrow> ('w, 'v, 'e) sequence \<Rightarrow> ('w, 'v, 'e) sequence" where
  "seq_before c (Final bs as) = Final (c # bs) as"
| "seq_before c (Nested bs as a inner) = Nested (c # bs) as a inner"

fun seq_after :: "('w, 'v, 'e) callback \<Rightarrow> ('w, 'v, 'e) sequence \<Rightarrow> ('w, 'v, 'e) sequence" where
  "seq_after c (Final bs as) = Final bs (as @ [c])"
| "seq_after c (Nested bs as a inner) = Nested bs (as @ [c]) a inner"

definition apply_callback :: "('w, 'v, 'e) callback \<Rightarrow> ('w, 'v, 'e) sequence \<Rightarrow> ('w, 'v, 'e) sequence" where
  "apply_callback c s = (case kind_of c of Before \<Rightarrow> seq_before c s | After \<Rightarrow> seq_after c s | Around \<Rightarrow> Nested [] [] c s)"

definition compile_entries :: "('w, 'v, 'e) callback list \<Rightarrow> ('w, 'v, 'e) sequence" where
  "compile_entries cs = foldr apply_callback cs (Final [] [])"

definition is_skip :: "('w, 'v, 'e) callback \<Rightarrow> ('w, 'v, 'e, bool) run" where
  "is_skip c = bind (gets halted) (\<lambda>h. if h then ret True else bind (every (conditions c)) (\<lambda>ok. ret (\<not> ok)))"

definition run_block :: "('w, 'e thrown, 'v val) comp option \<Rightarrow> ('w, 'v, 'e, unit) run" where
  "run_block block = bind (gets halted) (\<lambda>h. if h then modify (\<lambda>e. e\<lparr>outcome := Truth False\<rparr>)
     else bind (case block of None \<Rightarrow> ret (Truth True) | Some m \<Rightarrow> on_world m)
       (\<lambda>v. modify (\<lambda>e. e\<lparr>outcome := v\<rparr>)))"

definition run_around :: "('w, 'v, 'e) callback \<Rightarrow> ('w, 'v, 'e, unit) run \<Rightarrow> ('w, 'v, 'e, unit) run" where
  "run_around c inner = bind (is_skip c) (\<lambda>s. if s then inner
     else andthen (\<lambda>e. run_around_body (andthen inner (gets outcome)) (wraps c (outcome e)) e) skip)"

fun run_seq :: "('w, 'v, 'e) config \<Rightarrow> ('w, 'e thrown, 'v val) comp option \<Rightarrow> ('w, 'v, 'e) sequence
    \<Rightarrow> ('w, 'v, 'e, unit) run" where
  "run_seq cfg block (Final bs as) =
     andthen (for_each bs (run_before cfg)) (andthen (run_block block) (for_each as (run_after cfg)))"
| "run_seq cfg block (Nested bs as c inner) =
     andthen (for_each bs (run_before cfg)) (andthen (run_around c (run_seq cfg block inner)) (for_each as (run_after cfg)))"

definition invoke :: "('w, 'v, 'e) config \<Rightarrow> ('w, 'e thrown, 'v val) comp option \<Rightarrow> ('w, 'v, 'e) sequence
    \<Rightarrow> ('w, 'e thrown, 'v val) comp" where
  "invoke cfg block s = (\<lambda>w. case run_seq cfg block s \<lparr>world = w, halted = False, outcome = Undefined\<rparr> of
     (Inl x, e) \<Rightarrow> (Inl x, world e) | (Inr u, e) \<Rightarrow> (Inr (outcome e), world e))"

section \<open>Chains\<close>

record ('w, 'v, 'e) chain =
  settings :: "('w, 'v, 'e) config"
  entries :: "('w, 'v, 'e) callback list"
  all_cache :: "('w, 'v, 'e) sequence option"
  single_cache :: "callback_kind \<Rightarrow> ('w, 'v, 'e) sequence option"

definition new_chain :: "('w, 'v, 'e) config \<Rightarrow> ('w, 'v, 'e) chain" where
  "new_chain cfg = \<lparr>settings = cfg, entries = [], all_cache = None, single_cache = (\<lambda>k. None)\<rparr>"

definition drop_caches :: "('w, 'v, 'e) chain \<Rightarrow> ('w, 'v, 'e) chain" where
  "drop_caches ch = ch\<lparr>all_cache := None, single_cache := (\<lambda>k. None)\<rparr>"

definition duplicates :: "('w, 'v, 'e) callback \<Rightarrow> ('w, 'v, 'e) callback \<Rightarrow> bool" where
  "duplicates c d \<longleftrightarrow> (case filter_of c of StringFilter s \<Rightarrow> kind_of c = kind_of d \<and> filter_of c = filter_of d | _ \<Rightarrow> False)"

definition matches :: "callback_kind \<Rightarrow> filter option \<Rightarrow> ('w, 'v, 'e) callback \<Rightarrow> bool" where
  "matches k f c \<longleftrightarrow> kind_of c = k \<and> (case f of None \<Rightarrow> True | Some g \<Rightarrow> filter_of c = g)"

definition remove_duplicates :: "('w, 'v, 'e) callback \<Rightarrow> ('w, 'v, 'e) chain \<Rightarrow> ('w, 'v, 'e) chain" where
  "remove_duplicates c ch = (drop_caches ch)\<lparr>entries := List.filter (\<lambda>d. \<not> duplicates c d) (entries ch)\<rparr>"

definition append_one :: "('w, 'v, 'e) callback \<Rightarrow> ('w, 'v, 'e) chain \<Rightarrow> ('w, 'v, 'e) chain" where
  "append_one c ch = (let ch' = remove_duplicates c (drop_caches ch) in ch'\<lparr>entries := entries ch' @ [c]\<rparr>)"

definition prepend_one :: "('w, 'v, 'e) callback \<Rightarrow> ('w, 'v, 'e) chain \<Rightarrow> ('w, 'v, 'e) chain" where
  "prepend_one c ch = (let ch' = remove_duplicates c (drop_caches ch) in ch'\<lparr>entries := c # entries ch'\<rparr>)"

definition append_all :: "('w, 'v, 'e) callback list \<Rightarrow> ('w, 'v, 'e) chain \<Rightarrow> ('w, 'v, 'e) chain" where
  "append_all cs ch = fold append_one cs ch"

definition prepend_all :: "('w, 'v, 'e) callback list \<Rightarrow> ('w, 'v, 'e) chain \<Rightarrow> ('w, 'v, 'e) chain" where
  "prepend_all cs ch = fold prepend_one cs ch"

definition remove_matching :: "callback_kind \<Rightarrow> filter option \<Rightarrow> ('w, 'v, 'e) chain \<Rightarrow> ('w, 'v, 'e) chain" where
  "remove_matching k f ch = (drop_caches ch)\<lparr>entries := List.filter (\<lambda>c. \<not> matches k f c) (entries ch)\<rparr>"

definition clear_chain :: "('w, 'v, 'e) chain \<Rightarrow> ('w, 'v, 'e) chain" where
  "clear_chain ch = (drop_caches ch)\<lparr>entries := []\<rparr>"

text \<open>\<open>insert\<close>, and \<open>delete\<close> of the callback found at an index.\<close>

definition insert_at :: "nat \<Rightarrow> ('w, 'v, 'e) callback \<Rightarrow> ('w, 'v, 'e) chain \<Rightarrow> ('w, 'v, 'e) chain" where
  "insert_at i c ch = (drop_caches ch)\<lparr>entries := take i (entries ch) @ c # drop i (entries ch)\<rparr>"

definition delete_at :: "nat \<Rightarrow> ('w, 'v, 'e) chain \<Rightarrow> ('w, 'v, 'e) chain" where
  "delete_at i ch = (drop_caches ch)\<lparr>entries := take i (entries ch) @ drop (Suc i) (entries ch)\<rparr>"

definition compile_chain :: "callback_kind option \<Rightarrow> ('w, 'v, 'e) chain \<Rightarrow> ('w, 'v, 'e) sequence \<times> ('w, 'v, 'e) chain" where
  "compile_chain k ch = (case k of
     None \<Rightarrow> (case all_cache ch of Some s \<Rightarrow> (s, ch)
       | None \<Rightarrow> (let s = compile_entries (entries ch) in (s, ch\<lparr>all_cache := Some s\<rparr>)))
   | Some t \<Rightarrow> (case single_cache ch t of Some s \<Rightarrow> (s, ch)
       | None \<Rightarrow> (let s = compile_entries (List.filter (\<lambda>c. t = kind_of c) (entries ch))
                 in (s, ch\<lparr>single_cache := (single_cache ch)(t := Some s)\<rparr>))))"

text \<open>\<open>mergeConditionalOptions\<close>: what a callback is skipped under becomes what it does not run under.\<close>

definition merge_conditions :: "('w, 'v, 'e, bool) user list \<Rightarrow> ('w, 'v, 'e, bool) user list
    \<Rightarrow> ('w, 'v, 'e) callback \<Rightarrow> ('w, 'v, 'e) callback" where
  "merge_conditions ifs unlesses c = c\<lparr>if_conditions := if_conditions c @ unlesses,
     unless_conditions := unless_conditions c @ ifs\<rparr>"

fun first_match :: "callback_kind \<Rightarrow> filter option \<Rightarrow> ('w, 'v, 'e) callback list \<Rightarrow> nat option" where
  "first_match k f [] = None"
| "first_match k f (c # cs) = (if matches k f c then Some 0 else map_option Suc (first_match k f cs))"

definition skip_one :: "callback_kind \<Rightarrow> filter \<Rightarrow> (('w, 'v, 'e, bool) user list \<times> ('w, 'v, 'e, bool) user list) option
    \<Rightarrow> ('w, 'v, 'e) chain \<Rightarrow> ('w, 'v, 'e) chain option" where
  "skip_one k f options ch = (case first_match k (Some f) (entries ch) of
     None \<Rightarrow> None
   | Some i \<Rightarrow> Some (case options of
       None \<Rightarrow> delete_at i ch
     | Some (ifs, unlesses) \<Rightarrow> delete_at (Suc i) (insert_at i (merge_conditions ifs unlesses (entries ch ! i)) ch)))"

section \<open>Chains of a target\<close>

text \<open>The chains of a target and of the objects it inherits from, the target first; \<open>None\<close> for an
  object without chains of its own.\<close>

type_synonym ('w, 'v, 'e) holders = "(string \<times> ('w, 'v, 'e) chain) list option list"

datatype misuse = NoSuchChain string | NotDefined filter

fun nearest :: "('w, 'v, 'e) holders \<Rightarrow> (string \<times> ('w, 'v, 'e) chain) list" where
  "nearest [] = []"
| "nearest (Some m # hs) = m"
| "nearest (None # hs) = nearest hs"

definition peek :: "string \<Rightarrow> ('w, 'v, 'e) holders \<Rightarrow> ('w, 'v, 'e) chain option" where
  "peek n hs = map_of (nearest hs) n"

definition copy_chain :: "('w, 'v, 'e) chain \<Rightarrow> ('w, 'v, 'e) chain" where
  "copy_chain ch = append_all (entries ch) (new_chain (settings ch))"

definition own_chains :: "('w, 'v, 'e) holders \<Rightarrow> (string \<times> ('w, 'v, 'e) chain) list" where
  "own_chains hs = (case hs of Some m # _ \<Rightarrow> m | _ \<Rightarrow> map (\<lambda>(n, ch). (n, copy_chain ch)) (nearest hs))"

definition with_own :: "(string \<times> ('w, 'v, 'e) chain) list \<Rightarrow> ('w, 'v, 'e) holders \<Rightarrow> ('w, 'v, 'e) holders" where
  "with_own m hs = Some m # tl hs"

definition define_callbacks :: "string \<Rightarrow> ('w, 'v, 'e) config \<Rightarrow> ('w, 'v, 'e) holders \<Rightarrow> ('w, 'v, 'e) holders" where
  "define_callbacks n cfg hs = (let m = own_chains hs
     in with_own (if map_of m n = None then m @ [(n, new_chain cfg)] else m) hs)"

definition set_callback :: "string \<Rightarrow> ('w, 'v, 'e) callback list \<Rightarrow> bool \<Rightarrow> (('w, 'v, 'e) holders, misuse, unit) comp" where
  "set_callback n cs prepend hs = (let m = own_chains hs in (case map_of m n of
     None \<Rightarrow> (Inl (NoSuchChain n), with_own m hs)
   | Some ch \<Rightarrow> (Inr (), with_own (AList.update n (if prepend then prepend_all cs ch else append_all cs ch) m) hs)))"

fun skip_callback :: "string \<Rightarrow> callback_kind \<Rightarrow> (('w, 'v, 'e, bool) user list \<times> ('w, 'v, 'e, bool) user list) option \<Rightarrow> bool
    \<Rightarrow> filter list \<Rightarrow> (('w, 'v, 'e) holders, misuse, unit) comp" where
  "skip_callback n k options raise [] hs = (Inr (), hs)"
| "skip_callback n k options raise (f # fs) hs = (case peek n hs of
     None \<Rightarrow> (Inr (), hs)
   | Some ch \<Rightarrow> (case first_match k (Some f) (entries ch) of
       None \<Rightarrow> if raise then (Inl (NotDefined f), hs) else skip_callback n k options raise fs hs
     | Some i \<Rightarrow> (let m = own_chains hs in (case Option.bind (map_of m n) (skip_one k f options) of
         None \<Rightarrow> (Inl (NoSuchChain n), with_own m hs)
       | Some ch' \<Rightarrow> skip_callback n k options raise fs (with_own (AList.update n ch' m) hs)))))"

definition reset_callbacks :: "string \<Rightarrow> ('w, 'v, 'e) holders \<Rightarrow> ('w, 'v, 'e) holders" where
  "reset_callbacks n hs = (let m = own_chains hs in (case map_of m n of
     None \<Rightarrow> with_own m hs | Some ch \<Rightarrow> with_own (AList.update n (clear_chain ch) m) hs))"

fun store_nearest :: "string \<Rightarrow> ('w, 'v, 'e) chain \<Rightarrow> ('w, 'v, 'e) holders \<Rightarrow> ('w, 'v, 'e) holders" where
  "store_nearest n ch [] = []"
| "store_nearest n ch (Some m # hs) = Some (AList.update n ch m) # hs"
| "store_nearest n ch (None # hs) = None # store_nearest n ch hs"

definition run_chain :: "string \<Rightarrow> callback_kind option \<Rightarrow> ('w, 'e thrown, 'v val) comp option \<Rightarrow> ('w, 'v, 'e) holders
    \<Rightarrow> 'w \<Rightarrow> (('e thrown + 'v val) \<times> 'w) \<times> ('w, 'v, 'e) holders" where
  "run_chain n k block hs w = (case peek n hs of
     None \<Rightarrow> ((case block of None \<Rightarrow> (Inr Undefined, w) | Some m \<Rightarrow> m w), hs)
   | Some ch \<Rightarrow> (case compile_chain k ch of (s, ch') \<Rightarrow> (invoke (settings ch) block s w, store_nearest n ch' hs)))"

section \<open>The onion\<close>

text \<open>What a chain stands for: every callback is around what follows it.\<close>

fun onion :: "('w, 'v, 'e) config \<Rightarrow> ('w, 'e thrown, 'v val) comp option \<Rightarrow> ('w, 'v, 'e) callback list
    \<Rightarrow> ('w, 'v, 'e, unit) run" where
  "onion cfg block [] = run_block block"
| "onion cfg block (c # cs) = (case kind_of c of
     Before \<Rightarrow> andthen (run_before cfg c) (onion cfg block cs)
   | After \<Rightarrow> andthen (onion cfg block cs) (run_after cfg c)
   | Around \<Rightarrow> run_around c (onion cfg block cs))"

lemma andthen_skip_left: "andthen (ret ()) m = m"
  by (simp add: comp_simps fun_eq_iff)

lemma andthen_skip_right: "andthen m (ret ()) = m"
  by (auto simp: comp_simps fun_eq_iff split: prod.splits sum.splits)

lemma run_seq_before: "run_seq cfg block (seq_before c s) = andthen (run_before cfg c) (run_seq cfg block s)"
  by (cases s) (simp_all add: andthen_assoc)

lemma run_seq_after: "run_seq cfg block (seq_after c s) = andthen (run_seq cfg block s) (run_after cfg c)"
  by (cases s) (simp_all add: andthen_assoc for_each_append andthen_skip_right)

lemma run_compiled: "run_seq cfg block (compile_entries cs) = onion cfg block cs"
proof (induction cs)
  case Nil
  then show ?case by (simp add: compile_entries_def andthen_skip_left andthen_skip_right)
next
  case (Cons c cs)
  have "compile_entries (c # cs) = apply_callback c (compile_entries cs)" by (simp add: compile_entries_def)
  then show ?case using Cons
    by (cases "kind_of c") (simp_all add: apply_callback_def run_seq_before run_seq_after andthen_skip_left andthen_skip_right)
qed

end
