(* ===== verification/Callbacks_Run.thy ===== *)
theory Callbacks_Run
  imports Callbacks
begin

text \<open>
  What callback chains promise: the sequence a chain is compiled to, cached or not, runs as the onion
  of its callbacks; no callback that names a method is in a chain twice; once a run is halted only
  after callbacks are left of it, and it answers false.
\<close>

section \<open>Editing a chain\<close>

definition twice_free :: "('w, 'v, 'e) callback list \<Rightarrow> bool" where
  "twice_free cs \<longleftrightarrow> sorted_wrt (\<lambda>c d. \<not> duplicates c d) cs"

definition selected :: "callback_kind option \<Rightarrow> ('w, 'v, 'e) callback list \<Rightarrow> ('w, 'v, 'e) callback list" where
  "selected k cs = (case k of None \<Rightarrow> cs | Some t \<Rightarrow> List.filter (\<lambda>c. t = kind_of c) cs)"

definition caches_right :: "('w, 'v, 'e) chain \<Rightarrow> bool" where
  "caches_right ch \<longleftrightarrow> (\<forall>s. all_cache ch = Some s \<longrightarrow> s = compile_entries (entries ch)) \<and>
     (\<forall>t s. single_cache ch t = Some s \<longrightarrow> s = compile_entries (selected (Some t) (entries ch)))"

inductive edit :: "('w, 'v, 'e) chain \<Rightarrow> ('w, 'v, 'e) chain \<Rightarrow> bool" where
  appending: "edit ch (append_all cs ch)"
| prepending: "edit ch (prepend_all cs ch)"
| removing: "edit ch (remove_matching k f ch)"
| clearing: "edit ch (clear_chain ch)"
| skipping: "skip_one k f options ch = Some ch' \<Longrightarrow> edit ch ch'"
| compiling: "edit ch (snd (compile_chain k ch))"

lemma duplicates_sym: "duplicates c d \<Longrightarrow> duplicates d c"
  by (auto simp: duplicates_def split: filter.splits)

lemma twice_free_filter: "twice_free cs \<Longrightarrow> twice_free (List.filter p cs)"
  by (simp add: twice_free_def sorted_wrt_filter)

lemma forgotten: "caches_right (drop_caches ch)" "caches_right (drop_caches ch\<lparr>entries := es\<rparr>)" "entries (drop_caches ch) = entries ch"
  "settings (drop_caches ch) = settings ch"
  by (simp_all add: caches_right_def drop_caches_def)

lemma append_one_right:
  "twice_free (entries ch) \<Longrightarrow> twice_free (entries (append_one c ch)) \<and> caches_right (append_one c ch) \<and>
     settings (append_one c ch) = settings ch"
  by (auto simp: append_one_def remove_duplicates_def Let_def twice_free_def sorted_wrt_append sorted_wrt_filter
      caches_right_def drop_caches_def dest: duplicates_sym)

lemma prepend_one_right:
  "twice_free (entries ch) \<Longrightarrow> twice_free (entries (prepend_one c ch)) \<and> caches_right (prepend_one c ch) \<and>
     settings (prepend_one c ch) = settings ch"
  by (auto simp: prepend_one_def remove_duplicates_def Let_def twice_free_def sorted_wrt_append sorted_wrt_filter
      caches_right_def drop_caches_def)

lemma folded_right:
  assumes "\<And>c ch. twice_free (entries ch) \<Longrightarrow> twice_free (entries (f c ch)) \<and> caches_right (f c ch) \<and>
    settings (f c ch) = settings ch"
    and "twice_free (entries ch)" "caches_right ch"
  shows "twice_free (entries (fold f cs ch)) \<and> caches_right (fold f cs ch) \<and> settings (fold f cs ch) = settings ch"
  using assms(2,3)
proof (induction cs arbitrary: ch)
  case (Cons c cs)
  then show ?case using assms(1) [of ch c] Cons.IH [of "f c ch"] by simp
qed simp

lemma compiled_right:
  assumes "caches_right ch"
  shows "fst (compile_chain k ch) = compile_entries (selected k (entries ch))"
    "caches_right (snd (compile_chain k ch))" "entries (snd (compile_chain k ch)) = entries ch"
    "settings (snd (compile_chain k ch)) = settings ch"
  using assms by (auto simp: compile_chain_def caches_right_def selected_def Let_def split: option.splits)

lemma merged_duplicates [simp]:
  "duplicates (merge_conditions ifs unlesses c) d = duplicates c d"
  "duplicates d (merge_conditions ifs unlesses c) = duplicates d c"
  by (simp_all add: merge_conditions_def duplicates_def split: filter.split)

lemma first_match_at:
  "first_match k f cs = Some i \<Longrightarrow> i < length cs \<and> matches k f (cs ! i) \<and> (\<forall>j < i. \<not> matches k f (cs ! j))"
proof (induction cs arbitrary: i)
  case (Cons c cs)
  show ?case
  proof (cases "matches k f c")
    case False
    then obtain j where j: "first_match k f cs = Some j" "i = Suc j" using Cons.prems by auto
    then show ?thesis using Cons.IH [of j] False by (auto simp: less_Suc_eq_0_disj)
  qed (use Cons.prems in auto)
qed simp

lemma skipped_entries:
  assumes "skip_one k f options ch = Some ch'"
  obtains i where "first_match k (Some f) (entries ch) = Some i" "i < length (entries ch)"
    "entries ch' = (case options of None \<Rightarrow> take i (entries ch) @ drop (Suc i) (entries ch)
       | Some (ifs, unlesses) \<Rightarrow> (entries ch)[i := merge_conditions ifs unlesses (entries ch ! i)])"
    "caches_right ch'" "settings ch' = settings ch"
proof -
  obtain i where i: "first_match k (Some f) (entries ch) = Some i" using assms by (auto simp: skip_one_def split: option.splits)
  then have lt: "i < length (entries ch)" using first_match_at by blast
  have "take (Suc i) (take i es @ c # drop i es) @ drop (Suc (Suc i)) (take i es @ c # drop i es) = es[i := c]"
    if "i < length es" for es and c :: "('a, 'b, 'c) callback"
    using that by (simp add: upd_conv_take_nth_drop)
  then show ?thesis using assms i lt that [OF i lt]
    by (auto simp: skip_one_def delete_at_def insert_at_def forgotten caches_right_def drop_caches_def split: option.splits)
qed

lemma sorted_wrt_update:
  assumes "sorted_wrt P xs" "i < length xs" "\<And>y. P y (xs ! i) \<Longrightarrow> P y x" "\<And>y. P (xs ! i) y \<Longrightarrow> P x y"
  shows "sorted_wrt P (xs[i := x])"
  using assms by (auto simp: sorted_wrt_iff_nth_less nth_list_update)

lemma edit_right:
  assumes "edit ch ch'" "twice_free (entries ch)" "caches_right ch"
  shows "twice_free (entries ch') \<and> caches_right ch' \<and> settings ch' = settings ch"
  using assms
proof (induction rule: edit.induct)
  case (appending ch cs)
  then show ?case unfolding append_all_def by (intro folded_right append_one_right)
next
  case (prepending ch cs)
  then show ?case unfolding prepend_all_def by (intro folded_right prepend_one_right)
next
  case (removing ch k f)
  then show ?case by (simp add: remove_matching_def forgotten twice_free_filter)
next
  case (clearing ch)
  then show ?case by (simp add: clear_chain_def caches_right_def drop_caches_def twice_free_def)
next
  case (skipping k f options ch ch')
  from skipped_entries [OF skipping(1)] obtain i where i: "i < length (entries ch)"
    "entries ch' = (case options of None \<Rightarrow> take i (entries ch) @ drop (Suc i) (entries ch)
       | Some (ifs, unlesses) \<Rightarrow> (entries ch)[i := merge_conditions ifs unlesses (entries ch ! i)])"
    "caches_right ch'" "settings ch' = settings ch" .
  have "twice_free (entries ch')"
  proof (cases options)
    case None
    have "sorted_wrt P (take i xs @ drop (Suc i) xs)" if "sorted_wrt P xs" for P and xs :: "('a, 'b, 'c) callback list"
    proof -
      have "sorted_wrt P (take i xs @ drop i xs)" using that by simp
      then show ?thesis unfolding sorted_wrt_append
        by (metis (no_types, lifting) Suc_n_not_le_n in_set_dropD drop_Suc sorted_wrt_drop tl_drop nat_le_linear set_drop_subset_set_drop subsetD that)
    qed
    then show ?thesis using skipping(2) i(2) None by (simp add: twice_free_def)
  next
    case (Some o')
    then show ?thesis using skipping(2) i(1,2)
      by (cases o') (auto simp: twice_free_def intro: sorted_wrt_update)
  qed
  then show ?case using i by blast
next
  case (compiling ch k)
  then show ?case using compiled_right by metis
qed

lemma reached_right:
  assumes "edit\<^sup>*\<^sup>* (new_chain cfg) ch"
  shows "twice_free (entries ch) \<and> caches_right ch \<and> settings ch = cfg"
  using assms
proof (induction rule: rtranclp_induct)
  case base
  then show ?case by (simp add: new_chain_def twice_free_def caches_right_def)
next
  case (step ch ch')
  then show ?case using edit_right by metis
qed

text \<open>
  C7. However a chain was edited and compiled, no callback that names a method is in it twice, and
  compiling it gives, for the callbacks of any kind or of all, the sequence that runs as their onion:
  each callback around what follows it in the chain.
\<close>
theorem chains_run_as_onions:
  assumes "edit\<^sup>*\<^sup>* (new_chain cfg) ch"
  shows "run_seq cfg block (fst (compile_chain k ch)) = onion cfg block (selected k (entries ch)) \<and>
    sorted_wrt (\<lambda>c d. \<not> duplicates c d) (entries ch)"
  using reached_right [OF assms] by (simp add: compiled_right(1) run_compiled twice_free_def)

section \<open>Halting\<close>

definition flags :: "('w, 'v) env \<Rightarrow> bool \<times> 'v val" where
  "flags e = (halted e, outcome e)"

lemma on_world_flags: "flags (snd (on_world m e)) = flags e"
  by (simp add: on_world_def flags_def split: prod.split)

lemma call_user_flags: "stable (same flags) (call_user f)"
  by (simp add: stable_def same_def call_user_def on_world_flags)

lemma every_flags: "stable (same flags) (every cs)"
  by (induction cs) (auto intro!: same.ret same.bind same.if_then call_user_flags)

lemma run_after_flags: "stable (same flags) (run_after cfg c)"
  unfolding run_after_def by (intro same.bind same.gets same.if_then same.ret same.andthen every_flags call_user_flags)

lemma is_skip_flags: "stable (same flags) (is_skip c)"
  unfolding is_skip_def by (intro same.bind same.gets same.if_then same.ret every_flags)

lemma halted_before: "halted e \<Longrightarrow> run_before cfg c e = (Inr (), e)"
  by (simp add: run_before_def bind_gets ret_def)

lemma halted_around: "halted e \<Longrightarrow> run_around c inner e = inner e"
  by (simp add: run_around_def is_skip_def bind_gets bind_def gets_def ret_def)

definition after_callbacks :: "('w, 'v, 'e) callback list \<Rightarrow> ('w, 'v, 'e) callback list" where
  "after_callbacks cs = rev (List.filter (\<lambda>c. kind_of c = After) cs)"

lemma halted_onion:
  "halted e \<Longrightarrow> onion cfg block cs e = for_each (after_callbacks cs) (run_after cfg) (e\<lparr>outcome := Truth False\<rparr>)"
proof (induction cs)
  case Nil
  then show ?case by (simp add: run_block_def bind_gets after_callbacks_def modify_def ret_def)
next
  case (Cons c cs)
  show ?case
  proof (cases "kind_of c")
    case Before
    then show ?thesis using Cons halted_before [OF Cons.prems, of cfg c] by (simp add: after_callbacks_def andthen_Inr)
  next
    case After
    have "for_each (after_callbacks (c # cs)) (run_after cfg) = andthen (for_each (after_callbacks cs) (run_after cfg)) (run_after cfg c)"
      using After by (simp add: after_callbacks_def for_each_append andthen_skip_right)
    then show ?thesis using After Cons by (simp add: andthen_def bind_def)
  next
    case Around
    then show ?thesis using Cons halted_around [OF Cons.prems, of c] by (simp add: after_callbacks_def)
  qed
qed

lemma halted_afters_skip: "halted e \<Longrightarrow> skip_after cfg \<Longrightarrow> for_each cs (run_after cfg) e = (Inr (), e)"
  by (induction cs) (simp_all add: ret_def andthen_def bind_def run_after_def gets_def)

text \<open>
  C8. What is left of a halted run: no before callback, no around callback, no condition of them and
  not the block, only the after callbacks from the last to the first, and not even these when the
  chain skips them; the outcome is false.
\<close>
theorem halted_runs_only_finish:
  assumes "halted e"
  shows "run_seq cfg block (compile_entries cs) e =
    (if skip_after cfg then (Inr (), e\<lparr>outcome := Truth False\<rparr>)
     else for_each (rev (List.filter (\<lambda>c. kind_of c = After) cs)) (run_after cfg) (e\<lparr>outcome := Truth False\<rparr>))"
  using halted_afters_skip [of "e\<lparr>outcome := Truth False\<rparr>" cfg] assms
  by (simp add: run_compiled halted_onion after_callbacks_def)

definition settled :: "('w, 'v) env \<Rightarrow> bool" where
  "settled e \<longleftrightarrow> (halted e \<longrightarrow> outcome e = Truth False)"

lemma settled_flags: "flags e' = flags e \<Longrightarrow> settled e' = settled e"
  by (simp add: flags_def settled_def)

lemma flags_settled: "stable (same flags) m \<Longrightarrow> settled e \<Longrightarrow> settled (snd (m e))"
  using settled_flags by (fastforce simp: stable_def same_def)

definition hook_returns :: "('w, 'v, 'e) config \<Rightarrow> bool" where
  "hook_returns cfg \<longleftrightarrow> (\<forall>f w. \<exists>w'. halted_hook cfg f w = (Inr (), w'))"

lemma halt_run:
  assumes "hook_returns cfg"
  shows "\<exists>e'. halt cfg c e = (Inr (), e') \<and> halted e'"
proof -
  obtain w' where "halted_hook cfg (filter_of c) (world e) = (Inr (), w')" using assms unfolding hook_returns_def by blast
  then show ?thesis by (simp add: halt_def andthen_def bind_def modify_def on_world_def)
qed

lemma flags_unhalted: "stable (same flags) m \<Longrightarrow> m e1 = (r, e2) \<Longrightarrow> \<not> halted e1 \<Longrightarrow> \<not> halted e2"
  using stable_run by (fastforce simp: same_def flags_def)

lemma before_run:
  assumes hook: "hook_returns cfg" and s: "settled e"
  shows "settled (snd (run_before cfg c e)) \<or> (\<exists>e'. run_before cfg c e = (Inr (), e') \<and> halted e')"
proof (cases "halted e")
  case True
  then show ?thesis using halted_before [OF True, of cfg c] by simp
next
  case False
  have fine: "\<not> halted e2 \<Longrightarrow> settled e2" for e2 :: "('x, 'y) env" by (simp add: settled_def)
  obtain r e1 where ev: "every (conditions c) e = (r, e1)" by fastforce
  have e1: "\<not> halted e1" by (rule flags_unhalted [OF every_flags ev False])
  have start: "run_before cfg c e = bind (every (conditions c)) (\<lambda>ok. if \<not> ok then skip else (case terminator cfg of
       NoTerminator \<Rightarrow> andthen (call_user (lambda c)) skip
     | Custom t \<Rightarrow> bind (call_user (\<lambda>v. t (lambda c v))) (\<lambda>stop. only_if stop (halt cfg c))
     | CatchAbort \<Rightarrow> (\<lambda>e. case call_user (lambda c) e of
           (Inl AbortSignal, e') \<Rightarrow> halt cfg c e'
         | (Inl (Thrown x), e') \<Rightarrow> (Inl (Thrown x), e')
         | (Inr v, e') \<Rightarrow> (Inr (), e')))) e"
    using False by (simp add: run_before_def bind_gets)
  show ?thesis
  proof (cases "r = Inr True")
    case True
    show ?thesis
    proof (cases "terminator cfg")
      case NoTerminator
      obtain q e2 where q: "call_user (lambda c) e1 = (q, e2)" by fastforce
      have "\<not> halted e2" by (rule flags_unhalted [OF call_user_flags q e1])
      then show ?thesis using start ev True NoTerminator q
        by (cases q) (simp_all add: bind_def andthen_def ret_def fine)
    next
      case (Custom t)
      obtain q e2 where q: "call_user (\<lambda>v. t (lambda c v)) e1 = (q, e2)" by fastforce
      have "\<not> halted e2" by (rule flags_unhalted [OF call_user_flags q e1])
      then show ?thesis using start ev True Custom q halt_run [OF hook, of c e2]
        by (cases q) (auto simp: bind_def only_if_def ret_def fine)
    next
      case CatchAbort
      obtain q e2 where q: "call_user (lambda c) e1 = (q, e2)" by fastforce
      have "\<not> halted e2" by (rule flags_unhalted [OF call_user_flags q e1])
      then show ?thesis using start ev True CatchAbort q halt_run [OF hook, of c e2]
        by (auto simp: bind_def fine split: sum.split thrown.split)
    qed
  next
    case False
    then show ?thesis using start ev e1 by (cases r) (auto simp: bind_def ret_def fine)
  qed
qed

lemma onion_settles:
  assumes hook: "hook_returns cfg"
  shows "settled e \<Longrightarrow> settled (snd (onion cfg block cs e))"
proof (induction cs arbitrary: e)
  case Nil
  show ?case
  proof (cases "halted e")
    case False
    have "\<not> halted (snd (run_block block e))"
      using False by (auto simp: run_block_def bind_def gets_def modify_def on_world_def ret_def split: option.split prod.split sum.split)
    then show ?thesis by (simp add: settled_def)
  qed (simp add: run_block_def bind_def gets_def modify_def settled_def)
next
  case (Cons c cs)
  have done': "settled (snd (onion cfg block cs e))" if "halted e" for e
  proof -
    have "stable (same flags) (for_each (after_callbacks cs) (run_after cfg))"
      by (intro same.for_each run_after_flags)
    then show ?thesis unfolding halted_onion [OF that]
      by (rule flags_settled) (simp add: settled_def)
  qed
  show ?case
  proof (cases "kind_of c")
    case Before
    obtain r e1 where b: "run_before cfg c e = (r, e1)" by fastforce
    then have "onion cfg block (c # cs) e = (case r of Inl x \<Rightarrow> (Inl x, e1) | Inr u \<Rightarrow> onion cfg block cs e1)"
      using Before by (simp add: andthen_def bind_def split: sum.split)
    then show ?thesis using before_run [OF hook Cons.prems, of c] b Cons.IH [of e1] done' [of e1]
      by (auto split: sum.split)
  next
    case After
    obtain r e1 where b: "onion cfg block cs e = (r, e1)" by fastforce
    have "settled e1" using Cons.IH [OF Cons.prems] b by simp
    then have "settled (snd (run_after cfg c e1))" by (rule flags_settled [OF run_after_flags])
    then show ?thesis using After b \<open>settled e1\<close> by (cases r) (simp_all add: andthen_def bind_def)
  next
    case Around
    let ?inner = "onion cfg block cs"
    have body: "settled (snd (run_around_body (andthen ?inner (gets outcome)) m e))" if "settled e" for m e
      using that
    proof (induction m arbitrary: e)
      case (Act f)
      have "settled (e\<lparr>world := fst (f (world e))\<rparr>)" using Act.prems by (simp add: settled_def)
      moreover obtain w m where f: "f (world e) = (w, m)" by fastforce
      moreover have "f (world e) \<in> range f" by simp
      ultimately show ?case using Act.IH [of "f (world e)" m "e\<lparr>world := w\<rparr>"] by (simp add: snds.simps)
    next
      case (Proceed k)
      obtain r e1 where n: "andthen ?inner (gets outcome) e = (r, e1)" by fastforce
      then have "settled e1" using Cons.IH [OF Proceed.prems]
        by (cases "?inner e") (auto simp: andthen_def bind_def gets_def split: sum.splits)
      then show ?case using Proceed.IH [of "k r" e1] n by auto
    qed (simp_all add: ret_def throw_def)
    obtain r e1 where b: "is_skip c e = (r, e1)" by fastforce
    have e1: "settled e1" using flags_settled [OF is_skip_flags Cons.prems, of c] b by simp
    have "settled (snd (andthen (\<lambda>e. run_around_body (andthen ?inner (gets outcome)) (wraps c (outcome e)) e) skip e1))"
      using body [OF e1, of "wraps c (outcome e1)"]
      by (cases "run_around_body (andthen ?inner (gets outcome)) (wraps c (outcome e1)) e1")
        (auto simp: andthen_def bind_def ret_def split: sum.split)
    then show ?thesis using Around b e1 Cons.IH [OF e1]
      by (cases r) (simp_all add: run_around_def bind_def)
  qed
qed

text \<open>
  C9. A run during which some callback halted answers false, however the around callbacks call,
  repeat, catch or forget what they wrap, unless an error leaves it or the halted hook throws.
\<close>
theorem halted_runs_answer_false:
  assumes "hook_returns cfg"
    and "run_seq cfg block (compile_entries cs) \<lparr>world = w, halted = False, outcome = Undefined\<rparr> = (Inr (), e)"
    and "halted e"
  shows "invoke cfg block (compile_entries cs) w = (Inr (Truth False), world e)"
proof -
  let ?e = "\<lparr>world = w, halted = False, outcome = Undefined\<rparr>"
  have "settled ?e" by (simp add: settled_def)
  then have "settled (snd (onion cfg block cs ?e))" by (rule onion_settles [OF assms(1)])
  then have "outcome e = Truth False" using assms(2,3) by (simp add: run_compiled settled_def)
  then show ?thesis using assms(2) by (simp add: invoke_def)
qed


text \<open>Without around callbacks: the before callbacks in order, the block, the after callbacks from the
  last to the first.\<close>

lemma plain_chains_run_in_order:
  assumes "\<And>c. c \<in> set cs \<Longrightarrow> kind_of c \<noteq> Around"
  shows "run_seq cfg block (compile_entries cs) =
    andthen (for_each (List.filter (\<lambda>c. kind_of c = Before) cs) (run_before cfg))
      (andthen (run_block block) (for_each (after_callbacks cs) (run_after cfg)))"
  unfolding run_compiled using assms
proof (induction cs)
  case Nil
  then show ?case by (simp add: after_callbacks_def andthen_skip_left andthen_skip_right)
next
  case (Cons c cs)
  then show ?case
    by (cases "kind_of c") (simp_all add: after_callbacks_def andthen_assoc for_each_append andthen_skip_right)
qed

section \<open>An example\<close>

definition sample_config :: "bool \<Rightarrow> (nat, nat, nat) config" where
  "sample_config skip' = \<lparr>terminator = CatchAbort, skip_after = skip', halted_hook = (\<lambda>f w. (Inr (), w + 10))\<rparr>"

definition sample_callback :: "callback_kind \<Rightarrow> (nat, nat, nat) callback" where
  "sample_callback k = \<lparr>kind_of = k, filter_of = StringFilter '':check'', if_conditions = [\<lambda>v w. (Inr (w = 0), w)],
     unless_conditions = [], lambda = (\<lambda>v w. (if k = Before then Inl AbortSignal else Inr Undefined, w + 1)),
     wraps = (\<lambda>v. Proceed (\<lambda>r. Done Undefined))\<rparr>"

definition sample_chain :: "(nat, nat, nat) callback list" where
  "sample_chain = [sample_callback Around, sample_callback Before, sample_callback After]"

lemma chains_run_as_onions_example:
  "run_seq (sample_config True) None
     (fst (compile_chain None (append_all [sample_callback Before, sample_callback Before] (new_chain (sample_config True))))) =
   onion (sample_config True) None [sample_callback Before]"
proof -
  let ?ch = "append_all [sample_callback Before, sample_callback Before] (new_chain (sample_config True))"
  have "edit\<^sup>*\<^sup>* (new_chain (sample_config True)) ?ch" by (rule r_into_rtranclp) (rule appending)
  moreover have "entries ?ch = [sample_callback Before]"
    by (simp add: append_all_def append_one_def remove_duplicates_def drop_caches_def new_chain_def duplicates_def sample_callback_def)
  ultimately show ?thesis using chains_run_as_onions [of "sample_config True" ?ch None None] by (simp add: selected_def)
qed

lemma halted_runs_only_finish_example:
  "run_seq (sample_config True) None (compile_entries sample_chain) \<lparr>world = 0, halted = True, outcome = Undefined\<rparr> =
     (Inr (), \<lparr>world = 0, halted = True, outcome = Truth False\<rparr>)"
  by (subst halted_runs_only_finish) (simp_all add: sample_config_def)

lemma halted_runs_answer_false_example:
  "invoke (sample_config False) None (compile_entries sample_chain) 0 = (Inr (Truth False), 11)"
proof -
  let ?e = "\<lparr>world = 11, halted = True, outcome = Truth False\<rparr>"
  have "run_seq (sample_config False) None (compile_entries sample_chain) \<lparr>world = 0, halted = False, outcome = Undefined\<rparr> =
    (Inr (), ?e)"
    by (simp add: sample_chain_def sample_callback_def sample_config_def run_compiled comp_simps run_around_def is_skip_def
        conditions_def call_user_def on_world_def run_before_def run_after_def halt_def run_block_def)
  moreover have "hook_returns (sample_config False)" by (simp add: hook_returns_def sample_config_def)
  ultimately show ?thesis using halted_runs_answer_false [of "sample_config False" None sample_chain 0 ?e] by simp
qed

end
