(* ===== verification/Spell_Distance.thy ===== *)
theory Spell_Distance
  imports Main
begin

text \<open>
  The edit distance of \<^verbatim>\<open>packages/did-you-mean/src/levenshtein.ts\<close>, on lists of code points: one row
  of the table of distances is kept and overwritten from left to right. It is the least number of
  insertions, deletions and replacements that lead from one text to the other.
\<close>

section \<open>The loop\<close>

definition min3 :: "nat \<Rightarrow> nat \<Rightarrow> nat \<Rightarrow> nat" where
  "min3 a b c = (if a < b \<and> a < c then a else if b < c then b else c)"

text \<open>One turn of the inner loop, on the row \<open>d\<close> and the variables \<open>i\<close> and \<open>x\<close>.\<close>

definition lev_cell :: "'a \<Rightarrow> 'a list \<Rightarrow> nat \<Rightarrow> nat list \<times> nat \<times> nat \<Rightarrow> nat list \<times> nat \<times> nat" where
  "lev_cell c ys j st = (case st of (d, i, x) \<Rightarrow>
     (let cost = (if c = ys ! j then 0 else 1);
          x' = min3 (d ! Suc j + 1) (i + 1) (d ! j + cost)
      in (d[j := i], x', x')))"

definition lev_row :: "'a list \<Rightarrow> 'a list \<Rightarrow> nat \<Rightarrow> nat list \<times> nat \<Rightarrow> nat list \<times> nat" where
  "lev_row xs ys idx st = (case st of (d, x) \<Rightarrow>
     (case fold (lev_cell (xs ! idx) ys) [0..<length ys] (d, idx + 1, x) of
        (d', i, x') \<Rightarrow> (d'[length ys := x'], x')))"

definition levenshtein :: "'a list \<Rightarrow> 'a list \<Rightarrow> nat" where
  "levenshtein xs ys = (if length xs = 0 then length ys else if length ys = 0 then length xs
     else snd (fold (lev_row xs ys) [0..<length xs] ([0..<Suc (length ys)], 0)))"

section \<open>Edits\<close>

text \<open>\<open>edits n xs ys\<close>: read from left to right, \<open>n\<close> edits turn \<open>xs\<close> into \<open>ys\<close>.\<close>

inductive edits :: "nat \<Rightarrow> 'a list \<Rightarrow> 'a list \<Rightarrow> bool" where
  start: "edits 0 [] []"
| same: "edits n xs ys \<Longrightarrow> edits n (xs @ [c]) (ys @ [c])"
| replacing: "edits n xs ys \<Longrightarrow> edits (Suc n) (xs @ [a]) (ys @ [b])"
| inserting: "edits n xs ys \<Longrightarrow> edits (Suc n) xs (ys @ [b])"
| deleting: "edits n xs ys \<Longrightarrow> edits (Suc n) (xs @ [a]) ys"

fun table :: "'a list \<Rightarrow> 'a list \<Rightarrow> nat \<Rightarrow> nat \<Rightarrow> nat" where
  "table xs ys 0 j = j"
| "table xs ys (Suc i) 0 = Suc i"
| "table xs ys (Suc i) (Suc j) = min3 (table xs ys i (Suc j) + 1) (table xs ys (Suc i) j + 1)
     (table xs ys i j + (if xs ! i = ys ! j then 0 else 1))"

lemma min3_le: "min3 a b c \<le> a" "min3 a b c \<le> b" "min3 a b c \<le> c" "min3 a b c \<in> {a, b, c}"
  by (auto simp: min3_def)

lemma edits_insert_all: "edits (length ys) [] ys"
  by (induction ys rule: rev_induct) (auto intro: edits.intros)

lemma edits_delete_all: "edits (length xs) xs []"
  by (induction xs rule: rev_induct) (auto intro: edits.intros)

lemma table_reached:
  "i \<le> length xs \<Longrightarrow> j \<le> length ys \<Longrightarrow> edits (table xs ys i j) (take i xs) (take j ys)"
proof (induction xs ys i j rule: table.induct)
  case (1 xs ys j)
  then show ?case using edits_insert_all [of "take j ys"] by simp
next
  case (2 xs ys i)
  then show ?case using edits_delete_all [of "take (Suc i) xs"] by simp
next
  case (3 xs ys i j)
  have x: "take (Suc i) xs = take i xs @ [xs ! i]" and y: "take (Suc j) ys = take j ys @ [ys ! j]"
    using 3(4,5) by (simp_all add: take_Suc_conv_app_nth)
  have del: "edits (Suc (table xs ys i (Suc j))) (take (Suc i) xs) (take (Suc j) ys)"
    unfolding x by (rule deleting) (use 3 in simp)
  have ins: "edits (Suc (table xs ys (Suc i) j)) (take (Suc i) xs) (take (Suc j) ys)"
    unfolding y by (rule inserting) (use 3 in simp)
  have rep: "edits (table xs ys i j + (if xs ! i = ys ! j then 0 else 1)) (take (Suc i) xs) (take (Suc j) ys)"
    unfolding x y using 3 by (auto intro: edits.same edits.replacing)
  show ?case using min3_le(4) [of "table xs ys i (Suc j) + 1" "table xs ys (Suc i) j + 1"
      "table xs ys i j + (if xs ! i = ys ! j then 0 else 1)"] del ins rep by auto
qed

lemma take_snoc: "us @ [c] = take i xs \<Longrightarrow> i \<le> length xs \<Longrightarrow> \<exists>k. i = Suc k \<and> us = take k xs \<and> xs ! k = c"
proof -
  assume a: "us @ [c] = take i xs" and i: "i \<le> length xs"
  then have "length us + 1 = i" by (metis length_append_singleton length_take min_absorb2 Suc_eq_plus1)
  then obtain k where k: "i = Suc k" by auto
  then have "take i xs = take k xs @ [xs ! k]" using i by (simp add: take_Suc_conv_app_nth)
  then show ?thesis using a k by simp
qed

lemma table_least:
  "edits n us vs \<Longrightarrow> us = take i xs \<Longrightarrow> vs = take j ys \<Longrightarrow> i \<le> length xs \<Longrightarrow> j \<le> length ys \<Longrightarrow> table xs ys i j \<le> n"
proof (induction n us vs arbitrary: i j rule: edits.induct)
  case start
  then have "i = 0" "j = 0" by auto
  then show ?case by simp
next
  case (same n us vs c)
  obtain k l where k: "i = Suc k" "us = take k xs" "xs ! k = c" and l: "j = Suc l" "vs = take l ys" "ys ! l = c"
    using take_snoc [OF same.prems(1,3)] take_snoc [OF same.prems(2,4)] by blast
  have "table xs ys k l \<le> n" using same.IH k l same.prems by simp
  then show ?case using min3_le(3) [of "table xs ys k (Suc l) + 1" "table xs ys (Suc k) l + 1" "table xs ys k l"] k l by simp
next
  case (replacing n us vs a b)
  obtain k l where k: "i = Suc k" "us = take k xs" and l: "j = Suc l" "vs = take l ys"
    using take_snoc [OF replacing.prems(1,3)] take_snoc [OF replacing.prems(2,4)] by blast
  have "table xs ys k l \<le> n" using replacing.IH k l replacing.prems by simp
  then show ?case using min3_le(3) [of "table xs ys k (Suc l) + 1" "table xs ys (Suc k) l + 1"
      "table xs ys k l + (if xs ! k = ys ! l then 0 else 1)"] k l by (auto split: if_splits)
next
  case (inserting n us vs b)
  obtain l where l: "j = Suc l" "vs = take l ys" using take_snoc [OF inserting.prems(2,4)] by blast
  have IH: "table xs ys i l \<le> n" using inserting.IH l inserting.prems by simp
  show ?case
  proof (cases i)
    case (Suc k)
    then show ?thesis using IH l min3_le(2) [of "table xs ys k (Suc l) + 1" "table xs ys (Suc k) l + 1"
        "table xs ys k l + (if xs ! k = ys ! l then 0 else 1)"] by simp
  qed (use IH l in simp)
next
  case (deleting n us vs a)
  obtain k where k: "i = Suc k" "us = take k xs" using take_snoc [OF deleting.prems(1,3)] by blast
  have IH: "table xs ys k j \<le> n" using deleting.IH k deleting.prems by simp
  show ?case
  proof (cases j)
    case 0
    then show ?thesis using IH k by (cases k) simp_all
  next
    case (Suc l)
    then show ?thesis using IH k min3_le(1) [of "table xs ys k (Suc l) + 1" "table xs ys (Suc k) l + 1"
        "table xs ys k l + (if xs ! k = ys ! l then 0 else 1)"] by simp
  qed
qed

section \<open>The loop fills the table\<close>

lemma row_cells:
  assumes "d = map (table xs ys idx) [0..<Suc (length ys)]" "j \<le> length ys"
  shows "\<exists>x'. fold (lev_cell (xs ! idx) ys) [0..<j] (d, idx + 1, x) =
    (map (table xs ys (Suc idx)) [0..<j] @ map (table xs ys idx) [j..<Suc (length ys)], table xs ys (Suc idx) j, x') \<and>
    (0 < j \<longrightarrow> x' = table xs ys (Suc idx) j)"
  using assms(2)
proof (induction j)
  case 0
  then show ?case using assms(1) by simp
next
  case (Suc j)
  let ?new = "map (table xs ys (Suc idx)) [0..<j]"
  let ?old = "map (table xs ys idx) [j..<Suc (length ys)]"
  obtain x' where f: "fold (lev_cell (xs ! idx) ys) [0..<j] (d, idx + 1, x) = (?new @ ?old, table xs ys (Suc idx) j, x')"
    using Suc by auto
  have at: "(?new @ ?old) ! Suc j = table xs ys idx (Suc j)" "(?new @ ?old) ! j = table xs ys idx j"
    using Suc.prems by (simp_all add: nth_append del: upt_Suc)
  have "[j..<Suc (length ys)] = j # [Suc j..<Suc (length ys)]" using Suc.prems by (simp add: upt_conv_Cons del: upt_Suc)
  then have put: "(?new @ ?old)[j := table xs ys (Suc idx) j] =
      map (table xs ys (Suc idx)) [0..<Suc j] @ map (table xs ys idx) [Suc j..<Suc (length ys)]"
    by (simp add: list_update_append del: upt_Suc) (simp add: upt_Suc_append)
  have "lev_cell (xs ! idx) ys j (?new @ ?old, table xs ys (Suc idx) j, x') =
      ((?new @ ?old)[j := table xs ys (Suc idx) j], table xs ys (Suc idx) (Suc j), table xs ys (Suc idx) (Suc j))"
    by (simp add: lev_cell_def Let_def at del: upt_Suc)
  then show ?case using f put by (simp del: upt_Suc add: upt_Suc_append)
qed

lemma row_row:
  assumes "ys \<noteq> []"
  shows "lev_row xs ys idx (map (table xs ys idx) [0..<Suc (length ys)], x) =
    (map (table xs ys (Suc idx)) [0..<Suc (length ys)], table xs ys (Suc idx) (length ys))"
proof -
  obtain x' where f: "fold (lev_cell (xs ! idx) ys) [0..<length ys] (map (table xs ys idx) [0..<Suc (length ys)], idx + 1, x) =
    (map (table xs ys (Suc idx)) [0..<length ys] @ map (table xs ys idx) [length ys..<Suc (length ys)],
     table xs ys (Suc idx) (length ys), x')" and x': "x' = table xs ys (Suc idx) (length ys)"
    using row_cells [OF HOL.refl, of "length ys" ys xs idx x] assms by auto
  show ?thesis by (simp only: lev_row_def prod.case f x') (simp add: list_update_append)
qed

lemma rows:
  assumes "ys \<noteq> []"
  shows "fold (lev_row xs ys) [0..<i] ([0..<Suc (length ys)], 0) =
    (map (table xs ys i) [0..<Suc (length ys)], if i = 0 then 0 else table xs ys i (length ys))"
proof (induction i)
  case 0
  then show ?case by (simp add: map_idI del: upt_Suc)
next
  case (Suc i)
  then show ?case using row_row [OF assms] by (simp add: upt_Suc_append del: upt_Suc)
qed

lemma levenshtein_table: "levenshtein xs ys = table xs ys (length xs) (length ys)"
proof (cases "xs = [] \<or> ys = []")
  case True
  then show ?thesis by (cases xs; cases ys) (auto simp: levenshtein_def)
next
  case False
  then show ?thesis by (simp add: levenshtein_def rows del: upt_Suc)
qed

text \<open>
  C10. The distance is reached by that many edits, and by no fewer.
\<close>
theorem distance_is_least_edits:
  "edits (levenshtein xs ys) xs ys \<and> (\<forall>n. edits n xs ys \<longrightarrow> levenshtein xs ys \<le> n)"
  using table_reached [of "length xs" xs "length ys" ys] table_least [of _ xs ys "length xs" xs "length ys" ys]
  by (simp add: levenshtein_table)

lemma distance_is_least_edits_example: "edits (levenshtein ''a'' ''ab'') ''a'' ''ab'' \<and> levenshtein ''a'' ''ab'' \<le> 1"
proof -
  have "edits 1 ([] @ [CHR ''a'']) (([] @ [CHR ''a'']) @ [CHR ''b''])"
    unfolding One_nat_def by (intro edits.inserting edits.same edits.start)
  then show ?thesis using distance_is_least_edits [of "''a''" "''ab''"] by simp
qed

end
