(* ===== verification/Doubles.thy ===== *)
theory Doubles
  imports Complex_Main
begin

text \<open>
  JavaScript's numbers as real numbers. \<open>double\<close> rounds a real number to 53 significant bits, to the
  nearest and on a tie to the even one, as every product, quotient, sum and literal does while it
  neither overflows nor is tiny, which holds wherever the development uses it.
\<close>

section \<open>Rounding\<close>

definition half_even :: "real \<Rightarrow> int" where
  "half_even t = (let n = \<lfloor>t\<rfloor> in if t - of_int n < 1 / 2 \<or> t - of_int n = 1 / 2 \<and> even n then n else n + 1)"

definition double :: "real \<Rightarrow> real" where
  "double x = (if x = 0 then 0
     else let u = 2 powi (\<lfloor>log 2 \<bar>x\<bar>\<rfloor> - 52) in of_int (half_even (x / u)) * u)"

lemma half_even_error: "\<bar>of_int (half_even t) - t\<bar> \<le> 1 / 2"
  unfolding half_even_def Let_def using of_int_floor_le [of t] floor_correct [of t] by auto

lemma half_even_int: "half_even (of_int n) = n"
  by (simp add: half_even_def)

lemma binade:
  assumes "x \<noteq> 0"
  shows "2 powi \<lfloor>log 2 \<bar>x\<bar>\<rfloor> \<le> \<bar>x\<bar>" "\<bar>x\<bar> < 2 powi (\<lfloor>log 2 \<bar>x\<bar>\<rfloor> + 1)"
proof -
  let ?e = "\<lfloor>log 2 \<bar>x\<bar>\<rfloor>"
  have "2 powr of_int ?e \<le> \<bar>x\<bar>" using assms by (simp add: powr_le_iff)
  then show "2 powi ?e \<le> \<bar>x\<bar>" by (simp add: powr_real_of_int')
  have "log 2 \<bar>x\<bar> < of_int (?e + 1)" by linarith
  then have "\<bar>x\<bar> < 2 powr of_int (?e + 1)" using assms by (subst less_powr_iff) simp_all
  also have "2 powr of_int (?e + 1) = (2 :: real) powi (?e + 1)" by (rule powr_real_of_int') (rule zero_le_numeral, rule disjI1, rule zero_neq_numeral [symmetric])
  finally show "\<bar>x\<bar> < 2 powi (?e + 1)" .
qed

lemma double_error: "\<bar>double x - x\<bar> \<le> \<bar>x\<bar> / 2 ^ 53"
proof (cases "x = 0")
  case False
  let ?e = "\<lfloor>log 2 \<bar>x\<bar>\<rfloor>"
  let ?u = "2 powi (?e - 52) :: real"
  have u: "0 < ?u" by simp
  have "double x - x = (of_int (half_even (x / ?u)) - x / ?u) * ?u"
    using False u by (simp add: double_def Let_def left_diff_distrib)
  then have "\<bar>double x - x\<bar> = \<bar>of_int (half_even (x / ?u)) - x / ?u\<bar> * ?u" using u by (simp add: abs_mult)
  also have "\<dots> \<le> 1 / 2 * ?u" by (rule mult_right_mono [OF half_even_error]) simp
  also have "\<dots> = 2 powi ?e / 2 ^ 53" by (simp add: power_int_diff)
  also have "\<dots> \<le> \<bar>x\<bar> / 2 ^ 53" using binade(1) [OF False] by (simp add: divide_right_mono)
  finally show ?thesis .
qed (simp add: double_def)

lemma double_quarter:
  assumes "\<bar>n\<bar> < 2 ^ 53"
  shows "double (of_int n / 4) = of_int n / 4"
proof (cases "n = 0")
  case False
  let ?x = "of_int n / 4 :: real"
  let ?e = "\<lfloor>log 2 \<bar>?x\<bar>\<rfloor>"
  have x: "?x \<noteq> 0" using False by simp
  have "\<bar>of_int n :: real\<bar> < 2 ^ 53" using assms by (metis of_int_abs of_int_less_iff of_int_numeral of_int_power)
  then have "\<bar>?x\<bar> < 2 powi 51" by simp
  with binade(1) [OF x] have "(2 :: real) powi ?e < 2 powi 51" by linarith
  then have "?e < 51" using power_int_increasing [of 51 ?e "2 :: real"] by (meson not_le one_le_numeral)
  then have e: "?e \<le> 50" by simp
  define k where "k = nat (50 - ?e)"
  have k: "50 - ?e = int k" using e by (simp add: k_def)
  have "?x / 2 powi (?e - 52) = of_int n * 2 powi (50 - ?e)"
    by (simp add: power_int_diff field_simps)
  also have "\<dots> = of_int (n * 2 ^ k)" unfolding k by simp
  finally have "?x / 2 powi (?e - 52) = of_int (n * 2 ^ k)" .
  then have "of_int (half_even (?x / 2 powi (?e - 52))) = ?x / 2 powi (?e - 52)" by (simp only: half_even_int)
  then have "double ?x = (?x / 2 powi (?e - 52)) * 2 powi (?e - 52)"
    using x unfolding double_def Let_def by (simp only: if_False)
  also have "\<dots> = ?x" by simp
  finally show ?thesis .
qed (simp add: double_def)

section \<open>Rounding and order\<close>

lemma half_even_mono: "s \<le> t \<Longrightarrow> half_even s \<le> half_even t"
proof -
  assume le: "s \<le> t"
  show ?thesis
  proof (cases "\<lfloor>s\<rfloor> = \<lfloor>t\<rfloor>")
    case True
    then show ?thesis using le by (auto simp: half_even_def Let_def)
  next
    case False
    then have "\<lfloor>s\<rfloor> + 1 \<le> \<lfloor>t\<rfloor>" using floor_mono [OF le] by linarith
    then show ?thesis by (auto simp: half_even_def Let_def)
  qed
qed

lemma double_pos_bounds:
  assumes "0 < x"
  shows "2 powi \<lfloor>log 2 x\<rfloor> \<le> double x" "double x \<le> 2 powi (\<lfloor>log 2 x\<rfloor> + 1)"
proof -
  let ?e = "\<lfloor>log 2 x\<rfloor>"
  let ?u = "2 powi (?e - 52) :: real"
  have u: "0 < ?u" by simp
  have d: "double x = of_int (half_even (x / ?u)) * ?u" using assms by (simp add: double_def Let_def)
  have "2 powi ?e \<le> x" "x < 2 powi (?e + 1)" using binade [of x] assms by simp_all
  moreover have split: "2 powi ?e = of_int (2 ^ 52) * ?u" "2 powi (?e + 1) = of_int (2 ^ 53) * ?u"
    by (simp_all add: power_int_diff power_int_add)
  ultimately have "of_int (2 ^ 52) \<le> x / ?u" "x / ?u \<le> of_int (2 ^ 53)"
    using u by (simp_all add: pos_le_divide_eq pos_divide_le_eq)
  then have "half_even (of_int (2 ^ 52)) \<le> half_even (x / ?u)" "half_even (x / ?u) \<le> half_even (of_int (2 ^ 53))"
    by (blast intro: half_even_mono)+
  then have "2 ^ 52 \<le> half_even (x / ?u)" "half_even (x / ?u) \<le> 2 ^ 53" unfolding half_even_int .
  then have "of_int (2 ^ 52) \<le> (of_int (half_even (x / ?u)) :: real)" "(of_int (half_even (x / ?u)) :: real) \<le> of_int (2 ^ 53)"
    by (simp_all only: of_int_le_iff)
  then show "2 powi ?e \<le> double x" "double x \<le> 2 powi (?e + 1)"
    unfolding d split using u by (simp_all only: mult_le_cancel_right_pos)
qed

lemma double_mono_pos:
  assumes "0 < x" "x \<le> y"
  shows "double x \<le> double y"
proof (cases "\<lfloor>log 2 x\<rfloor> = \<lfloor>log 2 y\<rfloor>")
  case True
  let ?u = "2 powi (\<lfloor>log 2 y\<rfloor> - 52) :: real"
  have "half_even (x / ?u) \<le> half_even (y / ?u)" using assms by (intro half_even_mono divide_right_mono) simp_all
  then show ?thesis using assms True by (simp add: double_def Let_def)
next
  case False
  have "log 2 x \<le> log 2 y" using assms by simp
  then have "\<lfloor>log 2 x\<rfloor> + 1 \<le> \<lfloor>log 2 y\<rfloor>" using False floor_mono by fastforce
  then have "(2 :: real) powi (\<lfloor>log 2 x\<rfloor> + 1) \<le> 2 powi \<lfloor>log 2 y\<rfloor>" by (intro power_int_increasing) simp_all
  then show ?thesis using double_pos_bounds(2) [of x] double_pos_bounds(1) [of y] assms by linarith
qed

lemma double_nonneg: "0 \<le> x \<Longrightarrow> 0 \<le> double x"
proof (cases "x = 0")
  case False
  assume "0 \<le> x"
  then have "2 powi \<lfloor>log 2 x\<rfloor> \<le> double x" using double_pos_bounds(1) [of x] False by simp
  moreover have "(0 :: real) \<le> 2 powi \<lfloor>log 2 x\<rfloor>" by simp
  ultimately show ?thesis by linarith
qed (simp add: double_def)

lemma double_mono: "0 \<le> x \<Longrightarrow> x \<le> y \<Longrightarrow> double x \<le> double y"
  using double_mono_pos [of x y] double_nonneg [of y] by (cases "x = 0") (simp_all add: double_def)

lemma double_int: "\<bar>n\<bar> < 2 ^ 51 \<Longrightarrow> double (of_int n) = of_int n"
  using double_quarter [of "4 * n"] by simp

end
