(* ===== verification/Spell_Checker.thy ===== *)
theory Spell_Checker
  imports Spell_Distance Doubles
begin

text \<open>
  Suggestions for a misspelt name: \<^verbatim>\<open>packages/did-you-mean/src/jaro-winkler.ts\<close> and
  \<^verbatim>\<open>packages/did-you-mean/src/spell-checker.ts\<close>, on lists of code points and with the arithmetic of
  doubles. \<open>lower\<close> is \<open>toLowerCase\<close>. The numbers of code points are taken to be below \<open>2 ^ 51\<close>, which
  every string is short enough for.
\<close>

section \<open>Similarity\<close>

definition jaro_range :: "nat \<Rightarrow> nat" where
  "jaro_range n = (if 3 < n then n div 2 - 1 else 0)"

definition jaro_window :: "nat \<Rightarrow> nat \<Rightarrow> nat list" where
  "jaro_window n i = (let range = jaro_range n; last' = i + range
     in [if range \<le> i then i - range else 0 ..< Suc (if last' < n - 1 then last' else n - 1)])"

definition match_step :: "'a list \<Rightarrow> 'a list \<Rightarrow> nat \<Rightarrow> bool list \<times> bool list \<times> nat \<Rightarrow> bool list \<times> bool list \<times> nat" where
  "match_step xs ys i st = (case st of (f1, f2, m) \<Rightarrow>
     (case List.find (\<lambda>j. \<not> f2 ! j \<and> xs ! i = ys ! j) (jaro_window (length ys) i) of
        None \<Rightarrow> (f1, f2, m)
      | Some j \<Rightarrow> (f1[i := True], f2[j := True], m + 1)))"

definition jaro_matches :: "'a list \<Rightarrow> 'a list \<Rightarrow> bool list \<times> bool list \<times> nat" where
  "jaro_matches xs ys = fold (match_step xs ys) [0..<length xs]
     (replicate (length xs) False, replicate (length ys) False, 0)"

definition trans_step :: "'a list \<Rightarrow> 'a list \<Rightarrow> bool list \<Rightarrow> bool list \<Rightarrow> nat \<Rightarrow> nat \<times> nat \<Rightarrow> nat \<times> nat" where
  "trans_step xs ys f1 f2 i st = (case st of (k, t) \<Rightarrow>
     if f1 ! i then
       (case List.find (\<lambda>j. f2 ! j) [k..<length ys] of
          Some j \<Rightarrow> (Suc j, if xs ! i \<noteq> ys ! j then t + 1 else t)
        | None \<Rightarrow> (k, let index = (if k < length ys then length ys - 1 else k)
            in if index < length ys \<and> xs ! i = ys ! index then t else t + 1))
     else (k, t))"

definition jaro_counts :: "'a list \<Rightarrow> 'a list \<Rightarrow> nat \<times> nat" where
  "jaro_counts xs ys = (case jaro_matches xs ys of (f1, f2, m) \<Rightarrow>
     (m, snd (fold (trans_step xs ys f1 f2) [0..<length xs] (0, 0)) div 2))"

definition jaro :: "'a list \<Rightarrow> 'a list \<Rightarrow> real" where
  "jaro a b = (let (xs, ys) = (if length b < length a then (b, a) else (a, b)) in
     if length ys = 0 then 0
     else (case jaro_counts xs ys of (m, t) \<Rightarrow>
       if m = 0 then 0
       else double (double (double (double (real m / real (length xs)) + double (real m / real (length ys)))
         + double (real (m - t) / real m)) / 3)))"

definition jw_weight :: real where "jw_weight = double 0.1"
definition jw_threshold :: real where "jw_threshold = double 0.7"

fun prefix_bonus :: "'a list \<Rightarrow> 'a list \<Rightarrow> nat \<Rightarrow> nat" where
  "prefix_bonus [] ys b = b"
| "prefix_bonus (x # xs) ys b = (if b < length ys \<and> x = ys ! b \<and> b < 4 then prefix_bonus xs ys (b + 1) else b)"

definition jaro_winkler :: "'a list \<Rightarrow> 'a list \<Rightarrow> real" where
  "jaro_winkler a b = (let j = jaro a b in if j \<le> jw_threshold then j
     else double (j + double (double (real (prefix_bonus a b 0) * jw_weight) * double (1 - j))))"

section \<open>Suggestions\<close>

definition normalize :: "(nat list \<Rightarrow> nat list) \<Rightarrow> nat list \<Rightarrow> nat list" where
  "normalize lower w = filter (\<lambda>c. c \<noteq> 64) (lower w)"

definition similar_words :: "(nat list \<Rightarrow> nat list) \<Rightarrow> nat list list \<Rightarrow> nat list \<Rightarrow> nat list list" where
  "similar_words lower dictionary input =
     (let n = normalize lower input;
          threshold = (if 3 < length n then double 0.834 else double 0.77);
          words = filter (\<lambda>w. threshold \<le> jaro_winkler (normalize lower w) n) dictionary;
          others = filter (\<lambda>w. input \<noteq> w) words
      in rev (sort_key (\<lambda>w. jaro_winkler w n) others))"

definition correct :: "(nat list \<Rightarrow> nat list) \<Rightarrow> nat list list \<Rightarrow> nat list \<Rightarrow> nat list list" where
  "correct lower dictionary input =
     (let n = normalize lower input;
          words = similar_words lower dictionary input;
          close = filter (\<lambda>w. levenshtein (normalize lower w) n \<le> (length n + 3) div 4) words
      in if close = []
         then take 1 (filter (\<lambda>w. let w = normalize lower w
           in levenshtein w n < (if length n < length w then length n else length w)) words)
         else close)"

section \<open>The similarity is between 0 and 1\<close>

definition flagged :: "bool list \<Rightarrow> nat" where
  "flagged f = length (filter (\<lambda>b. b) f)"

lemma flagged_put: "j < length f \<Longrightarrow> \<not> f ! j \<Longrightarrow> flagged (f[j := True]) = Suc (flagged f)"
  unfolding flagged_def by (induction f arbitrary: j) (auto simp: nth_Cons' split: nat.splits)

lemma window_in: "0 < n \<Longrightarrow> j \<in> set (jaro_window n i) \<Longrightarrow> j < n"
  by (auto simp: jaro_window_def Let_def split: if_splits)

lemma matches_count:
  assumes "ys \<noteq> []" "i \<le> length xs"
    and "fold (match_step xs ys) [0..<i] (replicate (length xs) False, replicate (length ys) False, 0) = (f1, f2, m)"
  shows "length f1 = length xs \<and> length f2 = length ys \<and> flagged f1 = m \<and> flagged f2 = m \<and>
    (\<forall>k. i \<le> k \<and> k < length xs \<longrightarrow> \<not> f1 ! k)"
  using assms(2,3)
proof (induction i arbitrary: f1 f2 m)
  case 0
  then have "f1 = replicate (length xs) False" "f2 = replicate (length ys) False" "m = 0" by auto
  then show ?case by (simp add: flagged_def)
next
  case (Suc i)
  obtain g1 g2 n where g: "fold (match_step xs ys) [0..<i] (replicate (length xs) False, replicate (length ys) False, 0) = (g1, g2, n)"
    by (metis prod_cases3)
  have IH: "length g1 = length xs" "length g2 = length ys" "flagged g1 = n" "flagged g2 = n"
    "\<forall>k. i \<le> k \<and> k < length xs \<longrightarrow> \<not> g1 ! k"
    using Suc.IH [OF _ g] Suc.prems(1) by auto
  have run: "match_step xs ys i (g1, g2, n) = (f1, f2, m)" using Suc.prems(2) g by simp
  show ?case
  proof (cases "List.find (\<lambda>j. \<not> g2 ! j \<and> xs ! i = ys ! j) (jaro_window (length ys) i)")
    case None
    then show ?thesis using run IH by (auto simp: match_step_def)
  next
    case (Some j)
    then have j: "\<not> g2 ! j" "j < length ys" using window_in [of "length ys"] assms(1)
      by (auto simp: find_Some_iff dest: nth_mem)
    have new: "f1 = g1[i := True]" "f2 = g2[j := True]" "m = Suc n" using run Some by (simp_all add: match_step_def)
    have "\<not> g1 ! i" using IH(5) Suc.prems(1) by simp
    then show ?thesis using new IH j Suc.prems(1) by (auto simp: flagged_put nth_list_update)
  qed
qed

lemma trans_bounded:
  "snd (fold (trans_step xs ys f1 f2) is (k, t)) \<le> t + length (filter (\<lambda>i. f1 ! i) is)"
proof (induction "is" arbitrary: k t)
  case (Cons i js)
  obtain k' t' where s: "trans_step xs ys f1 f2 i (k, t) = (k', t')" by fastforce
  then have "t' \<le> t + (if f1 ! i then 1 else 0)"
    by (auto simp: trans_step_def Let_def split: option.splits if_splits)
  then show ?case using Cons [of k' t'] s by (auto split: if_splits)
qed simp

lemma counts_bounded:
  assumes "ys \<noteq> []" "jaro_counts xs ys = (m, t)"
  shows "m \<le> length xs" "m \<le> length ys" "t \<le> m"
proof -
  obtain f1 f2 where f: "jaro_matches xs ys = (f1, f2, m)" and
    t: "t = snd (fold (trans_step xs ys f1 f2) [0..<length xs] (0, 0)) div 2"
    using assms(2) by (auto simp: jaro_counts_def split: prod.splits)
  have c: "length f1 = length xs" "length f2 = length ys" "flagged f1 = m" "flagged f2 = m"
    using matches_count [OF assms(1) order_refl] f unfolding jaro_matches_def by blast+
  show "m \<le> length xs" "m \<le> length ys" using c length_filter_le unfolding flagged_def by metis+
  have "flagged f1 = length (filter (\<lambda>b. b) (map ((!) f1) [0..<length f1]))"
    unfolding flagged_def map_nth ..
  also have "\<dots> = length (filter (\<lambda>i. f1 ! i) [0..<length xs])"
    unfolding filter_map c(1) by (simp add: comp_def)
  finally have "length (filter (\<lambda>i. f1 ! i) [0..<length xs]) = flagged f1" ..
  then show "t \<le> m" using t trans_bounded [of xs ys f1 f2 "[0..<length xs]" 0 0] c(3) by simp
qed

lemma unit_double: "0 \<le> x \<Longrightarrow> x \<le> of_int n \<Longrightarrow> n < 2 ^ 51 \<Longrightarrow> 0 \<le> double x \<and> double x \<le> of_int n"
  using double_nonneg [of x] double_mono [of x "of_int n"] double_int [of n] by simp

lemma jaro_unit: "0 \<le> jaro a b \<and> jaro a b \<le> 1"
proof -
  obtain xs ys where s: "(if length b < length a then (b, a) else (a, b)) = (xs, ys)" by fastforce
  obtain m t where c: "jaro_counts xs ys = (m, t)" by fastforce
  show ?thesis
  proof (cases "length ys = 0 \<or> m = 0")
    case True
    then show ?thesis using s c by (auto simp: jaro_def Let_def)
  next
    case False
    then have "ys \<noteq> []" by auto
    note b = counts_bounded [OF this c]
    let ?p = "double (real m / real (length xs))" and ?q = "double (real m / real (length ys))"
    let ?r = "double (real (m - t) / real m)"
    have p: "0 \<le> ?p \<and> ?p \<le> of_int 1" and q: "0 \<le> ?q \<and> ?q \<le> of_int 1" and r: "0 \<le> ?r \<and> ?r \<le> of_int 1"
      using b False by (intro unit_double; simp add: divide_le_eq_1)+
    then have pq: "0 \<le> double (?p + ?q) \<and> double (?p + ?q) \<le> of_int 2" by (intro unit_double) simp_all
    then have "0 \<le> double (double (?p + ?q) + ?r) \<and> double (double (?p + ?q) + ?r) \<le> of_int 3"
      using r by (intro unit_double) simp_all
    then have "0 \<le> double (double (double (?p + ?q) + ?r) / 3) \<and> double (double (double (?p + ?q) + ?r) / 3) \<le> of_int 1"
      by (intro unit_double) simp_all
    then show ?thesis using s c False by (simp add: jaro_def Let_def)
  qed
qed

lemma prefix_bonus_le: "b \<le> 4 \<Longrightarrow> prefix_bonus xs ys b \<le> 4"
  by (induction xs ys b rule: prefix_bonus.induct) simp_all

text \<open>
  C11. The similarity of two texts is between 0 and 1, rounding included.
\<close>
theorem similarity_is_a_unit: "0 \<le> jaro_winkler a b \<and> jaro_winkler a b \<le> 1"
proof (cases "jaro a b \<le> jw_threshold")
  case True
  then show ?thesis using jaro_unit by (simp add: jaro_winkler_def Let_def)
next
  case False
  let ?j = "jaro a b" and ?b = "prefix_bonus a b 0"
  have j: "0 \<le> ?j" "?j \<le> 1" using jaro_unit by auto
  have near: "double x \<le> 1001 / 1000 * x" if "0 \<le> x" for x
  proof -
    have "x / 2 ^ 53 \<le> x / 1000" using that by (intro divide_left_mono) simp_all
    then show ?thesis using double_error [of x] that by linarith
  qed
  have w: "0 \<le> jw_weight" "jw_weight \<le> 0.11" unfolding jw_weight_def using near [of "0.1"] double_nonneg [of "0.1"] by simp_all
  have b: "real ?b \<le> 4" using prefix_bonus_le [of 0 a b] by simp
  have bw: "0 \<le> real ?b * jw_weight" "real ?b * jw_weight \<le> 0.44"
    using w b mult_mono [of "real ?b" 4 jw_weight "0.11"] by simp_all
  have d: "0 \<le> double (real ?b * jw_weight)" "double (real ?b * jw_weight) \<le> 0.5"
    using double_nonneg [OF bw(1)] near [OF bw(1)] bw(2) by simp_all
  have e: "0 \<le> double (1 - ?j)" "double (1 - ?j) \<le> 1.001 * (1 - ?j)"
    using double_nonneg [of "1 - ?j"] near [of "1 - ?j"] j by simp_all
  let ?x = "double (real ?b * jw_weight) * double (1 - ?j)"
  have x: "0 \<le> ?x" "?x \<le> 0.5 * (1.001 * (1 - ?j))" using d e mult_mono [OF d(2) e(2)] by simp_all
  then have "double ?x \<le> 1 - ?j" using near [OF x(1)] j by simp
  then have "0 \<le> ?j + double ?x" "?j + double ?x \<le> of_int 1" using double_nonneg [OF x(1)] j by simp_all
  then have "0 \<le> double (?j + double ?x) \<and> double (?j + double ?x) \<le> of_int 1" by (rule unit_double) simp
  then show ?thesis using False by (simp add: jaro_winkler_def Let_def)
qed

section \<open>What is suggested\<close>

text \<open>
  C12. Suggestions are words of the dictionary other than the input, the most similar first; all of
  them that are similar and close enough when there is one, and otherwise at most one that is at
  least similar.
\<close>
theorem suggestions_are_the_close_words:
  "let n = normalize lower input; s = (\<lambda>w. jaro_winkler w n);
       near = (\<lambda>w. w \<in> set dictionary \<and> w \<noteq> input \<and>
         (if 3 < length n then double 0.834 else double 0.77) \<le> jaro_winkler (normalize lower w) n);
       close = {w. near w \<and> levenshtein (normalize lower w) n \<le> (length n + 3) div 4}
   in sorted_wrt (\<lambda>v w. s w \<le> s v) (correct lower dictionary input) \<and>
     (if close \<noteq> {} then set (correct lower dictionary input) = close
      else length (correct lower dictionary input) \<le> 1 \<and> set (correct lower dictionary input) \<subseteq> Collect near)"
proof -
  let ?n = "normalize lower input"
  let ?words = "similar_words lower dictionary input"
  let ?p = "\<lambda>w. levenshtein (normalize lower w) ?n \<le> (length ?n + 3) div 4"
  have set: "set ?words = {w. w \<in> set dictionary \<and> w \<noteq> input \<and>
      (if 3 < length ?n then double 0.834 else double 0.77) \<le> jaro_winkler (normalize lower w) ?n}"
    by (auto simp: similar_words_def Let_def)
  have sorted: "sorted_wrt (\<lambda>v w. jaro_winkler w ?n \<le> jaro_winkler v ?n) ?words"
    unfolding similar_words_def Let_def sorted_wrt_rev
    using sorted_sort_key [of "\<lambda>w. jaro_winkler w ?n"] unfolding sorted_map by blast
  have "sorted_wrt (\<lambda>v w. jaro_winkler w ?n \<le> jaro_winkler v ?n) (correct lower dictionary input)"
  proof (cases "filter ?p ?words = []")
    case True
    have "sorted_wrt P (take 1 xs)" for P and xs :: "nat list list" by (cases xs) simp_all
    then show ?thesis using True by (simp add: correct_def Let_def)
  qed (use sorted in \<open>simp add: correct_def Let_def sorted_wrt_filter\<close>)
  moreover have "set (correct lower dictionary input) = {w \<in> set ?words. ?p w}" if "{w \<in> set ?words. ?p w} \<noteq> {}"
  proof -
    have "filter ?p ?words \<noteq> []" using that unfolding filter_empty_conv by blast
    then have "correct lower dictionary input = filter ?p ?words" unfolding correct_def Let_def by (rule if_not_P)
    then show ?thesis by (simp only: set_filter)
  qed
  moreover have "length (correct lower dictionary input) \<le> 1 \<and> set (correct lower dictionary input) \<subseteq> set ?words"
    if "{w \<in> set ?words. ?p w} = {}"
  proof -
    have "filter ?p ?words = []" using that unfolding filter_empty_conv by blast
    then obtain q where "correct lower dictionary input = take 1 (filter q ?words)"
      unfolding correct_def Let_def by (metis (full_types))
    then show ?thesis by (auto dest: in_set_takeD)
  qed
  ultimately show ?thesis unfolding Let_def set by simp
qed

end
