(* ===== verification/Date_Calendar.thy ===== *)
theory Date_Calendar
  imports Prelude
begin

text \<open>
  The calendar arithmetic of \<^verbatim>\<open>packages/date/src/date.ts\<close>: chronological Julian day numbers
  against civil, ordinal, commercial and week-number dates and the n-th weekday of a month, with a
  day \<open>sg\<close> at which the Gregorian calendar starts.

  Numbers are the integers they stand for. A product or quotient with a fractional constant is the
  quotient of integers it is meant to be, and \<open>Math.floor\<close> is \<open>div\<close>; the theory
  Date_Double shows that computing it in doubles gives the same day and the same date
  over the whole range the program uses. \<open>JULIAN\<close> is \<open>Infinity\<close>, \<open>GREGORIAN\<close> is \<open>-Infinity\<close>. An absent
  result (\<open>null\<close>) that the code uses as a number counts as 0.
\<close>

section \<open>Starts of the Gregorian calendar\<close>

datatype start = Julian | Gregorian | Reform int

definition before :: "int \<Rightarrow> start \<Rightarrow> bool" where
  "before jd sg = (case sg of Julian \<Rightarrow> True | Gregorian \<Rightarrow> False | Reform s \<Rightarrow> jd < s)"

definition reform_begin_jd :: int where "reform_begin_jd = 2298874"
definition reform_end_jd :: int where "reform_end_jd = 2426355"

definition c_valid_start_p :: "start \<Rightarrow> bool" where
  "c_valid_start_p sg = (case sg of Reform s \<Rightarrow> \<not> (s < reform_begin_jd \<or> s > reform_end_jd) | _ \<Rightarrow> True)"

definition italy :: start where "italy = Reform 2299161"

text \<open>\<open>val2sg\<close>, less the warning.\<close>

definition val2sg :: "start \<Rightarrow> start" where
  "val2sg vsg = (if c_valid_start_p vsg then vsg else italy)"

definition num :: "int option \<Rightarrow> int" where
  "num r = (case r of Some n \<Rightarrow> n | None \<Rightarrow> 0)"

section \<open>Civil dates\<close>

definition c_civil_to_jd :: "int \<Rightarrow> int \<Rightarrow> int \<Rightarrow> start \<Rightarrow> int" where
  "c_civil_to_jd y m d sg =
     (let (y, m) = (if m \<le> 2 then (y - 1, m + 12) else (y, m));
          a = y div 100;
          b = 2 - a + a div 4;
          jd = 1461 * (y + 4716) div 4 + 306001 * (m + 1) div 10000 + d + b - 1524
      in if before jd sg then jd - b else jd)"

definition c_jd_to_civil :: "int \<Rightarrow> start \<Rightarrow> int \<times> int \<times> int" where
  "c_jd_to_civil jd sg =
     (let a = (if before jd sg then jd
               else let x = (4 * jd - 7468865) div 146097 in jd + 1 + x - x div 4);
          b = a + 1524;
          c = (20 * b - 2442) div 7305;
          d = 1461 * c div 4;
          e = 10000 * (b - d) div 306001;
          dom = b - d - 306001 * e div 10000
      in if e \<le> 13 then (c - 4716, e - 1, dom) else (c - 4715, e - 13, dom))"

definition monthtab :: "bool \<Rightarrow> int \<Rightarrow> int" where
  "monthtab leap m = [0, 31, if leap then 29 else 28, 31, 30, 31, 30, 31, 31, 30, 31, 30, 31] ! nat m"

definition c_julian_leap_p :: "int \<Rightarrow> bool" where
  "c_julian_leap_p y = (y mod 4 = 0)"

definition c_gregorian_leap_p :: "int \<Rightarrow> bool" where
  "c_gregorian_leap_p y = (y mod 4 = 0 \<and> y mod 100 \<noteq> 0 \<or> y mod 400 = 0)"

definition c_julian_last_day_of_month :: "int \<Rightarrow> int \<Rightarrow> int" where
  "c_julian_last_day_of_month y m = monthtab (c_julian_leap_p y) m"

definition c_gregorian_last_day_of_month :: "int \<Rightarrow> int \<Rightarrow> int" where
  "c_gregorian_last_day_of_month y m = monthtab (c_gregorian_leap_p y) m"

definition c_valid_julian_p :: "int \<Rightarrow> int \<Rightarrow> int \<Rightarrow> (int \<times> int) option" where
  "c_valid_julian_p y m d =
     (let m = (if m < 0 then m + 13 else m) in
      if m < 1 \<or> m > 12 then None
      else let last = c_julian_last_day_of_month y m;
               d = (if d < 0 then last + d + 1 else d)
           in if d < 1 \<or> d > last then None else Some (m, d))"

definition c_valid_gregorian_p :: "int \<Rightarrow> int \<Rightarrow> int \<Rightarrow> (int \<times> int) option" where
  "c_valid_gregorian_p y m d =
     (let m = (if m < 0 then m + 13 else m) in
      if m < 1 \<or> m > 12 then None
      else let last = c_gregorian_last_day_of_month y m;
               d = (if d < 0 then last + d + 1 else d)
           in if d < 1 \<or> d > last then None else Some (m, d))"

text \<open>\<open>cValidCivilP\<close> and \<open>cFindLdom\<close> call each other; \<open>valid_civil_day\<close> is the former for a day that
  is not negative, the only kind the latter asks for.\<close>

definition valid_civil_day :: "int \<Rightarrow> int \<Rightarrow> int \<Rightarrow> start \<Rightarrow> int option" where
  "valid_civil_day y m d sg =
     (let m = (if m < 0 then m + 13 else m) in
      if m < 1 \<or> m > 12 then None
      else let rjd = c_civil_to_jd y m d sg
           in if c_jd_to_civil rjd sg \<noteq> (y, m, d) then None else Some rjd)"

fun first_some :: "('a \<Rightarrow> 'b option) \<Rightarrow> 'a list \<Rightarrow> 'b option" where
  "first_some f [] = None"
| "first_some f (x # xs) = (case f x of Some y \<Rightarrow> Some y | None \<Rightarrow> first_some f xs)"

definition c_find_ldom :: "int \<Rightarrow> int \<Rightarrow> start \<Rightarrow> int option" where
  "c_find_ldom y m sg = first_some (\<lambda>i. valid_civil_day y m (31 - i) sg) [0..29]"

definition c_valid_civil_p :: "int \<Rightarrow> int \<Rightarrow> int \<Rightarrow> start \<Rightarrow> int option" where
  "c_valid_civil_p y m d sg =
     (let m = (if m < 0 then m + 13 else m) in
      if m < 1 \<or> m > 12 then None
      else if d < 0 then
        (case c_find_ldom y m sg of
           None \<Rightarrow> None
         | Some ldom \<Rightarrow> (case c_jd_to_civil (ldom + d + 1) sg of (ry, rm, rd) \<Rightarrow>
             if ry \<noteq> y \<or> rm \<noteq> m then None else valid_civil_day y m rd sg))
      else valid_civil_day y m d sg)"

definition c_find_fdoy :: "int \<Rightarrow> start \<Rightarrow> int option" where
  "c_find_fdoy y sg = first_some (\<lambda>d. c_valid_civil_p y 1 d sg) [1..30]"

definition c_find_ldoy :: "int \<Rightarrow> start \<Rightarrow> int option" where
  "c_find_ldoy y sg = first_some (\<lambda>i. c_valid_civil_p y 12 (31 - i) sg) [0..29]"

definition c_find_fdom :: "int \<Rightarrow> int \<Rightarrow> start \<Rightarrow> int option" where
  "c_find_fdom y m sg = first_some (\<lambda>d. c_valid_civil_p y m d sg) [1..30]"

section \<open>Other dates\<close>

definition c_ordinal_to_jd :: "int \<Rightarrow> int \<Rightarrow> start \<Rightarrow> int" where
  "c_ordinal_to_jd y d sg = num (c_find_fdoy y sg) + d - 1"

definition c_jd_to_ordinal :: "int \<Rightarrow> start \<Rightarrow> int \<times> int" where
  "c_jd_to_ordinal jd sg =
     (let ry = fst (c_jd_to_civil jd sg) in (ry, jd - num (c_find_fdoy ry sg) + 1))"

definition c_valid_ordinal_p :: "int \<Rightarrow> int \<Rightarrow> start \<Rightarrow> int option" where
  "c_valid_ordinal_p y d sg =
     (let check = (\<lambda>d. let rjd = c_ordinal_to_jd y d sg
                        in if c_jd_to_ordinal rjd sg \<noteq> (y, d) then None else Some rjd)
      in if d < 0 then
        (case c_find_ldoy y sg of
           None \<Rightarrow> None
         | Some rjd2 \<Rightarrow> (case c_jd_to_ordinal (rjd2 + d + 1) sg of (ry2, rd2) \<Rightarrow>
             if ry2 \<noteq> y then None else check rd2))
      else check d)"

definition c_commercial_to_jd :: "int \<Rightarrow> int \<Rightarrow> int \<Rightarrow> start \<Rightarrow> int" where
  "c_commercial_to_jd y w d sg =
     (let rjd2 = num (c_find_fdoy y sg) + 3 in rjd2 - rjd2 mod 7 + 7 * (w - 1) + (d - 1))"

definition c_jd_to_commercial :: "int \<Rightarrow> start \<Rightarrow> int \<times> int \<times> int" where
  "c_jd_to_commercial jd sg =
     (let a = fst (c_jd_to_civil (jd - 3) sg);
          c2 = c_commercial_to_jd (a + 1) 1 1 sg;
          (ry, c2) = (if jd \<ge> c2 then (a + 1, c2) else (a, c_commercial_to_jd a 1 1 sg));
          rw = 1 + (jd - c2) div 7;
          rd = (jd + 1) mod 7
      in (ry, rw, if rd = 0 then 7 else rd))"

definition c_valid_commercial_p :: "int \<Rightarrow> int \<Rightarrow> int \<Rightarrow> start \<Rightarrow> int option" where
  "c_valid_commercial_p y w d sg =
     (let d = (if d < 0 then d + 8 else d);
          check = (\<lambda>w. let rjd = c_commercial_to_jd y w d sg
                        in if c_jd_to_commercial rjd sg \<noteq> (y, w, d) then None else Some rjd)
      in if w < 0 then
        (case c_jd_to_commercial (c_commercial_to_jd (y + 1) 1 1 sg + w * 7) sg of (ry, rw, rd) \<Rightarrow>
           if ry \<noteq> y then None else check rw)
      else check w)"

definition c_weeknum_to_jd :: "int \<Rightarrow> int \<Rightarrow> int \<Rightarrow> int \<Rightarrow> start \<Rightarrow> int" where
  "c_weeknum_to_jd y w d f sg =
     (let rjd2 = num (c_find_fdoy y sg) + 6 in rjd2 - (rjd2 - f + 1) mod 7 - 7 + 7 * w + d)"

definition c_jd_to_weeknum :: "int \<Rightarrow> int \<Rightarrow> start \<Rightarrow> int \<times> int \<times> int" where
  "c_jd_to_weeknum jd f sg =
     (let ry = fst (c_jd_to_civil jd sg);
          rjd = num (c_find_fdoy ry sg) + 6;
          j = jd - (rjd - (rjd - f + 1) mod 7) + 7
      in (ry, j div 7, j mod 7))"

definition c_valid_weeknum_p :: "int \<Rightarrow> int \<Rightarrow> int \<Rightarrow> int \<Rightarrow> start \<Rightarrow> int option" where
  "c_valid_weeknum_p y w d f sg =
     (let d = (if d < 0 then d + 7 else d);
          check = (\<lambda>w. let rjd = c_weeknum_to_jd y w d f sg
                        in if c_jd_to_weeknum rjd f sg \<noteq> (y, w, d) then None else Some rjd)
      in if w < 0 then
        (case c_jd_to_weeknum (c_weeknum_to_jd (y + 1) 1 f f sg + w * 7) f sg of (ry, rw, rd) \<Rightarrow>
           if ry \<noteq> y then None else check rw)
      else check w)"

definition c_jd_to_wday :: "int \<Rightarrow> int" where
  "c_jd_to_wday jd = (jd + 1) mod 7"

definition c_nth_kday_to_jd :: "int \<Rightarrow> int \<Rightarrow> int \<Rightarrow> int \<Rightarrow> start \<Rightarrow> int" where
  "c_nth_kday_to_jd y m n k sg =
     (let rjd2 = (if n > 0 then num (c_find_fdom y m sg) - 1 else num (c_find_ldom y m sg) + 7)
      in rjd2 - (rjd2 - k + 1) mod 7 + 7 * n)"

definition c_jd_to_nth_kday :: "int \<Rightarrow> start \<Rightarrow> int \<times> int \<times> int \<times> int" where
  "c_jd_to_nth_kday jd sg =
     (case c_jd_to_civil jd sg of (ry, rm, _) \<Rightarrow>
        let rjd = num (c_find_fdom ry rm sg) in (ry, rm, (jd - rjd) div 7 + 1, c_jd_to_wday jd))"

definition c_valid_nth_kday_p :: "int \<Rightarrow> int \<Rightarrow> int \<Rightarrow> int \<Rightarrow> start \<Rightarrow> int option" where
  "c_valid_nth_kday_p y m n k sg =
     (let k = (if k < 0 then k + 7 else k);
          check = (\<lambda>n. let rjd = c_nth_kday_to_jd y m n k sg
                        in if c_jd_to_nth_kday rjd sg \<noteq> (y, m, n, k) then None else Some rjd)
      in if n < 0 then
        (let t = y * 12 + m;
             rjd2 = c_nth_kday_to_jd (t div 12) (t mod 12 + 1) 1 k sg
         in case c_jd_to_nth_kday (rjd2 + n * 7) sg of (ry2, rm2, rn2, _) \<Rightarrow>
           if ry2 \<noteq> y \<or> rm2 \<noteq> m then None else check rn2)
      else check n)"

end
