(* ===== verification/Date_Civil.thy ===== *)
theory Date_Civil
  imports Date_Calendar
begin

text \<open>
  Civil dates and day numbers are inverse to each other.

  Both formulas count months from March: \<open>e\<close> is the month plus one (January and February are the
  14th and 15th month of the year before), \<open>c\<close> the year plus 4716, and \<open>n\<close> the days since \<open>c\<close> began.
  Two finite facts about a single year (\<open>year_down\<close>, \<open>year_up\<close>), checked by evaluation, and
  linear arithmetic over the years give the round trips in each calendar; the reform then is a
  case distinction.
\<close>

section \<open>One year\<close>

abbreviation month_days :: "int \<Rightarrow> int" where
  "month_days e \<equiv> 306001 * e div 10000"

abbreviation month_at :: "int \<Rightarrow> int" where
  "month_at n \<equiv> 10000 * n div 306001"

abbreviation month_of :: "int \<Rightarrow> int" where
  "month_of e \<equiv> (if e \<le> 13 then e - 1 else e - 13)"

lemma int_range_split: "a \<le> (x::int) \<Longrightarrow> x \<le> b \<Longrightarrow> x \<in> set [a..b]"
  by simp

lemma months:
  assumes "4 \<le> e" "e \<le> 15"
  shows "10000 * month_days e < 306001 * e" "306001 * e < 10000 * (month_days e + 1)"
    "10000 * (month_days e + monthtab True (month_of e)) < 306001 * (e + 1)"
    "monthtab False (month_of e) \<le> monthtab True (month_of e)"
    "e \<le> 14 \<Longrightarrow> 306001 * (e + 1) < 10000 * (month_days e + monthtab False (month_of e) + 1)"
    "1 \<le> month_of e" "month_of e \<le> 12" "122 \<le> month_days e"
    "e \<le> 14 \<Longrightarrow> month_days e + monthtab True (month_of e) \<le> 487" "e = 15 \<Longrightarrow> month_days e = 459"
proof -
  have all: "\<forall>e\<in>set [4..15]. 10000 * month_days e < 306001 * e \<and> 306001 * e < 10000 * (month_days e + 1) \<and>
    10000 * (month_days e + monthtab True (month_of e)) < 306001 * (e + 1) \<and>
    monthtab False (month_of e) \<le> monthtab True (month_of e) \<and>
    (e \<le> 14 \<longrightarrow> 306001 * (e + 1) < 10000 * (month_days e + monthtab False (month_of e) + 1)) \<and>
    1 \<le> month_of e \<and> month_of e \<le> 12 \<and> 122 \<le> month_days e \<and>
    (e \<le> 14 \<longrightarrow> month_days e + monthtab True (month_of e) \<le> 487) \<and> (e = 15 \<longrightarrow> month_days e = 459)"
    by code_simp
  from bspec [OF all int_range_split [OF assms]]
  show "10000 * month_days e < 306001 * e" "306001 * e < 10000 * (month_days e + 1)"
    "10000 * (month_days e + monthtab True (month_of e)) < 306001 * (e + 1)"
    "monthtab False (month_of e) \<le> monthtab True (month_of e)"
    "e \<le> 14 \<Longrightarrow> 306001 * (e + 1) < 10000 * (month_days e + monthtab False (month_of e) + 1)"
    "1 \<le> month_of e" "month_of e \<le> 12" "122 \<le> month_days e"
    "e \<le> 14 \<Longrightarrow> month_days e + monthtab True (month_of e) \<le> 487" "e = 15 \<Longrightarrow> month_days e = 459"
    by blast+
qed

lemma div_between:
  assumes "0 < (k::int)" "k * q \<le> a" "a < k * (q + 1)"
  shows "a div k = q"
  using assms by (intro int_div_pos_eq [where r = "a - k * q"]) (auto simp: algebra_simps)

lemma div_bounds:
  assumes "0 < (k::int)"
  shows "k * (a div k) \<le> a" "a < k * (a div k + 1)"
proof -
  have "a = k * (a div k) + a mod k" by simp
  then show "k * (a div k) \<le> a" "a < k * (a div k + 1)"
    using pos_mod_bound [OF assms, of a] pos_mod_sign [OF assms, of a] unfolding distrib_left by linarith+
qed

lemma year_down:
  assumes "123 \<le> n" "n \<le> 488"
  shows "4 \<le> month_at n" "month_at n \<le> 15" "1 \<le> n - month_days (month_at n)"
    "n - month_days (month_at n) \<le> monthtab (n = 488) (month_of (month_at n))"
    "1 \<le> month_of (month_at n)" "month_of (month_at n) \<le> 12"
proof -
  obtain e where e: "e = month_at n" by blast
  have b: "306001 * e \<le> 10000 * n" "10000 * n < 306001 * (e + 1)"
    unfolding e by (rule div_bounds; simp)+
  then have r: "4 \<le> e" "e \<le> 15" using assms unfolding distrib_left by linarith+
  obtain M where M: "M = month_days e" by blast
  obtain L L' where L: "L = monthtab False (month_of e)" "L' = monthtab True (month_of e)" by blast
  note t = months [OF r, folded M L]
  have "M < n" using t(1) b(1) unfolding distrib_left by linarith
  then show "1 \<le> n - month_days (month_at n)" unfolding e [symmetric] M [symmetric] by linarith
  have "n - M \<le> (if n = 488 then L' else L)"
  proof (cases "e \<le> 14")
    case True
    then have "n \<le> M + L" using t(5) b(2) unfolding distrib_left by linarith
    then show ?thesis using t(4) by simp
  next
    case False
    then have "e = 15" using r by linarith
    then have "L' = 29" "L = 28" by (simp_all add: L monthtab_def)
    with t(10) \<open>e = 15\<close> assms(2) show ?thesis by simp
  qed
  then show "n - month_days (month_at n) \<le> monthtab (n = 488) (month_of (month_at n))"
    unfolding e [symmetric] M [symmetric] L by (cases "n = 488") simp_all
  show "4 \<le> month_at n" "month_at n \<le> 15" "1 \<le> month_of (month_at n)" "month_of (month_at n) \<le> 12"
    using r t(6,7) unfolding e by blast+
qed

lemma year_up:
  assumes "4 \<le> e" "e \<le> 15" "1 \<le> d" "d \<le> monthtab leap (month_of e)"
  shows "123 \<le> month_days e + d" "month_days e + d \<le> 488" "month_at (month_days e + d) = e"
    "month_days e + d = 488 \<Longrightarrow> leap"
proof -
  obtain M where M: "M = month_days e" by blast
  obtain L where L: "L = monthtab True (month_of e)" by blast
  note t = months [OF assms(1,2), folded M L]
  have d: "d \<le> L" using assms(4) t(4) by (cases leap) (auto simp: L)
  have "123 \<le> M + d" using t(8) assms(3) by linarith
  moreover have "M + d \<le> 488 \<and> (M + d = 488 \<longrightarrow> leap)"
  proof (cases "e \<le> 14")
    case True
    with t(9) d show ?thesis by linarith
  next
    case False
    then have e: "e = 15" using assms(2) by linarith
    then have "d \<le> (if leap then 29 else 28)" using assms(4) by (simp add: monthtab_def)
    with t(10) e show ?thesis by (auto split: if_splits)
  qed
  moreover have "month_at (M + d) = e"
  proof (rule div_between)
    show "306001 * e \<le> 10000 * (M + d)" using t(2) assms(3) unfolding distrib_left by linarith
    show "10000 * (M + d) < 306001 * (e + 1)" using t(3) d unfolding distrib_left by linarith
  qed simp
  ultimately show "123 \<le> month_days e + d" "month_days e + d \<le> 488" "month_at (month_days e + d) = e"
    "month_days e + d = 488 \<Longrightarrow> leap" unfolding M by blast+
qed

section \<open>Years of 1461 quarter days\<close>

abbreviation year_at :: "int \<Rightarrow> int" where
  "year_at b \<equiv> (20 * b - 2442) div 7305"

lemma quarter: "0 \<le> c mod (4::int)" "c mod 4 \<le> 3"
  using pos_mod_bound [of 4 c] pos_mod_sign [of 4 c] by linarith+

lemma year_start: "4 * (1461 * c div 4) = 1461 * c - c mod (4::int)"
proof -
  have "1461 * c mod 4 = (c + 4 * (365 * c)) mod 4" by (simp add: algebra_simps)
  also have "\<dots> = c mod 4" by (rule mod_mult_self2)
  finally show ?thesis using minus_mod_eq_mult_div [of "1461 * c" 4] by linarith
qed

lemma day_of_year:
  defines "n \<equiv> \<lambda>b. b - 1461 * year_at b div 4"
  shows "123 \<le> n b" "n b \<le> 488" "n b = 488 \<Longrightarrow> year_at b mod 4 = 3"
proof -
  let ?c = "year_at b"
  have c: "7305 * ?c \<le> 20 * b - 2442" "20 * b - 2442 < 7305 * (?c + 1)"
    by (rule div_bounds; simp)+
  note facts = c quarter [of ?c] year_start [of ?c]
  show "123 \<le> n b" using facts unfolding n_def by linarith
  show "n b \<le> 488" using facts unfolding n_def by linarith
  show "?c mod 4 = 3" if "n b = 488" using facts that unfolding n_def by linarith
qed

lemma year_at_day:
  assumes "123 \<le> n" "n \<le> 488" "n = 488 \<Longrightarrow> c mod 4 = 3"
  shows "year_at (1461 * c div 4 + n) = c"
proof -
  have lower: "7305 * c \<le> 20 * (D + n) - 2442" if "4 * D = 1461 * c - r" "r \<le> 3" for D r
    using that assms(1) unfolding distrib_left by linarith
  have upper: "20 * (D + n) - 2442 < 7305 * (c + 1)"
    if "4 * D = 1461 * c - r" "0 \<le> r" "n \<le> 487 \<or> r = 3" for D r
    using that assms(2) unfolding distrib_left by linarith
  have "n \<le> 487 \<or> c mod 4 = 3" using assms(2,3) by linarith
  then show ?thesis
    using lower [OF year_start quarter(2)] upper [OF year_start quarter(1)] by (intro div_between) auto
qed

section \<open>The Julian calendar\<close>

lemma jd_to_civil_split:
  "c_jd_to_civil jd sg = c_jd_to_civil (if before jd sg then jd
    else let x = (4 * jd - 7468865) div 146097 in jd + 1 + x - x div 4) Julian"
  by (simp add: c_jd_to_civil_def Let_def before_def)

definition shifted :: "int \<Rightarrow> int \<Rightarrow> int \<times> int" where
  "shifted y m = (if m \<le> 2 then (y - 1, m + 12) else (y, m))"

definition century_gap :: "int \<Rightarrow> int" where
  "century_gap y = 2 - y div 100 + y div 100 div 4"

lemma civil_to_jd_julian:
  "c_civil_to_jd y m d Julian =
    (case shifted y m of (y, m) \<Rightarrow> 1461 * (y + 4716) div 4 + 306001 * (m + 1) div 10000 + d - 1524)"
  by (simp add: c_civil_to_jd_def shifted_def before_def Let_def)

lemma civil_to_jd_gregorian:
  "c_civil_to_jd y m d Gregorian = c_civil_to_jd y m d Julian + century_gap (fst (shifted y m))"
  by (simp add: c_civil_to_jd_def shifted_def before_def Let_def century_gap_def)

lemma civil_to_jd_cases:
  "c_civil_to_jd y m d sg =
    (if before (c_civil_to_jd y m d Gregorian) sg then c_civil_to_jd y m d Julian else c_civil_to_jd y m d Gregorian)"
  by (simp add: c_civil_to_jd_def before_def Let_def split: start.splits)

text \<open>The year \<open>c\<close>, month \<open>e\<close> and day from March, and the date they are.\<close>

definition civil_of :: "int \<Rightarrow> int \<Rightarrow> int \<Rightarrow> int \<times> int \<times> int" where
  "civil_of c e dm = (if e \<le> 13 then (c - 4716, e - 1, dm) else (c - 4715, e - 13, dm))"

lemma jd_to_civil_julian:
  "c_jd_to_civil jd Julian = (let b = jd + 1524; n = b - 1461 * year_at b div 4
    in civil_of (year_at b) (month_at n) (n - month_days (month_at n)))"
  unfolding c_jd_to_civil_def before_def start.case if_True Let_def civil_of_def by (rule refl)

lemma civil_of_eq:
  assumes "civil_of c e dm = (y, m, d)"
  shows "d = dm" "m = month_of e" "y = (if e \<le> 13 then c - 4716 else c - 4715)"
  using assms unfolding civil_of_def by (cases "e \<le> 13"; simp)+

lemma shifted_civil_of:
  assumes "4 \<le> e" "e \<le> 15" "civil_of c e dm = (y, m, d)"
  shows "shifted y m = (c - 4716, e - 1)"
  unfolding civil_of_eq(2,3) [OF assms(3)] shifted_def using assms(1,2) by (cases "e \<le> 13") simp_all

lemma julian_days: "c_jd_to_civil jd Julian = (y, m, d) \<Longrightarrow> c_civil_to_jd y m d Julian = jd"
proof -
  let ?b = "jd + 1524"
  let ?n = "?b - 1461 * year_at ?b div 4"
  assume "c_jd_to_civil jd Julian = (y, m, d)"
  then have eq: "civil_of (year_at ?b) (month_at ?n) (?n - month_days (month_at ?n)) = (y, m, d)"
    by (simp only: jd_to_civil_julian Let_def)
  note sh = shifted_civil_of [OF year_down(1,2) [OF day_of_year(1,2)] eq]
  show "c_civil_to_jd y m d Julian = jd"
    unfolding civil_to_jd_julian sh split_conv civil_of_eq(1) [OF eq] diff_add_cancel by simp
qed

definition julian_date :: "int \<Rightarrow> int \<Rightarrow> int \<Rightarrow> bool" where
  "julian_date y m d \<longleftrightarrow> 1 \<le> m \<and> m \<le> 12 \<and> 1 \<le> d \<and> d \<le> c_julian_last_day_of_month y m"

definition gregorian_date :: "int \<Rightarrow> int \<Rightarrow> int \<Rightarrow> bool" where
  "gregorian_date y m d \<longleftrightarrow> 1 \<le> m \<and> m \<le> 12 \<and> 1 \<le> d \<and> d \<le> c_gregorian_last_day_of_month y m"

lemma leap_only_february: "m \<noteq> 2 \<Longrightarrow> 1 \<le> m \<Longrightarrow> m \<le> 12 \<Longrightarrow> monthtab leap m = monthtab leap' m"
proof -
  have all: "\<forall>m\<in>set [1..12]. m \<noteq> 2 \<longrightarrow> monthtab True m = monthtab False m" by code_simp
  show "m \<noteq> 2 \<Longrightarrow> 1 \<le> m \<Longrightarrow> m \<le> 12 \<Longrightarrow> monthtab leap m = monthtab leap' m"
    using bspec [OF all int_range_split [of 1 m 12]] by (cases leap; cases leap') auto
qed

lemma monthtab_leap: "1 \<le> m \<Longrightarrow> m \<le> 12 \<Longrightarrow> d \<le> monthtab l m \<Longrightarrow> (l \<Longrightarrow> m = 2 \<Longrightarrow> l') \<Longrightarrow> d \<le> monthtab l' m"
proof (cases "m = 2")
  case True
  assume "d \<le> monthtab l m" "l \<Longrightarrow> m = 2 \<Longrightarrow> l'"
  with True show ?thesis by (cases l; cases l') (auto simp: monthtab_def)
next
  case False
  assume "1 \<le> m" "m \<le> 12" "d \<le> monthtab l m"
  then show ?thesis using leap_only_february [OF False, of l l'] by simp
qed

text \<open>What a day number decodes to, in terms of \<open>c\<close>, \<open>e\<close> and \<open>n\<close>.\<close>

lemma julian_decode:
  assumes "c_jd_to_civil jd Julian = (y, m, d)"
  obtains c n where "c = year_at (jd + 1524)" "jd + 1524 = 1461 * c div 4 + n" "123 \<le> n" "n \<le> 488"
    "n = 488 \<longrightarrow> c mod 4 = 3" "fst (shifted y m) = c - 4716"
    "1 \<le> m" "m \<le> 12" "1 \<le> d" "d \<le> monthtab (n = 488) m" "m = 2 \<longrightarrow> y = c - 4715"
proof -
  let ?b = "jd + 1524"
  let ?n = "?b - 1461 * year_at ?b div 4"
  have eq: "civil_of (year_at ?b) (month_at ?n) (?n - month_days (month_at ?n)) = (y, m, d)"
    using assms by (simp only: jd_to_civil_julian Let_def)
  note n = day_of_year [of ?b]
  note down = year_down [OF n(1,2)]
  note eqs = civil_of_eq [OF eq]
  show thesis
  proof (rule that [OF refl])
    show "?b = 1461 * year_at ?b div 4 + ?n" by simp
    show "fst (shifted y m) = year_at ?b - 4716" unfolding shifted_civil_of [OF down(1,2) eq] by simp
    show "1 \<le> m" "m \<le> 12" "1 \<le> d" "d \<le> monthtab (?n = 488) m" unfolding eqs using down by blast+
    show "m = 2 \<longrightarrow> y = year_at ?b - 4715"
    proof
      assume "m = 2"
      obtain e where e: "e = month_at ?n" by blast
      have "\<not> e \<le> 13" using \<open>m = 2\<close> down(1) unfolding eqs(2) e [symmetric] by (cases "e \<le> 13") simp_all
      then show "y = year_at ?b - 4715" unfolding eqs(3) e [symmetric] by simp
    qed
  qed (use n in blast)+
qed

lemma julian_decode_date: "c_jd_to_civil jd Julian = (y, m, d) \<Longrightarrow> julian_date y m d"
proof -
  assume "c_jd_to_civil jd Julian = (y, m, d)"
  then obtain c n where "c = year_at (jd + 1524)" "jd + 1524 = 1461 * c div 4 + n" "123 \<le> n" "n \<le> 488"
    and *: "n = 488 \<longrightarrow> c mod 4 = 3" and "fst (shifted y m) = c - 4716" and
    **: "1 \<le> m" "m \<le> 12" "1 \<le> d" "d \<le> monthtab (n = 488) m" "m = 2 \<longrightarrow> y = c - 4715"
    by (rule julian_decode)
  have "(c - 4715) mod 4 = (c mod 4 - 4715 mod 4) mod 4" by (rule mod_diff_eq [symmetric])
  then have "c mod 4 = 3 \<Longrightarrow> (c - 4715) mod 4 = 0" by simp
  with * **(5) have "d \<le> monthtab (y mod 4 = 0) m" by (intro monthtab_leap [OF **(1,2,4)]) auto
  with ** show "julian_date y m d"
    unfolding julian_date_def c_julian_last_day_of_month_def c_julian_leap_p_def by blast
qed

text \<open>A date in terms of \<open>c\<close>, \<open>e\<close> and \<open>n\<close>.\<close>

lemma date_encode:
  assumes "1 \<le> m" "m \<le> 12" "1 \<le> d" "d \<le> monthtab leap m"
  obtains c e n where "4 \<le> e" "e \<le> 15" "shifted y m = (c - 4716, e - 1)" "n = month_days e + d"
    "123 \<le> n" "n \<le> 488" "n = 488 \<longrightarrow> leap \<and> y = c - 4715" "month_at n = e" "civil_of c e d = (y, m, d)"
proof -
  let ?e = "if m \<le> 2 then m + 13 else m + 1" and ?c = "fst (shifted y m) + 4716"
  have e: "4 \<le> ?e" "?e \<le> 15" "month_of ?e = m" using assms(1,2) by auto
  have l: "d \<le> monthtab leap (month_of ?e)" using assms(4) e(3) by simp
  note up = year_up [OF e(1,2) assms(3) l]
  have feb: "m = 2" if "month_days ?e + d = 488"
  proof (rule ccontr)
    assume "m \<noteq> 2"
    from leap_only_february [OF this assms(1,2), of leap False] assms(4)
    have "d \<le> monthtab False (month_of ?e)" using e(3) by simp
    from year_up(4) [OF e(1,2) assms(3) this] that show False by blast
  qed
  show thesis
  proof (rule that [OF e(1,2) _ refl up(1,2) _ up(3)])
    show "shifted y m = (?c - 4716, ?e - 1)" "civil_of ?c ?e d = (y, m, d)"
      using assms(1,2) unfolding shifted_def civil_of_def by (cases "m \<le> 2"; simp)+
    show "month_days ?e + d = 488 \<longrightarrow> leap \<and> y = ?c - 4715"
      using up(4) feb by (auto simp: shifted_def)
  qed
qed

lemma julian_encode:
  assumes "julian_date y m d"
  shows "c_jd_to_civil (c_civil_to_jd y m d Julian) Julian = (y, m, d)"
proof -
  have valid: "1 \<le> m" "m \<le> 12" "1 \<le> d" "d \<le> monthtab (y mod 4 = 0) m"
    using assms unfolding julian_date_def c_julian_last_day_of_month_def c_julian_leap_p_def by blast+
  from date_encode [OF valid, of y] obtain c e n where E: "4 \<le> e" "e \<le> 15" "shifted y m = (c - 4716, e - 1)"
    "n = month_days e + d" "123 \<le> n" "n \<le> 488" "n = 488 \<longrightarrow> y mod 4 = 0 \<and> y = c - 4715" "month_at n = e"
    "civil_of c e d = (y, m, d)" .
  have leap: "c mod 4 = 3" if "n = 488"
  proof -
    from E(7) that have "c = y + 4715" "y mod 4 = 0" by auto
    then show ?thesis by (simp add: mod_add_left_eq [of y 4 4715, symmetric])
  qed
  have jd: "c_civil_to_jd y m d Julian + 1524 = 1461 * c div 4 + n"
    unfolding civil_to_jd_julian E(3) split_conv E(4) diff_add_cancel by simp
  have year: "year_at (1461 * c div 4 + n) = c" by (rule year_at_day [OF E(5,6) leap])
  have "1461 * c div 4 + n - 1461 * c div 4 = n" "n - month_days e = d" using E(4) by simp_all
  then show ?thesis
    unfolding jd_to_civil_julian Let_def jd year using E(8,9) by (simp only:)
qed

section \<open>The Gregorian calendar\<close>

abbreviation century_at :: "int \<Rightarrow> int" where
  "century_at jd \<equiv> (4 * jd - 7468865) div 146097"

abbreviation julian_day :: "int \<Rightarrow> int" where
  "julian_day jd \<equiv> jd + 1 + century_at jd - century_at jd div 4"

lemma jd_to_civil_gregorian: "c_jd_to_civil jd Gregorian = c_jd_to_civil (julian_day jd) Julian"
  unfolding jd_to_civil_split [of jd Gregorian] before_def start.case if_False Let_def by (rule refl)

lemma century_of_year:
  assumes "c = year_at (julian_day jd + 1524)"
  shows "(c - 4716) div 100 = century_at jd + 4"
proof -
  obtain x where x: "x = century_at jd" by blast
  obtain q where q: "q = x div 4" by blast
  have X: "146097 * x \<le> 4 * jd - 7468865" "4 * jd - 7468865 < 146097 * (x + 1)"
    unfolding x by (rule div_bounds; simp)+
  have Q: "4 * q \<le> x" "x < 4 * (q + 1)" unfolding q by (rule div_bounds; simp)+
  have C: "7305 * c \<le> 20 * (jd + 1 + x - q + 1524) - 2442" "20 * (jd + 1 + x - q + 1524) - 2442 < 7305 * (c + 1)"
    unfolding assms x q by (rule div_bounds; simp)+
  have "100 * (x + 4) \<le> c - 4716" using X Q C unfolding distrib_left right_diff_distrib by linarith
  moreover have "c - 4716 < 100 * (x + 4 + 1)" using X Q C unfolding distrib_left right_diff_distrib by linarith
  ultimately show ?thesis unfolding x [symmetric] by (intro div_between) auto
qed

lemma gap_of_century:
  assumes "y div 100 = x + 4"
  shows "century_gap y = x div 4 - x - 1"
proof -
  have "(x + 4) div 4 = x div 4 + 1" using div_add_self2 [of 4 x] by simp
  then show ?thesis unfolding century_gap_def assms by linarith
qed

lemma gregorian_days:
  assumes "c_jd_to_civil jd Gregorian = (y, m, d)"
  shows "c_civil_to_jd y m d Gregorian = jd"
proof -
  have J: "c_jd_to_civil (julian_day jd) Julian = (y, m, d)" using assms unfolding jd_to_civil_gregorian .
  then obtain c n where c: "c = year_at (julian_day jd + 1524)" "julian_day jd + 1524 = 1461 * c div 4 + n"
    "123 \<le> n" "n \<le> 488" "n = 488 \<longrightarrow> c mod 4 = 3" "fst (shifted y m) = c - 4716"
    "1 \<le> m" "m \<le> 12" "1 \<le> d" "d \<le> monthtab (n = 488) m" "m = 2 \<longrightarrow> y = c - 4715"
    by (rule julian_decode)
  show ?thesis
    unfolding civil_to_jd_gregorian julian_days [OF J] c(6) gap_of_century [OF century_of_year [OF c(1)]] by simp
qed

lemma mod4: "c mod 4 = 3 \<Longrightarrow> (c - 4715) mod (4::int) = 0"
  using mod_diff_eq [of c 4 4715, symmetric] by simp

lemma gregorian_decode_date:
  assumes "c_jd_to_civil jd Gregorian = (y, m, d)"
  shows "gregorian_date y m d"
proof -
  have J: "c_jd_to_civil (julian_day jd) Julian = (y, m, d)" using assms unfolding jd_to_civil_gregorian .
  then obtain c n where c: "c = year_at (julian_day jd + 1524)" "julian_day jd + 1524 = 1461 * c div 4 + n"
    "123 \<le> n" "n \<le> 488" "n = 488 \<longrightarrow> c mod 4 = 3" "fst (shifted y m) = c - 4716"
    "1 \<le> m" "m \<le> 12" "1 \<le> d" "d \<le> monthtab (n = 488) m" "m = 2 \<longrightarrow> y = c - 4715"
    by (rule julian_decode)
  have "c_gregorian_leap_p y" if n: "n = 488" and m: "m = 2"
  proof -
    have y: "y = c - 4715" and c3: "c mod 4 = 3" using c(5,11) n m by simp_all
    have y4: "y mod 4 = 0" unfolding y by (rule mod4 [OF c3])
    show ?thesis
    proof (cases "y mod 100 = 0")
      case False
      with y4 show ?thesis by (simp add: c_gregorian_leap_p_def)
    next
      case True
      obtain x where x: "x = century_at jd" by blast
      obtain q where q: "q = x div 4" by blast
      obtain D where D: "D = 1461 * c div 4" by blast
      obtain k where k: "y = 100 * k" using mod_0_imp_dvd [OF True] by (elim dvdE)
      have cent: "(c - 4716) div 100 = x + 4" unfolding x by (rule century_of_year [OF c(1)])
      have "c - 4716 = 100 * (k - 1) + 99" using y k by simp
      then have "k - 1 = x + 4" using cent by simp
      then have cx: "c = 100 * x + 5215" using y k by simp
      have X: "4 * jd - 7468865 < 146097 * (x + 1)" unfolding x by (rule div_bounds(2)) simp
      have Q: "4 * q \<le> x" "x < 4 * (q + 1)" unfolding q by (rule div_bounds; simp)+
      have D4: "4 * D = 1461 * c - 3" unfolding D year_start c3 by (rule refl)
      have "jd + 1 + x - q + 1524 = D + 488" using c(2) n unfolding x q D by simp
      then have "4 * q + 3 \<le> x" using X D4 cx unfolding distrib_left right_diff_distrib by linarith
      then have "k = 4 * q + 8" using Q \<open>k - 1 = x + 4\<close> unfolding distrib_left by linarith
      then have "y = 400 * (q + 2)" using k unfolding distrib_left by linarith
      then show ?thesis by (simp add: c_gregorian_leap_p_def)
    qed
  qed
  then have "d \<le> monthtab (c_gregorian_leap_p y) m" by (intro monthtab_leap [OF c(7,8,10)]) auto
  with c show ?thesis unfolding gregorian_date_def c_gregorian_last_day_of_month_def by blast
qed

lemma gregorian_encode:
  assumes "gregorian_date y m d"
  shows "c_jd_to_civil (c_civil_to_jd y m d Gregorian) Gregorian = (y, m, d)"
proof -
  have valid: "1 \<le> m" "m \<le> 12" "1 \<le> d" "d \<le> monthtab (c_gregorian_leap_p y) m"
    using assms unfolding gregorian_date_def c_gregorian_last_day_of_month_def by blast+
  from date_encode [OF valid, of y] obtain c e n where E: "4 \<le> e" "e \<le> 15" "shifted y m = (c - 4716, e - 1)"
    "n = month_days e + d" "123 \<le> n" "n \<le> 488" "n = 488 \<longrightarrow> c_gregorian_leap_p y \<and> y = c - 4715" "month_at n = e"
    "civil_of c e d = (y, m, d)" .
  have "d \<le> monthtab (y mod 4 = 0) m"
    by (rule monthtab_leap [OF valid(1,2,4)]) (auto simp: c_gregorian_leap_p_def elim: dvd_trans)
  then have J: "julian_date y m d"
    using valid unfolding julian_date_def c_julian_last_day_of_month_def c_julian_leap_p_def by blast
  let ?j = "c_civil_to_jd y m d Julian" and ?g = "c_civil_to_jd y m d Gregorian"
  have jd: "?j + 1524 = 1461 * c div 4 + n"
    unfolding civil_to_jd_julian E(3) split_conv E(4) diff_add_cancel by simp
  obtain A where A: "A = (c - 4716) div 100" by blast
  obtain q where q: "q = A div 4" by blast
  obtain D where D: "D = 1461 * c div 4" by blast
  obtain r where r: "r = c mod 4" by blast
  obtain s where s: "s = c - 4716 - 100 * A" by blast
  have S: "0 \<le> s" "s \<le> 99" using div_bounds [of 100 "c - 4716"] unfolding s A distrib_left by linarith+
  have Q: "4 * q \<le> A" "A < 4 * (q + 1)" unfolding q by (rule div_bounds; simp)+
  have D4: "4 * D = 1461 * c - r" unfolding D r by (rule year_start)
  have R: "0 \<le> r" "r \<le> 3" unfolding r by (rule quarter)+
  have g: "?g = ?j + (2 - A + q)" unfolding civil_to_jd_gregorian E(3) fst_conv century_gap_def A q by simp
  have j: "?j + 1524 = D + n" using jd unfolding D .
  have c': "c = 100 * A + s + 4716" using s by simp
  have r0: "r = 0" if "s = 0" using that unfolding r c' by (simp add: mod_add_eq [symmetric])
  have r3: "r = 3" if "s = 99" using that unfolding r c' by (simp add: mod_add_eq [symmetric])
  have leap: "4 * q + 3 \<le> A" if "n = 488" "s = 99"
  proof -
    have y: "c_gregorian_leap_p y" "y = c - 4715" using E(7) that(1) by blast+
    then have y2: "y = 100 * (A + 1)" using y(2) that(2) c' unfolding distrib_left by linarith
    have "y mod 400 = 0" using y(1) unfolding y2 c_gregorian_leap_p_def by auto
    then obtain k where "y = 400 * k" by (meson mod_0_imp_dvd dvdE)
    with y2 have Ak: "A + 1 = 4 * k" by simp
    then have "q + 1 \<le> k" using Q unfolding distrib_left by linarith
    then show ?thesis using Ak by linarith
  qed
  have "century_at ?g = A - 4"
  proof (rule div_between)
    show "146097 * (A - 4) \<le> 4 * ?g - 7468865"
    proof (cases "s = 0")
      case True
      with r0 show ?thesis using g j D4 c' E(5) Q unfolding distrib_left right_diff_distrib by linarith
    next
      case False
      with S(1) have "1 \<le> s" by linarith
      then show ?thesis using g j D4 c' E(5) Q R unfolding distrib_left right_diff_distrib by linarith
    qed
    show "4 * ?g - 7468865 < 146097 * (A - 4 + 1)"
    proof (cases "s = 99")
      case True
      have "n \<le> 487 \<or> n = 488 \<and> 4 * q + 3 \<le> A" using leap [OF _ True] E(6) by linarith
      then show ?thesis using g j D4 c' r3 [OF True] True Q unfolding distrib_left right_diff_distrib by linarith
    next
      case False
      with S(2) have "s \<le> 98" by linarith
      then show ?thesis using g j D4 c' E(6) Q R unfolding distrib_left right_diff_distrib by linarith
    qed
  qed simp
  moreover have "(A - 4) div 4 = q - 1" unfolding q using div_mult_self1 [of 4 A "-1"] by simp
  ultimately have "julian_day ?g = ?j" unfolding g by simp
  then show ?thesis unfolding jd_to_civil_gregorian using julian_encode [OF J] by simp
qed

end
