(* ===== verification/Date_Reform.thy ===== *)
theory Date_Reform
  imports Date_Civil "HOL-Library.Product_Lexorder"
begin

text \<open>
  Civil dates across the day the Gregorian calendar starts: which date a day has, which dates exist
  and which day numbers they have, the first day of a year, and the commercial (ISO week) dates.
\<close>

section \<open>Days and dates\<close>

lemma jd_to_civil_cases:
  "c_jd_to_civil jd sg = c_jd_to_civil jd (if before jd sg then Julian else Gregorian)"
proof (cases "before jd sg")
  case True
  then show ?thesis by (simp only: c_jd_to_civil_def if_True before_def start.case)
next
  case False
  then show ?thesis by (simp only: c_jd_to_civil_def if_False before_def start.case)
qed

lemma before_simps [simp]:
  "before jd Julian" "\<not> before jd Gregorian" "before jd (Reform s) \<longleftrightarrow> jd < s"
  by (simp_all add: before_def)

text \<open>A Julian day before the reform is before it also when its date is read as a Gregorian one.\<close>

lemma gap_negative:
  assumes "3 \<le> A"
  shows "2 - A + A div 4 \<le> (0::int)"
proof -
  obtain q where q: "q = A div 4" by blast
  have "4 * q \<le> A" unfolding q by (rule div_bounds(1)) simp
  with assms show ?thesis unfolding q [symmetric] by linarith
qed

lemma gregorian_reading_before:
  assumes "c_jd_to_civil jd Julian = (y, m, d)" "jd < s" "reform_begin_jd \<le> s"
  shows "c_civil_to_jd y m d Gregorian < s"
proof -
  from assms(1) obtain c n where c: "jd + 1524 = 1461 * c div 4 + n" "n \<le> 488" "fst (shifted y m) = c - 4716"
    by (rule julian_decode)
  obtain D where D: "D = 1461 * c div 4" by blast
  obtain r where r: "r = c mod 4" by blast
  have D4: "4 * D = 1461 * c - r" "0 \<le> r" unfolding D r by (rule year_start quarter)+
  obtain A where A: "A = (c - 4716) div 100" by blast
  obtain q where q: "q = A div 4" by blast
  have bound: "c - 4716 < 100 * (A + 1)" unfolding A by (rule div_bounds(2)) simp
  have Q: "4 * q \<le> A" unfolding q by (rule div_bounds(1)) simp
  have g: "c_civil_to_jd y m d Gregorian = jd + (2 - A + q)"
    unfolding civil_to_jd_gregorian julian_days [OF assms(1)] century_gap_def c(3) A q by (rule refl)
  show ?thesis
  proof (cases "3 \<le> A")
    case True
    from gap_negative [OF this] assms(2) show ?thesis unfolding g q by linarith
  next
    case False
    then have "A \<le> 2" by linarith
    then show ?thesis using assms(3) c(1,2) D4 bound Q unfolding g D [symmetric] reform_begin_jd_def distrib_left
      by linarith
  qed
qed

lemma civil_round_trip:
  assumes "c_valid_start_p sg" "c_jd_to_civil jd sg = (y, m, d)"
  shows "c_civil_to_jd y m d sg = jd"
proof (cases "before jd sg")
  case True
  then have J: "c_jd_to_civil jd Julian = (y, m, d)" using assms(2) unfolding jd_to_civil_cases [of jd sg] by simp
  have "before (c_civil_to_jd y m d Gregorian) sg"
  proof (cases sg)
    case (Reform s)
    have "jd < s" "reform_begin_jd \<le> s" using assms(1) True Reform by (simp_all add: c_valid_start_p_def)
    from gregorian_reading_before [OF J this] show ?thesis unfolding Reform by simp
  qed (use True in simp_all)
  then show ?thesis unfolding civil_to_jd_cases [of y m d sg] using julian_days [OF J] by simp
next
  case False
  then have "c_jd_to_civil jd Gregorian = (y, m, d)" using assms(2) unfolding jd_to_civil_cases [of jd sg] by simp
  from gregorian_days [OF this] False show ?thesis unfolding civil_to_jd_cases [of y m d sg] by simp
qed

definition civil_date :: "start \<Rightarrow> int \<Rightarrow> int \<Rightarrow> int \<Rightarrow> int \<Rightarrow> bool" where
  "civil_date sg y m d jd \<longleftrightarrow>
     julian_date y m d \<and> jd = c_civil_to_jd y m d Julian \<and> before jd sg \<or>
     gregorian_date y m d \<and> jd = c_civil_to_jd y m d Gregorian \<and> \<not> before jd sg"

lemma civil_date_decode: "civil_date sg y m d jd \<longleftrightarrow> c_jd_to_civil jd sg = (y, m, d)"
proof (cases "before jd sg")
  case True
  then have s: "c_jd_to_civil jd sg = c_jd_to_civil jd Julian" unfolding jd_to_civil_cases [of jd sg] by simp
  show ?thesis unfolding civil_date_def s
    using True julian_decode_date julian_days julian_encode by blast
next
  case False
  then have s: "c_jd_to_civil jd sg = c_jd_to_civil jd Gregorian" unfolding jd_to_civil_cases [of jd sg] by simp
  show ?thesis unfolding civil_date_def s
    using False gregorian_decode_date gregorian_days gregorian_encode by blast
qed

lemma civil_date_range: "civil_date sg y m d jd \<Longrightarrow> 1 \<le> m \<and> m \<le> 12 \<and> 1 \<le> d \<and> d \<le> 31"
proof -
  have all: "\<forall>m\<in>set [1..12]. monthtab True m \<le> 31 \<and> monthtab False m \<le> 31" by code_simp
  have le: "monthtab l m \<le> 31" if "1 \<le> m" "m \<le> 12" for l m
    using bspec [OF all int_range_split [OF that]] by (cases l) auto
  show "civil_date sg y m d jd \<Longrightarrow> 1 \<le> m \<and> m \<le> 12 \<and> 1 \<le> d \<and> d \<le> 31"
    unfolding civil_date_def julian_date_def gregorian_date_def c_julian_last_day_of_month_def
      c_gregorian_last_day_of_month_def using le order_trans by blast
qed

lemma civil_date_unique: "civil_date sg y m d jd \<Longrightarrow> civil_date sg y' m' d' jd \<Longrightarrow> (y, m, d) = (y', m', d')"
  unfolding civil_date_decode by simp

lemma civil_date_ex: "\<exists>y m d. civil_date sg y m d jd"
  unfolding civil_date_decode by (cases "c_jd_to_civil jd sg") blast

lemma valid_civil_day_iff:
  assumes "c_valid_start_p sg" "1 \<le> m"
  shows "valid_civil_day y m d sg = Some jd \<longleftrightarrow> civil_date sg y m d jd"
proof
  assume "valid_civil_day y m d sg = Some jd"
  then show "civil_date sg y m d jd" using assms(2) unfolding valid_civil_day_def civil_date_decode Let_def
    by (auto split: if_splits)
next
  assume date: "civil_date sg y m d jd"
  then have "c_civil_to_jd y m d sg = jd" using civil_round_trip [OF assms(1)] unfolding civil_date_decode by blast
  with date civil_date_range [OF date] show "valid_civil_day y m d sg = Some jd"
    unfolding valid_civil_day_def civil_date_decode Let_def by simp
qed


section \<open>The order of dates\<close>

text \<open>\<open>serial\<close> is the Julian day number under which the Julian calendar gives the date of a day.\<close>

definition serial :: "int \<Rightarrow> start \<Rightarrow> int" where
  "serial jd sg = (if before jd sg then jd else julian_day jd)"

lemma jd_to_civil_serial: "c_jd_to_civil jd sg = c_jd_to_civil (serial jd sg) Julian"
  unfolding serial_def jd_to_civil_split [of jd sg] Let_def by (rule refl)

lemma julian_day_mono: "jd \<le> jd' \<Longrightarrow> julian_day jd + (jd' - jd) \<le> julian_day jd'"
proof -
  assume less: "jd \<le> jd'"
  obtain x where x: "x = century_at jd" by blast
  obtain x' where x': "x' = century_at jd'" by blast
  have le: "x \<le> x'" unfolding x x' using less by (intro zdiv_mono1) simp_all
  obtain q where q: "q = x div 4" by blast
  obtain q' where q': "q' = x' div 4" by blast
  have Q: "4 * q \<le> x" "x' < 4 * (q' + 1)" "4 * q' \<le> x'" "x < 4 * (q + 1)" unfolding q q' by (rule div_bounds; simp)+
  have "x - q \<le> x' - q'"
  proof (cases "x = x'")
    case True
    then show ?thesis unfolding q q' by simp
  next
    case False
    with le have "x + 1 \<le> x'" by simp
    then show ?thesis using Q unfolding distrib_left by linarith
  qed
  with less show ?thesis unfolding x [symmetric] x' [symmetric] q [symmetric] q' [symmetric] by linarith
qed

lemma julian_day_after: "reform_begin_jd \<le> jd \<Longrightarrow> jd \<le> julian_day jd"
proof -
  assume jd: "reform_begin_jd \<le> jd"
  obtain x where x: "x = century_at jd" by blast
  obtain q where q: "q = x div 4" by blast
  have "4 * jd - 7468865 < 146097 * (x + 1)" unfolding x by (rule div_bounds(2)) simp
  moreover have "4 * q \<le> x" unfolding q by (rule div_bounds; simp)
  ultimately have "q \<le> x" using jd unfolding reform_begin_jd_def distrib_left by linarith
  then show ?thesis unfolding x [symmetric] q [symmetric] by linarith
qed

lemma serial_mono: "c_valid_start_p sg \<Longrightarrow> jd \<le> jd' \<Longrightarrow> serial jd sg + (jd' - jd) \<le> serial jd' sg"
proof (cases sg)
  case (Reform s)
  assume "c_valid_start_p sg" and less: "jd \<le> jd'"
  then have s: "reform_begin_jd \<le> s" unfolding Reform by (simp add: c_valid_start_p_def)
  consider "jd' < s" | "jd < s" "s \<le> jd'" | "s \<le> jd" by linarith
  then show ?thesis
  proof cases
    case 1
    then show ?thesis using less unfolding serial_def Reform by simp
  next
    case 2
    have "jd' \<le> julian_day jd'" by (rule julian_day_after) (use 2 s in linarith)
    with 2 less show ?thesis unfolding serial_def Reform by simp
  next
    case 3
    with julian_day_mono [OF less] less show ?thesis unfolding serial_def Reform by simp
  qed
qed (use julian_day_mono in \<open>simp_all add: serial_def\<close>)

text \<open>Julian day numbers grow with the date.\<close>

lemma year_start_step:
  "1461 * c div 4 + 365 \<le> 1461 * (c + 1) div (4::int)" "1461 * (c + 1) div 4 \<le> 1461 * c div 4 + 366"
  "c mod 4 = 3 \<Longrightarrow> 1461 * (c + 1) div 4 = 1461 * c div 4 + 366"
proof -
  obtain D D' where D: "D = 1461 * c div 4" "D' = 1461 * (c + 1) div 4" by blast
  obtain r where r: "r = c mod 4" by blast
  obtain r' where r': "r' = (c + 1) mod 4" by blast
  have F: "4 * D = 1461 * c - r" "4 * D' = 1461 * (c + 1) - r'" unfolding D r r' by (rule year_start)+
  have R: "0 \<le> r" "r \<le> 3" "0 \<le> r'" "r' \<le> 3" unfolding r r' by (rule quarter)+
  have z: "r' = 0" if "r = 3" using that unfolding r r' by (simp add: mod_add_left_eq [of c, symmetric])
  show "1461 * c div 4 + 365 \<le> 1461 * (c + 1) div 4" "1461 * (c + 1) div 4 \<le> 1461 * c div 4 + 366"
    unfolding D [symmetric] using F R unfolding distrib_left by linarith+
  show "1461 * (c + 1) div 4 = 1461 * c div 4 + 366" if "c mod 4 = 3"
    using F z that unfolding D [symmetric] r [symmetric] distrib_left by linarith
qed

lemma year_start_mono: "c \<le> c' \<Longrightarrow> 1461 * c div 4 \<le> 1461 * c' div (4::int)"
  by (intro zdiv_mono1) simp_all

lemma civil_of_less:
  assumes "(c, e, d) < (c', e', d')" "4 \<le> e" "e \<le> 15" "4 \<le> e'" "e' \<le> (15::int)"
  shows "civil_of c e d < civil_of c' e' d'"
  using assms unfolding civil_of_def less_prod_simp by (cases "e \<le> 13"; cases "e' \<le> 13") auto

lemma julian_order:
  assumes "jd < jd'"
  shows "c_jd_to_civil jd Julian < c_jd_to_civil jd' Julian"
proof -
  let ?c = "\<lambda>jd. year_at (jd + 1524)"
  let ?n = "\<lambda>jd. jd + 1524 - 1461 * ?c jd div 4"
  let ?e = "\<lambda>jd. month_at (?n jd)"
  have c: "?c jd \<le> ?c jd'" using assms by (intro zdiv_mono1) simp_all
  have n: "?n jd < ?n jd'" if "?c jd = ?c jd'" unfolding that using assms by simp
  have e: "?e jd \<le> ?e jd'" if "?c jd = ?c jd'" using n [OF that] by (intro zdiv_mono1) simp_all
  have d: "?n jd - month_days (?e jd) < ?n jd' - month_days (?e jd')" if "?c jd = ?c jd'" "?e jd = ?e jd'"
    unfolding that(2) using n [OF that(1)] by (rule diff_strict_right_mono)
  note range = year_down(1,2) [OF day_of_year(1,2)]
  have "(?c jd, ?e jd, ?n jd - month_days (?e jd)) < (?c jd', ?e jd', ?n jd' - month_days (?e jd'))"
    unfolding less_prod_simp using c e d by (metis order_le_less)
  from civil_of_less [OF this range range] show ?thesis unfolding jd_to_civil_julian Let_def .
qed

lemma civil_order:
  assumes "c_valid_start_p sg"
  shows "c_jd_to_civil jd sg < c_jd_to_civil jd' sg \<longleftrightarrow> jd < jd'"
proof -
  have less: "c_jd_to_civil jd sg < c_jd_to_civil jd' sg" if "jd < jd'" for jd jd'
    unfolding jd_to_civil_serial [of _ sg] using serial_mono [OF assms, of jd jd'] that
    by (intro julian_order) simp
  show ?thesis using less [of jd jd'] less [of jd' jd] by (metis less_asym' linorder_neqE)
qed

section \<open>First and last days\<close>

lemma first_some_least:
  fixes xs :: "int list"
  assumes "sorted_wrt (<) xs" "first_some f xs = Some y"
  obtains k where "k \<in> set xs" "f k = Some y" "\<forall>i\<in>set xs. i < k \<longrightarrow> f i = None"
proof -
  have "\<exists>k\<in>set xs. f k = Some y \<and> (\<forall>i\<in>set xs. i < k \<longrightarrow> f i = None)"
    using assms by (induction xs) (auto split: option.splits)
  then show thesis using that by blast
qed

lemma first_some_None: "first_some f xs = None \<longleftrightarrow> (\<forall>x\<in>set xs. f x = None)"
  by (induction xs) (auto split: option.splits)

lemma first_some_range:
  assumes "a \<le> i" "i \<le> b" "f i = Some z"
  shows "\<exists>k y. first_some f [a..b] = Some y \<and> a \<le> k \<and> f k = Some y \<and> (\<forall>j. a \<le> j \<and> j < k \<longrightarrow> f j = None)"
proof -
  have "first_some f [a..b] \<noteq> None" using assms unfolding first_some_None by auto
  then obtain y where y: "first_some f [a..b] = Some y" by blast
  from first_some_least [OF sorted_wrt_upto y] obtain k where k: "k \<in> set [a..b]" "f k = Some y"
    "\<forall>i\<in>set [a..b]. i < k \<longrightarrow> f i = None" .
  have "f j = None" if "a \<le> j" "j < k" for j using k(1,3) that by simp
  with y k(1,2) show ?thesis by auto
qed

lemma civil_to_jd_day:
  "c_civil_to_jd y m d Julian = c_civil_to_jd y m 0 Julian + d"
  by (simp add: civil_to_jd_julian split: prod.split)

lemma month_length: "1 \<le> m \<Longrightarrow> m \<le> 12 \<Longrightarrow> 28 \<le> monthtab l m"
proof -
  have all: "\<forall>m\<in>set [1..12]. 28 \<le> monthtab True m \<and> 28 \<le> monthtab False m" by code_simp
  show "1 \<le> m \<Longrightarrow> m \<le> 12 \<Longrightarrow> 28 \<le> monthtab l m"
    using bspec [OF all int_range_split [of 1 m 12]] by (cases l) auto
qed

lemma dates_to_28:
  assumes "1 \<le> m" "m \<le> 12" "1 \<le> d" "d \<le> 28"
  shows "julian_date y m d" "gregorian_date y m d"
  using assms month_length [OF assms(1,2)] order_trans
  unfolding julian_date_def gregorian_date_def c_julian_last_day_of_month_def c_gregorian_last_day_of_month_def
  by blast+

text \<open>The reform skips fewer than 26 days.\<close>

lemma reform_gap:
  assumes "1 \<le> m" "m \<le> 12" "c_civil_to_jd y m 28 Gregorian < s" "s \<le> reform_end_jd"
  shows "c_civil_to_jd y m 2 Julian < s"
proof -
  obtain y' m' where sh: "shifted y m = (y', m')" "3 \<le> m'" using assms(1,2) unfolding shifted_def by (cases "m \<le> 2") auto
  obtain A where A: "A = y' div 100" by blast
  obtain q where q: "q = A div 4" by blast
  have a: "100 * A \<le> y'" unfolding A by (rule div_bounds; simp)
  have Q: "A < 4 * (q + 1)" unfolding q by (rule div_bounds; simp)
  obtain D where D: "D = 1461 * (y' + 4716) div 4" by blast
  have D4: "1461 * (y' + 4716) < 4 * (D + 1)" unfolding D by (rule div_bounds(2)) simp
  have "0 \<le> 306001 * (m' + 1) div 10000" using sh(2) by simp
  then have j: "D - 1524 \<le> c_civil_to_jd y m 0 Julian" unfolding civil_to_jd_julian sh split_conv D by simp
  obtain J where J: "J = c_civil_to_jd y m 0 Julian" by blast
  have g: "J + 28 + (2 - A + q) < s"
    using assms(3) unfolding civil_to_jd_gregorian sh century_gap_def fst_conv A q J civil_to_jd_day [of y m 28] .
  have "J + 2 < s"
  proof (rule ccontr)
    assume "\<not> J + 2 < s"
    with g have "29 \<le> A - q" by linarith
    with Q have "36 \<le> A" unfolding distrib_left by linarith
    with a D4 j [folded J] g assms(4) Q show False unfolding reform_end_jd_def distrib_left by linarith
  qed
  then show ?thesis unfolding civil_to_jd_day [of y m 2] J .
qed

lemma month_not_empty:
  assumes "c_valid_start_p sg" "1 \<le> m" "m \<le> 12"
  obtains d jd where "2 \<le> d" "d \<le> 28" "civil_date sg y m d jd"
proof -
  note d2 = dates_to_28 [OF assms(2,3), of 2 y] and d28 = dates_to_28 [OF assms(2,3), of 28 y]
  show thesis
  proof (cases "before (c_civil_to_jd y m 2 Julian) sg")
    case True
    then have "civil_date sg y m 2 (c_civil_to_jd y m 2 Julian)" using d2 by (simp add: civil_date_def)
    then show thesis by (intro that [of 2]) simp_all
  next
    case False
    have "\<not> before (c_civil_to_jd y m 28 Gregorian) sg"
    proof (cases sg)
      case (Reform s)
      with assms(1) have "s \<le> reform_end_jd" by (simp add: c_valid_start_p_def)
      from reform_gap [OF assms(2,3) _ this] False show ?thesis unfolding Reform by auto
    qed (use False in auto)
    then have "civil_date sg y m 28 (c_civil_to_jd y m 28 Gregorian)" using d28 by (simp add: civil_date_def)
    then show thesis by (intro that [of 28]) simp_all
  qed
qed

lemma civil_date_order:
  "c_valid_start_p sg \<Longrightarrow> civil_date sg y m d jd \<Longrightarrow> civil_date sg y' m' d' jd' \<Longrightarrow> jd < jd' \<longleftrightarrow> (y, m, d) < (y', m', d')"
  unfolding civil_date_decode using civil_order by metis

lemma valid_civil_p_pos:
  "0 \<le> d \<Longrightarrow> c_valid_civil_p y m d sg = valid_civil_day y m d sg"
  by (simp add: c_valid_civil_p_def valid_civil_day_def Let_def)

lemma find_fdom:
  assumes "c_valid_start_p sg" "1 \<le> m" "m \<le> 12"
  obtains f k where "c_find_fdom y m sg = Some f" "civil_date sg y m k f"
    "\<And>d jd. civil_date sg y m d jd \<Longrightarrow> f \<le> jd"
proof -
  let ?v = "\<lambda>d. c_valid_civil_p y m d sg"
  have v: "?v d = Some jd \<longleftrightarrow> civil_date sg y m d jd" if "0 \<le> d" for d jd
    unfolding valid_civil_p_pos [OF that] by (rule valid_civil_day_iff [OF assms(1,2)])
  obtain d0 j0 where d0: "2 \<le> d0" "d0 \<le> 28" "civil_date sg y m d0 j0" using month_not_empty [OF assms] .
  then have "?v d0 = Some j0" using v by simp
  moreover have "1 \<le> d0" "d0 \<le> 30" using d0(1,2) by linarith+
  ultimately obtain k f where f: "c_find_fdom y m sg = Some f"
    and k: "1 \<le> k" "?v k = Some f" "\<forall>i. 1 \<le> i \<and> i < k \<longrightarrow> ?v i = None"
    using first_some_range [of 1 d0 30 ?v j0] unfolding c_find_fdom_def by blast
  have date: "civil_date sg y m k f" using k(1,2) v by simp
  have "f \<le> jd" if "civil_date sg y m d jd" for d jd
  proof (rule ccontr)
    assume "\<not> f \<le> jd"
    then have "d < k" using civil_date_order [OF assms(1) that date] by auto
    moreover have "1 \<le> d" using civil_date_range [OF that] by blast
    ultimately have "?v d = None" using k(1,3) by simp
    with v [of d jd] that \<open>1 \<le> d\<close> show False by simp
  qed
  with f date that show thesis by blast
qed

lemma find_ldom:
  assumes "c_valid_start_p sg" "1 \<le> m" "m \<le> 12"
  obtains l k where "c_find_ldom y m sg = Some l" "civil_date sg y m k l"
    "\<forall>d jd. civil_date sg y m d jd \<longrightarrow> jd \<le> l"
proof -
  let ?v = "\<lambda>d. valid_civil_day y m d sg"
  note v = valid_civil_day_iff [OF assms(1,2), of y]
  obtain d0 j0 where d0: "2 \<le> d0" "d0 \<le> 28" "civil_date sg y m d0 j0" using month_not_empty [OF assms] .
  then have "?v (31 - (31 - d0)) = Some j0" using v by simp
  moreover have "0 \<le> 31 - d0" "31 - d0 \<le> 29" using d0(1,2) by linarith+
  ultimately obtain i l where l: "c_find_ldom y m sg = Some l"
    and i: "0 \<le> i" "?v (31 - i) = Some l" "\<forall>j. 0 \<le> j \<and> j < i \<longrightarrow> ?v (31 - j) = None"
    using first_some_range [of 0 "31 - d0" 29 "\<lambda>i. ?v (31 - i)" j0] unfolding c_find_ldom_def by blast
  have date: "civil_date sg y m (31 - i) l" using i(2) v by simp
  have "jd \<le> l" if "civil_date sg y m d jd" for d jd
  proof (rule ccontr)
    assume "\<not> jd \<le> l"
    then have "31 - d < i" using civil_date_order [OF assms(1) date that] by auto
    moreover have "d \<le> 31" using civil_date_range [OF that] by blast
    ultimately have "?v (31 - (31 - d)) = None" using spec [OF i(3), of "31 - d"] by simp
    with v [of d jd] that show False by simp
  qed
  with l date that show thesis by blast
qed

section \<open>Years\<close>

abbreviation year_of :: "int \<Rightarrow> start \<Rightarrow> int" where
  "year_of jd sg \<equiv> fst (c_jd_to_civil jd sg)"

lemma civil_date_year: "civil_date sg y m d jd \<Longrightarrow> year_of jd sg = y"
  unfolding civil_date_decode by simp

lemma find_fdoy:
  assumes "c_valid_start_p sg"
  shows "\<exists>f k. c_find_fdoy y sg = Some f \<and> civil_date sg y 1 k f \<and> (\<forall>jd. f \<le> jd \<longleftrightarrow> y \<le> year_of jd sg)"
proof -
  obtain f k where f: "c_find_fdom y 1 sg = Some f" "civil_date sg y 1 k f" and
    least: "\<And>d jd. civil_date sg y 1 d jd \<Longrightarrow> f \<le> jd"
    using find_fdom [OF assms, of 1 y] by auto
  have "f \<le> jd \<longleftrightarrow> y \<le> year_of jd sg" for jd
  proof -
    obtain y' m' d' where jd: "civil_date sg y' m' d' jd" using civil_date_ex by blast
    have m': "1 \<le> m'" using civil_date_range [OF jd] by blast
    have less: "jd < f \<longleftrightarrow> (y', m', d') < (y, 1, k)" "f < jd \<longleftrightarrow> (y, 1, k) < (y', m', d')"
      by (rule civil_date_order [OF assms]; fact f(2) jd)+
    show ?thesis unfolding civil_date_year [OF jd]
    proof
      assume "f \<le> jd"
      then have "\<not> (y', m', d') < (y, 1, k)" using less(1) by simp
      then show "y \<le> y'" by auto
    next
      assume le: "y \<le> y'"
      show "f \<le> jd"
      proof (cases "y < y' \<or> 1 < m'")
        case True
        with le less(2) show ?thesis by auto
      next
        case False
        then have "y' = y" "m' = 1" using le m' by linarith+
        then show ?thesis using least jd by blast
      qed
    qed
  qed
  moreover have "c_find_fdoy y sg = c_find_fdom y 1 sg" unfolding c_find_fdoy_def c_find_fdom_def by (rule refl)
  ultimately show ?thesis using f by auto
qed

text \<open>The first day of a year, of which the theorem above says that there is one.\<close>

definition new_year :: "int \<Rightarrow> start \<Rightarrow> int" where
  "new_year y sg = num (c_find_fdoy y sg)"

lemma new_year:
  assumes "c_valid_start_p sg"
  shows "new_year y sg \<le> jd \<longleftrightarrow> y \<le> year_of jd sg"
  using find_fdoy [OF assms, of y] unfolding new_year_def num_def by force

lemma new_year_date:
  assumes "c_valid_start_p sg"
  obtains k where "civil_date sg y 1 k (new_year y sg)"
  using find_fdoy [OF assms, of y] unfolding new_year_def num_def by force

lemma julian_new_year:
  "c_civil_to_jd y 1 d Julian = 1461 * (y + 4715) div 4 + d - 1096"
  by (simp add: civil_to_jd_julian shifted_def)

lemma year_length:
  assumes "c_valid_start_p sg"
  shows "new_year (y + 1) sg \<le> new_year y sg + 366"
proof -
  let ?f = "new_year y sg"
  obtain k where k: "civil_date sg y 1 k ?f" using new_year_date [OF assms] .
  have k1: "1 \<le> k" using civil_date_range [OF k] by blast
  have "c_jd_to_civil (serial ?f sg) Julian = (y, 1, k)"
    using k unfolding civil_date_decode jd_to_civil_serial [of _ sg] .
  from julian_days [OF this] have u: "serial ?f sg = 1461 * (y + 4715) div 4 + k - 1096"
    unfolding julian_new_year by simp
  have v: "serial ?f sg + 366 \<le> serial (?f + 366) sg" using serial_mono [OF assms, of ?f "?f + 366"] by simp
  let ?j = "c_civil_to_jd (y + 1) 1 1 Julian"
  have "1461 * (y + 4715 + 1) div 4 \<le> 1461 * (y + 4715) div 4 + 366" by (rule year_start_step(2))
  then have "1461 * (y + 1 + 4715) div 4 \<le> 1461 * (y + 4715) div 4 + 366" by (simp add: add.commute add.left_commute)
  then have j: "?j \<le> serial (?f + 366) sg" using u v k1 unfolding julian_new_year by linarith
  have dec: "c_jd_to_civil ?j Julian = (y + 1, 1, 1)"
    by (rule julian_encode, rule dates_to_28) simp_all
  have "(y + 1, 1, 1) \<le> c_jd_to_civil (serial (?f + 366) sg) Julian"
  proof (cases "?j = serial (?f + 366) sg")
    case True
    then show ?thesis using dec by simp
  next
    case False
    with j have "?j < serial (?f + 366) sg" by linarith
    from julian_order [OF this] show ?thesis unfolding dec by (rule less_imp_le)
  qed
  then have "y + 1 \<le> year_of (?f + 366) sg"
    unfolding jd_to_civil_serial [of _ sg] by (cases "c_jd_to_civil (serial (?f + 366) sg) Julian") auto
  then show ?thesis unfolding new_year [OF assms] .
qed

section \<open>What the civil check accepts\<close>

lemma valid_negative_day:
  assumes "c_valid_start_p sg" "1 \<le> m" "m \<le> 12" "d < 0"
  shows "c_valid_civil_p y m d sg = Some jd \<longleftrightarrow> (\<exists>l e k. civil_date sg y m k l \<and> (\<forall>i j. civil_date sg y m i j \<longrightarrow> j \<le> l) \<and>
    jd = l + d + 1 \<and> civil_date sg y m e jd)"
proof -
  obtain l k where l: "c_find_ldom y m sg = Some l" "civil_date sg y m k l" "\<forall>d jd. civil_date sg y m d jd \<longrightarrow> jd \<le> l"
    by (rule find_ldom [OF assms(1-3), of y])
  have unique: "l' = l" if "civil_date sg y m k' l'" "\<forall>i j. civil_date sg y m i j \<longrightarrow> j \<le> l'" for k' l'
    using that l(2,3) by (meson order_antisym)
  obtain ry rm rd where r: "c_jd_to_civil (l + d + 1) sg = (ry, rm, rd)" by (cases "c_jd_to_civil (l + d + 1) sg") blast
  have "c_valid_civil_p y m d sg = (if ry \<noteq> y \<or> rm \<noteq> m then None else valid_civil_day y m rd sg)"
    unfolding c_valid_civil_p_def Let_def using assms(2-4) l(1) r by simp
  also have "\<dots> = Some jd \<longleftrightarrow> jd = l + d + 1 \<and> (\<exists>e. civil_date sg y m e jd)"
  proof (cases "ry = y \<and> rm = m")
    case True
    then have "valid_civil_day y m rd sg = Some (l + d + 1)"
      using r unfolding valid_civil_day_iff [OF assms(1,2)] civil_date_decode by simp
    then show ?thesis using True r by (auto simp: civil_date_decode)
  next
    case False
    then show ?thesis using r by (auto simp: civil_date_decode)
  qed
  also have "\<dots> \<longleftrightarrow> (\<exists>l e k. civil_date sg y m k l \<and> (\<forall>i j. civil_date sg y m i j \<longrightarrow> j \<le> l) \<and>
    jd = l + d + 1 \<and> civil_date sg y m e jd)"
    using l(2,3) unique by blast
  finally show ?thesis .
qed

lemma valid_month_out_of_range:
  "\<not> (1 \<le> (if m < 0 then m + 13 else m) \<and> (if m < 0 then m + 13 else m) \<le> 12) \<Longrightarrow> c_valid_civil_p y m d sg = None"
  unfolding c_valid_civil_p_def Let_def by (auto split: if_splits)

lemma valid_month_normal:
  "c_valid_civil_p y m d sg = c_valid_civil_p y (if m < 0 then m + 13 else m) d sg" if "\<not> m + 13 < 0"
  using that unfolding c_valid_civil_p_def Let_def by simp

end
