(* ===== verification/Date_Forms.thy ===== *)
theory Date_Forms
  imports Date_Reform
begin

text \<open>
  The other forms of a date: ordinal, commercial (ISO week), week number and n-th weekday of a
  month. Each form a day is given in leads back to the day, the checks accept exactly these forms,
  and their numbers are in range, also in the year of the reform, whatever its day.
\<close>

section \<open>Weeks\<close>

lemma week_split: "(x::int) div 7 * 7 + x mod 7 = x"
  by simp

lemma commercial_to_jd:
  "c_commercial_to_jd y w d sg = new_year y sg + 3 - (new_year y sg + 3) mod 7 + 7 * (w - 1) + (d - 1)"
  unfolding c_commercial_to_jd_def new_year_def Let_def by (rule refl)

abbreviation monday :: "int \<Rightarrow> start \<Rightarrow> int" where
  "monday y sg \<equiv> c_commercial_to_jd y 1 1 sg"

lemma monday_week: "monday y sg mod 7 = 0"
  unfolding commercial_to_jd by simp

lemma commercial_monday: "c_commercial_to_jd y w d sg = monday y sg + 7 * (w - 1) + (d - 1)"
  unfolding commercial_to_jd by simp

lemma mod7: "0 \<le> x mod (7::int)" "x mod (7::int) \<le> 6"
  using pos_mod_bound [of 7 x] pos_mod_sign [of 7 x] by simp_all

lemma monday_bounds: "new_year y sg - 3 \<le> monday y sg" "monday y sg \<le> new_year y sg + 3"
  using mod7 [of "new_year y sg + 3"] unfolding commercial_to_jd by simp_all

text \<open>The year a commercial date is in.\<close>

definition week_year :: "int \<Rightarrow> start \<Rightarrow> int" where
  "week_year jd sg = (let a = year_of (jd - 3) sg in if monday (a + 1) sg \<le> jd then a + 1 else a)"

lemma jd_to_commercial:
  "c_jd_to_commercial jd sg =
    (week_year jd sg, 1 + (jd - monday (week_year jd sg) sg) div 7, if (jd + 1) mod 7 = 0 then 7 else (jd + 1) mod 7)"
  unfolding c_jd_to_commercial_def week_year_def Let_def by simp

lemma weekday_number: "(if (jd + 1) mod 7 = 0 then 7 else (jd + 1) mod 7) = jd mod 7 + (1::int)"
proof -
  have eq: "(jd + 1) mod 7 = (jd mod 7 + 1) mod 7" by (rule mod_add_left_eq [symmetric])
  show ?thesis
  proof (cases "jd mod 7 = 6")
    case True
    then show ?thesis unfolding eq by simp
  next
    case False
    with mod7 [of jd] have "(jd mod 7 + 1) mod 7 = jd mod 7 + 1" by (intro mod_pos_pos_trivial) simp_all
    then show ?thesis unfolding eq using mod7(1) [of jd] by simp
  qed
qed

lemma commercial_round_trip:
  assumes "c_jd_to_commercial jd sg = (y, w, d)"
  shows "c_commercial_to_jd y w d sg = jd"
proof -
  let ?c = "monday y sg"
  have y: "y = week_year jd sg" and w: "w = 1 + (jd - ?c) div 7" and d: "d = jd mod 7 + 1"
    using assms unfolding jd_to_commercial weekday_number by auto
  have "(jd - ?c) mod 7 = jd mod 7"
    using mod_diff_eq [of jd 7 ?c] unfolding monday_week by simp
  then show ?thesis using week_split [of "jd - ?c"] unfolding commercial_monday [of y w d] unfolding w d by simp
qed

lemma multiple_of_7: "x mod 7 = 0 \<Longrightarrow> x \<le> 372 \<Longrightarrow> x \<le> (371::int)"
  by (cases "x = 372") simp_all

lemma weeks_of_days:
  assumes "0 \<le> (t::int)" "t < 7 * n"
  shows "0 \<le> t div 7" "t div 7 < n"
  using assms week_split [of t] mod7 [of t] by linarith+

lemma week_year_bounds:
  assumes "c_valid_start_p sg"
  shows "monday (week_year jd sg) sg \<le> jd" "jd < monday (week_year jd sg) sg + 371"
proof -
  let ?a = "year_of (jd - 3) sg"
  have a: "new_year ?a sg \<le> jd - 3" "jd - 3 < new_year (?a + 1) sg"
    using new_year [OF assms, of ?a "jd - 3"] new_year [OF assms, of "?a + 1" "jd - 3"] by simp_all
  note len = year_length [OF assms, of ?a]
  note m = monday_bounds [of ?a sg] and m' = monday_bounds [of "?a + 1" sg]
  have "monday (week_year jd sg) sg \<le> jd \<and> jd < monday (week_year jd sg) sg + 371"
  proof (cases "monday (?a + 1) sg \<le> jd")
    case True
    then have y: "week_year jd sg = ?a + 1" unfolding week_year_def Let_def by simp
    show ?thesis unfolding y using True a m'(1) by linarith
  next
    case False
    then have y: "week_year jd sg = ?a" unfolding week_year_def Let_def by simp
    have "(monday (?a + 1) sg - monday ?a sg) mod 7 = 0"
      using mod_diff_eq [of "monday (?a + 1) sg" 7 "monday ?a sg"] unfolding monday_week by simp
    moreover have "monday (?a + 1) sg - monday ?a sg \<le> 372" using m m' len by linarith
    ultimately have "monday (?a + 1) sg - monday ?a sg \<le> 371" by (rule multiple_of_7)
    then show ?thesis unfolding y using False a(1) m(2) by linarith
  qed
  then show "monday (week_year jd sg) sg \<le> jd" "jd < monday (week_year jd sg) sg + 371" by blast+
qed

lemma commercial_range:
  assumes "c_valid_start_p sg" "c_jd_to_commercial jd sg = (y, w, d)"
  shows "1 \<le> w \<and> w \<le> 53 \<and> 1 \<le> d \<and> d \<le> 7"
proof -
  obtain t where t: "t = jd - monday (week_year jd sg) sg" by blast
  have "0 \<le> t" "t < 371" unfolding t using week_year_bounds [OF assms(1), of jd] by linarith+
  then have "0 \<le> t div 7" "t div 7 < 53" using weeks_of_days [of t 53] by simp_all
  moreover have "w = 1 + t div 7" "d = jd mod 7 + 1"
    using assms(2) unfolding jd_to_commercial weekday_number t by auto
  ultimately show ?thesis using mod7 [of jd] by simp
qed

section \<open>Ordinal dates and week numbers\<close>

lemma jd_to_ordinal: "c_jd_to_ordinal jd sg = (year_of jd sg, jd - new_year (year_of jd sg) sg + 1)"
  unfolding c_jd_to_ordinal_def new_year_def Let_def by (rule refl)

lemma ordinal_to_jd: "c_ordinal_to_jd y d sg = new_year y sg + d - 1"
  unfolding c_ordinal_to_jd_def new_year_def by (rule refl)

lemma in_year:
  assumes "c_valid_start_p sg"
  shows "new_year (year_of jd sg) sg \<le> jd" "jd < new_year (year_of jd sg) sg + 366"
  using new_year [OF assms, of "year_of jd sg" jd] new_year [OF assms, of "year_of jd sg + 1" jd]
    year_length [OF assms, of "year_of jd sg"] by linarith+

lemma jd_to_weeknum:
  "c_jd_to_weeknum jd f sg = (let n = new_year (year_of jd sg) sg + 6; j = jd - (n - (n - f + 1) mod 7) + 7
    in (year_of jd sg, j div 7, j mod 7))"
  unfolding c_jd_to_weeknum_def new_year_def Let_def by (rule refl)

lemma weeknum_to_jd:
  "c_weeknum_to_jd y w d f sg = (let n = new_year y sg + 6 in n - (n - f + 1) mod 7 - 7 + 7 * w + d)"
  unfolding c_weeknum_to_jd_def new_year_def Let_def by (rule refl)

lemma weeknum_round_trip:
  assumes "c_jd_to_weeknum jd f sg = (y, w, d)"
  shows "c_weeknum_to_jd y w d f sg = jd"
proof -
  let ?n = "new_year y sg + 6"
  obtain j where j: "j = jd - (?n - (?n - f + 1) mod 7) + 7" by blast
  have "w = j div 7" "d = j mod 7" using assms unfolding jd_to_weeknum Let_def j by auto
  then show ?thesis unfolding weeknum_to_jd Let_def using week_split [of j] j by simp
qed

lemma weeknum_range:
  assumes "c_valid_start_p sg" "c_jd_to_weeknum jd f sg = (y, w, d)"
  shows "0 \<le> w \<and> w \<le> 53 \<and> 0 \<le> d \<and> d \<le> 6"
proof -
  let ?n = "new_year (year_of jd sg) sg + 6"
  obtain j where j: "j = jd - (?n - (?n - f + 1) mod 7) + 7" by blast
  have "w = j div 7" "d = j mod 7" using assms(2) unfolding jd_to_weeknum Let_def j by auto
  moreover have "0 \<le> (?n - f + 1) mod 7" "(?n - f + 1) mod 7 \<le> 6"
    by (rule mod7)+
  then have "0 \<le> j" "j \<le> 372" unfolding j using in_year [OF assms(1), of jd] by linarith+
  then have "0 \<le> j div 7" "j div 7 < 54" using weeks_of_days [of j 54] by simp_all
  ultimately show ?thesis using mod7 [of j] by simp
qed

section \<open>The n-th weekday of a month\<close>

lemma last_weekday:
  "f - 1 - (f - 1 - (jd + 1) mod 7 + 1) mod 7 + 7 * ((jd - f) div 7 + 1) = (jd::int)"
proof -
  obtain a b where ab: "a = (jd - f) div 7" "b = (jd - f) mod 7" by blast
  have t: "jd = f + (7 * a + b)" unfolding ab by simp
  have b: "0 \<le> b" "b \<le> 6" unfolding ab by (rule mod7)+
  have "(f - 1 - (jd + 1) mod 7 + 1) mod 7 = (f - (jd + 1) mod 7) mod 7" by simp
  also have "\<dots> = (f - (jd + 1)) mod 7" by (rule mod_diff_right_eq)
  also have "f - (jd + 1) = 6 - b + 7 * (- a - 1)" unfolding t by (simp add: algebra_simps)
  also have "(6 - b + 7 * (- a - 1)) mod 7 = (6 - b) mod 7" by (rule mod_mult_self2)
  also have "\<dots> = 6 - b" using b by (intro mod_pos_pos_trivial) simp_all
  finally show ?thesis unfolding ab(1) [symmetric] using t by (simp add: algebra_simps)
qed

lemma month_span:
  assumes "c_valid_start_p sg" "civil_date sg y m d jd" "civil_date sg y m i f" "f \<le> jd"
  shows "jd < f + 31"
proof -
  have "c_jd_to_civil (serial jd sg) Julian = (y, m, d)" "c_jd_to_civil (serial f sg) Julian = (y, m, i)"
    using assms(2,3) unfolding civil_date_decode jd_to_civil_serial [of _ sg] by simp_all
  from this [THEN julian_days] have "serial jd sg - serial f sg = d - i"
    unfolding civil_to_jd_day [of y m d] civil_to_jd_day [of y m i] by linarith
  moreover have "serial f sg + (jd - f) \<le> serial jd sg" by (rule serial_mono [OF assms(1,4)])
  ultimately show ?thesis using civil_date_range [OF assms(2)] civil_date_range [OF assms(3)] by linarith
qed

lemma nth_kday_round_trip:
  assumes "c_valid_start_p sg" "c_jd_to_nth_kday jd sg = (y, m, n, k)"
  shows "c_nth_kday_to_jd y m n k sg = jd" "1 \<le> n \<and> n \<le> 5 \<and> 0 \<le> k \<and> k \<le> 6"
proof -
  obtain y' m' d' where date: "civil_date sg y' m' d' jd" using civil_date_ex by blast
  have m': "1 \<le> m'" "m' \<le> 12" using civil_date_range [OF date] by blast+
  obtain f i where f: "c_find_fdom y' m' sg = Some f" "civil_date sg y' m' i f"
    and least: "\<forall>d jd. civil_date sg y' m' d jd \<longrightarrow> f \<le> jd"
    using find_fdom [OF assms(1) m', of y'] by blast
  have le: "f \<le> jd" using least date by blast
  have eq: "y = y'" "m = m'" "n = (jd - f) div 7 + 1" "k = (jd + 1) mod 7"
    using assms(2) date f(1) unfolding c_jd_to_nth_kday_def civil_date_decode c_jd_to_wday_def num_def by auto
  have "0 \<le> (jd - f) div 7" using le by simp
  then have "0 < n" unfolding eq by simp
  then have "c_nth_kday_to_jd y m n k sg = f - 1 - (f - 1 - k + 1) mod 7 + 7 * n"
    unfolding c_nth_kday_to_jd_def eq(1,2) f(1) num_def by (simp add: Let_def)
  also have "\<dots> = jd" unfolding eq by (rule last_weekday)
  finally show "c_nth_kday_to_jd y m n k sg = jd" .
  have "jd < f + 31" by (rule month_span [OF assms(1) date f(2) le])
  then have "(jd - f) div 7 < 5" using le by (intro weeks_of_days(2)) simp_all
  then show "1 \<le> n \<and> n \<le> 5 \<and> 0 \<le> k \<and> k \<le> 6"
    using \<open>0 \<le> (jd - f) div 7\<close> mod7 [of "jd + 1"] unfolding eq by simp
qed

section \<open>The checks and the forms\<close>

lemma check_exact:
  assumes "\<And>jd. decode jd = x \<Longrightarrow> day = jd"
  shows "(if decode day \<noteq> x then None else Some day) = Some jd \<longleftrightarrow> decode jd = x"
proof (cases "decode day = x")
  case True
  then have "(if decode day \<noteq> x then None else Some day) = Some jd \<longleftrightarrow> day = jd" by simp
  then show ?thesis using assms [of jd] True by blast
next
  case False
  then have "\<not> decode jd = x" using assms [of jd] by blast
  with False show ?thesis by simp
qed

text \<open> For every start of the Gregorian calendar the program accepts, the date of a day converts back to that
  day, and a later day has a later date: no date is given to two days although the reform skips some.\<close>

theorem civil_dates_in_order:
  assumes "c_valid_start_p sg"
  shows "(case c_jd_to_civil jd sg of (y, m, d) \<Rightarrow> c_civil_to_jd y m d sg = jd) \<and>
    (c_jd_to_civil jd sg < c_jd_to_civil jd' sg \<longleftrightarrow> jd < jd')"
proof
  show "case c_jd_to_civil jd sg of (y, m, d) \<Rightarrow> c_civil_to_jd y m d sg = jd"
    using civil_round_trip [OF assms, of jd] by (cases "c_jd_to_civil jd sg") simp
qed (rule civil_order [OF assms])

theorem civil_dates_in_order_witness:
  "(case c_jd_to_civil 2299160 italy of (y, m, d) \<Rightarrow> c_civil_to_jd y m d italy = 2299160) \<and>
    (c_jd_to_civil 2299160 italy < c_jd_to_civil 2299161 italy \<longleftrightarrow> (2299160::int) < 2299161)"
  by (rule civil_dates_in_order) code_simp

text \<open> The check of a civil date accepts exactly the dates of the calendar, each with the day that has it: a
  month may be counted from the end of the year, and a day from the end of the month, where the last
  day of the month is its last existing day, also in a month the reform cuts.\<close>

theorem civil_check_exact:
  fixes y m d :: int
  assumes "c_valid_start_p sg"
  defines "month \<equiv> if m < 0 then m + 13 else m"
  shows "c_valid_civil_p y m d sg = Some jd \<longleftrightarrow>
    (if d < 0 then (\<exists>e k l. civil_date sg y month e jd \<and> civil_date sg y month k l \<and>
        (\<forall>i j. civil_date sg y month i j \<longrightarrow> j \<le> l) \<and> jd = l + d + 1)
     else civil_date sg y month d jd)"
proof (cases "1 \<le> month \<and> month \<le> 12")
  case True
  then have m: "c_valid_civil_p y m d sg = c_valid_civil_p y month d sg"
    unfolding c_valid_civil_p_def Let_def month_def by (cases "m < 0") simp_all
  show ?thesis
  proof (cases "d < 0")
    case True
    with valid_negative_day [OF assms(1) _ _ True, of month y] \<open>1 \<le> month \<and> month \<le> 12\<close> show ?thesis
      unfolding m by auto
  next
    case False
    then show ?thesis
      unfolding m using valid_civil_day_iff [OF assms(1), of month y d] True by (simp add: valid_civil_p_pos)
  qed
next
  case False
  then have "c_valid_civil_p y m d sg = None" unfolding month_def by (rule valid_month_out_of_range)
  moreover have "\<not> civil_date sg y month i j" for i j using civil_date_range [of sg y month i j] False by blast
  ultimately show ?thesis by simp
qed

theorem civil_check_exact_witness:
  "c_valid_civil_p 1582 (- 3) 15 italy = Some 2299161 \<longleftrightarrow> civil_date italy 1582 10 15 2299161"
proof -
  have "c_valid_start_p italy" by code_simp
  from civil_check_exact [OF this, of 1582 "- 3" 15 2299161] show ?thesis by simp
qed

text \<open> C40. The four other forms of a date are exact: an ordinal date, a commercial date, a week number with
  weekday and an n-th weekday, with numbers counted from the start, are accepted for a day exactly
  when they are that day's own date in the form.\<close>

theorem date_forms_exact:
  assumes "c_valid_start_p sg"
  shows "(0 \<le> d \<longrightarrow> (c_valid_ordinal_p y d sg = Some jd \<longleftrightarrow> c_jd_to_ordinal jd sg = (y, d))) \<and>
    (0 \<le> w \<and> 0 \<le> d \<longrightarrow> (c_valid_commercial_p y w d sg = Some jd \<longleftrightarrow> c_jd_to_commercial jd sg = (y, w, d))) \<and>
    (0 \<le> w \<and> 0 \<le> d \<longrightarrow> (c_valid_weeknum_p y w d f sg = Some jd \<longleftrightarrow> c_jd_to_weeknum jd f sg = (y, w, d))) \<and>
    (0 \<le> n \<and> 0 \<le> k \<longrightarrow> (c_valid_nth_kday_p y m n k sg = Some jd \<longleftrightarrow> c_jd_to_nth_kday jd sg = (y, m, n, k)))"
proof -
  have o: "c_ordinal_to_jd y d sg = jd" if "c_jd_to_ordinal jd sg = (y, d)" for jd
    using that unfolding jd_to_ordinal ordinal_to_jd by auto
  have "c_valid_ordinal_p y d sg = Some jd \<longleftrightarrow> c_jd_to_ordinal jd sg = (y, d)" if "0 \<le> d"
    using that unfolding c_valid_ordinal_p_def Let_def by (simp only: not_less [symmetric] if_False
        check_exact [of "\<lambda>jd. c_jd_to_ordinal jd sg" "(y, d)" "c_ordinal_to_jd y d sg", OF o])
  moreover have "c_valid_commercial_p y w d sg = Some jd \<longleftrightarrow> c_jd_to_commercial jd sg = (y, w, d)"
    if "0 \<le> w \<and> 0 \<le> d"
    using that unfolding c_valid_commercial_p_def Let_def
    by (simp only: not_less [symmetric] if_False
        check_exact [of "\<lambda>jd. c_jd_to_commercial jd sg" "(y, w, d)" "c_commercial_to_jd y w d sg", OF commercial_round_trip])
  moreover have "c_valid_weeknum_p y w d f sg = Some jd \<longleftrightarrow> c_jd_to_weeknum jd f sg = (y, w, d)"
    if "0 \<le> w \<and> 0 \<le> d"
    using that unfolding c_valid_weeknum_p_def Let_def
    by (simp only: not_less [symmetric] if_False
        check_exact [of "\<lambda>jd. c_jd_to_weeknum jd f sg" "(y, w, d)" "c_weeknum_to_jd y w d f sg", OF weeknum_round_trip])
  moreover have "c_valid_nth_kday_p y m n k sg = Some jd \<longleftrightarrow> c_jd_to_nth_kday jd sg = (y, m, n, k)"
    if "0 \<le> n \<and> 0 \<le> k"
    using that unfolding c_valid_nth_kday_p_def Let_def
    by (simp only: not_less [symmetric] if_False
        check_exact [of "\<lambda>jd. c_jd_to_nth_kday jd sg" "(y, m, n, k)" "c_nth_kday_to_jd y m n k sg", OF nth_kday_round_trip(1) [OF assms]])
  ultimately show ?thesis by blast
qed

theorem date_forms_exact_witness:
  "c_valid_commercial_p 2026 53 5 italy = Some 2461407 \<longleftrightarrow> c_jd_to_commercial 2461407 italy = (2026, 53, 5)"
proof -
  have "c_valid_start_p italy" by code_simp
  from date_forms_exact [OF this, of 5 2026 2461407 53] show ?thesis by simp
qed

text \<open> The numbers of every form are in range for every day and every start the program accepts, the year of
  the reform included: the day of the year is at most 366, weeks are 1 to 53 with days 1 to 7, week
  numbers 0 to 53 with weekdays 0 to 6, and a weekday occurs at most five times in a month.\<close>

theorem date_forms_bounded:
  assumes "c_valid_start_p sg"
  shows "(case c_jd_to_civil jd sg of (_, m, d) \<Rightarrow> 1 \<le> m \<and> m \<le> 12 \<and> 1 \<le> d \<and> d \<le> 31) \<and>
    (case c_jd_to_ordinal jd sg of (_, d) \<Rightarrow> 1 \<le> d \<and> d \<le> 366) \<and>
    (case c_jd_to_commercial jd sg of (_, w, d) \<Rightarrow> 1 \<le> w \<and> w \<le> 53 \<and> 1 \<le> d \<and> d \<le> 7) \<and>
    (case c_jd_to_weeknum jd f sg of (_, w, d) \<Rightarrow> 0 \<le> w \<and> w \<le> 53 \<and> 0 \<le> d \<and> d \<le> 6) \<and>
    (case c_jd_to_nth_kday jd sg of (_, _, n, k) \<Rightarrow> 1 \<le> n \<and> n \<le> 5 \<and> 0 \<le> k \<and> k \<le> 6)"
proof -
  have c: "case c_jd_to_civil jd sg of (_, m, d) \<Rightarrow> 1 \<le> m \<and> m \<le> 12 \<and> 1 \<le> d \<and> d \<le> 31"
    by (cases "c_jd_to_civil jd sg") (use civil_date_range [unfolded civil_date_decode] in fastforce)
  have o: "case c_jd_to_ordinal jd sg of (_, d) \<Rightarrow> 1 \<le> d \<and> d \<le> 366"
    unfolding jd_to_ordinal using in_year [OF assms, of jd] by simp
  show ?thesis
    using c o commercial_range [OF assms, of jd] weeknum_range [OF assms, of jd f] nth_kday_round_trip(2) [OF assms, of jd]
    by (simp split: prod.split)
qed

theorem date_forms_bounded_witness:
  "(case c_jd_to_civil 2299161 italy of (_, m, d) \<Rightarrow> 1 \<le> m \<and> m \<le> 12 \<and> 1 \<le> d \<and> d \<le> 31) \<and>
    (case c_jd_to_ordinal 2299161 italy of (_, d) \<Rightarrow> 1 \<le> d \<and> d \<le> 366) \<and>
    (case c_jd_to_commercial 2299161 italy of (_, w, d) \<Rightarrow> 1 \<le> w \<and> w \<le> 53 \<and> 1 \<le> d \<and> d \<le> 7) \<and>
    (case c_jd_to_weeknum 2299161 0 italy of (_, w, d) \<Rightarrow> 0 \<le> w \<and> w \<le> 53 \<and> 0 \<le> d \<and> d \<le> 6) \<and>
    (case c_jd_to_nth_kday 2299161 italy of (_, _, n, k) \<Rightarrow> 1 \<le> n \<and> n \<le> 5 \<and> 0 \<le> k \<and> k \<le> 6)"
  by (rule date_forms_bounded) code_simp

end
