(* ===== verification/Date_Double.thy ===== *)
theory Date_Double
  imports Date_Forms Doubles
begin

text \<open>
  The civil conversions as the program computes them, in doubles, and that they give the days and
  dates of the integer formulas. Sums and differences of integers below \<open>2 ^ 53\<close> need no rounding.
\<close>

section \<open>Floors of quotients\<close>

lemma floor_near:
  assumes "0 < k" "\<bar>x - of_int n / of_int k\<bar> < 1 / of_int k" "n mod k = 0 \<longrightarrow> x = of_int n / of_int k"
  shows "\<lfloor>x :: real\<rfloor> = n div k"
proof -
  have k: "0 < (of_int k :: real)" using assms(1) by simp
  have split: "of_int n / of_int k = of_int (n div k) + of_int (n mod k) / (of_int k :: real)"
    using k by (simp add: field_simps flip: of_int_mult of_int_add)
  show ?thesis
  proof (cases "n mod k = 0")
    case True
    then show ?thesis using assms(3) split by simp
  next
    case False
    then have "1 \<le> n mod k" "n mod k \<le> k - 1" using assms(1) pos_mod_sign [of k n] pos_mod_bound [of k n] by linarith+
    then have "(1 :: real) \<le> of_int (n mod k)" "of_int (n mod k) \<le> (of_int k :: real) - 1" by linarith+
    then have "1 / of_int k \<le> of_int (n mod k) / (of_int k :: real)"
      "of_int (n mod k) / (of_int k :: real) \<le> 1 - 1 / of_int k"
      using k by (simp_all add: field_simps)
    with assms(2) split show ?thesis by (intro floor_unique) linarith+
  qed
qed

lemma floor_quotient:
  assumes "0 < k" "\<bar>n\<bar> < 2 ^ 51"
  shows "\<lfloor>double (of_int n / of_int k)\<rfloor> = n div k"
proof (rule floor_near [OF assms(1)])
  have k: "0 < (of_int k :: real)" using assms(1) by simp
  have n: "\<bar>of_int n :: real\<bar> < 2 ^ 51" using assms(2) by (metis of_int_abs of_int_less_iff of_int_numeral of_int_power)
  have "\<bar>double (of_int n / of_int k) - of_int n / of_int k\<bar> \<le> \<bar>of_int n / of_int k\<bar> / 2 ^ 53" by (rule double_error)
  also have "\<dots> = (\<bar>of_int n\<bar> / 2 ^ 53) / of_int k" using k by (simp add: field_simps)
  also have "\<dots> < 1 / of_int k" using n k by (intro divide_strict_right_mono) simp_all
  finally show "\<bar>double (of_int n / of_int k) - of_int n / of_int k\<bar> < 1 / of_int k" .
  show "n mod k = 0 \<longrightarrow> double (of_int n / of_int k) = of_int n / of_int k"
  proof
    assume "n mod k = 0"
    then obtain q where q: "n = k * q" by (metis mod_0_imp_dvd dvdE)
    have "\<bar>q\<bar> \<le> \<bar>n\<bar>" using assms(1) unfolding q abs_mult by (simp add: mult_le_cancel_right1)
    then have "\<bar>4 * q\<bar> < 2 ^ 53" using assms(2) by simp
    from double_quarter [OF this] have "double (of_int q) = of_int q" by simp
    then show "double (of_int n / of_int k) = of_int n / of_int k" using k unfolding q by simp
  qed
qed

section \<open>The conversions in doubles\<close>

definition fl_civil_to_jd :: "int \<Rightarrow> int \<Rightarrow> int \<Rightarrow> start \<Rightarrow> int" where
  "fl_civil_to_jd y m d sg =
     (let (y, m) = (if m \<le> 2 then (y - 1, m + 12) else (y, m));
          a = \<lfloor>double (of_int y / 100)\<rfloor>;
          b = 2 - a + \<lfloor>double (of_int a / 4)\<rfloor>;
          jd = \<lfloor>double (double 365.25 * of_int (y + 4716))\<rfloor> + \<lfloor>double (double 30.6001 * of_int (m + 1))\<rfloor> + d + b - 1524
      in if before jd sg then jd - b else jd)"

definition fl_jd_to_civil :: "int \<Rightarrow> start \<Rightarrow> int \<times> int \<times> int" where
  "fl_jd_to_civil jd sg =
     (let a = (if before jd sg then jd
               else let x = \<lfloor>double (double (of_int jd - double 1867216.25) / double 36524.25)\<rfloor>
                    in jd + 1 + x - \<lfloor>double (of_int x / 4)\<rfloor>);
          b = a + 1524;
          c = \<lfloor>double (double (of_int b - double 122.1) / double 365.25)\<rfloor>;
          d = \<lfloor>double (double 365.25 * of_int c)\<rfloor>;
          e = \<lfloor>double (of_int (b - d) / double 30.6001)\<rfloor>;
          dom = b - d - \<lfloor>double (double 30.6001 * of_int e)\<rfloor>
      in if e \<le> 13 then (c - 4716, e - 1, dom) else (c - 4715, e - 13, dom))"

lemma double_constants:
  "double 365.25 = 1461 / 4" "double 36524.25 = 146097 / 4" "double 1867216.25 = 7468865 / 4"
  using double_quarter [of 1461] double_quarter [of 146097] double_quarter [of 7468865] by simp_all

lemma double_near:
  assumes "\<bar>x\<bar> \<le> B"
  shows "\<bar>double x - x\<bar> \<le> B / 2 ^ 53"
  using double_error [of x] divide_right_mono [OF assms, of "2 ^ 53"] by simp

lemma near_trans: "\<bar>a - x\<bar> \<le> A \<Longrightarrow> \<bar>x - y\<bar> \<le> B \<Longrightarrow> A + B < C \<Longrightarrow> \<bar>a - y\<bar> < (C::real)"
  by linarith

text \<open>The inexact constants.\<close>

definition month_const :: real where "month_const = double 30.6001"
definition day_const :: real where "day_const = double 122.1"

lemma constants_near:
  "\<bar>month_const - 306001 / 10000\<bar> \<le> 1 / 100000000000000" "\<bar>day_const - 1221 / 10\<bar> \<le> 1 / 10000000000000"
  using double_error [of "30.6001"] double_error [of "122.1"] unfolding month_const_def day_const_def by simp_all

lemma months_floor:
  assumes "4 \<le> e" "e \<le> (16::int)"
  shows "\<lfloor>double (month_const * of_int e)\<rfloor> = 306001 * e div 10000"
proof (rule floor_near)
  have e: "(4 :: real) \<le> of_int e" "(of_int e :: real) \<le> 16" using assms by linarith+
  have "\<bar>month_const - 306001 / 10000\<bar> * \<bar>of_int e\<bar> \<le> 1 / 100000000000000 * 16"
    using constants_near(1) e by (intro mult_mono) simp_all
  then have near: "\<bar>month_const * of_int e - 306001 / 10000 * of_int e\<bar> \<le> 16 / 100000000000000"
    unfolding abs_mult [symmetric] left_diff_distrib by simp
  then have "\<bar>month_const * of_int e\<bar> \<le> 500" using e by linarith
  then have "\<bar>double (month_const * of_int e) - 306001 / 10000 * of_int e\<bar> < 1 / 10000"
    by (rule near_trans [OF double_near near]) simp
  then show "\<bar>double (month_const * of_int e) - of_int (306001 * e) / of_int 10000\<bar> < 1 / of_int 10000" by simp
  have all: "\<forall>e\<in>set [4..16]. 306001 * e mod 10000 \<noteq> (0::int)" by code_simp
  have "306001 * e mod 10000 \<noteq> 0" by (rule bspec [OF all int_range_split [OF assms]])
  then show "306001 * e mod 10000 = 0 \<longrightarrow> double (month_const * of_int e) = of_int (306001 * e) / of_int 10000"
    by blast
qed simp

lemma month_floor:
  assumes "1 \<le> n" "n \<le> (488::int)"
  shows "\<lfloor>double (of_int n / month_const)\<rfloor> = 10000 * n div 306001"
proof (rule floor_near)
  obtain c where c: "c = month_const" by blast
  obtain x where x: "x = (of_int n :: real)" by blast
  have x1: "1 \<le> x" "x \<le> 488" using assms unfolding x by linarith+
  have gap: "\<bar>306001 / 10000 - c\<bar> \<le> 1 / 100000000000000"
    using constants_near(1) unfolding c [symmetric] by (subst abs_minus_commute)
  then have near: "306001 / 10000 - 1 / 100000000000000 \<le> c" "c \<le> 306001 / 10000 + 1 / 100000000000000"
    by linarith+
  then have c0: "30 \<le> c" by linarith
  have "x / c - 10000 * x / 306001 = x * (306001 / 10000 - c) / (c * (306001 / 10000))" using c0 by (simp add: field_simps)
  also have "\<bar>\<dots>\<bar> \<le> 488 * (1 / 100000000000000) / (30 * 30)"
    unfolding abs_divide abs_mult using x1 gap c0 by (intro frac_le mult_mono) auto
  finally have q: "\<bar>x / c - 10000 * x / 306001\<bar> \<le> 1 / 100000000000000" by simp
  then have "\<bar>x / c\<bar> \<le> 20" using x1 by linarith
  then have "\<bar>double (x / c) - 10000 * x / 306001\<bar> < 1 / 306001"
    by (rule near_trans [OF double_near q]) simp
  then show "\<bar>double (of_int n / month_const) - of_int (10000 * n) / of_int 306001\<bar> < 1 / of_int 306001"
    unfolding c [symmetric] x by simp
  have "10000 * n mod 306001 \<noteq> 0"
  proof
    assume "10000 * n mod 306001 = 0"
    then have "306001 dvd 10000 * n" by (rule mod_0_imp_dvd)
    moreover have "coprime (306001::int) 10000" by code_simp
    ultimately have "306001 dvd n" by (simp add: coprime_dvd_mult_right_iff)
    with assms show False by (auto dest: zdvd_imp_le)
  qed
  then show "10000 * n mod 306001 = 0 \<longrightarrow> double (of_int n / month_const) = of_int (10000 * n) / of_int 306001" by blast
qed simp

lemma year_floor:
  assumes "\<bar>b\<bar> \<le> 2 ^ 41"
  shows "\<lfloor>double (double (of_int b - day_const) / (1461 / 4))\<rfloor> = (20 * b - 2442) div 7305"
proof (rule floor_near)
  obtain x where x: "x = (of_int b :: real)" by blast
  have "\<bar>of_int b :: real\<bar> \<le> 2 ^ 41" using assms by (metis of_int_abs of_int_le_iff of_int_numeral of_int_power)
  then have b: "\<bar>x\<bar> \<le> 2199023255552" unfolding x by simp
  obtain t where t: "t = double (x - day_const)" by blast
  have "\<bar>x - day_const\<bar> \<le> 2199023256000" using b constants_near(2) by linarith
  from double_near [OF this] have "\<bar>t - (x - day_const)\<bar> \<le> 1 / 4000" unfolding t by simp
  then have near: "\<bar>t - (x - 1221 / 10)\<bar> \<le> 1 / 3000" using constants_near(2) by linarith
  then have "\<bar>t\<bar> \<le> 3000000000000" using b by linarith
  then have "\<bar>t / (1461 / 4)\<bar> \<le> 10000000000" by simp
  from double_near [OF this] have quotient: "\<bar>double (t / (1461 / 4)) - t / (1461 / 4)\<bar> \<le> 1 / 100000" by simp
  have "\<bar>t / (1461 / 4) - (x - 1221 / 10) / (1461 / 4)\<bar> = \<bar>(t - (x - 1221 / 10)) / (1461 / 4)\<bar>"
    by (rule arg_cong [OF diff_divide_distrib [symmetric]])
  also have "\<dots> = \<bar>t - (x - 1221 / 10)\<bar> / (1461 / 4)" by (subst abs_divide) simp
  also have "\<dots> \<le> 1 / 3000 / (1461 / 4)" by (rule divide_right_mono [OF near]) simp
  also have "\<dots> \<le> 1 / 1000000" by simp
  finally have "\<bar>t / (1461 / 4) - (x - 1221 / 10) / (1461 / 4)\<bar> \<le> 1 / 1000000" .
  with quotient have "\<bar>double (t / (1461 / 4)) - (x - 1221 / 10) / (1461 / 4)\<bar> < 1 / 7305"
    by (rule near_trans) simp
  moreover have "of_int (20 * b - 2442) / of_int 7305 = (x - 1221 / 10) / (1461 / 4)" unfolding x by simp
  ultimately show "\<bar>double (double (of_int b - day_const) / (1461 / 4)) - of_int (20 * b - 2442) / of_int 7305\<bar> < 1 / of_int 7305"
    unfolding t [symmetric] x [symmetric] of_int_numeral by (simp only:)
  have "(20 * b - 2442) mod 5 = 3" using mod_mult_self2 [of "- 2442" 5 "4 * b"] by simp
  then have "\<not> 5 dvd 20 * b - 2442" by presburger
  moreover have "(5::int) dvd 7305" by simp
  ultimately have "(20 * b - 2442) mod 7305 \<noteq> 0" by (meson dvd_trans mod_0_imp_dvd)
  then show "(20 * b - 2442) mod 7305 = 0 \<longrightarrow>
      double (double (of_int b - day_const) / (1461 / 4)) = of_int (20 * b - 2442) / of_int 7305" by blast
qed simp

lemma century_floor:
  assumes "\<bar>jd\<bar> \<le> 2 ^ 40"
  shows "\<lfloor>double (double (of_int jd - 7468865 / 4) / (146097 / 4))\<rfloor> = (4 * jd - 7468865) div 146097"
proof -
  have n: "\<bar>4 * jd - 7468865\<bar> < 2 ^ 51" using assms by simp
  have "of_int jd - 7468865 / 4 = (of_int (4 * jd - 7468865) / 4 :: real)" by simp
  moreover have "double (of_int (4 * jd - 7468865) / 4) = of_int (4 * jd - 7468865) / 4"
    by (rule double_quarter) (use n in simp)
  ultimately have "double (of_int jd - 7468865 / 4) = of_int (4 * jd - 7468865) / 4" by (simp only:)
  then have eq: "double (of_int jd - 7468865 / 4) / (146097 / 4) = of_int (4 * jd - 7468865) / of_int 146097" by simp
  show ?thesis unfolding eq by (rule floor_quotient [OF _ n]) simp
qed

lemma quarter_days:
  assumes "\<bar>c\<bar> \<le> 2 ^ 39"
  shows "\<lfloor>double (1461 / 4 * of_int c)\<rfloor> = 1461 * c div 4"
proof -
  have "\<bar>1461 * c\<bar> < 2 ^ 51" using assms by simp
  from floor_quotient [OF _ this, of 4] show ?thesis by simp
qed

lemma fl_civil_to_jd:
  assumes "\<bar>y\<bar> \<le> 2 ^ 38" "1 \<le> m" "m \<le> 12"
  shows "fl_civil_to_jd y m d sg = c_civil_to_jd y m d sg"
proof -
  obtain y' m' where sh: "(if m \<le> 2 then (y - 1, m + 12) else (y, m)) = (y', m')" by (cases "m \<le> 2") auto
  then have m': "4 \<le> m' + 1" "m' + 1 \<le> 16" and y': "\<bar>y'\<bar> \<le> 2 ^ 38 + 1" using assms by (auto split: if_splits)
  have "\<bar>y'\<bar> < 2 ^ 51" "\<bar>y' + 4716\<bar> \<le> 2 ^ 39" using y' by simp_all
  moreover have "\<bar>y' div 100\<bar> < 2 ^ 51" using y' div_bounds [of 100 y'] by simp
  ultimately have "\<lfloor>double (of_int y' / 100)\<rfloor> = y' div 100"
    "\<lfloor>double (of_int (y' div 100) / 4)\<rfloor> = y' div 100 div 4"
    "\<lfloor>double (1461 / 4 * of_int (y' + 4716))\<rfloor> = 1461 * (y' + 4716) div 4"
    using floor_quotient [of 100 y'] floor_quotient [of 4 "y' div 100"] quarter_days [of "y' + 4716"] by simp_all
  with months_floor [OF m'] show ?thesis
    unfolding fl_civil_to_jd_def c_civil_to_jd_def double_constants month_const_def [symmetric] Let_def sh split_conv
    by (simp only:)
qed

lemma abs_day_sum: "\<bar>jd\<bar> \<le> A \<Longrightarrow> \<bar>x\<bar> \<le> B \<Longrightarrow> \<bar>q\<bar> \<le> B \<Longrightarrow> \<bar>jd + 1 + x - q\<bar> \<le> A + 1 + 2 * (B::int)"
  by linarith

lemma fl_jd_to_civil:
  assumes "\<bar>jd\<bar> \<le> 2 ^ 40"
  shows "fl_jd_to_civil jd sg = c_jd_to_civil jd sg"
proof -
  let ?x = "(4 * jd - 7468865) div 146097"
  define a where "a = (if before jd sg then jd else jd + 1 + ?x - ?x div 4)"
  have x: "\<bar>?x\<bar> \<le> 2 ^ 30"
  proof -
    obtain x where x: "x = ?x" by blast
    have "146097 * x \<le> 4 * jd - 7468865" "4 * jd - 7468865 < 146097 * (x + 1)" unfolding x by (rule div_bounds; simp)+
    then have "\<bar>x\<bar> \<le> 2 ^ 30" using assms unfolding distrib_left by simp
    then show ?thesis unfolding x .
  qed
  have xq: "\<lfloor>double (of_int ?x / 4)\<rfloor> = ?x div 4" using floor_quotient [of 4 ?x] x by simp
  have "\<bar>?x div 4\<bar> \<le> 2 ^ 30"
  proof -
    obtain q where q: "q = ?x div 4" by blast
    have "4 * q \<le> ?x" "?x < 4 * (q + 1)" unfolding q by (rule div_bounds; simp)+
    then have "\<bar>q\<bar> \<le> 2 ^ 30" using x by simp
    then show ?thesis unfolding q .
  qed
  then have "\<bar>jd + 1 + ?x - ?x div 4\<bar> \<le> 2 ^ 40 + 1 + 2 * 2 ^ 30" by (rule abs_day_sum [OF assms x])
  then have a_le: "\<bar>a\<bar> \<le> 2 ^ 40 + 2 ^ 32" using assms unfolding a_def by (cases "before jd sg") simp_all
  have a_eq: "(if before jd sg then jd
       else let x = \<lfloor>double (double (of_int jd - double 1867216.25) / double 36524.25)\<rfloor>
            in jd + 1 + x - \<lfloor>double (of_int x / 4)\<rfloor>) = a"
    unfolding a_def double_constants Let_def century_floor [OF assms] xq by (rule refl)
  have a_eq': "(if before jd sg then jd else let x = ?x in jd + 1 + x - x div 4) = a"
    unfolding a_def Let_def by (rule refl)
  let ?b = "a + 1524"
  let ?c = "year_at ?b"
  let ?n = "?b - 1461 * ?c div 4"
  note n = day_of_year [of ?b]
  note e = year_down(1,2) [OF n(1,2)]
  have "\<bar>?b\<bar> \<le> 2 ^ 41" using a_le by simp
  note year = year_floor [OF this]
  have "\<bar>?c\<bar> \<le> 2 ^ 39"
  proof -
    obtain c where c: "c = ?c" by blast
    have "7305 * c \<le> 20 * ?b - 2442" "20 * ?b - 2442 < 7305 * (c + 1)" unfolding c by (rule div_bounds; simp)+
    then have "\<bar>c\<bar> \<le> 2 ^ 39" using a_le unfolding distrib_left by simp
    then show ?thesis unfolding c .
  qed
  note days = quarter_days [OF this]
  have "1 \<le> ?n" using n(1) by linarith
  note month = month_floor [OF this n(2)]
  have "month_at ?n \<le> 16" using e(2) by linarith
  note start = months_floor [OF e(1) this]
  show ?thesis
    unfolding fl_jd_to_civil_def c_jd_to_civil_def a_eq a_eq'
    unfolding double_constants month_const_def [symmetric] day_const_def [symmetric] Let_def year days month start
    by (rule refl)
qed

text \<open> C37. The conversions of \<open>cCivilToJd\<close> and \<open>cJdToCivil\<close> in double arithmetic, with the rounded constants
  30.6001 and 122.1, give the days and dates of the exact integer formulas for all years up to
  \<open>2 ^ 38\<close> and days up to \<open>2 ^ 40\<close> in size: no rounding error reaches a floor.\<close>

theorem doubles_are_exact:
  assumes "\<bar>y\<bar> \<le> 2 ^ 38" "1 \<le> m" "m \<le> 12" "\<bar>jd\<bar> \<le> 2 ^ 40"
  shows "fl_civil_to_jd y m d sg = c_civil_to_jd y m d sg \<and> fl_jd_to_civil jd sg = c_jd_to_civil jd sg"
  using fl_civil_to_jd [OF assms(1-3)] fl_jd_to_civil [OF assms(4)] by blast

theorem doubles_are_exact_witness:
  "fl_civil_to_jd 1582 10 15 italy = c_civil_to_jd 1582 10 15 italy \<and>
    fl_jd_to_civil 213447716 italy = c_jd_to_civil 213447716 italy"
  by (rule doubles_are_exact) simp_all

end
