(* ===== verification/Date_Periods.thy ===== *)
theory Date_Periods
  imports Date_Forms
begin

text \<open>
  Periods of the calendar in \<^verbatim>\<open>packages/date/src/date.ts\<close>. A day number is kept as a period number
  (the code's \<open>nth\<close>, here \<open>np\<close>) and a day in the period, a year likewise, so that the calendar formulas only see small
  numbers. \<open>decode_jd\<close>, \<open>decode_year\<close> and their inverses are the two representations, \<open>guess_style\<close>
  picks the calendar a year is in, and the checks \<open>valid_civil_p\<close> and so on are the formulas of
  Date_Calendar behind them.

  \<open>number | bigint\<close> is an integer: \<open>bigNorm\<close> only chooses the representation.
\<close>

section \<open>The representation\<close>

definition cm_period :: int where "cm_period = 213447717"
definition cm_period_jcy :: int where "cm_period_jcy = 584388"
definition cm_period_gcy :: int where "cm_period_gcy = 584400"

definition reform_begin_year :: int where "reform_begin_year = 1582"
definition reform_end_year :: int where "reform_end_year = 1930"

definition max_safe_integer :: int where "max_safe_integer = 9007199254740991"

definition fixnum_p :: "int \<Rightarrow> bool" where
  "fixnum_p y \<longleftrightarrow> - max_safe_integer \<le> y \<and> y \<le> max_safe_integer"

definition canonicalize_jd :: "int \<Rightarrow> int \<Rightarrow> int \<times> int" where
  "canonicalize_jd np jd =
     (let (np, jd) = (if jd < 0 then (np - 1, jd + cm_period) else (np, jd))
      in if jd \<ge> cm_period then (np + 1, jd - cm_period) else (np, jd))"

definition m_julian_p :: "int \<Rightarrow> start \<Rightarrow> bool" where
  "m_julian_p jd sg = (case sg of Julian \<Rightarrow> True | Gregorian \<Rightarrow> False | Reform s \<Rightarrow> jd < s)"

definition virtual_sg :: "int \<Rightarrow> start \<Rightarrow> start" where
  "virtual_sg np sg = (case sg of
     Reform s \<Rightarrow> if np = 0 then sg else if np < 0 then Julian else Gregorian
   | _ \<Rightarrow> sg)"

text \<open>The flag says that the style is negative, Gregorian.\<close>

definition decode_year :: "int \<Rightarrow> bool \<Rightarrow> int \<times> int" where
  "decode_year y gregorian =
     (let period = (if gregorian then cm_period_gcy else cm_period_jcy);
          t = y + 4712;
          np = t div period;
          t = (if np \<noteq> 0 then t mod period else t)
      in (np, t - 4712))"

definition encode_year :: "int \<Rightarrow> int \<Rightarrow> bool \<Rightarrow> int" where
  "encode_year np y gregorian =
     (let period = (if gregorian then cm_period_gcy else cm_period_jcy)
      in if np = 0 then y else period * np + y)"

definition decode_jd :: "int \<Rightarrow> int \<times> int" where
  "decode_jd jd = (let np = jd div cm_period in if np = 0 then (np, jd) else (np, jd mod cm_period))"

definition encode_jd :: "int \<Rightarrow> int \<Rightarrow> int" where
  "encode_jd np jd = (if np = 0 then jd else cm_period * np + jd)"

text \<open>\<open>None\<close> is the style 0.\<close>

definition guess_style :: "int \<Rightarrow> start \<Rightarrow> start option" where
  "guess_style y sg = (case sg of
     Reform s \<Rightarrow>
       if \<not> fixnum_p y then Some (if y > 0 then Gregorian else Julian)
       else if y < reform_begin_year then Some Julian
       else if y > reform_end_year then Some Gregorian
       else None
   | _ \<Rightarrow> Some sg)"

section \<open>The checks\<close>

definition valid_ordinal_p :: "int \<Rightarrow> int \<Rightarrow> start \<Rightarrow> (int \<times> int) option" where
  "valid_ordinal_p y d sg = (case guess_style y sg of
     None \<Rightarrow> map_option decode_jd (c_valid_ordinal_p y d sg)
   | Some style \<Rightarrow> (case decode_year y (style = Gregorian) of (np, ry) \<Rightarrow>
       map_option (\<lambda>rjd. (np, rjd)) (c_valid_ordinal_p ry d style)))"

definition valid_gregorian_p :: "int \<Rightarrow> int \<Rightarrow> int \<Rightarrow> (int \<times> int \<times> int \<times> int) option" where
  "valid_gregorian_p y m d = (case decode_year y True of (np, ry) \<Rightarrow>
     map_option (\<lambda>(rm, rd). (np, ry, rm, rd)) (c_valid_gregorian_p ry m d))"

definition valid_civil_p :: "int \<Rightarrow> int \<Rightarrow> int \<Rightarrow> start \<Rightarrow> (int \<times> int) option" where
  "valid_civil_p y m d sg = (case guess_style y sg of
     None \<Rightarrow> map_option decode_jd (c_valid_civil_p y m d sg)
   | Some style \<Rightarrow> (case decode_year y (style = Gregorian) of (np, ry) \<Rightarrow>
       map_option (\<lambda>(rm, rd). (np, c_civil_to_jd ry rm rd style))
         (if style = Gregorian then c_valid_gregorian_p ry m d else c_valid_julian_p ry m d)))"

definition valid_commercial_p :: "int \<Rightarrow> int \<Rightarrow> int \<Rightarrow> start \<Rightarrow> (int \<times> int) option" where
  "valid_commercial_p y w d sg = (case guess_style y sg of
     None \<Rightarrow> map_option decode_jd (c_valid_commercial_p y w d sg)
   | Some style \<Rightarrow> (case decode_year y (style = Gregorian) of (np, ry) \<Rightarrow>
       map_option (\<lambda>rjd. (np, rjd)) (c_valid_commercial_p ry w d style)))"

definition valid_weeknum_p :: "int \<Rightarrow> int \<Rightarrow> int \<Rightarrow> int \<Rightarrow> start \<Rightarrow> (int \<times> int) option" where
  "valid_weeknum_p y w d f sg = (case guess_style y sg of
     None \<Rightarrow> map_option decode_jd (c_valid_weeknum_p y w d f sg)
   | Some style \<Rightarrow> (case decode_year y (style = Gregorian) of (np, ry) \<Rightarrow>
       map_option (\<lambda>rjd. (np, rjd)) (c_valid_weeknum_p ry w d f style)))"

definition valid_nth_kday_p :: "int \<Rightarrow> int \<Rightarrow> int \<Rightarrow> int \<Rightarrow> start \<Rightarrow> (int \<times> int) option" where
  "valid_nth_kday_p y m n k sg = (case guess_style y sg of
     None \<Rightarrow> map_option decode_jd (c_valid_nth_kday_p y m n k sg)
   | Some style \<Rightarrow> (case decode_year y (style = Gregorian) of (np, ry) \<Rightarrow>
       map_option (\<lambda>rjd. (np, rjd)) (c_valid_nth_kday_p ry m n k style)))"

definition encoded :: "(int \<times> int) option \<Rightarrow> int option" where
  "encoded r = (case r of None \<Rightarrow> None | Some (np, rjd) \<Rightarrow> Some (encode_jd np rjd))"

definition rt_valid_ordinal_p :: "int \<Rightarrow> int \<Rightarrow> start \<Rightarrow> int option" where
  "rt_valid_ordinal_p y d sg = encoded (valid_ordinal_p y d sg)"

definition rt_valid_civil_p :: "int \<Rightarrow> int \<Rightarrow> int \<Rightarrow> start \<Rightarrow> int option" where
  "rt_valid_civil_p y m d sg = encoded (valid_civil_p y m d sg)"

definition rt_valid_commercial_p :: "int \<Rightarrow> int \<Rightarrow> int \<Rightarrow> start \<Rightarrow> int option" where
  "rt_valid_commercial_p y w d sg = encoded (valid_commercial_p y w d sg)"

definition rt_valid_weeknum_p :: "int \<Rightarrow> int \<Rightarrow> int \<Rightarrow> int \<Rightarrow> start \<Rightarrow> int option" where
  "rt_valid_weeknum_p y w d f sg = encoded (valid_weeknum_p y w d f sg)"

section \<open>Representing days and years\<close>

lemma encode_jd: "encode_jd np jd = cm_period * np + jd"
  by (simp add: encode_jd_def)

lemma decode_jd: "decode_jd jd = (jd div cm_period, jd mod cm_period)"
  unfolding decode_jd_def Let_def using mult_div_mod_eq [of cm_period jd] by (cases "jd div cm_period = 0") simp_all

lemma decode_encode_jd: "encode_jd (fst (decode_jd jd)) (snd (decode_jd jd)) = jd"
  unfolding encode_jd decode_jd by simp

lemma cm_period_pos: "0 < cm_period"
  by (simp add: cm_period_def)

lemma canonicalize_jd:
  assumes "- cm_period \<le> jd" "jd < 2 * cm_period"
  shows "canonicalize_jd np jd = decode_jd (cm_period * np + jd)"
proof -
  have "(cm_period * np + jd) div cm_period = np + jd div cm_period" "(cm_period * np + jd) mod cm_period = jd mod cm_period"
    using cm_period_pos by simp_all
  moreover consider "jd < 0" | "0 \<le> jd" "jd < cm_period" | "cm_period \<le> jd" by linarith
  then have "canonicalize_jd np jd = (np + jd div cm_period, jd mod cm_period)"
  proof cases
    case 1
    have "jd div cm_period = - 1" by (rule div_between [OF cm_period_pos]) (use 1 assms in simp_all)
    with 1 assms mult_div_mod_eq [of cm_period jd] show ?thesis unfolding canonicalize_jd_def by simp
  next
    case 2
    then show ?thesis unfolding canonicalize_jd_def by simp
  next
    case 3
    have "jd div cm_period = 1" by (rule div_between [OF cm_period_pos]) (use 3 assms in simp_all)
    with 3 assms mult_div_mod_eq [of cm_period jd] cm_period_pos show ?thesis unfolding canonicalize_jd_def by simp
  qed
  ultimately show ?thesis unfolding decode_jd by simp
qed

definition year_period :: "bool \<Rightarrow> int" where
  "year_period gregorian = (if gregorian then cm_period_gcy else cm_period_jcy)"

lemma decode_year:
  "decode_year y g = ((y + 4712) div year_period g, (y + 4712) mod year_period g - 4712)"
  unfolding decode_year_def Let_def year_period_def [symmetric]
  using mult_div_mod_eq [of "year_period g" "y + 4712"] by (cases "(y + 4712) div year_period g = 0") simp_all

lemma encode_year: "encode_year np y g = year_period g * np + y"
  by (simp add: encode_year_def year_period_def)

lemma decode_encode_year: "decode_year y g = (np, ry) \<Longrightarrow> y = ry + year_period g * np"
  unfolding decode_year using mult_div_mod_eq [of "year_period g" "y + 4712"] by auto

section \<open>Dates a number of periods apart\<close>

lemma map_first_some: "first_some (\<lambda>i. map_option g (f i)) xs = map_option g (first_some f xs)"
  by (induction xs) (auto split: option.splits)

lemma find_as_fdom: "c_find_fdoy y sg = c_find_fdom y 1 sg"
  unfolding c_find_fdoy_def c_find_fdom_def by (rule refl)

text \<open>A calendar that repeats: \<open>years\<close> years are \<open>days\<close> days, a whole number of weeks.\<close>

locale repeating =
  fixes sg :: start and years days :: int
  assumes start_valid: "c_valid_start_p sg"
    and encode_shift: "c_civil_to_jd (y + years) m d sg = c_civil_to_jd y m d sg + days"
    and decode_shift: "c_jd_to_civil (jd + days) sg = (case c_jd_to_civil jd sg of (y, m, d) \<Rightarrow> (y + years, m, d))"
    and whole_weeks: "days mod 7 = 0"
begin

lemma day_shift: "valid_civil_day (y + years) m d sg = map_option (\<lambda>j. j + days) (valid_civil_day y m d sg)"
  unfolding valid_civil_day_def Let_def encode_shift decode_shift
  by (cases "c_jd_to_civil (c_civil_to_jd y (if m < 0 then m + 13 else m) d sg) sg") auto

lemma ldom_shift: "c_find_ldom (y + years) m sg = map_option (\<lambda>j. j + days) (c_find_ldom y m sg)"
  unfolding c_find_ldom_def day_shift by (rule map_first_some)

lemma decode_before: "c_jd_to_civil (l + days + d + 1) sg = (case c_jd_to_civil (l + d + 1) sg of (y, m, d) \<Rightarrow> (y + years, m, d))"
  using decode_shift [of "l + d + 1"] by (simp add: algebra_simps)

lemma civil_shift: "c_valid_civil_p (y + years) m d sg = map_option (\<lambda>j. j + days) (c_valid_civil_p y m d sg)"
  unfolding c_valid_civil_p_def Let_def ldom_shift day_shift
  by (auto simp: decode_before split: option.splits prod.splits)

lemma fdom_shift: "c_find_fdom (y + years) m sg = map_option (\<lambda>j. j + days) (c_find_fdom y m sg)"
  unfolding c_find_fdom_def civil_shift by (rule map_first_some)

lemma ldoy_shift: "c_find_ldoy (y + years) sg = map_option (\<lambda>j. j + days) (c_find_ldoy y sg)"
  unfolding c_find_ldoy_def civil_shift by (rule map_first_some)

lemma new_year_shift: "new_year (y + years) sg = new_year y sg + days"
  using find_fdoy [OF start_valid, of y] fdom_shift [of y 1] unfolding new_year_def num_def find_as_fdom by auto

lemma year_shift: "year_of (jd + days) sg = year_of jd sg + years"
  unfolding decode_shift by (simp split: prod.split)

lemma ordinal_encode: "c_ordinal_to_jd (y + years) d sg = c_ordinal_to_jd y d sg + days"
  unfolding ordinal_to_jd new_year_shift by simp

lemma ordinal_decode:
  "c_jd_to_ordinal (jd + days) sg = (case c_jd_to_ordinal jd sg of (y, d) \<Rightarrow> (y + years, d))"
  unfolding jd_to_ordinal year_shift new_year_shift by simp

lemma ordinal_shift: "c_valid_ordinal_p (y + years) d sg = map_option (\<lambda>j. j + days) (c_valid_ordinal_p y d sg)"
proof -
  have before: "c_jd_to_ordinal (l + days + d + 1) sg = (case c_jd_to_ordinal (l + d + 1) sg of (y, d) \<Rightarrow> (y + years, d))"
    for l using ordinal_decode [of "l + d + 1"] by (simp add: algebra_simps)
  show ?thesis
    unfolding c_valid_ordinal_p_def Let_def ldoy_shift ordinal_encode ordinal_decode
    by (auto simp: before split: option.splits prod.splits)
qed

lemma week_encode: "c_commercial_to_jd (y + years) w d sg = c_commercial_to_jd y w d sg + days"
proof -
  have "(new_year y sg + days + 3) mod 7 = (new_year y sg + 3) mod 7"
    using mod_add_eq [of "new_year y sg + 3" 7 days] whole_weeks by (simp add: algebra_simps)
  then show ?thesis unfolding commercial_to_jd new_year_shift by simp
qed

lemma days_weekday: "(jd + days) mod 7 = jd mod 7"
  using mod_add_right_eq [of jd days 7] whole_weeks by simp

lemma week_year_shift: "week_year (jd + days) sg = week_year jd sg + years"
proof -
  have a: "year_of (jd + days - 3) sg = year_of (jd - 3) sg + years"
    using year_shift [of "jd - 3"] by (simp add: algebra_simps)
  have "monday (year_of (jd - 3) sg + years + 1) sg = monday (year_of (jd - 3) sg + 1) sg + days"
    using week_encode [of "year_of (jd - 3) sg + 1" 1 1] by (simp add: algebra_simps)
  then show ?thesis unfolding week_year_def Let_def a by simp
qed

lemma week_decode:
  "c_jd_to_commercial (jd + days) sg = (case c_jd_to_commercial jd sg of (y, w, d) \<Rightarrow> (y + years, w, d))"
  unfolding jd_to_commercial weekday_number week_year_shift week_encode days_weekday by simp

lemma week_shift: "c_valid_commercial_p (y + years) w d sg = map_option (\<lambda>j. j + days) (c_valid_commercial_p y w d sg)"
proof -
  have y: "y + years + 1 = y + 1 + years" by simp
  have before: "c_jd_to_commercial (l + days + w * 7) sg = (case c_jd_to_commercial (l + w * 7) sg of (y, w, d) \<Rightarrow> (y + years, w, d))"
    for l using week_decode [of "l + w * 7"] by (simp add: algebra_simps)
  show ?thesis
    unfolding c_valid_commercial_p_def Let_def y week_encode week_decode
    by (auto simp: before split: option.splits prod.splits)
qed

lemma number_encode: "c_weeknum_to_jd (y + years) w d f sg = c_weeknum_to_jd y w d f sg + days"
proof -
  have "(new_year y sg + days + 6 - f + 1) mod 7 = (new_year y sg + 6 - f + 1) mod 7"
    using days_weekday [of "new_year y sg + 6 - f + 1"] by (simp add: algebra_simps)
  then show ?thesis unfolding weeknum_to_jd new_year_shift Let_def by simp
qed

lemma number_decode:
  "c_jd_to_weeknum (jd + days) f sg = (case c_jd_to_weeknum jd f sg of (y, w, d) \<Rightarrow> (y + years, w, d))"
proof -
  let ?n = "new_year (year_of jd sg) sg"
  have "(?n + days + 6 - f + 1) mod 7 = (?n + 6 - f + 1) mod 7"
    using days_weekday [of "?n + 6 - f + 1"] by (simp add: algebra_simps)
  then have "jd + days - (?n + days + 6 - (?n + days + 6 - f + 1) mod 7) + 7 = jd - (?n + 6 - (?n + 6 - f + 1) mod 7) + 7"
    by simp
  then show ?thesis unfolding jd_to_weeknum year_shift new_year_shift Let_def by (simp only: prod.case)
qed

lemma number_shift: "c_valid_weeknum_p (y + years) w d f sg = map_option (\<lambda>j. j + days) (c_valid_weeknum_p y w d f sg)"
proof -
  have y: "y + years + 1 = y + 1 + years" by simp
  have before: "c_jd_to_weeknum (l + days + w * 7) f sg = (case c_jd_to_weeknum (l + w * 7) f sg of (y, w, d) \<Rightarrow> (y + years, w, d))"
    for l using number_decode [of "l + w * 7"] by (simp add: algebra_simps)
  show ?thesis
    unfolding c_valid_weeknum_p_def Let_def y number_encode number_decode
    by (auto simp: before split: option.splits prod.splits)
qed

lemma kday_encode:
  assumes "1 \<le> m" "m \<le> 12"
  shows "c_nth_kday_to_jd (y + years) m n k sg = c_nth_kday_to_jd y m n k sg + days"
proof -
  obtain f where f: "c_find_fdom y m sg = Some f" using find_fdom [OF start_valid assms, of y] by blast
  obtain l where l: "c_find_ldom y m sg = Some l" using find_ldom [OF start_valid assms, of y] by blast
  have down: "r + days - (r + days - k + 1) mod 7 = r - (r - k + 1) mod 7 + days" for r
    using days_weekday [of "r - k + 1"] by (simp add: algebra_simps)
  have F: "f + days - 1 = f - 1 + days" "l + days + 7 = l + 7 + days" by simp_all
  show ?thesis
  proof (cases "n > 0")
    case True
    show ?thesis
      unfolding c_nth_kday_to_jd_def Let_def fdom_shift f num_def option.map option.case if_P [OF True] F down by simp
  next
    case False
    show ?thesis
      unfolding c_nth_kday_to_jd_def Let_def ldom_shift l num_def option.map option.case if_not_P [OF False] F down by simp
  qed
qed

lemma kday_decode:
  "c_jd_to_nth_kday (jd + days) sg = (case c_jd_to_nth_kday jd sg of (y, m, n, k) \<Rightarrow> (y + years, m, n, k))"
proof -
  obtain y m d where date: "c_jd_to_civil jd sg = (y, m, d)" by (cases "c_jd_to_civil jd sg") blast
  then have m: "1 \<le> m" "m \<le> 12" using civil_date_range [of sg y m d jd] unfolding civil_date_decode by blast+
  obtain f where f: "c_find_fdom y m sg = Some f" using find_fdom [OF start_valid m, of y] by blast
  have "(jd + days + 1) mod 7 = (jd + 1) mod 7" using days_weekday [of "jd + 1"] by (simp add: algebra_simps)
  then show ?thesis
    unfolding c_jd_to_nth_kday_def Let_def decode_shift date split_conv fdom_shift f num_def option.map option.case c_jd_to_wday_def
    by simp
qed

lemma kday_month:
  assumes "\<not> (1 \<le> m \<and> m \<le> 12)"
  shows "c_valid_nth_kday_p y m n k sg = None"
proof -
  have "c_jd_to_nth_kday jd sg \<noteq> (y, m, n, k)" for jd y n k
  proof
    assume "c_jd_to_nth_kday jd sg = (y, m, n, k)"
    then obtain d where "c_jd_to_civil jd sg = (y, m, d)"
      unfolding c_jd_to_nth_kday_def Let_def by (cases "c_jd_to_civil jd sg") auto
    then show False using civil_date_range [of sg y m d jd] assms unfolding civil_date_decode by blast
  qed
  then show ?thesis unfolding c_valid_nth_kday_p_def Let_def by (simp split: prod.split)
qed

lemma kday_shift:
  "c_valid_nth_kday_p (y + years) m n k sg = map_option (\<lambda>j. j + days) (c_valid_nth_kday_p y m n k sg)"
proof (cases "1 \<le> m \<and> m \<le> 12")
  case False
  from kday_month [OF this] show ?thesis by simp
next
  case True
  obtain k' where k': "k' = (if k < 0 then k + 7 else k)" by blast
  have t: "((y + years) * 12 + m) div 12 = (y * 12 + m) div 12 + years" "((y + years) * 12 + m) mod 12 = (y * 12 + m) mod 12"
    using div_mult_self1 [of 12 "y * 12 + m" years] mod_mult_self1 [of "y * 12 + m" years 12] by (simp_all add: algebra_simps)
  have month: "1 \<le> (y * 12 + m) mod 12 + 1" "(y * 12 + m) mod 12 + 1 \<le> 12"
    using pos_mod_sign [of 12 "y * 12 + m"] pos_mod_bound [of 12 "y * 12 + m"] by simp_all
  have enc: "c_nth_kday_to_jd (y + years) m n k' sg = c_nth_kday_to_jd y m n k' sg + days" for n
    using True by (intro kday_encode) simp_all
  have before: "c_jd_to_nth_kday (l + days + n * 7) sg =
      (case c_jd_to_nth_kday (l + n * 7) sg of (y, m, n, k) \<Rightarrow> (y + years, m, n, k))" for l n
    using kday_decode [of "l + n * 7"] by (simp add: algebra_simps)
  show ?thesis
    unfolding c_valid_nth_kday_p_def k' [symmetric] unfolding Let_def t kday_encode [OF month] enc kday_decode
    by (auto simp: before split: option.splits prod.splits)
qed

end

section \<open>Both calendars repeat\<close>

lemma leap_period: "c_julian_leap_p (y + cm_period_jcy * k) = c_julian_leap_p y"
  "c_gregorian_leap_p (y + cm_period_gcy * k) = c_gregorian_leap_p y"
proof -
  have j: "y + cm_period_jcy * k = y + 4 * (146097 * k)" by (simp add: cm_period_jcy_def)
  show "c_julian_leap_p (y + cm_period_jcy * k) = c_julian_leap_p y"
    unfolding c_julian_leap_p_def j mod_mult_self2 by (rule refl)
  have g: "y + cm_period_gcy * k = y + 4 * (146100 * k)" "y + cm_period_gcy * k = y + 100 * (5844 * k)"
    "y + cm_period_gcy * k = y + 400 * (1461 * k)" by (simp_all add: cm_period_gcy_def)
  have "(y + cm_period_gcy * k) mod 4 = y mod 4" unfolding g(1) by (rule mod_mult_self2)
  moreover have "(y + cm_period_gcy * k) mod 100 = y mod 100" unfolding g(2) by (rule mod_mult_self2)
  moreover have "(y + cm_period_gcy * k) mod 400 = y mod 400" unfolding g(3) by (rule mod_mult_self2)
  ultimately show "c_gregorian_leap_p (y + cm_period_gcy * k) = c_gregorian_leap_p y" unfolding c_gregorian_leap_p_def by simp
qed

lemma quarter_shift: "x = y + 4 * z \<Longrightarrow> x div 4 = y div 4 + (z::int)"
  by simp

lemma shifted_years: "shifted (y + v) m = (case shifted y m of (y, m) \<Rightarrow> (y + v, m))"
  by (simp add: shifted_def)

lemma julian_period:
  "c_civil_to_jd (y + cm_period_jcy * k) m d Julian = c_civil_to_jd y m d Julian + cm_period * k"
proof -
  obtain y' m' where sh: "shifted y m = (y', m')" by (cases "shifted y m") blast
  have "1461 * (y' + cm_period_jcy * k + 4716) = 1461 * (y' + 4716) + 4 * (cm_period * k)"
    by (simp add: cm_period_jcy_def cm_period_def algebra_simps)
  then have "1461 * (y' + cm_period_jcy * k + 4716) div 4 = 1461 * (y' + 4716) div 4 + cm_period * k"
    by (rule quarter_shift)
  then show ?thesis unfolding civil_to_jd_julian shifted_years sh split_conv by simp
qed

lemma gap_period: "century_gap (y + cm_period_gcy * k) = century_gap y - 4383 * k"
proof -
  have y: "y + cm_period_gcy * k = y + 100 * (5844 * k)" by (simp add: cm_period_gcy_def)
  have a: "(y + cm_period_gcy * k) div 100 = 5844 * k + y div 100"
    unfolding y by (rule div_mult_self2) simp
  have b: "(5844 * k + y div 100) div 4 = 1461 * k + y div 100 div 4"
    using div_mult_self2 [of 4 "y div 100" "1461 * k"] by (simp add: algebra_simps)
  show ?thesis unfolding century_gap_def a b by simp
qed

lemma gregorian_period:
  "c_civil_to_jd (y + cm_period_gcy * k) m d Gregorian = c_civil_to_jd y m d Gregorian + cm_period * k"
proof -
  obtain y' m' where sh: "shifted y m = (y', m')" by (cases "shifted y m") blast
  have "1461 * (y' + cm_period_gcy * k + 4716) = 1461 * (y' + 4716) + 4 * (213452100 * k)"
    by (simp add: cm_period_gcy_def algebra_simps)
  then have "1461 * (y' + cm_period_gcy * k + 4716) div 4 = 1461 * (y' + 4716) div 4 + 213452100 * k" by (rule quarter_shift)
  then show ?thesis
    unfolding civil_to_jd_gregorian civil_to_jd_julian shifted_years sh split_conv fst_conv gap_period
    by (simp add: cm_period_def)
qed

lemma julian_repeats: "repeating Julian (cm_period_jcy * k) (cm_period * k)"
proof
  show "c_jd_to_civil (jd + cm_period * k) Julian =
      (case c_jd_to_civil jd Julian of (y, m, d) \<Rightarrow> (y + cm_period_jcy * k, m, d))" for jd
  proof -
    obtain y m d where d: "c_jd_to_civil jd Julian = (y, m, d)" by (cases "c_jd_to_civil jd Julian") blast
    have "julian_date (y + cm_period_jcy * k) m d"
      using julian_decode_date [OF d] unfolding julian_date_def c_julian_last_day_of_month_def leap_period .
    from julian_encode [OF this] show ?thesis unfolding julian_period julian_days [OF d] unfolding d by simp
  qed
qed (simp_all add: julian_period c_valid_start_p_def cm_period_def mod_mult_left_eq [of 213447717, symmetric])

lemma gregorian_repeats: "repeating Gregorian (cm_period_gcy * k) (cm_period * k)"
proof
  show "c_jd_to_civil (jd + cm_period * k) Gregorian =
      (case c_jd_to_civil jd Gregorian of (y, m, d) \<Rightarrow> (y + cm_period_gcy * k, m, d))" for jd
  proof -
    obtain y m d where d: "c_jd_to_civil jd Gregorian = (y, m, d)" by (cases "c_jd_to_civil jd Gregorian") blast
    have "gregorian_date (y + cm_period_gcy * k) m d"
      using gregorian_decode_date [OF d] unfolding gregorian_date_def c_gregorian_last_day_of_month_def leap_period .
    from gregorian_encode [OF this] show ?thesis unfolding gregorian_period gregorian_days [OF d] unfolding d by simp
  qed
qed (simp_all add: gregorian_period c_valid_start_p_def cm_period_def mod_mult_left_eq [of 213447717, symmetric])

interpretation julian: repeating Julian "cm_period_jcy * k" "cm_period * k" for k
  by (rule julian_repeats)

interpretation gregorian: repeating Gregorian "cm_period_gcy * k" "cm_period * k" for k
  by (rule gregorian_repeats)

section \<open>The tables of month lengths\<close>

text \<open>In one calendar the check of a civil date is the one that reads the table.\<close>

definition valid_by_table :: "start \<Rightarrow> int \<Rightarrow> int \<Rightarrow> int \<Rightarrow> (int \<times> int) option" where
  "valid_by_table style y m d = (if style = Gregorian then c_valid_gregorian_p y m d else c_valid_julian_p y m d)"

definition length_of_month :: "start \<Rightarrow> int \<Rightarrow> int \<Rightarrow> int" where
  "length_of_month style y m =
     (if style = Gregorian then c_gregorian_last_day_of_month y m else c_julian_last_day_of_month y m)"

lemma civil_date_style:
  assumes "style = Julian \<or> style = Gregorian"
  shows "civil_date style y m d jd \<longleftrightarrow> 1 \<le> m \<and> m \<le> 12 \<and> 1 \<le> d \<and> d \<le> length_of_month style y m \<and> jd = c_civil_to_jd y m d style"
  using assms unfolding civil_date_def length_of_month_def julian_date_def gregorian_date_def by auto

lemma civil_to_jd_style_day:
  assumes "style = Julian \<or> style = Gregorian"
  shows "c_civil_to_jd y m d style = c_civil_to_jd y m 0 style + d"
  using assms civil_to_jd_day [of y m d] by (auto simp: civil_to_jd_gregorian)

lemma length_positive: "1 \<le> m \<Longrightarrow> m \<le> 12 \<Longrightarrow> 28 \<le> length_of_month style y m"
  unfolding length_of_month_def c_gregorian_last_day_of_month_def c_julian_last_day_of_month_def
  using month_length by auto

lemma valid_by_table:
  assumes "style = Julian \<or> style = Gregorian"
  shows "c_valid_civil_p y m d style = map_option (\<lambda>(m, d). c_civil_to_jd y m d style) (valid_by_table style y m d)"
proof -
  define m' where "m' = (if m < 0 then m + 13 else m)"
  define L where "L = length_of_month style y m'"
  have start: "c_valid_start_p style" using assms by (auto simp: c_valid_start_p_def)
  have table: "valid_by_table style y m d =
      (if m' < 1 \<or> m' > 12 then None
       else let d = (if d < 0 then L + d + 1 else d) in if d < 1 \<or> d > L then None else Some (m', d))"
    unfolding valid_by_table_def c_valid_gregorian_p_def c_valid_julian_p_def m'_def [symmetric] Let_def L_def length_of_month_def
    by simp
  show ?thesis
  proof (cases "1 \<le> m' \<and> m' \<le> 12")
    case False
    then have "c_valid_civil_p y m d style = None" unfolding m'_def by (rule valid_month_out_of_range)
    with False show ?thesis unfolding table by auto
  next
    case True
    then have m: "1 \<le> m'" "m' \<le> 12" by blast+
    have norm: "c_valid_civil_p y m d style = c_valid_civil_p y m' d style"
      using True unfolding c_valid_civil_p_def Let_def m'_def by (cases "m < 0") simp_all
    note date = civil_date_style [OF assms, of y m', folded L_def]
    note day = civil_to_jd_style_day [OF assms, of y m']
    define d' where "d' = (if d < 0 then L + d + 1 else d)"
    have "c_valid_civil_p y m' d style = Some jd \<longleftrightarrow> civil_date style y m' d' jd" for jd
    proof (cases "d < 0")
      case False
      then show ?thesis unfolding d'_def using valid_civil_day_iff [OF start m(1)] by (simp add: valid_civil_p_pos)
    next
      case neg: True
      have "28 \<le> L" unfolding L_def by (rule length_positive [OF m])
      then have last: "civil_date style y m' L (c_civil_to_jd y m' 0 style + L)" unfolding date day [of L] using m by simp
      have top: "j \<le> c_civil_to_jd y m' 0 style + L" if "civil_date style y m' i j" for i j
        using that unfolding date day [of i] by linarith
      have dl: "c_civil_to_jd y m' 0 style + L + d + 1 = c_civil_to_jd y m' (L + d + 1) style" unfolding day [of "L + d + 1"] by simp
      show ?thesis
        unfolding valid_negative_day [OF start m neg] d'_def
      proof
        assume "\<exists>l e k. civil_date style y m' k l \<and> (\<forall>i j. civil_date style y m' i j \<longrightarrow> j \<le> l) \<and> jd = l + d + 1 \<and> civil_date style y m' e jd"
        then obtain l e k where *: "civil_date style y m' k l" "\<forall>i j. civil_date style y m' i j \<longrightarrow> j \<le> l" "jd = l + d + 1"
          "civil_date style y m' e jd" by blast
        have "l = c_civil_to_jd y m' 0 style + L" using top [OF *(1)] *(2) last by (blast intro: order_antisym)
        then have "jd = c_civil_to_jd y m' (L + d + 1) style" using *(3) dl by simp
        moreover from this *(4) have "e = L + d + 1" unfolding date day [of e] day [of "L + d + 1"] by simp
        ultimately show "civil_date style y m' (if d < 0 then L + d + 1 else d) jd" using *(4) neg by simp
      next
        assume "civil_date style y m' (if d < 0 then L + d + 1 else d) jd"
        then have *: "civil_date style y m' (L + d + 1) jd" using neg by simp
        then have "jd = c_civil_to_jd y m' 0 style + L + d + 1" unfolding date dl by simp
        with * last top show "\<exists>l e k. civil_date style y m' k l \<and> (\<forall>i j. civil_date style y m' i j \<longrightarrow> j \<le> l) \<and> jd = l + d + 1 \<and> civil_date style y m' e jd"
          by blast
      qed
    qed
    then have iff: "c_valid_civil_p y m' d style = Some jd \<longleftrightarrow> 1 \<le> d' \<and> d' \<le> L \<and> jd = c_civil_to_jd y m' d' style" for jd
      unfolding date using m by blast
    show ?thesis
      unfolding norm table Let_def d'_def [symmetric] using m iff by (cases "c_valid_civil_p y m' d style") force+
  qed
qed

section \<open>The checks with periods\<close>

definition calendar_for :: "int \<Rightarrow> start \<Rightarrow> start" where
  "calendar_for y sg = (case guess_style y sg of Some style \<Rightarrow> style | None \<Rightarrow> sg)"

lemma guess_style_some: "guess_style y sg = Some style \<Longrightarrow> style = Julian \<or> style = Gregorian"
  by (auto simp: guess_style_def split: start.splits if_splits)

lemma encoded_pairs: "encoded (map_option (Pair np) r) = map_option (\<lambda>j. j + cm_period * np) r"
  by (cases r) (simp_all add: encoded_def encode_jd)

lemma encoded_decode: "encoded (map_option decode_jd r) = r"
  using decode_encode_jd by (cases r) (simp_all add: encoded_def decode_jd)

lemma year_period_simps: "year_period True = cm_period_gcy" "year_period False = cm_period_jcy"
  by (simp_all add: year_period_def)

text \<open>The scheme all checks share: guess the calendar, decode the year, check, encode the day.\<close>

lemma by_periods:
  assumes "\<And>k y. check (y + cm_period_jcy * k) Julian = map_option (\<lambda>j. j + cm_period * k) (check y Julian)"
    and "\<And>k y. check (y + cm_period_gcy * k) Gregorian = map_option (\<lambda>j. j + cm_period * k) (check y Gregorian)"
  shows "encoded (case guess_style y sg of
      None \<Rightarrow> map_option decode_jd (check y sg)
    | Some style \<Rightarrow> (case decode_year y (style = Gregorian) of (np, ry) \<Rightarrow> map_option (Pair np) (check ry style)))
    = check y (calendar_for y sg)"
proof (cases "guess_style y sg")
  case None
  then show ?thesis by (simp add: calendar_for_def encoded_decode)
next
  case (Some style)
  obtain np ry where dec: "decode_year y (style = Gregorian) = (np, ry)" by (cases "decode_year y (style = Gregorian)") blast
  note y = decode_encode_year [OF dec]
  have "encoded (map_option (Pair np) (check ry style)) = check y style"
    using guess_style_some [OF Some]
  proof
    assume s: "style = Julian"
    then have "y = ry + cm_period_jcy * np" using y by (simp add: year_period_simps)
    with s show ?thesis by (simp add: encoded_pairs assms(1))
  next
    assume s: "style = Gregorian"
    then have "y = ry + cm_period_gcy * np" using y by (simp add: year_period_simps)
    with s show ?thesis by (simp add: encoded_pairs assms(2))
  qed
  with Some dec show ?thesis by (simp add: calendar_for_def)
qed

lemma ordinal_by_periods: "rt_valid_ordinal_p y d sg = c_valid_ordinal_p y d (calendar_for y sg)"
  unfolding rt_valid_ordinal_p_def valid_ordinal_p_def
  by (rule by_periods [of "\<lambda>y. c_valid_ordinal_p y d"]) (rule julian.ordinal_shift gregorian.ordinal_shift)+

lemma commercial_by_periods: "rt_valid_commercial_p y w d sg = c_valid_commercial_p y w d (calendar_for y sg)"
  unfolding rt_valid_commercial_p_def valid_commercial_p_def
  by (rule by_periods [of "\<lambda>y. c_valid_commercial_p y w d"]) (rule julian.week_shift gregorian.week_shift)+

lemma weeknum_by_periods: "rt_valid_weeknum_p y w d f sg = c_valid_weeknum_p y w d f (calendar_for y sg)"
  unfolding rt_valid_weeknum_p_def valid_weeknum_p_def
  by (rule by_periods [of "\<lambda>y. c_valid_weeknum_p y w d f"]) (rule julian.number_shift gregorian.number_shift)+

lemma nth_kday_by_periods: "encoded (valid_nth_kday_p y m n k sg) = c_valid_nth_kday_p y m n k (calendar_for y sg)"
  unfolding valid_nth_kday_p_def
  by (rule by_periods [of "\<lambda>y. c_valid_nth_kday_p y m n k"]) (rule julian.kday_shift gregorian.kday_shift)+

lemma valid_civil_by_table:
  "valid_civil_p y m d sg = (case guess_style y sg of
      None \<Rightarrow> map_option decode_jd (c_valid_civil_p y m d sg)
    | Some style \<Rightarrow> (case decode_year y (style = Gregorian) of (np, ry) \<Rightarrow> map_option (Pair np) (c_valid_civil_p ry m d style)))"
proof (cases "guess_style y sg")
  case (Some style)
  from valid_by_table [OF guess_style_some [OF Some]] Some show ?thesis
    by (auto simp: valid_civil_p_def valid_by_table_def option.map_comp o_def split_def)
qed (simp add: valid_civil_p_def)

lemma civil_by_periods: "rt_valid_civil_p y m d sg = c_valid_civil_p y m d (calendar_for y sg)"
  unfolding rt_valid_civil_p_def valid_civil_by_table
  by (rule by_periods [of "\<lambda>y. c_valid_civil_p y m d"]) (rule julian.civil_shift gregorian.civil_shift)+

text \<open> C35. Keeping days and years in periods changes no result. For every year, of any size, and every start,
  the checks that split the year into a period and a rest, check the rest and put the day number
  together again give what the calendar formulas give for the whole year in the calendar the year
  is guessed to be in: for a civil date, an ordinal date, a commercial date, a week number and an
  n-th weekday. The period is a whole number of Julian cycles, of Gregorian cycles and of weeks.\<close>

theorem periods_refine_the_calendar:
  "rt_valid_civil_p y m d sg = c_valid_civil_p y m d (calendar_for y sg) \<and>
   rt_valid_ordinal_p y d sg = c_valid_ordinal_p y d (calendar_for y sg) \<and>
   rt_valid_commercial_p y w d sg = c_valid_commercial_p y w d (calendar_for y sg) \<and>
   rt_valid_weeknum_p y w d f sg = c_valid_weeknum_p y w d f (calendar_for y sg) \<and>
   encoded (valid_nth_kday_p y m n k sg) = c_valid_nth_kday_p y m n k (calendar_for y sg)"
  by (intro conjI civil_by_periods ordinal_by_periods commercial_by_periods weeknum_by_periods nth_kday_by_periods)

section \<open>Where the guess is right\<close>

text \<open>A reform whose year lies in the years the guess leaves open.\<close>

definition plain_start :: "start \<Rightarrow> bool" where
  "plain_start sg = (case sg of Reform s \<Rightarrow> 2298884 \<le> s \<and> s \<le> 2426343 | _ \<Rightarrow> True)"

lemma plain_valid: "plain_start sg \<Longrightarrow> c_valid_start_p sg"
  by (auto simp: plain_start_def c_valid_start_p_def reform_begin_jd_def reform_end_jd_def split: start.splits)

lemma civil_day_below:
  assumes "style = Julian \<or> style = Gregorian" "civil_date style y m d jd" "civil_date style y0 1 1 j0"
  shows "y < y0 \<longleftrightarrow> jd < j0"
proof -
  have start: "c_valid_start_p style" using assms(1) by (auto simp: c_valid_start_p_def)
  have "1 \<le> m" "1 \<le> d" using civil_date_range [OF assms(2)] by blast+
  then show ?thesis using civil_date_order [OF start assms(2,3)] by auto
qed

lemma boundary_days:
  "civil_date Julian 1582 1 1 2298884" "civil_date Gregorian 1582 1 1 2298874"
  "civil_date Julian 1931 1 1 2426356" "civil_date Gregorian 1931 1 1 2426343"
  unfolding civil_date_decode by code_simp+

lemma calendar_for_plain:
  assumes "plain_start sg"
  shows "civil_date (calendar_for y sg) y m d jd \<longleftrightarrow> civil_date sg y m d jd"
proof (cases sg)
  case (Reform s)
  with assms have s: "2298884 \<le> s" "s \<le> 2426343" by (simp_all add: plain_start_def)
  consider "y < 1582" | "1582 \<le> y" "y \<le> 1930" | "1930 < y" by linarith
  then show ?thesis
  proof cases
    case 1
    then have c: "calendar_for y sg = Julian" 
      unfolding calendar_for_def guess_style_def Reform reform_begin_year_def fixnum_p_def max_safe_integer_def by simp
    have "jd < s" if "civil_date Julian y m d jd"
      using civil_day_below [OF _ that boundary_days(1)] 1 s by simp
    moreover have "jd < s" if "civil_date Gregorian y m d jd"
      using civil_day_below [OF _ that boundary_days(2)] 1 s by simp
    ultimately show ?thesis unfolding c unfolding Reform civil_date_def by auto
  next
    case 2
    then have "guess_style y sg = None"
      unfolding guess_style_def Reform reform_begin_year_def reform_end_year_def fixnum_p_def max_safe_integer_def by simp
    then show ?thesis unfolding calendar_for_def by simp
  next
    case 3
    then have c: "calendar_for y sg = Gregorian"
      unfolding calendar_for_def guess_style_def Reform reform_begin_year_def reform_end_year_def by simp
    have "s \<le> jd" if "civil_date Julian y m d jd"
      using civil_day_below [OF _ that boundary_days(3)] 3 s by simp
    moreover have "s \<le> jd" if "civil_date Gregorian y m d jd"
      using civil_day_below [OF _ that boundary_days(4)] 3 s by simp
    ultimately show ?thesis unfolding c unfolding Reform civil_date_def by auto
  qed
qed (simp_all add: calendar_for_def guess_style_def)

text \<open>The first days of 1931 with a reform on its twelfth day: the guess takes them for Gregorian dates.\<close>

lemma guess_misses_late_reform:
  "c_valid_start_p (Reform 2426355) \<and> rt_valid_civil_p 1931 1 1 (Reform 2426355) = Some 2426343 \<and>
   c_jd_to_civil 2426343 (Reform 2426355) = (1930, 12, 19) \<and> c_valid_civil_p 1931 1 1 (Reform 2426355) = None"
  by code_simp

lemma rt_valid_civil_exact:
  assumes "plain_start sg" "1 \<le> m" "0 \<le> d"
  shows "rt_valid_civil_p y m d sg = Some jd \<longleftrightarrow> civil_date sg y m d jd"
proof -
  have "c_valid_start_p (calendar_for y sg)"
    using plain_valid [OF assms(1)] guess_style_some [of y sg]
    by (cases "guess_style y sg") (auto simp: calendar_for_def c_valid_start_p_def)
  then show ?thesis
    using valid_civil_day_iff [of "calendar_for y sg" m y d jd] assms calendar_for_plain [OF assms(1), of y m d jd]
    by (simp add: civil_by_periods valid_civil_p_pos)
qed

text \<open> A civil date is accepted exactly when the calendar has it, with its day number, for years of any size,
  when the start is the reform of Italy, of England or any between 11 January 1582 and 1 January 1931
  (Gregorian), or there is no reform.\<close>

theorem civil_dates_of_all_years:
  assumes "plain_start sg" "1 \<le> m" "0 \<le> d"
  shows "rt_valid_civil_p y m d sg = Some jd \<longleftrightarrow> civil_date sg y m d jd"
  by (rule rt_valid_civil_exact [OF assms])

theorem civil_dates_of_all_years_witness:
  "rt_valid_civil_p 1000000000 2 29 italy = Some 365244221119 \<longleftrightarrow> civil_date italy 1000000000 2 29 365244221119"
  by (rule civil_dates_of_all_years) code_simp+

end
