(* ===== verification/Date_Object.thy ===== *)
theory Date_Object
  imports Date_Periods Complex_Main "HOL-Library.Word"
begin

text \<open>
  The class \<open>Date\<close> of \<^verbatim>\<open>packages/date/src/date.ts\<close>: its fields, its constructor and the operations
  on days and months.

  A date is \<open>simple\<close>, or has a time of day, an offset and a fraction of a second (\<open>dtime\<close>); both kinds
  keep a day in a period. The day number and the civil date are filled in when they are
  first asked for. A day of the month given to the constructor is an integer here, a fraction of a day
  a rational number; the branch of \<open>plus\<close> for a fractional double is left out.
\<close>

unbundle bit_operations_syntax

section \<open>Fields\<close>

record dat =
  dnth :: int
  djd :: "int option"
  dciv :: "(int \<times> int \<times> int) option"
  dsg :: start
  dtime :: "(int \<times> rat \<times> int) option"

definition day_in_seconds :: int where "day_in_seconds = 86400"
definition second_in_nanoseconds :: int where "second_in_nanoseconds = 1000000000"

definition df_local_to_utc :: "int \<Rightarrow> int \<Rightarrow> int" where
  "df_local_to_utc df off = (let df = df - off in
     if df < 0 then df + day_in_seconds else if df \<ge> day_in_seconds then df - day_in_seconds else df)"

definition df_utc_to_local :: "int \<Rightarrow> int \<Rightarrow> int" where
  "df_utc_to_local df off = (let df = df + off in
     if df < 0 then df + day_in_seconds else if df \<ge> day_in_seconds then df - day_in_seconds else df)"

definition jd_local_to_utc :: "int \<Rightarrow> int \<Rightarrow> int \<Rightarrow> int" where
  "jd_local_to_utc jd df off = (let df = df - off in
     if df < 0 then jd - 1 else if df \<ge> day_in_seconds then jd + 1 else jd)"

definition jd_utc_to_local :: "int \<Rightarrow> int \<Rightarrow> int \<Rightarrow> int" where
  "jd_utc_to_local jd df off = (let df = df + off in
     if df < 0 then jd - 1 else if df \<ge> day_in_seconds then jd + 1 else jd)"

definition get_s_jd :: "dat \<Rightarrow> int \<times> dat" where
  "get_s_jd self = (case djd self of
     Some jd \<Rightarrow> (jd, self)
   | None \<Rightarrow> (case the (dciv self) of (year, mon, mday) \<Rightarrow>
       let jd = c_civil_to_jd year mon mday (virtual_sg (dnth self) (dsg self))
       in (jd, self\<lparr>djd := Some jd\<rparr>)))"

definition m_jd :: "dat \<Rightarrow> int" where "m_jd self = fst (get_s_jd self)"

definition m_df :: "dat \<Rightarrow> int" where "m_df self = (case dtime self of None \<Rightarrow> 0 | Some (df, _, _) \<Rightarrow> df)"
definition m_sf :: "dat \<Rightarrow> rat" where "m_sf self = (case dtime self of None \<Rightarrow> 0 | Some (_, sf, _) \<Rightarrow> sf)"
definition m_of :: "dat \<Rightarrow> int" where "m_of self = (case dtime self of None \<Rightarrow> 0 | Some (_, _, off) \<Rightarrow> off)"

definition simple_dat_p :: "dat \<Rightarrow> bool" where "simple_dat_p self \<longleftrightarrow> dtime self = None"

definition m_local_jd :: "dat \<Rightarrow> int" where
  "m_local_jd self = (if simple_dat_p self then m_jd self else jd_utc_to_local (m_jd self) (m_df self) (m_of self))"

definition m_local_df :: "dat \<Rightarrow> int" where
  "m_local_df self = (if simple_dat_p self then 0 else df_utc_to_local (m_df self) (m_of self))"

definition get_c_civil :: "dat \<Rightarrow> (int \<times> int \<times> int) \<times> dat" where
  "get_c_civil self = (case dciv self of
     Some c \<Rightarrow> (c, self)
   | None \<Rightarrow> let c = c_jd_to_civil (m_local_jd self) (virtual_sg (dnth self) (dsg self))
             in (c, (snd (get_s_jd self))\<lparr>dciv := Some c\<rparr>))"

definition civil_of_date :: "dat \<Rightarrow> int \<times> int \<times> int" where "civil_of_date self = fst (get_c_civil self)"

section \<open>Constructor\<close>

definition seat :: "int \<Rightarrow> int \<Rightarrow> start \<Rightarrow> dat" where
  "seat n rjd sg = \<lparr>dnth = n, djd = Some rjd, dciv = None, dsg = sg, dtime = None\<rparr>"

definition date_new :: "int \<Rightarrow> int \<Rightarrow> int \<Rightarrow> start \<Rightarrow> dat option" where
  "date_new year month day start =
     (let sg = val2sg start in
      if guess_style year sg = Some Gregorian then
        (case valid_gregorian_p year month day of
           None \<Rightarrow> None
         | Some (n, ry, rm, rd) \<Rightarrow> Some \<lparr>dnth = n, djd = None, dciv = Some (ry, rm, rd), dsg = sg, dtime = None\<rparr>)
      else
        (case valid_civil_p year month day sg of
           None \<Rightarrow> None
         | Some (n, rjd) \<Rightarrow> Some (seat n rjd sg)))"

definition date_of_plain :: "int \<Rightarrow> int \<Rightarrow> int \<Rightarrow> start \<Rightarrow> dat" where
  "date_of_plain year month day start =
     (let sg = val2sg start; (n, ry) = decode_year year True
      in seat n (c_civil_to_jd ry month day (virtual_sg n sg)) sg)"

definition is_valid_civil :: "int \<Rightarrow> int \<Rightarrow> int \<Rightarrow> start \<Rightarrow> bool" where
  "is_valid_civil year month mday start =
     (let sg = val2sg start in
      if guess_style year sg = Some Gregorian then valid_gregorian_p year month mday \<noteq> None
      else valid_civil_p year month mday sg \<noteq> None)"

definition date_jd :: "int \<Rightarrow> start \<Rightarrow> dat" where
  "date_jd jd start = (case decode_jd jd of (n, rjd) \<Rightarrow> seat n rjd (val2sg start))"

definition date_ordinal :: "int \<Rightarrow> int \<Rightarrow> start \<Rightarrow> dat option" where
  "date_ordinal year yday start = (let sg = val2sg start in
     map_option (\<lambda>(n, rjd). seat n rjd sg) (valid_ordinal_p year yday sg))"

definition date_commercial :: "int \<Rightarrow> int \<Rightarrow> int \<Rightarrow> start \<Rightarrow> dat option" where
  "date_commercial cwyear cweek cwday start = (let sg = val2sg start in
     map_option (\<lambda>(n, rjd). seat n rjd sg) (valid_commercial_p cwyear cweek cwday sg))"

definition date_weeknum :: "int \<Rightarrow> int \<Rightarrow> int \<Rightarrow> int \<Rightarrow> start \<Rightarrow> dat option" where
  "date_weeknum year week day firstday start = (let sg = val2sg start in
     map_option (\<lambda>(n, rjd). seat n rjd sg) (valid_weeknum_p year week day firstday sg))"

definition date_nth_kday :: "int \<Rightarrow> int \<Rightarrow> int \<Rightarrow> int \<Rightarrow> start \<Rightarrow> dat option" where
  "date_nth_kday year month n k start = (let sg = val2sg start in
     map_option (\<lambda>(n, rjd). seat n rjd sg) (valid_nth_kday_p year month n k sg))"

section \<open>Readers\<close>

definition is_julian :: "dat \<Rightarrow> bool" where
  "is_julian self = m_julian_p (m_jd self) (virtual_sg (dnth self) (dsg self))"

definition is_gregorian :: "dat \<Rightarrow> bool" where "is_gregorian self \<longleftrightarrow> \<not> is_julian self"

definition year :: "dat \<Rightarrow> int" where
  "year self = (let y = fst (civil_of_date self) in
     if dnth self = 0 then y else encode_year (dnth self) y (is_gregorian self))"

definition mon :: "dat \<Rightarrow> int" where "mon self = fst (snd (civil_of_date self))"
definition mday :: "dat \<Rightarrow> int" where "mday self = snd (snd (civil_of_date self))"

definition jd :: "dat \<Rightarrow> int" where "jd self = encode_jd (dnth self) (m_local_jd self)"
definition mjd :: "dat \<Rightarrow> int" where "mjd self = jd self - 2400001"
definition ld :: "dat \<Rightarrow> int" where "ld self = jd self - 2299160"
definition m_real_jd :: "dat \<Rightarrow> int" where "m_real_jd self = encode_jd (dnth self) (m_jd self)"

definition wday :: "dat \<Rightarrow> int" where "wday self = c_jd_to_wday (m_local_jd self)"
definition cwday :: "dat \<Rightarrow> int" where "cwday self = (let w = wday self in if w = 0 then 7 else w)"

definition yday :: "dat \<Rightarrow> int" where
  "yday self = snd (c_jd_to_ordinal (m_local_jd self) (virtual_sg (dnth self) (dsg self)))"

definition cwyear :: "dat \<Rightarrow> int" where
  "cwyear self = (let ry = fst (c_jd_to_commercial (m_local_jd self) (virtual_sg (dnth self) (dsg self))) in
     if dnth self = 0 then ry else encode_year (dnth self) ry (is_gregorian self))"

definition cweek :: "dat \<Rightarrow> int" where
  "cweek self = fst (snd (c_jd_to_commercial (m_local_jd self) (virtual_sg (dnth self) (dsg self))))"

definition is_nth_kday :: "dat \<Rightarrow> int \<Rightarrow> int \<Rightarrow> bool" where
  "is_nth_kday self n k \<longleftrightarrow> k = wday self \<and>
     m_local_jd self = c_nth_kday_to_jd (fst (civil_of_date self)) (mon self) n k (virtual_sg (dnth self) (dsg self))"

definition is_leap :: "dat \<Rightarrow> bool" where
  "is_leap self = (if is_gregorian self then c_gregorian_leap_p (fst (civil_of_date self))
     else let sg = virtual_sg (dnth self) (dsg self);
              rjd = c_civil_to_jd (fst (civil_of_date self)) 3 1 sg
          in snd (snd (c_jd_to_civil (rjd - 1) sg)) = 29)"

definition new_start :: "dat \<Rightarrow> start \<Rightarrow> dat" where
  "new_start self start = \<lparr>dnth = dnth self, djd = Some (m_jd self), dciv = None, dsg = val2sg start, dtime = dtime self\<rparr>"

section \<open>Adding\<close>

definition d_new_internal :: "dat \<Rightarrow> int \<Rightarrow> int \<Rightarrow> int \<Rightarrow> rat \<Rightarrow> int \<Rightarrow> dat" where
  "d_new_internal self n rjd df sf off =
     (if df = 0 \<and> sf = 0 \<and> off = 0 then seat n rjd (dsg self)
      else (seat n rjd (dsg self))\<lparr>dtime := Some (df, sf, off)\<rparr>)"

definition plus_number :: "dat \<Rightarrow> int \<Rightarrow> dat" where
  "plus_number self t =
     (let (n, t) = (if t div cm_period \<noteq> 0 then (dnth self + t div cm_period, t mod cm_period) else (dnth self, t));
          (n, jd) = (if t = 0 then (n, m_jd self) else canonicalize_jd n (m_jd self + t))
      in d_new_internal self n jd (m_df self) (m_sf self) (m_of self))"

definition plus_bigint :: "dat \<Rightarrow> int \<Rightarrow> dat" where
  "plus_bigint self other =
     (let s = (if other > 0 then 1 else - 1);
          other = (if other > 0 then other else - other);
          n = s * (other div cm_period);
          jd = s * (other mod cm_period);
          (n, jd) = (if jd = 0 then (n, m_jd self) else canonicalize_jd n (m_jd self + jd));
          n = (if n = 0 then dnth self else dnth self + n)
      in d_new_internal self n jd (m_df self) (m_sf self) (m_of self))"

definition plus_int :: "dat \<Rightarrow> int \<Rightarrow> dat" where
  "plus_int self other = (if fixnum_p other then plus_number self other else plus_bigint self other)"

definition plus_rational :: "dat \<Rightarrow> rat \<Rightarrow> dat" where
  "plus_rational self other =
     (if other = of_int \<lfloor>other\<rfloor> then plus_int self \<lfloor>other\<rfloor>
      else
       let s = (if other > 0 then 1 else - 1);
           other = (if other > 0 then other else - other);
           n = \<lfloor>other / of_int cm_period\<rfloor>;
           t = other - of_int (n * cm_period);
           jd = \<lfloor>t\<rfloor>;
           t = (t - of_int jd) * of_int day_in_seconds;
           df = \<lfloor>t\<rfloor>;
           sf = (t - of_int df) * of_int second_in_nanoseconds;
           (n, jd, df, sf) = (s * n, s * jd, s * df, of_int s * sf);
           (df, sf) = (if sf = 0 then (df, m_sf self)
             else let sf = m_sf self + sf in
               if sf < 0 then (df - 1, sf + of_int second_in_nanoseconds)
               else if sf \<ge> of_int second_in_nanoseconds then (df + 1, sf - of_int second_in_nanoseconds)
               else (df, sf));
           (jd, df) = (if df = 0 then (jd, m_df self)
             else let df = m_df self + df in
               if df < 0 then (jd - 1, df + day_in_seconds)
               else if df \<ge> day_in_seconds then (jd + 1, df - day_in_seconds)
               else (jd, df));
           (n, jd) = (if jd = 0 then (n, m_jd self) else canonicalize_jd n (m_jd self + jd));
           n = (if n = 0 then dnth self else dnth self + n)
       in d_new_internal self n jd df sf (m_of self))"

section \<open>Months\<close>

text \<open>The loop of \<open>rshift\<close>: the last day up to the given one that the month has.\<close>

function clip_day :: "int \<Rightarrow> int \<Rightarrow> int \<Rightarrow> start \<Rightarrow> (int \<times> int) option" where
  "clip_day y m d sg = (case valid_civil_p y m d sg of
     Some r \<Rightarrow> Some r
   | None \<Rightarrow> if d - 1 < 1 then None else clip_day y m (d - 1) sg)"
  by pat_completeness auto
termination by (relation "measure (\<lambda>(_, _, d, _). nat d)") auto

declare clip_day.simps [simp del]

definition rshift :: "dat \<Rightarrow> int \<Rightarrow> dat option" where
  "rshift self other =
     (let t = year self * 12 + (mon self - 1) + other
      in case clip_day (t div 12) (t mod 12 + 1) (mday self) (dsg self) of
           None \<Rightarrow> None
         | Some (n, rjd) \<Rightarrow> Some (plus_int self (encode_jd n rjd - jd self)))"

definition next_year :: "dat \<Rightarrow> int \<Rightarrow> dat option" where "next_year self n = rshift self (n * 12)"
definition prev_year :: "dat \<Rightarrow> int \<Rightarrow> dat option" where "prev_year self n = rshift self (- (n * 12))"

section \<open>Comparing\<close>

definition m_canonicalize_jd :: "dat \<Rightarrow> dat" where
  "m_canonicalize_jd self =
     (let j = m_jd self; (n, jd) = canonicalize_jd (dnth self) j
      in self\<lparr>dnth := n, djd := Some jd, dciv := (if jd \<noteq> j then None else dciv self)\<rparr>)"

definition compare_keys :: "'a::linorder \<Rightarrow> 'a \<Rightarrow> int \<Rightarrow> int" where
  "compare_keys a b otherwise = (if a = b then otherwise else if a < b then - 1 else 1)"

definition cmp_dd :: "dat \<Rightarrow> dat \<Rightarrow> int \<times> dat \<times> dat" where
  "cmp_dd self other =
     (let a = m_canonicalize_jd self; b = m_canonicalize_jd other
      in (compare_keys (dnth a) (dnth b) (compare_keys (m_jd a) (m_jd b)
            (compare_keys (m_df a) (m_df b) (compare_keys (m_sf a) (m_sf b) 0))), a, b))"

definition cmp :: "dat \<Rightarrow> dat \<Rightarrow> int \<times> dat \<times> dat" where
  "cmp self other =
     (if \<not> (simple_dat_p self \<and> simple_dat_p other \<and> is_gregorian self = is_gregorian other) then cmp_dd self other
      else let a = m_canonicalize_jd self; b = m_canonicalize_jd other
           in (compare_keys (dnth a) (dnth b) (compare_keys (m_jd a) (m_jd b) 0), a, b))"

definition is_eql :: "dat \<Rightarrow> dat \<Rightarrow> bool \<times> dat \<times> dat" where
  "is_eql self other = (case cmp self other of (c, self, other) \<Rightarrow> (c = 0, self, other))"

definition case_equals :: "dat \<Rightarrow> dat \<Rightarrow> bool \<times> dat \<times> dat" where
  "case_equals self other =
     (if is_gregorian self \<noteq> is_gregorian other then (jd self = jd other, self, other)
      else let a = m_canonicalize_jd self; b = m_canonicalize_jd other
           in (dnth a = dnth b \<and> m_local_jd a = m_local_jd b, a, b))"

definition minus_dd :: "dat \<Rightarrow> dat \<Rightarrow> rat" where
  "minus_dd self other =
     (let (n, d) = canonicalize_jd (dnth self - dnth other) (m_jd self - m_jd other);
          df = m_df self - m_df other;
          sf = m_sf self - m_sf other;
          (d, df) = (if df < 0 then (d - 1, df + day_in_seconds)
                     else if df \<ge> day_in_seconds then (d + 1, df - day_in_seconds) else (d, df));
          (df, sf) = (if sf < 0 then (df - 1, sf + of_int second_in_nanoseconds)
                     else if sf \<ge> of_int second_in_nanoseconds then (df + 1, sf - of_int second_in_nanoseconds) else (df, sf))
      in of_int (n * cm_period) + of_int d + of_int df / of_int day_in_seconds
           + sf / of_int (day_in_seconds * second_in_nanoseconds))"

definition ajd :: "dat \<Rightarrow> rat" where
  "ajd self = (if simple_dat_p self then of_int (m_real_jd self * 2 - 1) / 2
     else of_int (m_real_jd self) + of_int (m_df self - day_in_seconds div 2) / of_int day_in_seconds
       + m_sf self / of_int (day_in_seconds * second_in_nanoseconds))"

definition date_hash :: "dat \<Rightarrow> 32 word" where
  "date_hash self =
     fold (\<lambda>part v. (v XOR word_of_int part) * 0x01000193)
       [dnth self, m_jd self, m_df self, fst (quotient_of (m_sf self)), snd (quotient_of (m_sf self))] 0"

section \<open>Ranges\<close>

partial_function (option) upto_enum :: "dat \<Rightarrow> dat \<Rightarrow> dat list option" where
  "upto_enum date hi =
     (case cmp date hi of (c, date, hi) \<Rightarrow>
        if c \<le> 0 then Option.bind (upto_enum (plus_int date 1) hi) (\<lambda>ds. Some (date # ds)) else Some [])"

partial_function (option) downto_enum :: "dat \<Rightarrow> dat \<Rightarrow> dat list option" where
  "downto_enum date lo =
     (case cmp date lo of (c, date, lo) \<Rightarrow>
        if c \<ge> 0 then Option.bind (downto_enum (plus_int date (- 1)) lo) (\<lambda>ds. Some (date # ds)) else Some [])"

end
