(* ===== verification/Date_Moves.thy ===== *)
theory Date_Moves
  imports Date_Object
begin

text \<open>
  What the operations of \<open>Date\<close> do to the moment a date stands for. \<open>moment\<close> is that moment, in days,
  as a rational number; \<open>date_ok\<close> is the invariant of the fields.
\<close>

section \<open>The moment of a date\<close>

definition moment :: "dat \<Rightarrow> rat" where
  "moment self = of_int (m_real_jd self) + of_int (m_df self) / 86400 + m_sf self / 86400000000000"

definition date_ok :: "dat \<Rightarrow> bool" where
  "date_ok self \<longleftrightarrow> c_valid_start_p (dsg self) \<and> (djd self = None \<longrightarrow> dciv self \<noteq> None) \<and>
     - 2 \<le> m_jd self \<and> m_jd self \<le> cm_period + 400 \<and>
     (\<forall>c. dciv self = Some c \<longrightarrow> c_jd_to_civil (m_local_jd self) (virtual_sg (dnth self) (dsg self)) = c) \<and>
     0 \<le> m_df self \<and> m_df self < day_in_seconds \<and> 0 \<le> m_sf self \<and> m_sf self < of_int second_in_nanoseconds \<and>
     - day_in_seconds \<le> m_of self \<and> m_of self \<le> day_in_seconds"

lemma date_okD:
  assumes "date_ok self"
  shows "c_valid_start_p (dsg self)" "- 2 \<le> m_jd self" "m_jd self \<le> cm_period + 400"
    "0 \<le> m_df self" "m_df self < 86400" "0 \<le> m_sf self" "m_sf self < 1000000000" "- 86400 \<le> m_of self" "m_of self \<le> 86400"
  using assms unfolding date_ok_def day_in_seconds_def second_in_nanoseconds_def by simp_all

lemma seat_simps [simp]:
  "dnth (seat n j sg) = n" "m_jd (seat n j sg) = j" "m_df (seat n j sg) = 0" "m_sf (seat n j sg) = 0" "m_of (seat n j sg) = 0"
  "dsg (seat n j sg) = sg" "dciv (seat n j sg) = None" "djd (seat n j sg) = Some j" "dtime (seat n j sg) = None"
  by (simp_all add: seat_def m_jd_def get_s_jd_def m_df_def m_sf_def m_of_def)

lemma new_internal_simps [simp]:
  "dnth (d_new_internal self n j df sf off) = n" "m_jd (d_new_internal self n j df sf off) = j"
  "m_df (d_new_internal self n j df sf off) = df" "m_sf (d_new_internal self n j df sf off) = sf"
  "m_of (d_new_internal self n j df sf off) = off" "dsg (d_new_internal self n j df sf off) = dsg self"
  "dciv (d_new_internal self n j df sf off) = None" "djd (d_new_internal self n j df sf off) = Some j"
  by (simp_all add: d_new_internal_def seat_def m_jd_def get_s_jd_def m_df_def m_sf_def m_of_def)

lemma canonicalize_encode:
  "canonicalize_jd n j = (n', j') \<Longrightarrow> cm_period * n' + j' = cm_period * n + j"
  unfolding canonicalize_jd_def by (auto simp: Let_def algebra_simps split: if_splits)

lemma canonicalize_range:
  assumes "canonicalize_jd n j = (n', j')" "- cm_period - 2 \<le> j" "j \<le> 2 * cm_period + 400"
  shows "- 2 \<le> j'" "j' \<le> cm_period + 400"
  using assms unfolding canonicalize_jd_def by (auto simp: Let_def cm_period_def split: if_splits)

text \<open>A date moved by whole days: all but the day stays.\<close>

definition moved :: "dat \<Rightarrow> int \<Rightarrow> dat \<Rightarrow> bool" where
  "moved self t d \<longleftrightarrow> m_real_jd d = m_real_jd self + t \<and> m_df d = m_df self \<and> m_sf d = m_sf self \<and> m_of d = m_of self \<and>
     dsg d = dsg self \<and> dciv d = None \<and> djd d \<noteq> None \<and>
     (date_ok self \<longrightarrow> - 2 \<le> m_jd d \<and> m_jd d \<le> cm_period + 400)"

lemma moved_internal:
  assumes "cm_period * n + j = m_real_jd self + t" "date_ok self \<Longrightarrow> - 2 \<le> j \<and> j \<le> cm_period + 400"
  shows "moved self t (d_new_internal self n j (m_df self) (m_sf self) (m_of self))"
  using assms unfolding moved_def m_real_jd_def encode_jd by simp

lemma moved_canonical:
  assumes "canonicalize_jd n (m_jd self + r) = (n', j)" "m_real_jd self + t = cm_period * n + m_jd self + r"
    "- cm_period \<le> r" "r < cm_period"
  shows "moved self t (d_new_internal self n' j (m_df self) (m_sf self) (m_of self))"
proof (rule moved_internal)
  show "cm_period * n' + j = m_real_jd self + t" using canonicalize_encode [OF assms(1)] assms(2) by simp
  assume ok: "date_ok self"
  show "- 2 \<le> j \<and> j \<le> cm_period + 400"
    using canonicalize_range [OF assms(1)] date_okD(2,3) [OF ok] assms(3,4) by simp
qed

lemma plus_number: "moved self t (plus_number self t)"
proof -
  define r where "r = t mod cm_period"
  have r: "0 \<le> r" "r < cm_period" and t: "t = cm_period * (t div cm_period) + r"
    unfolding r_def using cm_period_pos by simp_all
  define n where "n = dnth self + t div cm_period"
  have step: "(if t div cm_period \<noteq> 0 then (dnth self + t div cm_period, t mod cm_period) else (dnth self, t)) = (n, r)"
    using t unfolding n_def r_def [symmetric] by (cases "t div cm_period = 0") simp_all
  obtain n' j where c: "canonicalize_jd n (m_jd self + r) = (n', j)" by (cases "canonicalize_jd n (m_jd self + r)") blast
  have real: "m_real_jd self + t = cm_period * n + m_jd self + r"
    unfolding m_real_jd_def encode_jd n_def using t by (simp add: algebra_simps)
  show ?thesis
  proof (cases "r = 0")
    case True
    have "plus_number self t = d_new_internal self n (m_jd self) (m_df self) (m_sf self) (m_of self)"
      unfolding plus_number_def step Let_def split_conv True by simp
    then show ?thesis using moved_internal [of n "m_jd self" self t] real True date_okD(2,3) by simp
  next
    case False
    have "plus_number self t = d_new_internal self n' j (m_df self) (m_sf self) (m_of self)"
      unfolding plus_number_def step Let_def split_conv using False c by simp
    moreover have "- cm_period \<le> r" using r(1) by (simp add: cm_period_def)
    ultimately show ?thesis using moved_canonical [OF c real _ r(2)] by simp
  qed
qed

lemma plus_bigint: "moved self t (plus_bigint self t)"
proof -
  define s :: int where "s = (if t > 0 then 1 else - 1)"
  define a where "a = (if t > 0 then t else - t)"
  define q where "q = a div cm_period"
  define r where "r = a mod cm_period"
  have r: "0 \<le> r" "r < cm_period" and a: "a = cm_period * q + r"
    unfolding r_def q_def using cm_period_pos by simp_all
  have t: "t = cm_period * (s * q) + s * r" using a unfolding s_def a_def by (auto simp: algebra_simps split: if_splits)
  have sr: "- cm_period < s * r" "s * r < cm_period" using r cm_period_pos unfolding s_def by auto
  have total: "(if n = 0 then dnth self else dnth self + n) = dnth self + n" for n by simp
  obtain n' j where c: "canonicalize_jd (s * q) (m_jd self + s * r) = (n', j)"
    by (cases "canonicalize_jd (s * q) (m_jd self + s * r)") blast
  then have c': "canonicalize_jd (dnth self + s * q) (m_jd self + s * r) = (dnth self + n', j)"
    unfolding canonicalize_jd_def by (auto simp: Let_def split: if_splits)
  have real: "m_real_jd self + t = cm_period * (dnth self + s * q) + m_jd self + s * r"
    unfolding m_real_jd_def encode_jd using t by (simp add: algebra_simps)
  have def: "plus_bigint self t = (let (n, jd) = (if s * r = 0 then (s * q, m_jd self) else canonicalize_jd (s * q) (m_jd self + s * r))
      in d_new_internal self (dnth self + n) jd (m_df self) (m_sf self) (m_of self))"
    unfolding plus_bigint_def s_def [symmetric] a_def [symmetric] q_def [symmetric] r_def [symmetric] Let_def total
    by (simp add: a_def [symmetric] s_def [symmetric] q_def [symmetric] r_def [symmetric] split: prod.split)
  show ?thesis
  proof (cases "s * r = 0")
    case True
    have "plus_bigint self t = d_new_internal self (dnth self + s * q) (m_jd self) (m_df self) (m_sf self) (m_of self)"
      unfolding def True Let_def by simp
    then show ?thesis using moved_internal [of "dnth self + s * q" "m_jd self" self t] real True date_okD(2,3) by simp
  next
    case False
    have "plus_bigint self t = d_new_internal self (dnth self + n') j (m_df self) (m_sf self) (m_of self)"
      unfolding def Let_def using False c by simp
    then show ?thesis using moved_canonical [OF c' real _ sr(2)] sr(1) by simp
  qed
qed

lemma plus_int: "moved self t (plus_int self t)"
  unfolding plus_int_def by (simp add: plus_number plus_bigint)

lemma moved_moment: "moved self t d \<Longrightarrow> moment d = moment self + of_int t"
  unfolding moved_def moment_def by simp

lemma moved_ok: "moved self t d \<Longrightarrow> date_ok self \<Longrightarrow> date_ok d"
  unfolding moved_def date_ok_def by auto

lemma moved_local: "moved self t d \<Longrightarrow> jd d = jd self + t"
proof -
  have shift: "jd_utc_to_local j df off = j + jd_utc_to_local 0 df off" for j df off
    unfolding jd_utc_to_local_def Let_def by simp
  assume m: "moved self t d"
  have local: "m_local_jd x = m_jd x + jd_utc_to_local 0 (m_df x) (m_of x)" for x
    unfolding m_local_jd_def shift [of "m_jd x"]
    by (simp add: simple_dat_p_def m_df_def m_of_def jd_utc_to_local_def day_in_seconds_def)
  show ?thesis using m unfolding moved_def m_real_jd_def jd_def encode_jd local [of d] local [of self] by simp
qed

section \<open>Adding a fraction of a day\<close>

text \<open>The carries: a fraction of a second into the seconds, seconds into the days.\<close>

definition carry_sf :: "int \<Rightarrow> rat \<Rightarrow> rat \<Rightarrow> int \<times> rat" where
  "carry_sf df a b = (if a + b < 0 then (df - 1, a + b + of_int second_in_nanoseconds)
     else if a + b \<ge> of_int second_in_nanoseconds then (df + 1, a + b - of_int second_in_nanoseconds) else (df, a + b))"

definition carry_df :: "int \<Rightarrow> int \<Rightarrow> int \<Rightarrow> int \<times> int" where
  "carry_df t a b = (if a + b < 0 then (t - 1, a + b + day_in_seconds)
     else if a + b \<ge> day_in_seconds then (t + 1, a + b - day_in_seconds) else (t, a + b))"

lemma no_carry:
  "0 \<le> a \<Longrightarrow> a < of_int second_in_nanoseconds \<Longrightarrow> carry_sf df a 0 = (df, a)"
  "0 \<le> i \<Longrightarrow> i < day_in_seconds \<Longrightarrow> carry_df t i 0 = (t, i)"
  by (simp_all add: carry_sf_def carry_df_def)

lemma carry_sf:
  assumes "0 \<le> a" "a < 1000000000" "\<bar>b\<bar> < 1000000000" "carry_sf df a b = (df', sf)"
  shows "of_int df' + sf / 1000000000 = of_int df + (a + b) / 1000000000" "0 \<le> sf" "sf < 1000000000" "\<bar>df' - df\<bar> \<le> 1"
  using assms unfolding carry_sf_def second_in_nanoseconds_def by (auto simp: field_simps split: if_splits)

lemma carry_df:
  assumes "0 \<le> a" "a < 86400" "\<bar>b\<bar> \<le> 86400" "carry_df t a b = (t', df)"
  shows "t' * 86400 + df = t * 86400 + a + b" "0 \<le> df" "df < 86400" "\<bar>t' - t\<bar> \<le> 1"
  using assms unfolding carry_df_def day_in_seconds_def by (auto split: if_splits)

text \<open>\<open>plus\<close> for a fraction: split it, then carry.\<close>

definition split_days :: "rat \<Rightarrow> int \<times> int \<times> int \<times> rat" where
  "split_days o' = (let n = \<lfloor>o' / of_int cm_period\<rfloor>; t = o' - of_int (n * cm_period); jd = \<lfloor>t\<rfloor>;
     t = (t - of_int jd) * of_int day_in_seconds; df = \<lfloor>t\<rfloor> in (n, jd, df, (t - of_int df) * of_int second_in_nanoseconds))"

lemma split_days:
  assumes "0 \<le> o'" "split_days o' = (n, j, f, sf)"
  shows "o' = of_int (n * cm_period) + of_int j + of_int f / 86400 + sf / 86400000000000"
    "0 \<le> j" "j < cm_period" "0 \<le> f" "f < 86400" "0 \<le> sf" "sf < 1000000000"
proof -
  define t1 where "t1 = o' - of_int (n * cm_period)"
  define t2 where "t2 = (t1 - of_int j) * of_int day_in_seconds"
  have n: "n = \<lfloor>o' / of_int cm_period\<rfloor>" and j: "j = \<lfloor>t1\<rfloor>" and f: "f = \<lfloor>t2\<rfloor>" and sf: "sf = (t2 - of_int f) * of_int second_in_nanoseconds"
    using assms(2) unfolding split_days_def Let_def t1_def t2_def by auto
  have P: "(0 :: rat) < of_int cm_period" using cm_period_pos by simp
  have "of_int n \<le> o' / of_int cm_period" "o' / of_int cm_period < of_int n + 1" unfolding n by linarith+
  then have t1: "0 \<le> t1" "t1 < of_int cm_period" unfolding t1_def using P by (simp_all add: field_simps)
  have j': "of_int j \<le> t1" "t1 < of_int j + 1" unfolding j by linarith+
  then have t2: "0 \<le> t2" "t2 < 86400" unfolding t2_def day_in_seconds_def by simp_all
  have f': "of_int f \<le> t2" "t2 < of_int f + 1" unfolding f by linarith+
  show "0 \<le> j" unfolding j using t1(1) by simp
  have "of_int j < (of_int cm_period :: rat)" using j'(1) t1(2) by linarith
  then show "j < cm_period" by simp
  show "0 \<le> f" unfolding f using t2(1) by simp
  have "of_int f < (86400 :: rat)" using f'(1) t2(2) by linarith
  then show "f < 86400" by linarith
  show "0 \<le> sf" "sf < 1000000000" unfolding sf second_in_nanoseconds_def using f' by simp_all
  show "o' = of_int (n * cm_period) + of_int j + of_int f / 86400 + sf / 86400000000000"
    unfolding sf t2_def t1_def day_in_seconds_def second_in_nanoseconds_def by (simp add: field_simps)
qed

lemma plus_rational_carry:
  assumes "date_ok self" "q \<noteq> of_int \<lfloor>q\<rfloor>" "s = (if q > 0 then 1 else - 1)"
    "split_days (if q > 0 then q else - q) = (n, j, f, sf)" "carry_sf (s * f) (m_sf self) (of_int s * sf) = (f1, sf1)"
    "carry_df (s * j) (m_df self) f1 = (j2, f2)"
    "(if j2 = 0 then (s * n, m_jd self) else canonicalize_jd (s * n) (m_jd self + j2)) = (n3, j3)"
  shows "plus_rational self q = d_new_internal self (dnth self + n3) j3 f2 sf1 (m_of self)"
proof -
  note ok = date_okD [OF assms(1)]
  have sf: "(if b = 0 then (s * f, m_sf self) else let sf = m_sf self + b in
      if sf < 0 then (s * f - 1, sf + of_int second_in_nanoseconds)
      else if sf \<ge> of_int second_in_nanoseconds then (s * f + 1, sf - of_int second_in_nanoseconds) else (s * f, sf))
    = carry_sf (s * f) (m_sf self) b" for b
    using ok(6,7) no_carry(1) [of "m_sf self" "s * f"] by (simp add: carry_sf_def Let_def second_in_nanoseconds_def)
  have df: "(if b = 0 then (s * j, m_df self) else let df = m_df self + b in
      if df < 0 then (s * j - 1, df + day_in_seconds)
      else if df \<ge> day_in_seconds then (s * j + 1, df - day_in_seconds) else (s * j, df))
    = carry_df (s * j) (m_df self) b" for b
    using ok(4,5) no_carry(2) [of "m_df self" "s * j"] by (simp add: carry_df_def Let_def day_in_seconds_def)
  have total: "(if n3 = 0 then dnth self else dnth self + n3) = dnth self + n3" by simp
  define o' where "o' = (if q > 0 then q else - q)"
  have parts: "n = \<lfloor>o' / of_int cm_period\<rfloor>" "j = \<lfloor>o' - of_int (n * cm_period)\<rfloor>"
    "f = \<lfloor>(o' - of_int (n * cm_period) - of_int j) * of_int day_in_seconds\<rfloor>"
    "sf = ((o' - of_int (n * cm_period) - of_int j) * of_int day_in_seconds - of_int f) * of_int second_in_nanoseconds"
    using assms(4) unfolding split_days_def Let_def o'_def by auto
  show ?thesis
    unfolding plus_rational_def if_not_P [OF assms(2)] assms(3) [symmetric] o'_def [symmetric]
    unfolding Let_def parts [symmetric] split_conv
    unfolding sf [unfolded Let_def] assms(5) split_conv df [unfolded Let_def] assms(6) assms(7) total
    by (rule refl)
qed

lemma plus_rational_moment:
  assumes "date_ok self" "q \<noteq> of_int \<lfloor>q\<rfloor>"
  shows "moment (plus_rational self q) = moment self + q" "date_ok (plus_rational self q)"
    "m_of (plus_rational self q) = m_of self \<and> dsg (plus_rational self q) = dsg self"
proof -
  define s :: int where "s = (if q > 0 then 1 else - 1)"
  define o' where "o' = (if q > 0 then q else - q)"
  obtain n j f sf where split: "split_days o' = (n, j, f, sf)" by (cases "split_days o'") blast
  have "0 \<le> o'" unfolding o'_def by simp
  note parts = split_days [OF this split]
  note ok = date_okD [OF assms(1)]
  obtain f1 sf1 where c1: "carry_sf (s * f) (m_sf self) (of_int s * sf) = (f1, sf1)"
    by (cases "carry_sf (s * f) (m_sf self) (of_int s * sf)") blast
  have s1: "\<bar>of_int s * sf\<bar> < 1000000000" using parts(6,7) unfolding s_def by simp
  note C1 = carry_sf [OF ok(6,7) s1 c1]
  have f1: "\<bar>f1\<bar> \<le> 86400" using C1(4) parts(4,5) unfolding s_def by (auto split: if_splits)
  obtain j2 f2 where c2: "carry_df (s * j) (m_df self) f1 = (j2, f2)" by (cases "carry_df (s * j) (m_df self) f1") blast
  note C2 = carry_df [OF ok(4,5) f1 c2]
  have j2: "- cm_period \<le> j2" "j2 \<le> cm_period" using C2(4) parts(2,3) unfolding s_def by (auto split: if_splits)
  obtain n3 j3 where c3: "(if j2 = 0 then (s * n, m_jd self) else canonicalize_jd (s * n) (m_jd self + j2)) = (n3, j3)"
    by (cases "if j2 = 0 then (s * n, m_jd self) else canonicalize_jd (s * n) (m_jd self + j2)") blast
  have C3: "cm_period * n3 + j3 = cm_period * (s * n) + m_jd self + j2"
    using c3 canonicalize_encode [of "s * n" "m_jd self + j2" n3 j3] by (auto split: if_splits)
  have range: "- 2 \<le> j3" "j3 \<le> cm_period + 400"
    using c3 canonicalize_range [of "s * n" "m_jd self + j2" n3 j3] ok(2,3) j2 by (auto split: if_splits)
  have def: "plus_rational self q = d_new_internal self (dnth self + n3) j3 f2 sf1 (m_of self)"
    by (rule plus_rational_carry [OF assms s_def split [unfolded o'_def] c1 c2 c3])
  have q: "q = of_int s * o'" unfolding s_def o'_def by simp
  have seconds: "(of_int j2 :: rat) * 86400 + of_int f2 = of_int (s * j) * 86400 + of_int (m_df self) + of_int f1"
    using arg_cong [OF C2(1), of "of_int :: int \<Rightarrow> rat"] by simp
  have real: "of_int (cm_period * (dnth self + n3) + j3) = (of_int (m_real_jd self) + of_int (cm_period * (s * n) + j2) :: rat)"
    using C3 unfolding m_real_jd_def encode_jd by (simp add: algebra_simps flip: of_int_add)
  have "moment (plus_rational self q) = of_int (cm_period * (dnth self + n3) + j3) + of_int f2 / 86400 + sf1 / 86400000000000"
    unfolding def moment_def m_real_jd_def encode_jd by simp
  also have "\<dots> = of_int (m_real_jd self) + of_int (cm_period * (s * n)) + (of_int j2 * 86400 + of_int f2 + sf1 / 1000000000) / 86400"
    unfolding real by (simp add: field_simps)
  also have "of_int j2 * 86400 + of_int f2 + sf1 / 1000000000 =
      of_int (s * j) * 86400 + of_int (m_df self) + (of_int (s * f) + (m_sf self + of_int s * sf) / 1000000000)"
    using seconds C1(1) by linarith
  also have "of_int (m_real_jd self) + of_int (cm_period * (s * n)) + \<dots> / 86400 =
      moment self + of_int s * (of_int (n * cm_period) + of_int j + of_int f / 86400 + sf / 86400000000000)"
    unfolding moment_def by (simp add: field_simps)
  finally show "moment (plus_rational self q) = moment self + q" unfolding q parts(1) .
  show "m_of (plus_rational self q) = m_of self \<and> dsg (plus_rational self q) = dsg self" unfolding def by simp
  show "date_ok (plus_rational self q)"
    unfolding date_ok_def def using range C2(2,3) C1(2,3) ok by (simp add: day_in_seconds_def second_in_nanoseconds_def)
qed

text \<open> C36. Adding a whole number or a fraction of days to a date, forwards or backwards and of any size, moves
  the moment it stands for by exactly that much, to the fraction of a nanosecond, keeps the offset and the
  start, and leaves a date whose fields are in range: the carries between fractions, seconds, days and
  periods neither lose nor invent time.\<close>

theorem plus_moves_the_moment:
  assumes "date_ok self"
  shows "moment (plus_rational self q) = moment self + q \<and> date_ok (plus_rational self q) \<and>
    m_of (plus_rational self q) = m_of self \<and> dsg (plus_rational self q) = dsg self"
proof (cases "q = of_int \<lfloor>q\<rfloor>")
  case True
  then have d: "plus_rational self q = plus_int self \<lfloor>q\<rfloor>" by (simp add: plus_rational_def)
  note m = plus_int [of self "\<lfloor>q\<rfloor>"]
  show ?thesis
    unfolding d using moved_moment [OF m] moved_ok [OF m assms] True m by (simp add: moved_def)
next
  case False
  with plus_rational_moment [OF assms False] show ?thesis by blast
qed

theorem plus_moves_the_moment_witness:
  "moment (plus_rational (seat 0 2459000 italy) (- 7 / 3)) = moment (seat 0 2459000 italy) + - 7 / 3 \<and>
    date_ok (plus_rational (seat 0 2459000 italy) (- 7 / 3)) \<and>
    m_of (plus_rational (seat 0 2459000 italy) (- 7 / 3)) = m_of (seat 0 2459000 italy) \<and>
    dsg (plus_rational (seat 0 2459000 italy) (- 7 / 3)) = dsg (seat 0 2459000 italy)"
proof (rule plus_moves_the_moment)
  show "date_ok (seat 0 2459000 italy)"
    by (simp add: date_ok_def c_valid_start_p_def italy_def reform_begin_jd_def reform_end_jd_def cm_period_def
        day_in_seconds_def second_in_nanoseconds_def)
qed

end
