(* ===== verification/Date_Readers.thy ===== *)
theory Date_Readers
  imports Date_Moves
begin

text \<open>
  What the readers and the constructor of \<open>Date\<close> say: the year, month, day, weekday and week of a
  date are those of its day number in the calendar without periods, and a date made from a year,
  month and day reads back as these.
\<close>

section \<open>Readers\<close>

lemma virtual_style: "n \<noteq> 0 \<Longrightarrow> virtual_sg n sg = Julian \<or> virtual_sg n sg = Gregorian"
  by (cases sg) (simp_all add: virtual_sg_def)

lemma virtual_zero: "virtual_sg 0 sg = sg"
  by (cases sg) (simp_all add: virtual_sg_def)

lemma local_range: "date_ok self \<Longrightarrow> - 3 \<le> m_local_jd self \<and> m_local_jd self \<le> cm_period + 401"
proof -
  assume ok: "date_ok self"
  have "m_jd self - 1 \<le> m_local_jd self" "m_local_jd self \<le> m_jd self + 1"
    by (simp_all add: m_local_jd_def jd_utc_to_local_def Let_def)
  with date_okD(2,3) [OF ok] show ?thesis by linarith
qed

lemma civil_of_date:
  assumes "date_ok self"
  shows "civil_of_date self = c_jd_to_civil (m_local_jd self) (virtual_sg (dnth self) (dsg self))"
  using assms unfolding date_ok_def civil_of_date_def get_c_civil_def by (cases "dciv self") (simp_all add: Let_def)

text \<open>The virtual start is the start, for the days the period stands for.\<close>

lemma virtual_decode:
  assumes "date_ok self"
  shows "c_jd_to_civil (jd self) (virtual_sg (dnth self) (dsg self)) = c_jd_to_civil (jd self) (dsg self)"
proof (cases "dnth self = 0")
  case True
  then show ?thesis by (simp add: virtual_zero)
next
  case nz: False
  note range = local_range [OF assms]
  show ?thesis
  proof (cases "dsg self")
    case (Reform s)
    have s: "2298874 \<le> s" "s \<le> 2426355"
      using date_okD(1) [OF assms] unfolding Reform c_valid_start_p_def reform_begin_jd_def reform_end_jd_def by simp_all
    have day: "jd self = cm_period * dnth self + m_local_jd self" unfolding jd_def encode_jd ..
    consider "dnth self \<le> - 1" | "1 \<le> dnth self" using nz by linarith
    then show ?thesis
    proof cases
      case 1
      then have "cm_period * dnth self \<le> cm_period * - 1" using cm_period_pos by (intro mult_left_mono) simp_all
      then have "jd self < s" using day range s by simp
      moreover have "virtual_sg (dnth self) (dsg self) = Julian" using 1 by (simp add: virtual_sg_def Reform)
      ultimately show ?thesis unfolding jd_to_civil_cases [of "jd self" "dsg self"] by (simp add: Reform)
    next
      case 2
      then have "cm_period * 1 \<le> cm_period * dnth self" using cm_period_pos by (intro mult_left_mono) simp_all
      then have "s \<le> jd self" using day range s by (simp add: cm_period_def)
      moreover have "virtual_sg (dnth self) (dsg self) = Gregorian" using 2 by (simp add: virtual_sg_def Reform)
      ultimately show ?thesis unfolding jd_to_civil_cases [of "jd self" "dsg self"] by (simp add: Reform)
    qed
  qed (simp_all add: virtual_sg_def)
qed

lemma style_flag:
  assumes "dnth self \<noteq> 0"
  shows "is_gregorian self \<longleftrightarrow> virtual_sg (dnth self) (dsg self) = Gregorian"
  using virtual_style [OF assms, of "dsg self"] unfolding is_gregorian_def is_julian_def m_julian_p_def by auto

lemma year_in_period:
  assumes "dnth self \<noteq> 0"
  shows "encode_year (dnth self) y (is_gregorian self) =
    y + (if virtual_sg (dnth self) (dsg self) = Gregorian then cm_period_gcy else cm_period_jcy) * dnth self"
  unfolding encode_year year_period_def style_flag [OF assms] by simp

lemma read_civil:
  assumes "date_ok self"
  shows "(year self, mon self, mday self) = c_jd_to_civil (jd self) (dsg self)"
proof -
  let ?v = "virtual_sg (dnth self) (dsg self)"
  have day: "jd self = m_local_jd self + cm_period * dnth self" unfolding jd_def encode_jd by simp
  obtain y m d where c: "civil_of_date self = (y, m, d)" by (cases "civil_of_date self") blast
  note c' = c [unfolded civil_of_date [OF assms]]
  have "(year self, m, d) = c_jd_to_civil (jd self) ?v"
  proof (cases "dnth self = 0")
    case True
    then have "year self = y" unfolding year_def c by simp
    then show ?thesis using c' unfolding day True by simp
  next
    case False
    then have year: "year self = encode_year (dnth self) y (is_gregorian self)" unfolding year_def c by simp
    from virtual_style [OF False, of "dsg self"] show ?thesis
    proof
      assume v: "?v = Julian"
      show ?thesis unfolding year year_in_period [OF False] day v using c' [unfolded v] by (simp add: julian.decode_shift)
    next
      assume v: "?v = Gregorian"
      show ?thesis unfolding year year_in_period [OF False] day v using c' [unfolded v] by (simp add: gregorian.decode_shift)
    qed
  qed
  then show ?thesis unfolding mon_def mday_def c virtual_decode [OF assms] by simp
qed

lemma read_ordinal: "snd (c_jd_to_ordinal (jd self) (virtual_sg (dnth self) (dsg self))) = yday self"
proof -
  have day: "jd self = m_local_jd self + cm_period * dnth self" unfolding jd_def encode_jd by simp
  show ?thesis
  proof (cases "dnth self = 0")
    case True
    then show ?thesis unfolding day yday_def by simp
  next
    case False
    from virtual_style [OF this, of "dsg self"] show ?thesis
      unfolding day yday_def by (auto simp: julian.ordinal_decode gregorian.ordinal_decode split: prod.split)
  qed
qed

lemma read_week:
  "c_jd_to_commercial (jd self) (virtual_sg (dnth self) (dsg self)) = (cwyear self, cweek self, cwday self)"
proof -
  let ?v = "virtual_sg (dnth self) (dsg self)"
  have day: "jd self = m_local_jd self + cm_period * dnth self" unfolding jd_def encode_jd by simp
  obtain y w d where c: "c_jd_to_commercial (m_local_jd self) ?v = (y, w, d)" by (cases "c_jd_to_commercial (m_local_jd self) ?v") blast
  have d: "d = cwday self"
    using c unfolding jd_to_commercial cwday_def wday_def c_jd_to_wday_def Let_def by auto
  show ?thesis
  proof (cases "dnth self = 0")
    case True
    then show ?thesis unfolding day cwyear_def cweek_def using c d by simp
  next
    case False
    then have year: "cwyear self = encode_year (dnth self) y (is_gregorian self)" unfolding cwyear_def c by simp
    from virtual_style [OF False, of "dsg self"] show ?thesis
    proof
      assume v: "?v = Julian"
      show ?thesis unfolding year year_in_period [OF False] cweek_def v unfolding day
        using c [unfolded v] d by (simp add: julian.week_decode)
    next
      assume v: "?v = Gregorian"
      show ?thesis unfolding year year_in_period [OF False] cweek_def v unfolding day
        using c [unfolded v] d by (simp add: gregorian.week_decode)
    qed
  qed
qed

section \<open>Made from a year, month and day\<close>

lemma plain_val2sg: "plain_start sg \<Longrightarrow> val2sg sg = sg"
  using plain_valid [of sg] by (simp add: val2sg_def)

lemma seat_ok:
  assumes "c_valid_start_p sg" "- 2 \<le> j" "j \<le> cm_period + 400"
  shows "date_ok (seat n j sg)" "jd (seat n j sg) = cm_period * n + j"
  using assms by (simp_all add: date_ok_def day_in_seconds_def second_in_nanoseconds_def jd_def encode_jd m_local_jd_def simple_dat_p_def)

lemma decode_year_range:
  assumes "decode_year y g = (n, ry)"
  shows "- 4712 \<le> ry" "ry < year_period g - 4712"
  using assms pos_mod_sign [of "year_period g" "y + 4712"] pos_mod_bound [of "year_period g" "y + 4712"]
  unfolding decode_year by (auto simp: year_period_def cm_period_gcy_def cm_period_jcy_def)

lemma period_days:
  "civil_date Julian (- 4712) 1 1 0" "civil_date Gregorian (- 4712) 1 1 38"
  "civil_date Julian 579676 1 1 213447717" "civil_date Gregorian 579688 1 1 213447755"
  unfolding civil_date_decode by code_simp+

lemma day_in_period:
  assumes "style = Julian \<or> style = Gregorian" "decode_year y (style = Gregorian) = (n, ry)" "civil_date style ry m d j"
  shows "0 \<le> j" "j \<le> cm_period + 38"
proof -
  note range = decode_year_range [OF assms(2)]
  have "0 \<le> j \<and> j \<le> cm_period + 38"
    using assms(1)
  proof
    assume s: "style = Julian"
    have "\<not> j < 0" using civil_day_below [OF assms(1,3), of "- 4712" 0] period_days(1) range s by simp
    moreover have "j < 213447717"
      using civil_day_below [OF assms(1,3), of 579676 213447717] period_days(3) range s
      by (simp add: year_period_def cm_period_jcy_def)
    ultimately show ?thesis by (simp add: cm_period_def)
  next
    assume s: "style = Gregorian"
    have "\<not> j < 38" using civil_day_below [OF assms(1,3), of "- 4712" 38] period_days(2) range s by simp
    moreover have "j < 213447755"
      using civil_day_below [OF assms(1,3), of 579688 213447755] period_days(4) range s
      by (simp add: year_period_def cm_period_gcy_def)
    ultimately show ?thesis by (simp add: cm_period_def)
  qed
  then show "0 \<le> j" "j \<le> cm_period + 38" by blast+
qed

text \<open>The day \<open>valid_civil_p\<close> returns, when it returns one.\<close>

lemma valid_civil_range:
  assumes "valid_civil_p y m d sg = Some (n, j)"
  shows "0 \<le> j" "j \<le> cm_period + 38"
proof -
  have "0 \<le> j \<and> j \<le> cm_period + 38"
  proof (cases "guess_style y sg")
    case None
    then have "\<exists>x. decode_jd x = (n, j)" using assms unfolding valid_civil_by_table by auto
    then obtain x where "j = x mod cm_period" unfolding decode_jd by blast
    then show ?thesis using pos_mod_sign [OF cm_period_pos, of x] pos_mod_bound [OF cm_period_pos, of x] by simp
  next
    case (Some style)
    note style = guess_style_some [OF Some]
    obtain n' ry where dec: "decode_year y (style = Gregorian) = (n', ry)" by (cases "decode_year y (style = Gregorian)") blast
    obtain rm rd where r: "valid_by_table style ry m d = Some (rm, rd)" "j = c_civil_to_jd ry rm rd style"
      using assms Some dec by (auto simp: valid_civil_p_def valid_by_table_def)
    then have "civil_date style ry rm rd j"
      unfolding civil_date_style [OF style] valid_by_table_def c_valid_gregorian_p_def c_valid_julian_p_def length_of_month_def
      by (auto simp: Let_def split: if_splits)
    from day_in_period [OF style dec this] show ?thesis by simp
  qed
  then show "0 \<le> j" "j \<le> cm_period + 38" by blast+
qed

lemma valid_gregorian_day:
  assumes "guess_style y sg = Some Gregorian"
  shows "valid_civil_p y m d sg = map_option (\<lambda>(n, ry, rm, rd). (n, c_civil_to_jd ry rm rd Gregorian)) (valid_gregorian_p y m d)"
  unfolding valid_civil_p_def valid_gregorian_p_def assms by (auto simp: option.map_comp o_def split_def)

text \<open>Where the Gregorian calendar is guessed, the virtual start reads the day as Gregorian.\<close>

lemma gregorian_virtual:
  assumes "plain_start sg" "guess_style y sg = Some Gregorian" "decode_year y True = (n, ry)" "civil_date Gregorian ry m d j"
  shows "c_civil_to_jd ry m d (virtual_sg n sg) = j" "c_jd_to_civil j (virtual_sg n sg) = (ry, m, d)"
proof -
  have j: "j = c_civil_to_jd ry m d Gregorian" "c_jd_to_civil j Gregorian = (ry, m, d)"
    using assms(4) by (simp_all add: civil_date_style civil_date_decode [symmetric])
  have "\<not> before j (virtual_sg n sg)"
  proof (cases sg)
    case Julian
    then show ?thesis using assms(2) by (simp add: guess_style_def)
  next
    case Gregorian
    then show ?thesis by (simp add: virtual_sg_def)
  next
    case (Reform s)
    with assms(1) have s: "s \<le> 2426343" by (simp add: plain_start_def)
    have y: "1930 < y"
      using assms(2) unfolding Reform guess_style_def fixnum_p_def max_safe_integer_def reform_begin_year_def reform_end_year_def
      by (auto split: if_splits)
    show ?thesis
    proof (cases "n = 0")
      case True
      then have "ry = y" using decode_encode_year [OF assms(3)] by simp
      then have "2426343 \<le> j" using civil_day_below [OF _ assms(4) boundary_days(4)] y by simp
      with s True show ?thesis by (simp add: Reform virtual_sg_def)
    next
      case False
      have "0 \<le> n" using assms(3) y unfolding decode_year
        by (auto intro!: pos_imp_zdiv_nonneg_iff [THEN iffD2] simp: year_period_def cm_period_gcy_def)
      with False show ?thesis by (simp add: Reform virtual_sg_def)
    qed
  qed
  then show "c_civil_to_jd ry m d (virtual_sg n sg) = j" "c_jd_to_civil j (virtual_sg n sg) = (ry, m, d)"
    unfolding civil_to_jd_cases [of ry m d "virtual_sg n sg"] jd_to_civil_cases [of j "virtual_sg n sg"] using j by simp_all
qed

lemma date_new_day:
  assumes "plain_start sg" "date_new y m d sg = Some dt"
  shows "date_ok dt \<and> dsg dt = sg \<and> dtime dt = None \<and> rt_valid_civil_p y m d sg = Some (jd dt)"
proof -
  have sg: "val2sg sg = sg" "c_valid_start_p sg" using plain_val2sg plain_valid assms(1) by blast+
  show ?thesis
  proof (cases "guess_style y sg = Some Gregorian")
    case True
    then obtain n ry rm rd where v: "valid_gregorian_p y m d = Some (n, ry, rm, rd)"
      and dt: "dt = \<lparr>dnth = n, djd = None, dciv = Some (ry, rm, rd), dsg = sg, dtime = None\<rparr>"
      using assms(2) unfolding date_new_def sg by (auto simp: Let_def split: option.splits)
    have dec: "decode_year y True = (n, ry)" and t: "c_valid_gregorian_p ry m d = Some (rm, rd)"
      using v unfolding valid_gregorian_p_def by (auto split: prod.splits)
    define j where "j = c_civil_to_jd ry rm rd Gregorian"
    have date: "civil_date Gregorian ry rm rd j"
      using t unfolding civil_date_style [OF disjI2 [OF refl]] c_valid_gregorian_p_def length_of_month_def j_def
      by (auto simp: Let_def split: if_splits)
    note virtual = gregorian_virtual [OF assms(1) True dec date]
    have mjd: "m_jd dt = j" unfolding dt m_jd_def get_s_jd_def using virtual(1) by (simp add: Let_def)
    have local: "m_local_jd dt = j" unfolding m_local_jd_def mjd by (simp add: simple_dat_p_def dt)
    have range: "0 \<le> j" "j \<le> cm_period + 38"
      using day_in_period [of Gregorian y n ry, OF _ _ date] dec by simp_all
    have "date_ok dt"
      unfolding date_ok_def mjd local using sg(2) range virtual(2)
      by (simp add: dt m_df_def m_sf_def m_of_def day_in_seconds_def second_in_nanoseconds_def)
    moreover have "rt_valid_civil_p y m d sg = Some (jd dt)"
      unfolding rt_valid_civil_p_def valid_gregorian_day [OF True] v encoded_def jd_def local
      by (simp add: j_def dt)
    ultimately show ?thesis by (simp add: dt)
  next
    case False
    then obtain n j where v: "valid_civil_p y m d sg = Some (n, j)" and dt: "dt = seat n j sg"
      using assms(2) unfolding date_new_def sg by (auto simp: Let_def split: option.splits)
    have "- 2 \<le> j" "j \<le> cm_period + 400" using valid_civil_range [OF v] by simp_all
    note seat = seat_ok [OF sg(2) this, of n]
    have "rt_valid_civil_p y m d sg = Some (jd dt)"
      unfolding rt_valid_civil_p_def v encoded_def dt seat(2) by (simp add: encode_jd)
    with seat show ?thesis by (simp add: dt)
  qed
qed

lemma date_new_none: "plain_start sg \<Longrightarrow> date_new y m d sg = None \<longleftrightarrow> rt_valid_civil_p y m d sg = None"
  using valid_gregorian_day [of y sg m d] plain_val2sg [of sg]
  by (auto simp: date_new_def rt_valid_civil_p_def encoded_def Let_def split: option.splits)

text \<open> A date made from a year, month and day exists exactly when the calendar has the date, and then its
  fields are in range and its readers give back the year, month and day, and the day of the calendar,
  for years of any size and both ways the constructor stores a date.\<close>

theorem made_dates_read_back:
  assumes "plain_start sg" "1 \<le> m" "0 \<le> d"
  shows "case date_new y m d sg of
      None \<Rightarrow> \<not> (\<exists>j. civil_date sg y m d j)
    | Some dt \<Rightarrow> date_ok dt \<and> civil_date sg y m d (jd dt) \<and> (year dt, mon dt, mday dt) = (y, m, d)"
proof (cases "date_new y m d sg")
  case None
  then have "rt_valid_civil_p y m d sg = None" unfolding date_new_none [OF assms(1)] .
  then have "\<not> civil_date sg y m d j" for j unfolding rt_valid_civil_exact [OF assms, symmetric] by simp
  then show ?thesis unfolding None option.case by blast
next
  case (Some dt)
  note new = date_new_day [OF assms(1) Some]
  then have date: "civil_date sg y m d (jd dt)" using rt_valid_civil_exact [OF assms] by blast
  have "(year dt, mon dt, mday dt) = c_jd_to_civil (jd dt) (dsg dt)" by (rule read_civil) (use new in blast)
  also have "dsg dt = sg" using new by blast
  also have "c_jd_to_civil (jd dt) sg = (y, m, d)" using date unfolding civil_date_decode .
  finally show ?thesis unfolding Some option.case using new date by blast
qed

theorem made_dates_read_back_witness:
  "case date_new 1582 10 5 italy of
      None \<Rightarrow> \<not> (\<exists>j. civil_date italy 1582 10 5 j)
    | Some dt \<Rightarrow> date_ok dt \<and> civil_date italy 1582 10 5 (jd dt) \<and> (year dt, mon dt, mday dt) = (1582, 10, 5)"
  by (rule made_dates_read_back) code_simp+

end
