(* ===== verification/Date_Months.thy ===== *)
theory Date_Months
  imports Date_Readers
begin

text \<open>
  Moving by months, comparing, subtracting and counting dates: \<open>rshift\<close>, \<open>cmp\<close>, \<open>minusDd\<close> and the
  enumerators of \<open>upto\<close> and \<open>downto\<close>.
\<close>

section \<open>Months\<close>

definition clipped :: "start \<Rightarrow> int \<Rightarrow> int \<Rightarrow> int \<Rightarrow> (int \<times> int) option \<Rightarrow> bool" where
  "clipped sg y m d r = (case r of
      None \<Rightarrow> \<not> (\<exists>i j. i \<le> d \<and> civil_date sg y m i j)
    | Some (n, j) \<Rightarrow> \<exists>k \<le> d. civil_date sg y m k (encode_jd n j) \<and> \<not> (\<exists>i j. k < i \<and> i \<le> d \<and> civil_date sg y m i j))"

lemma clipped_pred:
  assumes "\<And>j. \<not> civil_date sg y m d j"
  shows "clipped sg y m (d - 1) r \<longleftrightarrow> clipped sg y m d r"
proof -
  have le: "i \<le> d - 1 \<and> civil_date sg y m i j \<longleftrightarrow> i \<le> d \<and> civil_date sg y m i j" for i j
    using assms [of j] by (cases "i = d") auto
  show ?thesis
    unfolding clipped_def using le by (auto split: option.split prod.split)
qed

lemma clip_day_clipped:
  assumes "plain_start sg" "1 \<le> m" "1 \<le> d"
  shows "clipped sg y m d (clip_day y m d sg)"
  using assms
proof (induction y m d sg rule: clip_day.induct)
  case (1 y m d sg)
  note exact = rt_valid_civil_exact [OF 1(2,3), of d y]
  show ?case
  proof (cases "valid_civil_p y m d sg")
    case (Some r)
    obtain n j where r: "r = (n, j)" by (cases r) blast
    have "civil_date sg y m d (encode_jd n j)"
      using exact [of "encode_jd n j"] 1(4) Some unfolding rt_valid_civil_p_def encoded_def r by simp
    then show ?thesis unfolding clip_day.simps [of y m d sg] Some r clipped_def by auto
  next
    case None
    then have no: "\<not> civil_date sg y m d j" for j
      using exact [of j] 1(4) unfolding rt_valid_civil_p_def encoded_def by simp
    show ?thesis
    proof (cases "d - 1 < 1")
      case True
      have "\<not> civil_date sg y m i j" if "i \<le> d" for i j
        using civil_date_range [of sg y m i j] no [of j] that True by (cases "i = d") auto
      then show ?thesis unfolding clip_day.simps [of y m d sg] None clipped_def using True by simp
    next
      case False
      then have "clipped sg y m (d - 1) (clip_day y m (d - 1) sg)" using 1(1) [OF None False 1(2,3)] by simp
      then show ?thesis unfolding clip_day.simps [of y m d sg] None clipped_pred [OF no] using False by simp
    qed
  qed
qed

text \<open> C38. Adding months, forwards or backwards, lands in the month that many months away, on the same day of
  the month or, where that month has no such day, on its last day before it, a month cut by the reform
  included, and keeps the time of day; it fails exactly when that month has no day up to the day.\<close>

theorem months_move_by_months:
  assumes "date_ok self" "plain_start (dsg self)"
  shows "let t = year self * 12 + (mon self - 1) + n in
    case rshift self n of
      None \<Rightarrow> \<not> (\<exists>i j. i \<le> mday self \<and> civil_date (dsg self) (t div 12) (t mod 12 + 1) i j)
    | Some r \<Rightarrow> date_ok r \<and> year r * 12 + (mon r - 1) = t \<and> mday r \<le> mday self \<and>
        \<not> (\<exists>i j. mday r < i \<and> i \<le> mday self \<and> civil_date (dsg self) (year r) (mon r) i j) \<and>
        m_df r = m_df self \<and> m_sf r = m_sf self \<and> m_of r = m_of self \<and> dsg r = dsg self"
proof -
  define t where "t = year self * 12 + (mon self - 1) + n"
  define y where "y = t div 12"
  define m where "m = t mod 12 + 1"
  have m: "1 \<le> m" unfolding m_def by simp
  have tm: "y * 12 + (m - 1) = t" unfolding y_def m_def by simp
  have "civil_date (dsg self) (year self) (mon self) (mday self) (jd self)"
    using read_civil [OF assms(1)] unfolding civil_date_decode by simp
  then have d: "1 \<le> mday self" using civil_date_range by blast
  note clip = clip_day_clipped [OF assms(2) m d, of y]
  have shift: "rshift self n = (case clip_day y m (mday self) (dsg self) of None \<Rightarrow> None
      | Some (n, rjd) \<Rightarrow> Some (plus_int self (encode_jd n rjd - jd self)))"
    unfolding rshift_def t_def [symmetric] y_def m_def Let_def by (rule refl)
  show ?thesis
  proof (cases "clip_day y m (mday self) (dsg self)")
    case None
    then have s: "rshift self n = None" unfolding shift by simp
    show ?thesis using clip
      unfolding None clipped_def t_def [symmetric] Let_def y_def [symmetric] m_def [symmetric] s by simp
  next
    case (Some c)
    obtain cn cj where c: "c = (cn, cj)" by (cases c) blast
    define r where "r = plus_int self (encode_jd cn cj - jd self)"
    have s: "rshift self n = Some r" unfolding shift Some c r_def by simp
    note move = plus_int [of self "encode_jd cn cj - jd self", folded r_def]
    have ok: "date_ok r" by (rule moved_ok [OF move assms(1)])
    have jd: "jd r = encode_jd cn cj" using moved_local [OF move] by simp
    have same: "m_df r = m_df self \<and> m_sf r = m_sf self \<and> m_of r = m_of self \<and> dsg r = dsg self"
      using move unfolding moved_def by blast
    obtain k where k: "k \<le> mday self" "civil_date (dsg self) y m k (encode_jd cn cj)"
      "\<not> (\<exists>i j. k < i \<and> i \<le> mday self \<and> civil_date (dsg self) y m i j)"
      using clip unfolding Some c clipped_def by auto
    have "(year r, mon r, mday r) = c_jd_to_civil (jd r) (dsg r)" by (rule read_civil [OF ok])
    also have "\<dots> = (y, m, k)" using k(2) same unfolding civil_date_decode jd by simp
    finally have ymk: "year r = y" "mon r = m" "mday r = k" by simp_all
    show ?thesis unfolding s Let_def option.case t_def [symmetric] ymk using ok same k(1,3) tm by blast
  qed
qed

theorem months_move_by_months_witness:
  "let t = year (seat 0 2460341 italy) * 12 + (mon (seat 0 2460341 italy) - 1) + 1 in
    case rshift (seat 0 2460341 italy) 1 of
      None \<Rightarrow> \<not> (\<exists>i j. i \<le> mday (seat 0 2460341 italy) \<and> civil_date (dsg (seat 0 2460341 italy)) (t div 12) (t mod 12 + 1) i j)
    | Some r \<Rightarrow> date_ok r \<and> year r * 12 + (mon r - 1) = t \<and> mday r \<le> mday (seat 0 2460341 italy) \<and>
        \<not> (\<exists>i j. mday r < i \<and> i \<le> mday (seat 0 2460341 italy) \<and> civil_date (dsg (seat 0 2460341 italy)) (year r) (mon r) i j) \<and>
        m_df r = m_df (seat 0 2460341 italy) \<and> m_sf r = m_sf (seat 0 2460341 italy) \<and> m_of r = m_of (seat 0 2460341 italy) \<and>
        dsg r = dsg (seat 0 2460341 italy)"
proof (rule months_move_by_months)
  show "date_ok (seat 0 2460341 italy)" by (rule seat_ok) code_simp+
  show "plain_start (dsg (seat 0 2460341 italy))" by code_simp
qed

section \<open>Order\<close>

lemma compare_digit:
  fixes x x' w :: rat
  assumes "0 \<le> x" "x < w" "0 \<le> x'" "x' < w"
  shows "compare_keys a a' (compare_keys x x' 0) = compare_keys (of_int a * w + x) (of_int a' * w + x') 0"
proof -
  have w: "0 < w" using assms by simp
  have less: "of_int i * w + u < of_int i' * w + u'" if "i < i'" "u < w" "0 \<le> u'" for i i' u u'
  proof -
    have "of_int (i + 1) * w \<le> of_int i' * w" using that(1) w by (intro mult_right_mono) (simp_all flip: of_int_add)
    then show ?thesis using that(2,3) by (simp add: distrib_right)
  qed
  consider "a < a'" | "a = a'" | "a' < a" by linarith
  then show ?thesis
  proof cases
    case 1
    from less [OF this assms(2,3)] 1 show ?thesis unfolding compare_keys_def by simp
  next
    case 2
    then show ?thesis unfolding compare_keys_def by simp
  next
    case 3
    from less [OF this assms(4,1)] 3 show ?thesis unfolding compare_keys_def by auto
  qed
qed

lemma compare_scaled: "0 < c \<Longrightarrow> compare_keys (x / c) (y / c) 0 = compare_keys x (y :: rat) 0"
  unfolding compare_keys_def by (simp add: divide_less_cancel)

lemma canonical:
  assumes "date_ok self"
  defines "a \<equiv> m_canonicalize_jd self"
  shows "m_real_jd a = m_real_jd self" "0 \<le> m_jd a" "m_jd a < cm_period" "m_df a = m_df self" "m_sf a = m_sf self"
    "m_of a = m_of self" "dsg a = dsg self" "jd a = jd self" "date_ok a"
proof -
  obtain n j where c: "canonicalize_jd (dnth self) (m_jd self) = (n, j)" by (cases "canonicalize_jd (dnth self) (m_jd self)") blast
  have a: "a = self\<lparr>dnth := n, djd := Some j, dciv := (if j \<noteq> m_jd self then None else dciv self)\<rparr>"
    unfolding a_def m_canonicalize_jd_def Let_def c split_conv by (rule refl)
  have mjd: "m_jd a = j" unfolding a m_jd_def get_s_jd_def by simp
  note range = date_okD(2,3) [OF assms(1)]
  have j: "0 \<le> j" "j < cm_period"
    using c range unfolding canonicalize_jd_def by (auto simp: Let_def cm_period_def split: if_splits)
  show "0 \<le> m_jd a" "m_jd a < cm_period" unfolding mjd by (fact j)+
  show real: "m_real_jd a = m_real_jd self"
    unfolding m_real_jd_def encode_jd mjd using canonicalize_encode [OF c] by (simp add: a)
  show same: "m_df a = m_df self" "m_sf a = m_sf self" "m_of a = m_of self" "dsg a = dsg self"
    by (simp_all add: a m_df_def m_sf_def m_of_def)
  have local: "m_local_jd x = m_jd x + jd_utc_to_local 0 (m_df x) (m_of x)" for x
    by (simp add: m_local_jd_def simple_dat_p_def m_df_def m_of_def jd_utc_to_local_def day_in_seconds_def Let_def)
  show "jd a = jd self"
    using real unfolding jd_def encode_jd m_real_jd_def local same by simp
  have civ: "c_jd_to_civil (m_local_jd a) (virtual_sg (dnth a) (dsg a)) = c" if civ: "dciv a = Some c" for c
  proof -
    have j': "j = m_jd self" and c': "dciv self = Some c" using civ by (auto simp: a split: if_splits)
    then have n: "n = dnth self" using canonicalize_encode [OF c] cm_period_pos by simp
    have "m_local_jd a = m_local_jd self" unfolding local mjd same j' ..
    then show ?thesis using assms(1) c' unfolding date_ok_def same by (simp add: a n)
  qed
  show "date_ok a"
    unfolding date_ok_def same mjd using assms(1) j civ by (simp add: date_ok_def a cm_period_def)
qed

lemma moment_digits:
  "moment a = (of_int (dnth a) * (of_int cm_period * 86400000000000) +
      (of_int (m_jd a) * 86400000000000 + (of_int (m_df a) * 1000000000 + m_sf a))) / 86400000000000"
  unfolding moment_def m_real_jd_def encode_jd by (simp add: field_simps)

lemma compare_moments:
  assumes "0 \<le> m_jd a" "m_jd a < cm_period" "0 \<le> m_jd b" "m_jd b < cm_period" "date_ok a" "date_ok b"
  shows "compare_keys (dnth a) (dnth b) (compare_keys (m_jd a) (m_jd b)
      (compare_keys (m_df a) (m_df b) (compare_keys (m_sf a) (m_sf b) 0))) = compare_keys (moment a) (moment b) 0"
proof -
  have sub: "0 \<le> of_int (m_df x) * 1000000000 + m_sf x \<and> of_int (m_df x) * 1000000000 + m_sf x < 86400000000000"
    if "date_ok x" for x
  proof -
    have "0 \<le> m_df x" "m_df x \<le> 86399" using date_okD(4,5) [OF that] by linarith+
    then have "(0 :: rat) \<le> of_int (m_df x)" "(of_int (m_df x) :: rat) \<le> 86399" by linarith+
    with date_okD(6,7) [OF that] show ?thesis by linarith
  qed
  have day: "0 \<le> of_int (m_jd x) * 86400000000000 + u \<and> of_int (m_jd x) * 86400000000000 + u < of_int cm_period * (86400000000000 :: rat)"
    if "0 \<le> m_jd x" "m_jd x < cm_period" "0 \<le> u \<and> u < 86400000000000" for x u
  proof -
    have "m_jd x \<le> cm_period - 1" using that(2) by linarith
    then have "(0 :: rat) \<le> of_int (m_jd x)" "(of_int (m_jd x) :: rat) \<le> of_int cm_period - 1" using that(1) by linarith+
    with that(3) show ?thesis by linarith
  qed
  note A = sub [OF assms(5)] and B = sub [OF assms(6)]
  note A' = day [OF assms(1,2) A] and B' = day [OF assms(3,4) B]
  have sf: "0 \<le> m_sf a" "m_sf a < 1000000000" "0 \<le> m_sf b" "m_sf b < 1000000000"
    using date_okD(6,7) assms(5,6) by blast+
  show ?thesis
    unfolding compare_digit [OF sf, of "m_df a" "m_df b"]
    unfolding compare_digit [OF conjunct1 [OF A] conjunct2 [OF A] conjunct1 [OF B] conjunct2 [OF B], of "m_jd a" "m_jd b"]
    unfolding compare_digit [OF conjunct1 [OF A'] conjunct2 [OF A'] conjunct1 [OF B'] conjunct2 [OF B'], of "dnth a" "dnth b"]
    unfolding moment_digits by (rule compare_scaled [symmetric]) simp
qed

lemma canonical_moment: "date_ok self \<Longrightarrow> moment (m_canonicalize_jd self) = moment self"
  using canonical(1,4,5) [of self] unfolding moment_def by simp

lemma simple_fields: "simple_dat_p self \<Longrightarrow> m_df self = 0 \<and> m_sf self = 0"
  by (simp add: simple_dat_p_def m_df_def m_sf_def)

lemma cmp_moment:
  assumes "date_ok a" "date_ok b"
  shows "cmp a b = (compare_keys (moment a) (moment b) 0, m_canonicalize_jd a, m_canonicalize_jd b)"
proof -
  note A = canonical [OF assms(1)] and B = canonical [OF assms(2)]
  note order = compare_moments [OF A(2,3) B(2,3) A(9) B(9), unfolded canonical_moment [OF assms(1)] canonical_moment [OF assms(2)]]
  have simple: "compare_keys (m_df a) (m_df b) (compare_keys (m_sf a) (m_sf b) 0) = 0" if "simple_dat_p a" "simple_dat_p b"
    using simple_fields that by (simp add: compare_keys_def)
  show ?thesis
    unfolding cmp_def cmp_dd_def Let_def using order simple by (auto simp: A B)
qed

text \<open> Comparing two dates orders them by the moments they stand for, whatever their periods, offsets and
  calendars, also when one was kept outside the range of its period; \<open>minus\<close> gives the exact difference of the
  moments, so adding the difference back leads to the other date's moment; and the tidying of the
  fields that comparing does changes no moment, no day and no reader's answer.\<close>

theorem comparison_is_by_moment:
  assumes "date_ok a" "date_ok b"
  shows "case cmp a b of (c, a', b') \<Rightarrow>
      (c = 0 \<longleftrightarrow> moment a = moment b) \<and> (c < 0 \<longleftrightarrow> moment a < moment b) \<and> (c > 0 \<longleftrightarrow> moment a > moment b) \<and>
      minus_dd a b = moment a - moment b \<and> moment (plus_rational b (minus_dd a b)) = moment a \<and>
      date_ok a' \<and> moment a' = moment a \<and> jd a' = jd a \<and> (year a', mon a', mday a') = (year a, mon a, mday a)"
proof -
  obtain n d where c: "canonicalize_jd (dnth a - dnth b) (m_jd a - m_jd b) = (n, d)"
    by (cases "canonicalize_jd (dnth a - dnth b) (m_jd a - m_jd b)") blast
  have "cm_period * n + d = m_real_jd a - m_real_jd b"
    using canonicalize_encode [OF c] unfolding m_real_jd_def encode_jd by (simp add: algebra_simps)
  then have nd: "of_int (n * cm_period) + of_int d = (of_int (m_real_jd a) - of_int (m_real_jd b) :: rat)"
    by (metis mult.commute of_int_add of_int_diff)
  have minus: "minus_dd a b = moment a - moment b"
    unfolding minus_dd_def Let_def c split_conv moment_def day_in_seconds_def second_in_nanoseconds_def
    using nd by (auto simp: field_simps split: if_splits)
  have "(year (m_canonicalize_jd a), mon (m_canonicalize_jd a), mday (m_canonicalize_jd a)) = (year a, mon a, mday a)"
    unfolding read_civil [OF canonical(9) [OF assms(1)]] read_civil [OF assms(1)] canonical(7,8) [OF assms(1)] by (rule refl)
  moreover have "moment (plus_rational b (minus_dd a b)) = moment a"
  proof (cases "minus_dd a b = of_int \<lfloor>minus_dd a b\<rfloor>")
    case True
    then have "plus_rational b (minus_dd a b) = plus_int b \<lfloor>minus_dd a b\<rfloor>" unfolding plus_rational_def by (rule if_P)
    then have "moment (plus_rational b (minus_dd a b)) = moment b + of_int \<lfloor>minus_dd a b\<rfloor>"
      using moved_moment [OF plus_int] by simp
    also have "\<dots> = moment b + minus_dd a b" using True by (rule arg_cong [OF sym])
    finally show ?thesis unfolding minus by simp
  next
    case False
    from plus_rational_moment(1) [OF assms(2) False] show ?thesis unfolding minus by simp
  qed
  ultimately show ?thesis
    using minus canonical(8,9) [OF assms(1)] canonical_moment [OF assms(1)]
    unfolding cmp_moment [OF assms] compare_keys_def by auto
qed

theorem comparison_is_by_moment_witness:
  "case cmp (seat 1 37 italy) (seat 0 213447754 italy) of (c, a', b') \<Rightarrow>
      (c = 0 \<longleftrightarrow> moment (seat 1 37 italy) = moment (seat 0 213447754 italy)) \<and>
      (c < 0 \<longleftrightarrow> moment (seat 1 37 italy) < moment (seat 0 213447754 italy)) \<and>
      (c > 0 \<longleftrightarrow> moment (seat 1 37 italy) > moment (seat 0 213447754 italy)) \<and>
      minus_dd (seat 1 37 italy) (seat 0 213447754 italy) = moment (seat 1 37 italy) - moment (seat 0 213447754 italy) \<and>
      moment (plus_rational (seat 0 213447754 italy) (minus_dd (seat 1 37 italy) (seat 0 213447754 italy))) = moment (seat 1 37 italy) \<and>
      date_ok a' \<and> moment a' = moment (seat 1 37 italy) \<and> jd a' = jd (seat 1 37 italy) \<and>
      (year a', mon a', mday a') = (year (seat 1 37 italy), mon (seat 1 37 italy), mday (seat 1 37 italy))"
proof (rule comparison_is_by_moment)
  show "date_ok (seat 1 37 italy)" by (rule seat_ok) code_simp+
  show "date_ok (seat 0 213447754 italy)" by (rule seat_ok) code_simp+
qed

text \<open>Two dates that compare as equal need not hash alike: the hash reads the fields as they are kept.\<close>

lemma equal_dates_hash_apart:
  "case date_new 579687 12 31 italy of
      None \<Rightarrow> False
    | Some a \<Rightarrow> fst (is_eql a (date_jd (jd a) italy)) \<and> date_hash a \<noteq> date_hash (date_jd (jd a) italy)"
  by code_simp

text \<open>A Temporal date in the days the reform skips becomes another date.\<close>

lemma plain_date_moves:
  "let d = date_of_plain 1582 10 10 italy in (year d, mon d, mday d) = (1582, 10, 20)"
  by code_simp

section \<open>Ranges of dates\<close>

lemma upto_steps:
  assumes "date_ok a" "date_ok b" "k = nat (\<lfloor>moment b - moment a\<rfloor> + 1)"
  shows "\<exists>ds. upto_enum a b = Some ds \<and> map moment ds = map (\<lambda>i. moment a + of_nat i) [0..<k] \<and> (\<forall>d\<in>set ds. date_ok d)"
  using assms
proof (induction k arbitrary: a b)
  case 0
  then have "moment b - moment a < 0" by simp linarith
  then have "\<not> compare_keys (moment a) (moment b) 0 \<le> 0" by (simp add: compare_keys_def)
  then have "upto_enum a b = Some []" by (subst upto_enum.simps) (simp add: cmp_moment [OF 0(1,2)])
  then show ?case by simp
next
  case (Suc k)
  let ?a = "m_canonicalize_jd a" and ?b = "m_canonicalize_jd b"
  note ok = canonical(9) [OF Suc.prems(1)] canonical(9) [OF Suc.prems(2)]
  note move = plus_int [of ?a 1]
  have next_ok: "date_ok (plus_int ?a 1)" by (rule moved_ok [OF move ok(1)])
  have next_moment: "moment (plus_int ?a 1) = moment a + 1"
    using moved_moment [OF move] canonical_moment [OF Suc.prems(1)] by simp
  have "0 \<le> \<lfloor>moment b - moment a\<rfloor>" using Suc.prems(3) by linarith
  then have "moment a \<le> moment b" by linarith
  then have le: "compare_keys (moment a) (moment b) 0 \<le> 0" by (simp add: compare_keys_def)
  have "moment b - (moment a + 1) = (moment b - moment a) - 1" by simp
  then have "\<lfloor>moment b - (moment a + 1)\<rfloor> = \<lfloor>moment b - moment a\<rfloor> - 1" by (simp only: floor_diff_one)
  then have "k = nat (\<lfloor>moment ?b - moment (plus_int ?a 1)\<rfloor> + 1)"
    unfolding next_moment canonical_moment [OF Suc.prems(2)] using Suc.prems(3) by linarith
  from Suc.IH [OF next_ok ok(2) this] obtain ds where ds: "upto_enum (plus_int ?a 1) ?b = Some ds"
    "map moment ds = map (\<lambda>i. moment (plus_int ?a 1) + of_nat i) [0..<k]" "\<forall>d\<in>set ds. date_ok d" by blast
  have "upto_enum a b = Some (?a # ds)"
    using le by (subst upto_enum.simps) (simp add: cmp_moment [OF Suc.prems(1,2)] ds(1))
  moreover have "map moment (?a # ds) = map (\<lambda>i. moment a + of_nat i) [0..<Suc k]"
    unfolding map_upt_Suc by (simp add: ds(2) next_moment canonical_moment [OF Suc.prems(1)] algebra_simps)
  ultimately show ?case using ds(3) ok(1) by auto
qed

text \<open> C39. Counting up from a date to a limit always ends, and yields exactly the days between them, one day
  apart and none past the limit, however far apart the two are.\<close>

theorem upto_counts_the_days:
  assumes "date_ok a" "date_ok b"
  shows "\<exists>ds. upto_enum a b = Some ds \<and>
    map moment ds = map (\<lambda>i. moment a + of_nat i) [0..<nat (\<lfloor>moment b - moment a\<rfloor> + 1)] \<and> (\<forall>d\<in>set ds. date_ok d)"
  by (rule upto_steps [OF assms refl])

theorem upto_counts_the_days_witness:
  "\<exists>ds. upto_enum (seat 0 2299155 italy) (seat 0 2299170 italy) = Some ds \<and>
    map moment ds = map (\<lambda>i. moment (seat 0 2299155 italy) + of_nat i)
      [0..<nat (\<lfloor>moment (seat 0 2299170 italy) - moment (seat 0 2299155 italy)\<rfloor> + 1)] \<and> (\<forall>d\<in>set ds. date_ok d)"
proof (rule upto_counts_the_days)
  show "date_ok (seat 0 2299155 italy)" by (rule seat_ok) code_simp+
  show "date_ok (seat 0 2299170 italy)" by (rule seat_ok) code_simp+
qed

end
