(* ===== verification/Spec2Isabelle.thy ===== *)
theory Spec2Isabelle
  imports Txn_Passes Rack_Headers Journey_Generate Attr_Example Attr_Text Rack_Written Rack_Safe Callbacks_Run Spell_Checker Date_Double Date_Months
begin

text \<open>
  This development models the core logic of a port of Ruby on Rails to TypeScript and proves it
  correct. Names of files below are relative to \<^verbatim>\<open>src/packages/\<close>.

  \<^bold>\<open>How the program is put together.\<close> The repository is a set of packages that mirror the gems of
  Rails. \<^verbatim>\<open>ruby-compat\<close> and \<^verbatim>\<open>date\<close> carry the parts of Ruby's standard library the others need;
  \<^verbatim>\<open>activesupport\<close> the callback chains every framework class runs; \<^verbatim>\<open>rack\<close> the tables and texts of a
  request; \<^verbatim>\<open>actionpack\<close> routes a request to an application and writes URLs; \<^verbatim>\<open>activemodel\<close> holds the
  attributes of a record, their types and their changes; \<^verbatim>\<open>activerecord\<close> saves records inside
  transactions, telling each of them how its transaction ended; \<^verbatim>\<open>did-you-mean\<close> finds the words that
  an error message suggests. The theories follow these parts.

  \<^bold>\<open>How code is translated.\<close> A class is a \<open>record\<close> of its fields, a union a \<open>datatype\<close>, a method a
  function of the object. Methods that mutate and may throw are computations (theory Prelude): from a
  state to an outcome, an error or a value, together with the state left behind, so that what was
  changed before a \<open>throw\<close> stays changed. Objects that are shared and mutated (transactions, state
  objects, tree nodes) live in stores indexed by their identity. Functions of the application, a
  database or the host appear as parameters, with what the code relies on as named hypotheses.
  Strings are character lists of Latin-1 where the code compares or prints them and lists of code
  points where it encodes them. JavaScript's numbers are rounded explicitly where rounding matters:
  \<open>double\<close> of theory Doubles on reals, \<open>round53\<close> of theory Js_Number on integers.
\<close>

section \<open>Prelude and numbers\<close>

text \<open>
  Prelude has the computations and their control structures, the locale \<open>effect\<close>, which lifts a
  reflexive and transitive relation between states through every one of them, and splitting and
  joining of strings. Js_Number has \<open>NaN\<close>, the infinities, comparison and \<open>parseInt\<close>; Doubles has
  the rounding to 53 bits, its error, that it is monotonic and exact on integers below \<open>2 ^ 51\<close>.
  Exponents of doubles are not bounded in Doubles: the values there are far from overflow.
\<close>

section \<open>Transactions\<close>

text \<open>
  \<^verbatim>\<open>activerecord/src/connection-adapters/abstract/transaction.ts\<close>. Txn_State is
  \<open>TransactionState\<close> with its tree of children; Txn the transaction classes over a connection whose
  answers are a parameter; Txn_Records the enrolled records and callbacks; Txn_Manager the stack of
  open transactions and \<open>withinNewTransaction\<close>. The state is \<open>sys\<close>: the stores of state objects
  and transactions, the stack, the connection and a log of what records and callbacks were told.

  Txn_Effects proves what the operations cannot do, once for every relation that the primitive steps
  keep: the locales \<open>calm\<close> and \<open>quiet\<close> extend \<open>effect\<close> by the laws of these steps, and Txn_Stack,
  Txn_Outcome and Txn_Passes interpret them for the relations at hand: the stack is left as found, a
  committed state stays committed, the log only grows. From these follow that a block leaves the
  stack as it was on every path, ends completed or with the connection thrown away, returns only what
  was committed; that a full rollback marks exactly the descendants; that every enrolled record is
  told once and in order; and that a nested transaction hands its records to its parent.
\<close>

section \<open>Hashes and headers\<close>

text \<open>
  Ruby_Hash is \<^verbatim>\<open>ruby-compat/src/hash.ts\<close>: JavaScript's \<open>Map\<close> as a list of entries, plain objects
  with their own entries, their prototype and the order of array indices, and the class \<open>Hash\<close> with
  its default and its frozen flag. Rack_Headers is \<^verbatim>\<open>rack/src/headers.ts\<close>, which stores names in lower
  case. The locales \<open>key_value\<close> and \<open>ordered_key_value\<close> state what a lookup answers after an
  assignment and a deletion and what becomes of the order of keys; they are interpreted on maps, plain
  objects and headers.
\<close>

section \<open>Query strings and other texts of a request\<close>

text \<open>
  Rack_Query is \<^verbatim>\<open>rack/src/query-parser.ts\<close> with the functions of \<^verbatim>\<open>rack/src/utils.ts\<close> that write query
  strings. A table of parameters carries its entries and the hidden property that tells it from other
  objects. Rack_Nested shows that escaped text is read back and that no query string is read into
  tables nested deeper than the limit; Rack_Written that the query string written for nested
  parameters is read back as them, where \<open>well\<close> says which values have a query string of their own.
  The recursion of the parser ends because the depth grows up to the limit.

  Rack_Utils is the rest of \<^verbatim>\<open>rack/src/utils.ts\<close> that computes: byte ranges, cleaned paths, the
  choice of an encoding, escaping for HTML, comparison in constant time, cookies, status codes.
  Rack_Safe shows that ranges lie in the file, cleaned paths do not climb, the encoding chosen is
  the best one accepted, HTML has no markup left and loses nothing, and comparison is equality.
\<close>

section \<open>Routing\<close>

text \<open>
  \<^verbatim>\<open>actionpack/src/action-dispatch/journey/\<close>. Journey_Syntax has the nodes, the scanner and the parser
  of route patterns and their printing. The parser's recursion carries fuel, four units per character
  and six more, which is shown to suffice: each token is reached through at most four calls. A
  pattern that is accepted stays accepted, with the same tree, when an unmatched right parenthesis and
  any text are put behind it.
  Journey_Gtg has the builder of the matching automaton, its table and the simulator. A pattern
  stands for finitely many sequences of terminals, its \<open>expansions\<close> (Journey_Glushkov); the
  worklist of the builder ends, as the sets of positions are finite, and leaves the subset
  construction (Journey_Table), so the simulator finds exactly the patterns an expansion of which reads
  the path (Journey_Match), for every pattern the parser builds (Journey_Proper).

  Journey_Routes has the routes and the route set with its partition and caches, Journey_Serve the
  router: which routes a request finds and how it is passed from one to the next. Journey_Found shows
  that a request finds exactly the routes that accept it, in order of precedence, and is served by the
  first that takes it as if the others had not been asked. What a pattern's regular expression matches
  is a parameter of the router.

  Journey_Uri has the escaping, unescaping and normalizing of paths with the UTF-8 coder.
  Journey_Format has the formats of \<^verbatim>\<open>visitors.ts\<close>; a path written by a format finds its route again.
  Journey_Generate has \<^verbatim>\<open>formatter.ts\<close>: the trie of required defaults, the scores of routes and the
  generation of a path; it shows which routes are tried and in which order, and that a generated path
  is whole.
\<close>

section \<open>Attributes\<close>

text \<open>
  \<^verbatim>\<open>activemodel/src/\<close>. Attr_Type has the values and the base of types; the locale \<open>lawful_type\<close>
  states what dirty tracking relies on and \<open>mutable_type\<close> extends it by noticing changes made in
  place. Attr has the attribute classes and Attr_Changes what they promise about changes, proved in
  these locales: values have no identity in the model, so an edit in place names the places that held
  the object, and every edit but one of the raw original leaves the original as it was. Attr_Integer has
  the integer types, with every conversion between numbers and big
  integers, and Attr_Text the string and boolean types, on which the locales are interpreted.
  Attr_Set has the eager and the lazy attribute set; Attr_Store shows that a lazy set answers every
  sequence of reads and writes as the eager set it stands for, through the locale
  \<open>attribute_table\<close>, when no column is called like a property every object inherits. Attr_Dirty has the mutation trackers and \<open>dirty.ts\<close>, Attr_Tracking what
  they promise, Attr_Example one record at work.
\<close>

section \<open>Callbacks\<close>

text \<open>
  Callbacks is \<^verbatim>\<open>activesupport/src/callbacks.ts\<close>: chains and their caches, the sequences a chain
  compiles to and their synchronous runs. Callbacks_Run gives callbacks their meaning as an onion, the
  last one added being the outermost or the innermost as it asks, and shows that what a chain compiles
  to, cached or not, runs as that onion, also when it is halted.
\<close>

section \<open>Spell checking\<close>

text \<open>
  Spell_Distance has \<^verbatim>\<open>did-you-mean/src/levenshtein.ts\<close>, which keeps one row of the table of distances,
  and shows that it computes the least number of edits. Spell_Checker has \<^verbatim>\<open>jaro-winkler.ts\<close> and
  \<^verbatim>\<open>spell-checker.ts\<close>, in the arithmetic of doubles: similarities stay between 0 and 1 and the words
  suggested are the similar and close ones.
\<close>

section \<open>Dates\<close>

text \<open>
  \<^verbatim>\<open>date/src/date.ts\<close>. Date_Calendar has the formulas between day numbers and civil, ordinal,
  commercial, week-number and n-th weekday dates, over integers; Date_Civil, Date_Reform and Date_Forms show
  that they are inverse to each other, also around the day the Gregorian calendar starts; Date_Double
  that computing them in doubles gives the same for days up to \<open>2 ^ 40\<close>. Date_Periods keeps a day as
  a period and a day within it; the locale \<open>repeating\<close> states that a calendar repeats after a period
  and is interpreted on both. Date_Object has the class \<open>Date\<close>, Date_Readers what it reads as,
  Date_Moves how its operations move the moment it stands for, Date_Months months and counting.
\<close>

section \<open>Not modelled\<close>

text \<open>
  \<^item> Promises: callbacks, transactions and middleware that wait. An operation is atomic here, as it is
    in the program up to its first \<open>await\<close>; the monitor of the transaction manager serializes them.
  \<^item> Regular expressions compiled from patterns (\<^verbatim>\<open>journey/path/pattern.ts\<close>), the parsers and printers of
    dates and of the headers \<open>Accept\<close> and \<open>Forwarded\<close>, which are driven by regular expressions.
  \<^item> SQL: the visitors of \<^verbatim>\<open>arel\<close> print text for a database that is not in the repository, and the
    adapters, relations and associations of \<^verbatim>\<open>activerecord\<close> depend on its answers.
  \<^item> Views, controllers, middleware, sessions and the application shell: glue over
    streams, files, processes, cookies and options of application code.
  \<^item> The wrappers of third-party packages (DOM parsers, the TypeScript compiler) and of the host (files,
    clocks, cryptography, \<open>Intl\<close>), the scripts that compare the port with Rails, tests and documentation.
  \<^item> Error messages, except the class of an error and what a message is computed from.
\<close>

end
